(* ===== verification/Prelude.thy ===== *)
theory Prelude
  imports Main "HOL-Library.Word" "HOL-Library.Monad_Syntax" "HOL-Library.Code_Target_Nat"
begin

text \<open>
  What every component shares: machine integers, the reading of C's failures, byte
  memory, and the generic lemmas on lists and functions the component proofs use.

  \<^bold>\<open>Failure.\<close> \<open>assert\<close> and \<open>panic\<close> of the kernel print a message and spin for ever
  (\<open>src/src/kernel/assert.c\<close>: \<open>spin\<close> is \<open>while (true);\<close>). A C function whose call may
  end there, or whose loop may not end, or which may leave the object it indexes, returns an
  \<open>option\<close> here: \<open>None\<close> is "control does not come back", and \<open>Some r\<close> is a return with the
  value \<open>r\<close>. Errors the code returns (\<open>EOF\<close>, \<open>-EPERM\<close>) are values of \<open>r\<close>. The \<open>do\<close> notation
  is \<open>Option.bind\<close>.

  \<^bold>\<open>Integers.\<close> Where the code computes with bits or relies on the wrap-around, a value of
  \<open>w\<close> bits is a \<open>w word\<close>. Counters and indexes are \<open>nat\<close> or \<open>int\<close>, and the places where the
  C type can overflow are written out with \<open>w32\<close> (\<open>u32\<close>) and \<open>s32\<close> (\<open>int\<close>).

  \<^bold>\<open>Pointers.\<close> An address is a \<open>nat\<close>, \<open>0\<close> is the null pointer, and byte memory is a total
  function from addresses to bytes.
\<close>

unbundle bit_operations_syntax

section \<open>Machine integers\<close>

type_synonym u8 = "8 word"
type_synonym u16 = "16 word"
type_synonym u32 = "32 word"

text \<open>A \<open>u32\<close> kept as a \<open>nat\<close>: the value modulo \<open>2 ^ 32\<close>.\<close>

definition w32 :: "nat \<Rightarrow> nat" where
  "w32 n = n mod 4294967296"

definition w16 :: "nat \<Rightarrow> nat" where
  "w16 n = n mod 65536"

text \<open>An \<open>int\<close> (32 bits, two's complement): the representative of \<open>i\<close> in \<open>[-2^31, 2^31)\<close>.\<close>

definition s32 :: "int \<Rightarrow> int" where
  "s32 i = (i + 2147483648) mod 4294967296 - 2147483648"

definition s32_ok :: "int \<Rightarrow> bool" where
  "s32_ok i \<longleftrightarrow> - 2147483648 \<le> i \<and> i < 2147483648"

text \<open>A \<open>u32\<close> difference: \<open>a - b\<close> wraps around below zero.\<close>

definition w32_sub :: "nat \<Rightarrow> nat \<Rightarrow> nat" where
  "w32_sub a b = nat ((int a - int b) mod 4294967296)"

text \<open>C's division of \<open>int\<close>s truncates towards zero.\<close>

definition cdiv :: "int \<Rightarrow> int \<Rightarrow> int" where
  "cdiv a b = sgn a * sgn b * (\<bar>a\<bar> div \<bar>b\<bar>)"

definition cmod :: "int \<Rightarrow> int \<Rightarrow> int" where
  "cmod a b = a - b * cdiv a b"

named_theorems mach "evaluation of machine integers inside their range"

lemma w32_small [simp, mach]: "n < 4294967296 \<Longrightarrow> w32 n = n"
  by (simp add: w32_def)

lemma w32_less [simp]: "w32 n < 4294967296"
  by (simp add: w32_def)

lemma w32_w32 [simp]: "w32 (w32 n) = w32 n"
  by simp

lemma s32_small [simp, mach]: "- 2147483648 \<le> i \<Longrightarrow> i < 2147483648 \<Longrightarrow> s32 i = i"
  by (simp add: s32_def)

lemma s32_ok_s32 [simp]: "s32_ok (s32 i)"
  using pos_mod_bound [of 4294967296 "i + 2147483648"]
    pos_mod_sign [of 4294967296 "i + 2147483648"]
  by (simp add: s32_ok_def s32_def)

lemma w32_sub_le [simp, mach]: "b \<le> a \<Longrightarrow> a < 4294967296 \<Longrightarrow> w32_sub a b = a - b"
  by (simp add: w32_sub_def mod_pos_pos_trivial nat_diff_distrib)

lemma cdiv_pos [simp, mach]: "0 \<le> a \<Longrightarrow> 0 < b \<Longrightarrow> cdiv a b = a div b"
  by (cases "a = 0") (simp_all add: cdiv_def)

lemma cmod_pos [simp, mach]: "0 \<le> a \<Longrightarrow> 0 < b \<Longrightarrow> cmod a b = a mod b"
  by (simp add: cmod_def minus_mult_div_eq_mod)

section \<open>Lists and remainders\<close>

lemma drop_app: "k \<le> length xs \<Longrightarrow> drop k (xs @ ys) = drop k xs @ ys"
  by simp

lemma in_set_tlD: "x \<in> set (tl xs) \<Longrightarrow> x \<in> set xs"
  by (cases xs) auto

lemma mod_once: "a < 2 * L \<Longrightarrow> a mod L = (if a < L then a else a - L)" for a L :: nat
  by (simp add: le_mod_geq)

section \<open>Failure\<close>

text \<open>\<open>assert(b)\<close>: an assertion that fails does not return.\<close>

definition cassert :: "bool \<Rightarrow> unit option" where
  "cassert b = (if b then Some () else None)"

lemma cassert_simps [simp]: "cassert True = Some ()" "cassert False = None"
  by (simp_all add: cassert_def)

lemma cassert_bind [simp]: "(cassert b \<bind> f) = Some x \<longleftrightarrow> b \<and> f () = Some x"
  by (simp add: cassert_def)

lemma cassert_bind_None: "(cassert b \<bind> f) = None \<longleftrightarrow> \<not> b \<or> f () = None"
  by (simp add: cassert_def)

text \<open>An access inside an array object; outside of it C gives no meaning.\<close>

definition aget :: "'a list \<Rightarrow> nat \<Rightarrow> 'a option" where
  "aget xs i = (if i < length xs then Some (xs ! i) else None)"

definition aset :: "'a list \<Rightarrow> nat \<Rightarrow> 'a \<Rightarrow> 'a list option" where
  "aset xs i v = (if i < length xs then Some (xs[i := v]) else None)"

lemma aget_in [simp]: "i < length xs \<Longrightarrow> aget xs i = Some (xs ! i)"
  by (simp add: aget_def)

lemma aset_in [simp]: "i < length xs \<Longrightarrow> aset xs i v = Some (xs[i := v])"
  by (simp add: aset_def)

lemma aget_Some: "aget xs i = Some v \<longleftrightarrow> i < length xs \<and> v = xs ! i"
  by (auto simp: aget_def)

lemma aset_Some: "aset xs i v = Some ys \<longleftrightarrow> i < length xs \<and> ys = xs[i := v]"
  by (auto simp: aset_def)

section \<open>Byte memory\<close>

text \<open>An updated function keeps its name when it is met under a binder.\<close>

lemma fun_upd_fold [simp]: "(\<lambda>a. if a = x then v else f a) = f(x := v)"
  by (simp add: fun_upd_def)

type_synonym addr = nat
type_synonym mem = "nat \<Rightarrow> u8"

abbreviation (input) NULL :: addr where "NULL \<equiv> 0"

abbreviation (input) EOS :: u8 where "EOS \<equiv> 0"

text \<open>A byte literal of the source.\<close>

definition chr8 :: "char \<Rightarrow> u8" where
  "chr8 c = of_char c"

section \<open>Loops over a range\<close>

text \<open>\<open>for (i = a; i < b; i++)\<close> over the list \<open>[a..<b]\<close>; the body may not return.\<close>

fun for_each :: "(nat \<Rightarrow> 's \<Rightarrow> 's option) \<Rightarrow> nat list \<Rightarrow> 's \<Rightarrow> 's option" where
  "for_each f [] s = Some s"
| "for_each f (i # is) s = do { s' \<leftarrow> f i s; for_each f is s' }"

lemma for_each_append: "for_each f (is @ js) s = for_each f is s \<bind> for_each f js"
  by (induction "is" arbitrary: s) (auto split: Option.bind_splits)

text \<open>What every round keeps, the loop keeps; and a loop whose rounds all return, returns.\<close>

lemma for_each_inv:
  assumes "for_each f is s = Some s'" and "P s"
    and "\<And>i s s'. i \<in> set is \<Longrightarrow> P s \<Longrightarrow> f i s = Some s' \<Longrightarrow> P s'"
  shows "P s'"
  using assms
proof (induction "is" arbitrary: s)
  case (Cons i "is")
  then obtain s1 where s1: "f i s = Some s1" "for_each f is s1 = Some s'"
    by (auto split: Option.bind_splits)
  have "P s1" by (rule Cons.prems(3) [OF _ Cons.prems(2) s1(1)]) simp
  show ?case
    by (rule Cons.IH [OF s1(2) \<open>P s1\<close>]) (use Cons.prems(3) in \<open>meson list.set_intros(2)\<close>)
qed simp

lemma for_each_total:
  assumes "P s" and "\<And>i s. i \<in> set is \<Longrightarrow> P s \<Longrightarrow> \<exists>s'. f i s = Some s' \<and> P s'"
  shows "\<exists>s'. for_each f is s = Some s' \<and> P s'"
  using assms
proof (induction "is" arbitrary: s)
  case (Cons i "is")
  from Cons.prems(2) [OF _ Cons.prems(1), of i] obtain s1 where s1: "f i s = Some s1" "P s1" by auto
  have "\<exists>s'. for_each f is s1 = Some s' \<and> P s'"
    by (rule Cons.IH) (use s1 Cons.prems(2) in auto)
  with s1 show ?case by simp
qed simp

text \<open>The invariant of a loop may speak of what is still to do.\<close>

lemma for_each_rule:
  assumes "P a s" and "a \<le> b"
    and "\<And>i s. a \<le> i \<Longrightarrow> i < b \<Longrightarrow> P i s \<Longrightarrow> \<exists>s'. f i s = Some s' \<and> P (Suc i) s'"
  shows "\<exists>s'. for_each f [a..<b] s = Some s' \<and> P b s'"
  using assms(2,1,3)
proof (induction "b - a" arbitrary: a s)
  case 0
  then show ?case by simp
next
  case (Suc k)
  then have ab: "a < b" by simp
  obtain s1 where s1: "f a s = Some s1" "P (Suc a) s1" using Suc.prems(2,3) ab by blast
  have "\<exists>s'. for_each f [Suc a..<b] s1 = Some s' \<and> P b s'"
    by (rule Suc.hyps(1)) (use Suc.hyps(2) Suc.prems(3) s1 ab in auto)
  with s1 ab show ?case by (simp add: upt_conv_Cons)
qed

section \<open>Little-endian loads\<close>

definition load16 :: "mem \<Rightarrow> addr \<Rightarrow> nat" where
  "load16 m a = unat (m a) + 256 * unat (m (a + 1))"

definition load32 :: "mem \<Rightarrow> addr \<Rightarrow> nat" where
  "load32 m a = load16 m a + 65536 * load16 m (a + 2)"

definition load64 :: "mem \<Rightarrow> addr \<Rightarrow> nat" where
  "load64 m a = load32 m a + 4294967296 * load32 m (a + 4)"

end
