(* ===== verification/CString.thy ===== *)
theory CString
  imports Prelude
begin

text \<open>
  \<open>src/src/lib/string.c\<close>: the string and memory functions of the kernel's C library, over
  byte memory. Each loop of the source is a \<open>partial_function (option)\<close>: a string with no
  terminator makes it run for ever, which is \<open>None\<close>. \<open>cstr m p s\<close> is the abstraction: the
  bytes \<open>s\<close> and then a terminator lie at \<open>p\<close>. The lemmas give each function's result and
  effect from \<open>cstr\<close>, and what it leaves alone.
\<close>

section \<open>The functions\<close>

partial_function (option) strcpy_loop :: "mem \<Rightarrow> addr \<Rightarrow> addr \<Rightarrow> mem option" where
  "strcpy_loop m ptr src =
     (let m' = m(ptr := m src)
      in if m' src = EOS then Some m' else strcpy_loop m' (ptr + 1) (src + 1))"

definition strcpy :: "mem \<Rightarrow> addr \<Rightarrow> addr \<Rightarrow> (addr \<times> mem) option" where
  "strcpy m dest src = do { m' \<leftarrow> strcpy_loop m dest src; Some (dest, m') }"

fun strncpy_loop :: "nat \<Rightarrow> mem \<Rightarrow> addr \<Rightarrow> addr \<Rightarrow> bool \<times> mem" where
  "strncpy_loop 0 m ptr src = (False, m)"
| "strncpy_loop (Suc left) m ptr src =
     (let m' = m(ptr := m src)
      in if m' src = EOS then (True, m') else strncpy_loop left m' (ptr + 1) (src + 1))"

text \<open>\<open>dest[count - 1] = EOS\<close> with \<open>count = 0\<close> writes at \<open>dest - 1\<close> (the \<open>size_t\<close> index wraps and
  so does the 32-bit address): outside of the buffer, hence \<open>None\<close>.\<close>

definition strncpy :: "mem \<Rightarrow> addr \<Rightarrow> addr \<Rightarrow> nat \<Rightarrow> (addr \<times> mem) option" where
  "strncpy m dest src count =
     (case strncpy_loop count m dest src of
        (True, m') \<Rightarrow> Some (dest, m')
      | (False, m') \<Rightarrow> (if count = 0 then None else Some (dest, m'(dest + (count - 1) := EOS))))"

partial_function (option) strend :: "mem \<Rightarrow> addr \<Rightarrow> addr option" where
  "strend m ptr = (if m ptr \<noteq> EOS then strend m (ptr + 1) else Some ptr)"

definition strcat :: "mem \<Rightarrow> addr \<Rightarrow> addr \<Rightarrow> (addr \<times> mem) option" where
  "strcat m dest src = do {
     ptr \<leftarrow> strend m dest;
     m' \<leftarrow> strcpy_loop m ptr src;
     Some (dest, m') }"

definition strlen :: "mem \<Rightarrow> addr \<Rightarrow> nat option" where
  "strlen m str = do { ptr \<leftarrow> strend m str; Some (w32 (ptr - str)) }"

text \<open>\<open>char\<close> is signed on this target, and the order of two characters is that of \<open>sint\<close>.\<close>

definition char_cmp :: "u8 \<Rightarrow> u8 \<Rightarrow> int" where
  "char_cmp a b = (if sint a < sint b then - 1 else if sint a > sint b then 1 else 0)"

partial_function (option) strcmp :: "mem \<Rightarrow> addr \<Rightarrow> addr \<Rightarrow> int option" where
  "strcmp m lhs rhs =
     (if m lhs = m rhs \<and> m lhs \<noteq> EOS \<and> m rhs \<noteq> EOS then strcmp m (lhs + 1) (rhs + 1)
      else Some (char_cmp (m lhs) (m rhs)))"

partial_function (option) strchr :: "mem \<Rightarrow> addr \<Rightarrow> int \<Rightarrow> addr option" where
  "strchr m ptr ch =
     (if sint (m ptr) = ch then Some ptr
      else if m ptr = EOS then Some NULL
      else strchr m (ptr + 1) ch)"

partial_function (option) strrchr_loop :: "mem \<Rightarrow> addr \<Rightarrow> addr \<Rightarrow> int \<Rightarrow> addr option" where
  "strrchr_loop m lst ptr ch =
     (let lst' = (if sint (m ptr) = ch then ptr else lst)
      in if m ptr = EOS then Some lst' else strrchr_loop m lst' (ptr + 1) ch)"

definition strrchr :: "mem \<Rightarrow> addr \<Rightarrow> int \<Rightarrow> addr option" where
  "strrchr m str ch = strrchr_loop m NULL str ch"

fun memcmp :: "mem \<Rightarrow> addr \<Rightarrow> addr \<Rightarrow> nat \<Rightarrow> int" where
  "memcmp m lptr rptr 0 = 0"
| "memcmp m lptr rptr (Suc count) =
     (if m lptr = m rptr then memcmp m (lptr + 1) (rptr + 1) count
      else char_cmp (m lptr) (m rptr))"

fun memset_loop :: "nat \<Rightarrow> mem \<Rightarrow> addr \<Rightarrow> u8 \<Rightarrow> mem" where
  "memset_loop 0 m ptr ch = m"
| "memset_loop (Suc count) m ptr ch = memset_loop count (m(ptr := ch)) (ptr + 1) ch"

definition memset :: "mem \<Rightarrow> addr \<Rightarrow> int \<Rightarrow> nat \<Rightarrow> addr \<times> mem" where
  "memset m dest ch count = (dest, memset_loop count m dest (word_of_int ch))"

fun memcpy_loop :: "nat \<Rightarrow> mem \<Rightarrow> addr \<Rightarrow> addr \<Rightarrow> mem" where
  "memcpy_loop 0 m ptr src = m"
| "memcpy_loop (Suc count) m ptr src = memcpy_loop count (m(ptr := m src)) (ptr + 1) (src + 1)"

definition memcpy :: "mem \<Rightarrow> addr \<Rightarrow> addr \<Rightarrow> nat \<Rightarrow> addr \<times> mem" where
  "memcpy m dest src count = (dest, memcpy_loop count m dest src)"

text \<open>\<open>memchr\<close> has no \<open>return\<close> after its loop: when the byte is not there, its value is
  undefined, and the model gives \<open>None\<close>.\<close>

fun memchr :: "mem \<Rightarrow> addr \<Rightarrow> int \<Rightarrow> nat \<Rightarrow> addr option" where
  "memchr m ptr ch 0 = None"
| "memchr m ptr ch (Suc count) =
     (if sint (m ptr) = ch then Some ptr else memchr m (ptr + 1) ch count)"

definition IS_SEPARATOR :: "u8 \<Rightarrow> bool" where
  "IS_SEPARATOR c \<longleftrightarrow> c = 47 \<or> c = 92"

partial_function (option) strsep :: "mem \<Rightarrow> addr \<Rightarrow> addr option" where
  "strsep m ptr =
     (if IS_SEPARATOR (m ptr) then Some ptr
      else if m ptr = EOS then Some NULL
      else strsep m (ptr + 1))"

partial_function (option) strrsep_loop :: "mem \<Rightarrow> addr \<Rightarrow> addr \<Rightarrow> addr option" where
  "strrsep_loop m lst ptr =
     (let lst' = (if IS_SEPARATOR (m ptr) then ptr else lst)
      in if m ptr = EOS then Some lst' else strrsep_loop m lst' (ptr + 1))"

definition strrsep :: "mem \<Rightarrow> addr \<Rightarrow> addr option" where
  "strrsep m str = strrsep_loop m NULL str"

section \<open>Strings in memory\<close>

fun cstr :: "mem \<Rightarrow> addr \<Rightarrow> u8 list \<Rightarrow> bool" where
  "cstr m p [] \<longleftrightarrow> m p = EOS"
| "cstr m p (c # s) \<longleftrightarrow> m p = c \<and> c \<noteq> EOS \<and> cstr m (p + 1) s"

text \<open>The bytes at \<open>p\<close>, and the memory with bytes stored at \<open>p\<close>.\<close>

fun mread :: "mem \<Rightarrow> addr \<Rightarrow> nat \<Rightarrow> u8 list" where
  "mread m p 0 = []"
| "mread m p (Suc n) = m p # mread m (p + 1) n"

fun mwrite :: "mem \<Rightarrow> addr \<Rightarrow> u8 list \<Rightarrow> mem" where
  "mwrite m p [] = m"
| "mwrite m p (b # bs) = mwrite (m(p := b)) (p + 1) bs"

lemma length_mread [simp]: "length (mread m p n) = n"
  by (induction n arbitrary: p) auto

lemma mread_nth [simp]: "i < n \<Longrightarrow> mread m p n ! i = m (p + i)"
proof (induction n arbitrary: p i)
  case (Suc n)
  then show ?case by (cases i) auto
qed simp

lemma mwrite_before [simp]: "a < p \<Longrightarrow> mwrite m p bs a = m a"
  by (induction bs arbitrary: m p) auto

lemma mwrite_apply:
  "mwrite m p bs a = (if p \<le> a \<and> a < p + length bs then bs ! (a - p) else m a)"
proof (induction bs arbitrary: m p)
  case Nil
  show ?case by auto
next
  case (Cons b bs)
  show ?case
  proof (cases "a = p")
    case False
    then have "p + 1 \<le> a \<longleftrightarrow> p \<le> a" by auto
    with False show ?thesis by (auto simp: Cons nth_Cons' Suc_diff_Suc)
  qed (simp add: Cons)
qed

lemma mwrite_append: "mwrite m p (xs @ ys) = mwrite (mwrite m p xs) (p + length xs) ys"
  by (rule ext) (auto simp: mwrite_apply nth_append)

lemma mread_cong:
  "(\<And>a. p \<le> a \<Longrightarrow> a < p + n \<Longrightarrow> m' a = m a) \<Longrightarrow> mread m' p n = mread m p n"
  by (rule nth_equalityI) auto

lemma cstr_cong:
  "(\<And>a. p \<le> a \<Longrightarrow> a \<le> p + length s \<Longrightarrow> m' a = m a) \<Longrightarrow> cstr m' p s = cstr m p s"
proof (induction s arbitrary: p)
  case (Cons c s)
  have "m' p = m p" by (rule Cons.prems) auto
  moreover have "cstr m' (p + 1) s = cstr m (p + 1) s"
    by (rule Cons.IH, rule Cons.prems) auto
  ultimately show ?case by simp
qed simp

lemma cstr_iff_mread:
  "cstr m p s \<longleftrightarrow> mread m p (length s + 1) = s @ [EOS] \<and> EOS \<notin> set s"
  by (induction s arbitrary: p) auto

lemma cstr_mwrite: "EOS \<notin> set s \<Longrightarrow> cstr (mwrite m p (s @ [EOS])) p s"
  unfolding cstr_iff_mread list_eq_iff_nth_eq by (auto simp: mwrite_apply simp del: mread.simps)

lemma cstr_unique: "cstr m p s \<Longrightarrow> cstr m p t \<Longrightarrow> s = t"
proof (induction s arbitrary: p t)
  case Nil
  then show ?case by (cases t) auto
next
  case (Cons c s)
  then show ?case by (cases t) auto
qed

section \<open>Copying\<close>

text \<open>A forward copy is right when the destination does not start inside the source after its
  first byte.\<close>

lemma strcpy_loop_cstr:
  assumes "cstr m src s" and "dest \<le> src \<or> src + length s < dest"
  shows "strcpy_loop m dest src = Some (mwrite m dest (s @ [EOS]))"
  using assms
proof (induction s arbitrary: m dest src)
  case Nil
  then show ?case by (simp add: strcpy_loop.simps [of m dest src] Let_def)
next
  case (Cons c s)
  have "cstr (m(dest := c)) (src + 1) s = cstr m (src + 1) s"
    by (rule cstr_cong) (use Cons.prems in auto)
  with Cons.prems have "cstr (m(dest := c)) (src + 1) s" by simp
  from Cons.IH [OF this, of "dest + 1"] Cons.prems
  have "strcpy_loop (m(dest := c)) (dest + 1) (src + 1)
      = Some (mwrite (m(dest := c)) (dest + 1) (s @ [EOS]))" by auto
  with Cons.prems show ?case by (simp add: strcpy_loop.simps [of m dest src] Let_def)
qed

lemma strcpy_cstr:
  "cstr m src s \<Longrightarrow> dest \<le> src \<or> src + length s < dest \<Longrightarrow>
   strcpy m dest src = Some (dest, mwrite m dest (s @ [EOS]))"
  by (simp add: strcpy_def strcpy_loop_cstr)

lemma strncpy_loop_cstr:
  assumes "cstr m src s" and "dest \<le> src \<or> src + length s < dest"
  shows "strncpy_loop count m dest src =
    (if length s < count then (True, mwrite m dest (s @ [EOS]))
     else (False, mwrite m dest (take count s)))"
  using assms
proof (induction count arbitrary: m dest src s)
  case 0
  then show ?case by simp
next
  case (Suc count)
  show ?case
  proof (cases s)
    case Nil
    with Suc.prems show ?thesis by (simp add: Let_def)
  next
    case (Cons c t)
    have "cstr (m(dest := c)) (src + 1) t = cstr m (src + 1) t"
      by (rule cstr_cong) (use Suc.prems Cons in auto)
    with Suc.prems Cons have "cstr (m(dest := c)) (src + 1) t" by simp
    from Suc.IH [OF this, of "dest + 1"] Suc.prems Cons show ?thesis
      by (auto simp: Let_def)
  qed
qed

lemma strncpy_cstr:
  assumes "cstr m src s" and "dest \<le> src \<or> src + length s < dest" and "0 < count"
  shows "strncpy m dest src count = Some (dest, mwrite m dest (take (count - 1) s @ [EOS]))"
proof (cases "length s < count")
  case True
  with assms have "take (count - 1) s = s" by simp
  with True assms show ?thesis by (simp add: strncpy_def strncpy_loop_cstr)
next
  case False
  then have "take count s = take (count - 1) s @ [s ! (count - 1)]"
    using \<open>0 < count\<close> take_Suc_conv_app_nth [of "count - 1" s] by simp
  then have "(mwrite m dest (take count s))(dest + (count - 1) := EOS)
      = mwrite m dest (take (count - 1) s @ [EOS])"
    using False by (simp add: mwrite_append)
  with False assms show ?thesis by (simp add: strncpy_def strncpy_loop_cstr)
qed

lemma strend_cstr: "cstr m p s \<Longrightarrow> strend m p = Some (p + length s)"
proof (induction s arbitrary: p)
  case Nil
  then show ?case by (simp add: strend.simps [of m p])
next
  case (Cons c s)
  then show ?case by (simp add: strend.simps [of m p])
qed

lemma strlen_cstr: "cstr m p s \<Longrightarrow> length s < 4294967296 \<Longrightarrow> strlen m p = Some (length s)"
  by (simp add: strlen_def strend_cstr)

lemma cstr_append:
  "cstr m p (s @ t) \<longleftrightarrow> mread m p (length s) = s \<and> EOS \<notin> set s \<and> cstr m (p + length s) t"
  by (induction s arbitrary: p) auto

lemma strcat_cstr:
  assumes "cstr m dest s" and "cstr m src t" and "dest + length s \<le> src \<or> src + length t < dest"
  shows "strcat m dest src = Some (dest, mwrite m (dest + length s) (t @ [EOS]))"
  using assms by (auto simp: strcat_def strend_cstr strcpy_loop_cstr)

lemma strcat_result:
  assumes "cstr m dest s" and "cstr m src t"
  shows "cstr (mwrite m (dest + length s) (t @ [EOS])) dest (s @ t)"
proof -
  let ?m' = "mwrite m (dest + length s) (t @ [EOS])"
  have "mread m dest (length s) = s" and "EOS \<notin> set s"
    using assms(1) cstr_append [of m dest s "[]"] by simp_all
  moreover have "mread ?m' dest (length s) = mread m dest (length s)"
    by (rule mread_cong) simp
  moreover have "EOS \<notin> set t"
    using assms(2) by (simp add: cstr_iff_mread)
  ultimately show ?thesis by (simp add: cstr_append cstr_mwrite)
qed

lemma memset_loop_eq: "memset_loop count m ptr ch = mwrite m ptr (replicate count ch)"
  by (induction count arbitrary: m ptr) auto

lemma memset_eq: "memset m dest ch count = (dest, mwrite m dest (replicate count (word_of_int ch)))"
  by (simp add: memset_def memset_loop_eq)

lemma memcpy_loop_eq:
  "ptr \<le> src \<or> src + count \<le> ptr \<Longrightarrow>
   memcpy_loop count m ptr src = mwrite m ptr (mread m src count)"
proof (induction count arbitrary: m ptr src)
  case (Suc count)
  have "mread (m(ptr := m src)) (src + 1) count = mread m (src + 1) count"
    by (rule mread_cong) (use Suc.prems in auto)
  with Suc.IH [of "ptr + 1" "src + 1" "m(ptr := m src)"] Suc.prems show ?case by auto
qed simp

lemma memcpy_eq:
  "dest \<le> src \<or> src + count \<le> dest \<Longrightarrow>
   memcpy m dest src count = (dest, mwrite m dest (mread m src count))"
  by (simp add: memcpy_def memcpy_loop_eq)

section \<open>Comparing\<close>

lemma char_cmp_0 [simp]: "char_cmp a b = 0 \<longleftrightarrow> a = b"
  by (auto simp: char_cmp_def signed_word_eqI)

lemma char_cmp_swap: "char_cmp b a = - char_cmp a b"
  by (simp add: char_cmp_def)

text \<open>The reference: lexicographic comparison of the strings, a missing character counting as
  the terminator.\<close>

fun str_cmp :: "u8 list \<Rightarrow> u8 list \<Rightarrow> int" where
  "str_cmp (a # s) (b # t) = (if a = b then str_cmp s t else char_cmp a b)"
| "str_cmp [] (b # t) = char_cmp EOS b"
| "str_cmp (a # s) [] = char_cmp a EOS"
| "str_cmp [] [] = 0"

lemma strcmp_cstr: "cstr m l s \<Longrightarrow> cstr m r t \<Longrightarrow> strcmp m l r = Some (str_cmp s t)"
proof (induction s t arbitrary: l r rule: str_cmp.induct)
  case (1 a s b t)
  then show ?case by (simp add: strcmp.simps [of m l r])
next
  case (2 b t)
  then show ?case by (simp add: strcmp.simps [of m l r])
next
  case (3 a s)
  then show ?case by (simp add: strcmp.simps [of m l r])
next
  case 4
  then show ?case by (simp add: strcmp.simps [of m l r])
qed

lemma str_cmp_0: "EOS \<notin> set s \<Longrightarrow> EOS \<notin> set t \<Longrightarrow> str_cmp s t = 0 \<longleftrightarrow> s = t"
  by (induction s t rule: str_cmp.induct) auto

lemma str_cmp_swap: "str_cmp t s = - str_cmp s t"
  by (induction s t rule: str_cmp.induct) (auto simp: char_cmp_def)

lemma memcmp_0: "memcmp m l r n = 0 \<longleftrightarrow> mread m l n = mread m r n"
  by (induction n arbitrary: l r) auto

section \<open>Searching\<close>

lemma strchr_cstr:
  assumes "cstr m p s"
  shows "strchr m p ch =
    (let t = s @ [EOS]; i = length (takeWhile (\<lambda>c. sint c \<noteq> ch) t)
     in Some (if i < length t then p + i else NULL))"
  using assms
proof (induction s arbitrary: p)
  case Nil
  then show ?case by (auto simp: strchr.simps [of m p] Let_def)
next
  case (Cons c s)
  then show ?case by (auto simp: strchr.simps [of m p] Let_def)
qed

lemma strsep_cstr:
  assumes "cstr m p s"
  shows "strsep m p =
    (let i = length (takeWhile (\<lambda>c. \<not> IS_SEPARATOR c) s)
     in Some (if i < length s then p + i else NULL))"
  using assms
proof (induction s arbitrary: p)
  case Nil
  then show ?case by (auto simp: strsep.simps [of m p] Let_def IS_SEPARATOR_def)
next
  case (Cons c s)
  then show ?case by (auto simp: strsep.simps [of m p] Let_def)
qed

text \<open>The address of the last byte with a property, for the two searches from the left that
  remember the last hit.\<close>

fun last_hit :: "(u8 \<Rightarrow> bool) \<Rightarrow> addr \<Rightarrow> addr \<Rightarrow> u8 list \<Rightarrow> addr" where
  "last_hit P lst p [] = lst"
| "last_hit P lst p (c # s) = last_hit P (if P c then p else lst) (p + 1) s"

lemma last_hit_none: "\<forall>c \<in> set s. \<not> P c \<Longrightarrow> last_hit P lst p s = lst"
  by (induction s arbitrary: p) auto

lemma last_hit_append: "last_hit P lst p (s @ t) = last_hit P (last_hit P lst p s) (p + length s) t"
  by (induction s arbitrary: lst p) auto

lemma last_hit_split:
  "P c \<Longrightarrow> \<forall>d \<in> set t. \<not> P d \<Longrightarrow> last_hit P lst p (s @ c # t) = p + length s"
  by (simp add: last_hit_append last_hit_none)

lemma strrchr_loop_cstr:
  "cstr m p s \<Longrightarrow> strrchr_loop m lst p ch = Some (last_hit (\<lambda>c. sint c = ch) lst p (s @ [EOS]))"
  by (induction s arbitrary: p lst) (simp_all add: strrchr_loop.simps [of m lst p ch for lst p] Let_def)

lemma strrchr_cstr:
  "cstr m p s \<Longrightarrow> strrchr m p ch = Some (last_hit (\<lambda>c. sint c = ch) NULL p (s @ [EOS]))"
  by (simp add: strrchr_def strrchr_loop_cstr)

lemma strrsep_loop_cstr:
  "cstr m p s \<Longrightarrow> strrsep_loop m lst p = Some (last_hit IS_SEPARATOR lst p s)"
  by (induction s arbitrary: p lst)
    (simp_all add: strrsep_loop.simps [of m lst p for lst p] Let_def IS_SEPARATOR_def)

lemma strrsep_cstr: "cstr m p s \<Longrightarrow> strrsep m p = Some (last_hit IS_SEPARATOR NULL p s)"
  by (simp add: strrsep_def strrsep_loop_cstr)

section \<open>Cells of 32 bits\<close>

definition store32 :: "mem \<Rightarrow> addr \<Rightarrow> nat \<Rightarrow> mem" where
  "store32 m a v = mwrite m a [of_nat v, of_nat (v div 256), of_nat (v div 65536), of_nat (v div 16777216)]"

lemma load32_cong: "(\<And>j. j < 4 \<Longrightarrow> m' (b + j) = m (a + j)) \<Longrightarrow> load32 m' b = load32 m a"
proof -
  assume e: "\<And>j. j < 4 \<Longrightarrow> m' (b + j) = m (a + j)"
  have "m' b = m a" "m' (b + 1) = m (a + 1)" "m' (b + 2) = m (a + 2)" "m' (b + 3) = m (a + 3)"
    using e [of 0] e [of 1] e [of 2] e [of 3] by simp_all
  then show ?thesis by (simp add: load32_def load16_def numeral_3_eq_3 numeral_2_eq_2)
qed

lemma store32_other: "a < c \<or> c + 4 \<le> a \<Longrightarrow> store32 m c v a = m a"
  by (auto simp: store32_def mwrite_apply)

lemma load32_store32: "v < 4294967296 \<Longrightarrow> load32 (store32 m c v) c = v"
proof -
  assume v: "v < 4294967296"
  have b: "unat (of_nat x :: u8) = x mod 256" for x by (simp add: unsigned_of_nat take_bit_eq_mod)
  have "v div 65536 = v div 256 div 256" "v div 16777216 = v div 256 div 256 div 256" by (simp_all flip: div_mult2_eq)
  moreover have "v div 16777216 mod 256 = v div 16777216" using v by (simp add: less_mult_imp_div_less)
  moreover have "v mod 256 + 256 * (v div 256 mod 256) + 65536 * (v div 256 div 256 mod 256 + 256 * (v div 256 div 256 div 256)) = v"
  proof -
    have sum: "x = 256 * b + r \<Longrightarrow> b = 256 * c + u \<Longrightarrow> c = 256 * e + t \<Longrightarrow> r + 256 * u + 65536 * (t + 256 * e) = x"
      for x b c e r u t :: nat by simp
    show ?thesis by (rule sum [of _ "v div 256" _ "v div 256 div 256"]) (simp_all only: mult_div_mod_eq)
  qed
  ultimately show ?thesis by (simp add: load32_def load16_def store32_def b)
qed

text \<open>A string literal of the source.\<close>

definition str8 :: "string \<Rightarrow> u8 list" where
  "str8 s = map chr8 s"

section \<open>Properties\<close>

text \<open>\<open>strcat\<close> returns, leaves the concatenation of the two strings at \<open>dest\<close> and writes
  nothing outside the end of the result.\<close>

theorem strcat_concatenates:
  assumes "cstr m dest s" and "cstr m src t" and "dest + length s + length t < src \<or> src + length t < dest"
  shows "\<exists>m'. strcat m dest src = Some (dest, m') \<and> cstr m' dest (s @ t) \<and> cstr m' src t \<and>
    (\<forall>a. a < dest + length s \<or> dest + length s + length t < a \<longrightarrow> m' a = m a)"
proof -
  let ?m' = "mwrite m (dest + length s) (t @ [EOS])"
  have "strcat m dest src = Some (dest, ?m')" using assms by (intro strcat_cstr) auto
  moreover have "cstr ?m' dest (s @ t)" using assms by (intro strcat_result)
  moreover have "cstr ?m' src t = cstr m src t"
    by (rule cstr_cong) (use assms in \<open>auto simp: mwrite_apply\<close>)
  ultimately show ?thesis using assms by (auto simp: mwrite_apply)
qed

lemma strcat_concatenates_witness:
  "\<exists>m'. strcat (mwrite (mwrite (\<lambda>_. 0) 100 [47, 0]) 200 [98, 105, 0]) 100 200 = Some (100, m') \<and>
    cstr m' 100 [47, 98, 105]"
  using strcat_concatenates [of "mwrite (mwrite (\<lambda>_. 0) 100 [47, 0]) 200 [98, 105, 0]" 100 "[47]"
    200 "[98, 105]"] by auto

text \<open>C37. \<open>strcmp\<close> returns on every two strings; the result is 0 exactly when they are equal,
  and exchanging the arguments negates it.\<close>

theorem strcmp_total_order:
  assumes "cstr m l s" and "cstr m r t"
  shows "\<exists>d. strcmp m l r = Some d \<and> strcmp m r l = Some (- d) \<and> (d = 0 \<longleftrightarrow> s = t) \<and>
    (\<forall>u a b s' t'. s = u @ a # s' \<longrightarrow> t = u @ b # t' \<longrightarrow> sint a < sint b \<longrightarrow> d = - 1)"
proof -
  have d: "str_cmp s t = - 1" if "s = u @ a # s'" "t = u @ b # t'" "sint a < sint b" for u a b s' t'
  proof -
    have "str_cmp (u @ a # s') (u @ b # t') = - 1"
      using that(3) by (induction u) (auto simp: char_cmp_def)
    with that show ?thesis by simp
  qed
  have "EOS \<notin> set s" "EOS \<notin> set t" using assms by (simp_all add: cstr_iff_mread)
  with assms d show ?thesis
    by (intro exI [of _ "str_cmp s t"])
      (simp add: strcmp_cstr str_cmp_0 str_cmp_swap [of t s])
qed

lemma strcmp_total_order_witness:
  "\<exists>d. strcmp (mwrite (mwrite (\<lambda>_. 0) 100 [97, 98, 0]) 200 [97, 0]) 100 200 = Some d \<and> d \<noteq> 0"
  using strcmp_total_order [of "mwrite (mwrite (\<lambda>_. 0) 100 [97, 98, 0]) 200 [97, 0]" 100
    "[97, 98]" 200 "[97]"] by auto

end
