(* ===== verification/Stdlib.thy ===== *)
theory Stdlib
  imports CString
begin

text \<open>
  \<open>src/src/lib/stdlib.c\<close> and the arithmetic macros of \<open>stdlib.h\<close>: BCD conversion, division
  rounding up, \<open>ALIGN\<close> and \<open>atoi\<close>. \<open>delay\<close> and \<open>hang\<close> are busy loops with no result.
\<close>

definition bcd_to_bin :: "u8 \<Rightarrow> u8" where
  "bcd_to_bin v = (v AND 0xf) + drop_bit 4 v * 10"

definition bin_to_bcd :: "u8 \<Rightarrow> u8" where
  "bin_to_bcd v = (v div 10) * 0x10 + v mod 10"

text \<open>\<open>(num + sz - 1) / sz\<close> on \<open>u32\<close>s; a division by zero traps.\<close>

definition div_round_up :: "nat \<Rightarrow> nat \<Rightarrow> nat option" where
  "div_round_up num sz =
     (if sz = 0 then None else Some (w32 (num + sz - 1) div sz))"

definition ALIGN :: "u32 \<Rightarrow> u32 \<Rightarrow> u32" where
  "ALIGN d a = (d + (a - 1)) AND NOT (a - 1)"

definition CMAX :: "nat \<Rightarrow> nat \<Rightarrow> nat" where
  "CMAX a b = (if a < b then b else a)"

definition CMIN :: "nat \<Rightarrow> nat \<Rightarrow> nat" where
  "CMIN a b = (if a < b then a else b)"

text \<open>\<open>result = result * 10 + (*str - '0')\<close>, on \<open>int\<close>; every character but the terminator counts
  as a digit.\<close>

partial_function (option) atoi_loop :: "mem \<Rightarrow> addr \<Rightarrow> int \<Rightarrow> int option" where
  "atoi_loop m str result =
     (if m str = EOS then Some result
      else atoi_loop m (str + 1) (s32 (result * 10 + (sint (m str) - 48))))"

definition atoi :: "mem \<Rightarrow> addr \<Rightarrow> int option" where
  "atoi m str =
     (if str = NULL then Some 0
      else if m str = 45
      then do { result \<leftarrow> atoi_loop m (str + 1) 0; Some (s32 (result * - 1)) }
      else do { result \<leftarrow> atoi_loop m str 0; Some (s32 (result * 1)) })"

section \<open>BCD\<close>

lemma u8_below: "(\<And>n. n < k \<Longrightarrow> P (of_nat n)) \<Longrightarrow> unat v < k \<Longrightarrow> P (v :: u8)"
  by (metis of_nat_unat ucast_id)

lemma bcd_table:
  "list_all (\<lambda>n. bcd_to_bin (bin_to_bcd (of_nat n)) = of_nat n) [0..<100]"
  by code_simp

lemma bcd_roundtrip: "unat v < 100 \<Longrightarrow> bcd_to_bin (bin_to_bcd v) = v"
  by (rule u8_below [where k = 100]) (use bcd_table in \<open>simp_all add: list_all_iff\<close>)

lemma bcd_to_bin_table:
  "list_all (\<lambda>n. n mod 16 < 10 \<longrightarrow> bin_to_bcd (bcd_to_bin (of_nat n)) = of_nat n
      \<and> unat (bcd_to_bin (of_nat n)) = n div 16 * 10 + n mod 16) [0..<160]"
  by code_simp

text \<open>Every packed decimal value (two digits below ten) is read as its number and written back.\<close>

lemma bcd_to_bin_value:
  assumes "unat v < 160" and "unat v mod 16 < 10"
  shows "bin_to_bcd (bcd_to_bin v) = v"
    and "unat (bcd_to_bin v) = unat v div 16 * 10 + unat v mod 16"
proof -
  have "unat v \<in> set [0..<160]" using assms(1) by simp
  with bcd_to_bin_table assms(2)
  have "bin_to_bcd (bcd_to_bin (of_nat (unat v))) = of_nat (unat v)
      \<and> unat (bcd_to_bin (of_nat (unat v))) = unat v div 16 * 10 + unat v mod 16"
    unfolding list_all_iff by blast
  then show "bin_to_bcd (bcd_to_bin v) = v"
    and "unat (bcd_to_bin v) = unat v div 16 * 10 + unat v mod 16" by simp_all
qed

section \<open>Division rounding up\<close>

lemma div_round_up_pos:
  assumes "0 < sz" and "num + sz \<le> 4294967296"
  shows "div_round_up num sz = Some ((num + sz - 1) div sz)"
  using assms by (simp add: div_round_up_def)

text \<open>The quotient is the least count of blocks of \<open>sz\<close> that hold \<open>num\<close>.\<close>

lemma div_up_least: "0 < (sz :: nat) \<Longrightarrow> num \<le> k * sz \<longleftrightarrow> (num + sz - 1) div sz \<le> k"
proof -
  assume sz: "0 < sz"
  have "num \<le> k * sz \<longleftrightarrow> num + sz - 1 < (k + 1) * sz"
    using sz by auto
  also have "\<dots> \<longleftrightarrow> (num + sz - 1) div sz < k + 1"
    using sz by (metis div_less_iff_less_mult)
  finally show ?thesis by auto
qed

section \<open>Strings of decimal digits\<close>

definition is_digit8 :: "u8 \<Rightarrow> bool" where
  "is_digit8 c \<longleftrightarrow> 48 \<le> unat c \<and> unat c \<le> 57"

fun dec_value :: "nat \<Rightarrow> u8 list \<Rightarrow> nat" where
  "dec_value acc [] = acc"
| "dec_value acc (c # s) = dec_value (acc * 10 + (unat c - 48)) s"

lemma dec_value_ge: "acc \<le> dec_value acc s"
proof (induction s arbitrary: acc)
  case (Cons c s)
  have "acc \<le> acc * 10 + (unat c - 48)" by simp
  also have "\<dots> \<le> dec_value (acc * 10 + (unat c - 48)) s" by (rule Cons.IH)
  finally show ?case by simp
qed simp

lemma sint_small_table: "list_all (\<lambda>n. sint (of_nat n :: u8) = int n) [0..<128]"
  by code_simp

lemma sint_small_u8: "unat (c :: u8) < 128 \<Longrightarrow> sint c = int (unat c)"
proof -
  assume "unat c < 128"
  then have "unat c \<in> set [0..<128]" by simp
  with sint_small_table have "sint (of_nat (unat c) :: u8) = int (unat c)"
    unfolding list_all_iff by blast
  then show ?thesis by simp
qed

lemma atoi_loop_digits:
  assumes "cstr m p s" and "\<forall>c \<in> set s. is_digit8 c" and "dec_value acc s < 2147483648"
  shows "atoi_loop m p (int acc) = Some (int (dec_value acc s))"
  using assms
proof (induction s arbitrary: p acc)
  case Nil
  then show ?case by (simp add: atoi_loop.simps [of m p])
next
  case (Cons c s)
  then have c: "48 \<le> unat c" "unat c \<le> 57" by (auto simp: is_digit8_def)
  define acc' where "acc' = acc * 10 + (unat c - 48)"
  have val: "dec_value acc (c # s) = dec_value acc' s" by (simp add: acc'_def)
  have "acc' < 2147483648" using Cons.prems(3) dec_value_ge [of acc' s] val by simp
  moreover have "int acc * 10 + (sint c - 48) = int acc'"
    using c by (simp add: sint_small_u8 of_nat_diff acc'_def)
  ultimately have "s32 (int acc * 10 + (sint c - 48)) = int acc'" by simp
  moreover have "atoi_loop m (p + 1) (int acc') = Some (int (dec_value acc' s))"
    using Cons.prems val by (intro Cons.IH) auto
  ultimately show ?case using Cons.prems val by (simp add: atoi_loop.simps [of m p])
qed

lemma atoi_digits:
  assumes "cstr m p s" and "p \<noteq> NULL" and "\<forall>c \<in> set s. is_digit8 c" and "dec_value 0 s < 2147483648"
  shows "atoi m p = Some (int (dec_value 0 s))"
proof -
  have "m p \<noteq> 45" using assms(1,3) by (cases s) (auto simp: is_digit8_def)
  with assms atoi_loop_digits [of m p s 0] show ?thesis by (simp add: atoi_def)
qed

lemma atoi_neg_digits:
  assumes "cstr m p (45 # s)" and "p \<noteq> NULL" and "\<forall>c \<in> set s. is_digit8 c"
    and "dec_value 0 s < 2147483648"
  shows "atoi m p = Some (- int (dec_value 0 s))"
  using assms atoi_loop_digits [of m "p + 1" s 0] by (simp add: atoi_def)

section \<open>Properties\<close>

text \<open>C38. \<open>atoi\<close> reads the decimal digits of a string, with or without a minus sign in front, to
  the number they denote, when that number fits in an \<open>int\<close>.\<close>

theorem atoi_decimal:
  assumes "cstr m p (if neg then 45 # s else s)" and "p \<noteq> NULL" and "list_all is_digit8 s"
    and "dec_value 0 s < 2147483648"
  shows "atoi m p = Some (if neg then - int (dec_value 0 s) else int (dec_value 0 s))"
  using assms atoi_digits [of m p s] atoi_neg_digits [of m p s] by (simp add: list_all_iff split: if_splits)

lemma atoi_decimal_witness: "atoi (mwrite (\<lambda>_. 0) 100 [45, 52, 50, 0]) 100 = Some (- 42)"
  using atoi_decimal [of "mwrite (\<lambda>_. 0) 100 [45, 52, 50, 0]" 100 True "[52, 50]"]
  by (simp add: is_digit8_def)

end
