(* ===== verification/Fifo.thy ===== *)
theory Fifo
  imports Prelude
begin

text \<open>
  \<open>src/src/lib/fifo.c\<close>: the ring buffer under the keyboard, the serial ports and the pipes. The
  interface its clients use is the locale \<open>bounded_queue\<close>; the ring buffer provides it
  (interpretation \<open>ring\<close>), with \<open>length - 1\<close> as its capacity.
\<close>

record fifo =
  fbuf :: "u8 list"
  flength :: nat
  fhead :: nat
  ftail :: nat

definition fifo_next :: "fifo \<Rightarrow> nat \<Rightarrow> nat option" where
  "fifo_next f pos = (if flength f = 0 then None else Some (w32 (pos + 1) mod flength f))"

definition fifo_init :: "u8 list \<Rightarrow> nat \<Rightarrow> fifo" where
  "fifo_init buf len = \<lparr>fbuf = buf, flength = len, fhead = 0, ftail = 0\<rparr>"

definition fifo_full :: "fifo \<Rightarrow> bool option" where
  "fifo_full f = do { n \<leftarrow> fifo_next f (fhead f); Some (n = ftail f) }"

definition fifo_empty :: "fifo \<Rightarrow> bool" where
  "fifo_empty f \<longleftrightarrow> fhead f = ftail f"

definition fifo_get :: "fifo \<Rightarrow> (u8 \<times> fifo) option" where
  "fifo_get f = do {
     cassert (\<not> fifo_empty f);
     byte \<leftarrow> aget (fbuf f) (ftail f);
     n \<leftarrow> fifo_next f (ftail f);
     Some (byte, f\<lparr>ftail := n\<rparr>) }"

text \<open>The loop of \<open>fifo_put\<close>: while the ring is full, the oldest byte is dropped.\<close>

partial_function (option) fifo_make_room :: "fifo \<Rightarrow> fifo option" where
  "fifo_make_room f = do {
     full \<leftarrow> fifo_full f;
     if full then do { (b, f') \<leftarrow> fifo_get f; fifo_make_room f' } else Some f }"

definition fifo_put :: "fifo \<Rightarrow> u8 \<Rightarrow> fifo option" where
  "fifo_put f byte = do {
     f1 \<leftarrow> fifo_make_room f;
     buf \<leftarrow> aset (fbuf f1) (fhead f1) byte;
     n \<leftarrow> fifo_next f1 (fhead f1);
     Some (f1\<lparr>fbuf := buf, fhead := n\<rparr>) }"

section \<open>The interface\<close>

fun put_all :: "('q \<Rightarrow> u8 \<Rightarrow> 'q option) \<Rightarrow> 'q \<Rightarrow> u8 list \<Rightarrow> 'q option" where
  "put_all put q [] = Some q"
| "put_all put q (b # bs) = do { q' \<leftarrow> put q b; put_all put q' bs }"

fun get_many :: "('q \<Rightarrow> (u8 \<times> 'q) option) \<Rightarrow> nat \<Rightarrow> 'q \<Rightarrow> (u8 list \<times> 'q) option" where
  "get_many get 0 q = Some ([], q)"
| "get_many get (Suc n) q = do {
     (b, q1) \<leftarrow> get q;
     (bs, q2) \<leftarrow> get_many get n q1;
     Some (b # bs, q2) }"

locale bounded_queue =
  fixes get :: "'q \<Rightarrow> (u8 \<times> 'q) option"
    and put :: "'q \<Rightarrow> u8 \<Rightarrow> 'q option"
    and content :: "'q \<Rightarrow> u8 list"
    and cap :: "'q \<Rightarrow> nat"
    and inv :: "'q \<Rightarrow> bool"
  assumes cap_pos: "inv q \<Longrightarrow> 0 < cap q"
    and content_cap: "inv q \<Longrightarrow> length (content q) \<le> cap q"
    and get_empty: "inv q \<Longrightarrow> content q = [] \<Longrightarrow> get q = None"
    and get_cons: "inv q \<Longrightarrow> content q = b # bs \<Longrightarrow>
      \<exists>q'. get q = Some (b, q') \<and> inv q' \<and> cap q' = cap q \<and> content q' = bs"
    and put_any: "inv q \<Longrightarrow>
      \<exists>q'. put q b = Some q' \<and> inv q' \<and> cap q' = cap q \<and>
        content q' = (if length (content q) < cap q then content q else tl (content q)) @ [b]"
begin

lemma put_content:
  assumes "inv q" and "put q b = Some q'"
  shows "inv q'" and "cap q' = cap q"
    and "content q' = (if length (content q) < cap q then content q else tl (content q)) @ [b]"
  using put_any [OF assms(1), of b] assms(2) by auto

lemma put_drop:
  assumes "inv q" and "put q b = Some q'"
  shows "content q' = drop (length (content q @ [b]) - cap q) (content q @ [b])"
  using content_cap [OF assms(1)] cap_pos [OF assms(1)] put_content(3) [OF assms]
  by (cases "content q") auto

text \<open>After any number of puts the queue holds the newest bytes, in order.\<close>

lemma put_all_content:
  assumes "inv q"
  shows "\<exists>q'. put_all put q bs = Some q' \<and> inv q' \<and> cap q' = cap q \<and>
    content q' = drop (length (content q) + length bs - cap q) (content q @ bs)"
  using assms
proof (induction bs arbitrary: q)
  case Nil
  then show ?case using content_cap [OF Nil] by simp
next
  case (Cons b bs)
  obtain q1 where q1: "put q b = Some q1" "inv q1" "cap q1 = cap q"
    using put_any [OF Cons.prems] by blast
  note c1 = put_drop [OF Cons.prems q1(1)]
  from Cons.IH [OF q1(2)] obtain q' where q': "put_all put q1 bs = Some q'" "inv q'"
    "cap q' = cap q1" "content q' = drop (length (content q1) + length bs - cap q1) (content q1 @ bs)"
    by blast
  let ?k = "length (content q @ [b]) - cap q"
  have "drop ?k ((content q @ [b]) @ bs) = content q1 @ bs"
    unfolding c1 by (rule drop_app) simp
  then have X: "content q1 @ bs = drop ?k (content q @ b # bs)" by simp
  have "length (content q1) = length (content q) + 1 - ?k"
    unfolding c1 by simp
  then have K: "length (content q1) + length bs - cap q1 + ?k
      = length (content q) + length (b # bs) - cap q"
    using cap_pos [OF Cons.prems] q1(3) by auto
  have "content q' = drop (length (content q) + length (b # bs) - cap q) (content q @ b # bs)"
    unfolding q'(4) X drop_drop K ..
  with q1 q' show ?case by auto
qed

lemma get_many_content:
  assumes "inv q" and "n \<le> length (content q)"
  shows "\<exists>q'. get_many get n q = Some (take n (content q), q') \<and> inv q' \<and> cap q' = cap q \<and>
    content q' = drop n (content q)"
  using assms
proof (induction n arbitrary: q)
  case (Suc n)
  then obtain b bs where c: "content q = b # bs" by (cases "content q") auto
  obtain q1 where q1: "get q = Some (b, q1)" "inv q1" "cap q1 = cap q" "content q1 = bs"
    using get_cons [OF Suc.prems(1) c] by blast
  from Suc.IH [OF q1(2)] Suc.prems(2) c q1 show ?case by auto
qed auto

text \<open>What is put is what is got, in the same order, as long as it fits.\<close>

lemma put_get_roundtrip:
  assumes "inv q" and "content q = []" and "length bs \<le> cap q" and "put_all put q bs = Some q'"
  shows "\<exists>q''. get_many get (length bs) q' = Some (bs, q'') \<and> content q'' = []"
proof -
  from put_all_content [OF assms(1), of bs] assms have "inv q'" "content q' = bs" by auto
  then show ?thesis using get_many_content [of q' "length bs"] by auto
qed

end

section \<open>The ring buffer provides it\<close>

definition fifo_inv :: "fifo \<Rightarrow> bool" where
  "fifo_inv f \<longleftrightarrow> 2 \<le> flength f \<and> flength f < 4294967296 \<and> length (fbuf f) = flength f
     \<and> fhead f < flength f \<and> ftail f < flength f"

definition fifo_count :: "fifo \<Rightarrow> nat" where
  "fifo_count f = (if ftail f \<le> fhead f then fhead f - ftail f else fhead f + flength f - ftail f)"

definition fifo_content :: "fifo \<Rightarrow> u8 list" where
  "fifo_content f = map (\<lambda>i. fbuf f ! ((ftail f + i) mod flength f)) [0..<fifo_count f]"

definition fifo_cap :: "fifo \<Rightarrow> nat" where
  "fifo_cap f = flength f - 1"

lemma fifo_inv_init: "2 \<le> length buf \<Longrightarrow> length buf < 4294967296 \<Longrightarrow>
    fifo_inv (fifo_init buf (length buf))"
  and fifo_content_init: "fifo_content (fifo_init buf n) = []"
  by (auto simp: fifo_inv_def fifo_init_def fifo_content_def fifo_count_def)

lemma length_fifo_content [simp]: "length (fifo_content f) = fifo_count f"
  by (simp add: fifo_content_def)

lemma fifo_count_less: "fifo_inv f \<Longrightarrow> fifo_count f < flength f"
  by (auto simp: fifo_inv_def fifo_count_def)

lemma fifo_next_inv:
  "fifo_inv f \<Longrightarrow> pos < flength f \<Longrightarrow>
   fifo_next f pos = Some (if pos + 1 = flength f then 0 else pos + 1)"
  by (auto simp: fifo_inv_def fifo_next_def)

lemma fifo_empty_count: "fifo_inv f \<Longrightarrow> fifo_empty f \<longleftrightarrow> fifo_count f = 0"
  by (auto simp: fifo_inv_def fifo_empty_def fifo_count_def)

lemma fifo_full_count: "fifo_inv f \<Longrightarrow> fifo_full f = Some (fifo_count f = fifo_cap f)"
  by (auto simp: fifo_full_def fifo_next_inv fifo_inv_def fifo_count_def fifo_cap_def)

lemma fifo_content_Cons:
  assumes "fifo_inv f" and "fifo_count f = Suc n"
  shows "fifo_content f = fbuf f ! ftail f #
    map (\<lambda>i. fbuf f ! ((ftail f + Suc i) mod flength f)) [0..<n]"
  using assms by (simp add: fifo_content_def map_upt_Suc fifo_inv_def del: upt_Suc)

lemma fifo_get_inv:
  assumes "fifo_inv f" and "\<not> fifo_empty f"
  obtains f' where "fifo_get f = Some (fbuf f ! ftail f, f')" "fifo_inv f'"
    "flength f' = flength f" "fifo_content f = fbuf f ! ftail f # fifo_content f'"
    "fifo_count f = Suc (fifo_count f')"
proof -
  define n where "n = (if ftail f + 1 = flength f then 0 else ftail f + 1)"
  let ?f = "f\<lparr>ftail := n\<rparr>"
  have get: "fifo_get f = Some (fbuf f ! ftail f, ?f)"
    using assms fifo_next_inv [OF assms(1), of "ftail f"]
    by (simp add: fifo_get_def fifo_inv_def n_def)
  have inv: "fifo_inv ?f" using assms by (auto simp: fifo_inv_def n_def)
  have count: "fifo_count f = Suc (fifo_count ?f)"
    using assms by (auto simp: fifo_inv_def fifo_count_def fifo_empty_def n_def)
  have "(n + i) mod flength f = (ftail f + Suc i) mod flength f" for i
  proof (cases "ftail f + 1 = flength f")
    case True
    then have "ftail f + Suc i = flength f + i" by simp
    then have "(ftail f + Suc i) mod flength f = i mod flength f"
      by (simp only: mod_add_self1)
    with True show ?thesis by (simp add: n_def)
  qed (simp add: n_def)
  then have "fifo_content f = fbuf f ! ftail f # fifo_content ?f"
    using fifo_content_Cons [OF assms(1) count] by (simp add: fifo_content_def)
  with get inv count show thesis by (intro that) auto
qed

lemma fifo_make_room_inv:
  assumes "fifo_inv f"
  obtains f' where "fifo_make_room f = Some f'" "fifo_inv f'" "flength f' = flength f"
    "fifo_count f' < fifo_cap f'"
    "fifo_content f' = (if fifo_count f < fifo_cap f then fifo_content f else tl (fifo_content f))"
proof (cases "fifo_count f = fifo_cap f")
  case False
  then have "fifo_count f < fifo_cap f"
    using fifo_count_less [OF assms] by (simp add: fifo_cap_def)
  moreover have "fifo_make_room f = Some f"
    using False assms by (simp add: fifo_make_room.simps [of f] fifo_full_count)
  ultimately show thesis using assms by (intro that) auto
next
  case True
  then have "\<not> fifo_empty f" using assms fifo_empty_count [OF assms]
    by (auto simp: fifo_cap_def fifo_inv_def)
  then obtain f' where f': "fifo_get f = Some (fbuf f ! ftail f, f')" "fifo_inv f'"
    "flength f' = flength f" "fifo_content f = fbuf f ! ftail f # fifo_content f'"
    "fifo_count f = Suc (fifo_count f')"
    using fifo_get_inv [OF assms] by blast
  then have less: "fifo_count f' < fifo_cap f'" using True by (simp add: fifo_cap_def)
  then have "fifo_make_room f' = Some f'"
    using f' by (simp add: fifo_make_room.simps [of f'] fifo_full_count)
  then have "fifo_make_room f = Some f'"
    using True assms f' by (simp add: fifo_make_room.simps [of f] fifo_full_count)
  with f' less True show thesis by (intro that) auto
qed

lemma fifo_store_inv:
  fixes b :: u8
  assumes "fifo_inv f" and "fifo_count f < fifo_cap f"
  defines "f' \<equiv> f\<lparr>fbuf := (fbuf f)[fhead f := b],
    fhead := (if fhead f + 1 = flength f then 0 else fhead f + 1)\<rparr>"
  shows "fifo_inv f'" and "fifo_content f' = fifo_content f @ [b]"
proof -
  show "fifo_inv f'" using assms by (auto simp: fifo_inv_def f'_def)
  have count: "fifo_count f' = Suc (fifo_count f)"
    using assms by (auto simp: fifo_inv_def fifo_count_def fifo_cap_def f'_def split: if_splits)
  have at: "(ftail f + fifo_count f) mod flength f = fhead f"
    using assms by (auto simp: fifo_inv_def fifo_count_def)
  have old: "(ftail f + i) mod flength f \<noteq> fhead f" if "i < fifo_count f" for i
    using that assms
    by (auto simp: fifo_inv_def fifo_count_def mod_once split: if_splits)
  have "fbuf f' ! ((ftail f + i) mod flength f) = fbuf f ! ((ftail f + i) mod flength f)"
    if "i < fifo_count f" for i
    using old [OF that] by (simp add: f'_def)
  moreover have "fbuf f' ! fhead f = b" using assms by (simp add: f'_def fifo_inv_def)
  ultimately show "fifo_content f' = fifo_content f @ [b]"
    by (simp add: fifo_content_def count) (simp add: f'_def at)
qed

lemma fifo_put_inv:
  assumes "fifo_inv f"
  obtains f' where "fifo_put f b = Some f'" "fifo_inv f'" "fifo_cap f' = fifo_cap f"
    "fifo_content f' =
      (if fifo_count f < fifo_cap f then fifo_content f else tl (fifo_content f)) @ [b]"
proof -
  obtain f1 where f1: "fifo_make_room f = Some f1" "fifo_inv f1" "flength f1 = flength f"
    "fifo_count f1 < fifo_cap f1"
    "fifo_content f1 = (if fifo_count f < fifo_cap f then fifo_content f else tl (fifo_content f))"
    using fifo_make_room_inv [OF assms] by blast
  let ?f = "f1\<lparr>fbuf := (fbuf f1)[fhead f1 := b],
    fhead := (if fhead f1 + 1 = flength f1 then 0 else fhead f1 + 1)\<rparr>"
  have "fifo_put f b = Some ?f"
    using f1 fifo_next_inv [OF f1(2), of "fhead f1"] by (simp add: fifo_put_def fifo_inv_def)
  with fifo_store_inv [OF f1(2,4), of b] f1 show thesis
    by (intro that) (auto simp: fifo_cap_def)
qed

interpretation ring: bounded_queue fifo_get fifo_put fifo_content fifo_cap fifo_inv
proof
  fix f b bs
  assume inv: "fifo_inv f"
  show "0 < fifo_cap f" using inv by (simp add: fifo_inv_def fifo_cap_def)
  show "length (fifo_content f) \<le> fifo_cap f"
    using fifo_count_less [OF inv] by (simp add: fifo_cap_def)
  show "fifo_get f = None" if "fifo_content f = []"
    using that fifo_empty_count [OF inv] length_fifo_content [of f]
    by (simp add: fifo_get_def del: length_fifo_content)
  show "\<exists>f'. fifo_get f = Some (b, f') \<and> fifo_inv f' \<and> fifo_cap f' = fifo_cap f \<and>
      fifo_content f' = bs" if "fifo_content f = b # bs"
  proof -
    have "\<not> fifo_empty f" using that fifo_empty_count [OF inv] length_fifo_content [of f] by auto
    then show ?thesis using that by (elim fifo_get_inv [OF inv]) (auto simp: fifo_cap_def)
  qed
  show "\<exists>f'. fifo_put f b = Some f' \<and> fifo_inv f' \<and> fifo_cap f' = fifo_cap f \<and>
      fifo_content f' = (if length (fifo_content f) < fifo_cap f then fifo_content f
        else tl (fifo_content f)) @ [b]"
    by (rule fifo_put_inv [OF inv, of b]) simp
qed

section \<open>Properties\<close>

text \<open>C15. Whatever the length of the input, putting its bytes one after the other into an empty
  ring never fails, and getting as many bytes as the ring holds gives back the newest bytes of the
  input in their order; when the input fits, that is all of it.\<close>

theorem fifo_keeps_newest:
  assumes "fifo_inv f" and "fifo_content f = []"
  shows "\<exists>f' f''. put_all fifo_put f bs = Some f' \<and>
    get_many fifo_get (min (length bs) (flength f - 1)) f' =
      Some (drop (length bs - (flength f - 1)) bs, f'') \<and>
    fifo_inv f'' \<and> fifo_content f'' = []"
proof -
  obtain f' where f': "put_all fifo_put f bs = Some f'" "fifo_inv f'"
    "fifo_content f' = drop (length bs - fifo_cap f) bs"
    using ring.put_all_content [OF assms(1), of bs] assms(2) by auto
  have "min (length bs) (fifo_cap f) = length (fifo_content f')"
    unfolding f'(3) by simp
  with ring.get_many_content [OF f'(2), of "min (length bs) (fifo_cap f)"] f' show ?thesis
    by (auto simp: fifo_cap_def simp del: length_fifo_content)
qed

lemma fifo_keeps_newest_witness:
  "\<exists>f' f''. put_all fifo_put (fifo_init [0, 0, 0, 0] 4) [1, 2, 3, 4, 5] = Some f' \<and>
    get_many fifo_get 3 f' = Some ([3, 4, 5], f'')"
  using fifo_keeps_newest [of "fifo_init [0, 0, 0, 0] 4" "[1, 2, 3, 4, 5]"]
  by (auto simp: fifo_inv_def fifo_init_def fifo_content_def fifo_count_def numeral_3_eq_3
      simp del: put_all.simps)

end
