(* ===== verification/Bitmap.thy ===== *)
theory Bitmap
  imports Prelude
begin

text \<open>
  \<open>src/src/lib/bitmap.c\<close>: the bit maps behind the kernel's page allocator, the processes'
  virtual memory and the i-node and zone maps of the file system. The abstraction of a map is the
  set of indexes whose bit is set (\<open>taken\<close>). The locale \<open>index_allocator\<close> is what the allocators
  rely on; the first-fit scan provides it (interpretation \<open>bm\<close>).
\<close>

record bitmap =
  bbits :: "u8 list"
  blength :: nat
  boffset :: nat

definition EOF :: int where "EOF = - 1"

definition bitmap_make :: "u8 list \<Rightarrow> nat \<Rightarrow> nat \<Rightarrow> bitmap" where
  "bitmap_make buf len off = \<lparr>bbits = buf, blength = len, boffset = off\<rparr>"

definition bitmap_init :: "u8 list \<Rightarrow> nat \<Rightarrow> nat \<Rightarrow> bitmap option" where
  "bitmap_init buf len start =
     (if len \<le> length buf then Some (bitmap_make (replicate len 0 @ drop len buf) len start)
      else None)"

definition bitmap_test :: "bitmap \<Rightarrow> nat \<Rightarrow> bool option" where
  "bitmap_test m index = do {
     cassert (boffset m \<le> index);
     let idx = index - boffset m;
     let bytes = idx div 8;
     let k = idx mod 8;
     cassert (bytes < blength m);
     b \<leftarrow> aget (bbits m) bytes;
     Some (b AND push_bit k 1 \<noteq> 0) }"

definition bitmap_set :: "bitmap \<Rightarrow> nat \<Rightarrow> bool \<Rightarrow> bitmap option" where
  "bitmap_set m index v = do {
     cassert (boffset m \<le> index);
     let idx = index - boffset m;
     let bytes = idx div 8;
     let k = idx mod 8;
     b \<leftarrow> aget (bbits m) bytes;
     bs \<leftarrow> aset (bbits m) bytes (if v then b OR push_bit k 1 else b AND NOT (push_bit k 1));
     Some (m\<lparr>bbits := bs\<rparr>) }"

text \<open>The search loop of \<open>bitmap_scan\<close>; its first argument is \<open>bits_left\<close>. The result is \<open>start\<close>.\<close>

fun scan_loop :: "nat \<Rightarrow> bitmap \<Rightarrow> nat \<Rightarrow> nat \<Rightarrow> nat \<Rightarrow> int option" where
  "scan_loop 0 m next_bit counter count = Some EOF"
| "scan_loop (Suc bits_left) m next_bit counter count = do {
     t \<leftarrow> bitmap_test m (w32 (boffset m + next_bit));
     let counter = (if \<not> t then w32 (counter + 1) else 0);
     let next_bit = w32 (next_bit + 1);
     if counter = count then Some (s32 (int (w32_sub next_bit count)))
     else scan_loop bits_left m next_bit counter count }"

text \<open>The loop that marks what was found.\<close>

fun mark_loop :: "nat \<Rightarrow> bitmap \<Rightarrow> nat \<Rightarrow> bitmap option" where
  "mark_loop 0 m next_bit = Some m"
| "mark_loop (Suc bits_left) m next_bit = do {
     m' \<leftarrow> bitmap_set m (w32 (boffset m + next_bit)) True;
     mark_loop bits_left m' (w32 (next_bit + 1)) }"

definition bitmap_scan :: "bitmap \<Rightarrow> nat \<Rightarrow> (int \<times> bitmap) option" where
  "bitmap_scan m count = do {
     start \<leftarrow> scan_loop (w32 (blength m * 8)) m 0 0 count;
     if start = EOF then Some (EOF, m)
     else do {
       m' \<leftarrow> mark_loop count m (nat start);
       Some (s32 (start + int (boffset m)), m') } }"

section \<open>The interface\<close>

locale index_allocator =
  fixes alloc :: "'m \<Rightarrow> nat \<Rightarrow> (nat option \<times> 'm) option"
    and release :: "'m \<Rightarrow> nat \<Rightarrow> 'm option"
    and taken :: "'m \<Rightarrow> nat set"
    and range :: "'m \<Rightarrow> nat set"
    and inv :: "'m \<Rightarrow> bool"
  assumes alloc_total: "inv m \<Longrightarrow> 0 < n \<Longrightarrow> \<exists>r. alloc m n = Some r"
    and alloc_found: "inv m \<Longrightarrow> 0 < n \<Longrightarrow> alloc m n = Some (Some k, m') \<Longrightarrow>
      inv m' \<and> range m' = range m \<and> {k..<k + n} \<subseteq> range m - taken m \<and>
      taken m' = taken m \<union> {k..<k + n} \<and>
      (\<forall>j. {j..<j + n} \<subseteq> range m - taken m \<longrightarrow> k \<le> j)"
    and alloc_none: "inv m \<Longrightarrow> 0 < n \<Longrightarrow> alloc m n = Some (None, m') \<Longrightarrow>
      m' = m \<and> (\<forall>k. \<not> {k..<k + n} \<subseteq> range m - taken m)"
    and release_taken: "inv m \<Longrightarrow> k \<in> taken m \<Longrightarrow>
      \<exists>m'. release m k = Some m' \<and> inv m' \<and> range m' = range m \<and> taken m' = taken m - {k}"
    and release_free: "inv m \<Longrightarrow> k \<notin> taken m \<Longrightarrow> release m k = None"
begin

lemma alloc_iff:
  assumes "inv m" and "0 < n"
  shows "(\<exists>k m'. alloc m n = Some (Some k, m')) \<longleftrightarrow> (\<exists>k. {k..<k + n} \<subseteq> range m - taken m)"
proof -
  obtain r m' where r: "alloc m n = Some (r, m')" using alloc_total [OF assms] by auto
  show ?thesis
  proof (cases r)
    case None
    with r alloc_none [OF assms] show ?thesis by auto
  next
    case (Some k)
    with r alloc_found [OF assms] show ?thesis by auto
  qed
qed

text \<open>Two allocations that are both live never overlap.\<close>

lemma alloc_disjoint:
  assumes "inv m" and "0 < n1" and "0 < n2"
    and "alloc m n1 = Some (Some k1, m1)" and "alloc m1 n2 = Some (Some k2, m2)"
  shows "{k1..<k1 + n1} \<inter> {k2..<k2 + n2} = {}"
  using alloc_found [OF assms(1,2,4)] alloc_found [of m1 n2 k2 m2] assms(3,5) by blast

end

text \<open>Giving back \<open>n\<close> indexes from \<open>k\<close> on, one by one, with an operation as parameter.\<close>

fun release_from :: "('m \<Rightarrow> nat \<Rightarrow> 'm option) \<Rightarrow> 'm \<Rightarrow> nat \<Rightarrow> nat \<Rightarrow> 'm option" where
  "release_from release m k 0 = Some m"
| "release_from release m k (Suc n) = do { m' \<leftarrow> release m k; release_from release m' (k + 1) n }"

context index_allocator
begin

lemma release_from_taken:
  assumes "inv m" and "{k..<k + n} \<subseteq> taken m"
  shows "\<exists>m'. release_from release m k n = Some m' \<and> inv m' \<and> range m' = range m \<and>
    taken m' = taken m - {k..<k + n}"
  using assms
proof (induction n arbitrary: m k)
  case (Suc n)
  then have "k \<in> taken m" by auto
  from release_taken [OF Suc.prems(1) this] obtain m1 where m1: "release m k = Some m1" "inv m1"
    "range m1 = range m" "taken m1 = taken m - {k}" by blast
  have "{k + 1..<k + 1 + n} \<subseteq> taken m1" using Suc.prems(2) m1(4) by auto
  from Suc.IH [OF m1(2) this] m1 obtain m' where "release_from release m1 (k + 1) n = Some m'"
    "inv m'" "range m' = range m" "taken m' = taken m - {k} - {k + 1..<k + 1 + n}" by auto
  moreover have "taken m - {k} - {k + 1..<k + 1 + n} = taken m - {k..<k + Suc n}" by auto
  ultimately show ?case using m1(1) by simp
qed auto

text \<open>An allocation that is given back leaves the map as it was.\<close>

lemma alloc_release:
  assumes "inv m" and "0 < n" and "alloc m n = Some (Some k, m')"
  shows "\<exists>m''. release_from release m' k n = Some m'' \<and> inv m'' \<and> taken m'' = taken m"
proof -
  note found = alloc_found [OF assms]
  then have "{k..<k + n} \<subseteq> taken m'" by auto
  from release_from_taken [OF _ this] found obtain m'' where
    "release_from release m' k n = Some m''" "inv m''" "taken m'' = taken m' - {k..<k + n}" by auto
  moreover have "taken m' - {k..<k + n} = taken m" using found by auto
  ultimately show ?thesis by auto
qed

text \<open>A double release is refused.\<close>

lemma release_twice:
  assumes "inv m" and "k \<in> taken m" and "release m k = Some m'"
  shows "release m' k = None"
  using release_taken [OF assms(1,2)] assms(3) release_free [of m' k] by auto

end

section \<open>Bits\<close>

definition used :: "bitmap \<Rightarrow> nat \<Rightarrow> bool" where
  "used m i \<longleftrightarrow> bit (bbits m ! (i div 8)) (i mod 8)"

definition bm_inv :: "bitmap \<Rightarrow> bool" where
  "bm_inv m \<longleftrightarrow> blength m = length (bbits m) \<and> boffset m + blength m * 8 < 2147483648"

definition bm_taken :: "bitmap \<Rightarrow> nat set" where
  "bm_taken m = {boffset m + i | i. i < blength m * 8 \<and> used m i}"

definition bm_range :: "bitmap \<Rightarrow> nat set" where
  "bm_range m = {boffset m..<boffset m + blength m * 8}"

lemma test_bit_u8: "(b :: u8) AND 2 ^ k \<noteq> 0 \<longleftrightarrow> bit b k"
  by (simp add: and_exp_eq_0_iff_not_bit)

lemma bitmap_test_eq:
  assumes "bm_inv m" and "i < blength m * 8"
  shows "bitmap_test m (boffset m + i) = Some (used m i)"
proof -
  have "i div 8 < length (bbits m)" "i div 8 < blength m"
    using assms by (auto simp: bm_inv_def)
  then show ?thesis by (simp add: bitmap_test_def used_def test_bit_u8 Let_def)
qed

lemma bitmap_set_eq:
  assumes "bm_inv m" and "i < blength m * 8"
  obtains m' where "bitmap_set m (boffset m + i) v = Some m'" "bm_inv m'"
    "blength m' = blength m" "boffset m' = boffset m" "\<And>j. used m' j \<longleftrightarrow> (if j = i then v else used m j)"
proof -
  define b where "b = bbits m ! (i div 8)"
  define b' where "b' = (if v then b OR push_bit (i mod 8) 1 else b AND NOT (push_bit (i mod 8) 1))"
  let ?m = "m\<lparr>bbits := (bbits m)[i div 8 := b']\<rparr>"
  have len: "i div 8 < length (bbits m)" using assms by (auto simp: bm_inv_def)
  then have eq: "bitmap_set m (boffset m + i) v = Some ?m"
    by (simp add: bitmap_set_def b'_def b_def Let_def)
  have "used ?m j \<longleftrightarrow> (if j = i then v else used m j)" for j
  proof (cases "j div 8 = i div 8")
    case True
    have "bit b' (j mod 8) \<longleftrightarrow> (if j mod 8 = i mod 8 then v else bit b (j mod 8))"
      by (auto simp: b'_def bit_simps)
    moreover have "j = i \<longleftrightarrow> j mod 8 = i mod 8" using True by (metis div_mod_decomp)
    ultimately show ?thesis using True len by (simp add: used_def b_def)
  qed (auto simp: used_def)
  with eq assms show thesis by (intro that [of ?m]) (auto simp: bm_inv_def)
qed

section \<open>The scan\<close>

definition free_run :: "bitmap \<Rightarrow> nat \<Rightarrow> nat \<Rightarrow> bool" where
  "free_run m s n \<longleftrightarrow> (\<forall>i. s \<le> i \<and> i < s + n \<longrightarrow> \<not> used m i)"

text \<open>Between two rounds of the search: the last \<open>counter\<close> bits are free, the one before them is
  not, and no run of \<open>count\<close> ends before \<open>next_bit\<close>.\<close>

definition scan_inv :: "bitmap \<Rightarrow> nat \<Rightarrow> nat \<Rightarrow> nat \<Rightarrow> bool" where
  "scan_inv m next_bit counter count \<longleftrightarrow> counter < count \<and> counter \<le> next_bit
     \<and> free_run m (next_bit - counter) counter
     \<and> (counter < next_bit \<longrightarrow> used m (next_bit - counter - 1))
     \<and> (\<forall>s. s + count \<le> next_bit \<longrightarrow> \<not> free_run m s count)"

lemma scan_inv_start: "0 < count \<Longrightarrow> scan_inv m 0 0 count"
  by (auto simp: scan_inv_def free_run_def)

lemma scan_inv_used:
  assumes "scan_inv m next_bit counter count" and "used m next_bit"
  shows "scan_inv m (Suc next_bit) 0 count"
  using assms by (fastforce simp: scan_inv_def free_run_def le_Suc_eq)

lemma scan_inv_free_run:
  "scan_inv m next_bit counter count \<Longrightarrow> \<not> used m next_bit \<Longrightarrow>
   free_run m (Suc next_bit - Suc counter) (Suc counter)"
  by (auto simp: scan_inv_def free_run_def less_Suc_eq)

lemma scan_inv_free:
  assumes "scan_inv m next_bit counter count" and "\<not> used m next_bit" and "Suc counter \<noteq> count"
  shows "scan_inv m (Suc next_bit) (Suc counter) count"
proof -
  have "\<not> free_run m s count" if "s + count \<le> Suc next_bit" for s
  proof (cases "s + count = Suc next_bit")
    case True
    then have "s \<le> next_bit - counter - 1" "counter < next_bit" "next_bit - counter - 1 < s + count"
      using assms by (auto simp: scan_inv_def)
    then show ?thesis using assms(1) by (auto simp: scan_inv_def free_run_def)
  next
    case False
    then show ?thesis using that assms(1) by (simp add: scan_inv_def)
  qed
  then show ?thesis
    using assms scan_inv_free_run [OF assms(1,2)] by (auto simp: scan_inv_def)
qed

lemma scan_loop_spec:
  assumes "bm_inv m" and "scan_inv m next_bit counter count" and "left + next_bit = blength m * 8"
  shows "\<exists>start. scan_loop left m next_bit counter count = Some start \<and>
    (start = EOF \<longrightarrow> (\<forall>s. s + count \<le> blength m * 8 \<longrightarrow> \<not> free_run m s count)) \<and>
    (start \<noteq> EOF \<longrightarrow> (\<exists>s. start = int s \<and> s + count \<le> blength m * 8 \<and> free_run m s count \<and>
        (\<forall>s'. free_run m s' count \<longrightarrow> s \<le> s')))"
  using assms(2,3)
proof (induction left arbitrary: next_bit counter)
  case 0
  then show ?case by (simp add: scan_inv_def)
next
  case (Suc left)
  have small: "boffset m + next_bit < 2147483648" "Suc next_bit < 2147483648" "next_bit < blength m * 8"
    using assms(1) Suc.prems by (auto simp: bm_inv_def)
  have counter: "counter < count" "counter \<le> next_bit" using Suc.prems by (auto simp: scan_inv_def)
  have test: "bitmap_test m (w32 (boffset m + next_bit)) = Some (used m next_bit)"
    using bitmap_test_eq [OF assms(1) small(3)] small by simp
  show ?case
  proof (cases "\<not> used m next_bit \<and> Suc counter = count")
    case True
    let ?s = "next_bit - counter"
    have "int (Suc next_bit - Suc counter) = int ?s" by simp
    moreover have "?s \<le> s'" if "free_run m s' count" for s'
    proof (rule ccontr)
      assume "\<not> ?s \<le> s'"
      then have "s' + count \<le> next_bit" using True counter by auto
      then show False using that Suc.prems(1) by (simp add: scan_inv_def)
    qed
    ultimately show ?thesis
      using True test small counter scan_inv_free_run [OF Suc.prems(1)] Suc.prems(2)
      by (auto simp: EOF_def intro!: exI [of _ ?s])
  next
    case False
    show ?thesis
    proof (cases "used m next_bit")
      case True
      then show ?thesis using Suc.IH [OF scan_inv_used [OF Suc.prems(1) True]] Suc.prems(2) test small counter
        by auto
    next
      case free: False
      with False have "Suc counter \<noteq> count" by auto
      then show ?thesis using Suc.IH [OF scan_inv_free [OF Suc.prems(1) free]] Suc.prems(2) test small counter free
        by auto
    qed
  qed
qed

lemma mark_loop_spec:
  assumes "bm_inv m" and "s + count \<le> blength m * 8"
  shows "\<exists>m'. mark_loop count m s = Some m' \<and> bm_inv m' \<and> blength m' = blength m \<and>
    boffset m' = boffset m \<and> (\<forall>j. used m' j \<longleftrightarrow> used m j \<or> s \<le> j \<and> j < s + count)"
  using assms
proof (induction count arbitrary: m s)
  case (Suc count)
  then have small: "boffset m + s < 2147483648" "s < blength m * 8" "Suc s < 2147483648"
    by (auto simp: bm_inv_def)
  obtain m1 where m1: "bitmap_set m (boffset m + s) True = Some m1" "bm_inv m1"
    "blength m1 = blength m" "boffset m1 = boffset m" "\<And>j. used m1 j \<longleftrightarrow> (if j = s then True else used m j)"
    using bitmap_set_eq [OF Suc.prems(1) small(2), of True] by metis
  from Suc.IH [OF m1(2), of "Suc s"] Suc.prems(2) m1(3) obtain m' where
    "mark_loop count m1 (Suc s) = Some m'" "bm_inv m'" "blength m' = blength m1"
    "boffset m' = boffset m1" "\<forall>j. used m' j \<longleftrightarrow> used m1 j \<or> Suc s \<le> j \<and> j < Suc s + count" by auto
  with m1 small show ?case by (auto simp: less_Suc_eq_le Suc_le_eq)
qed auto

lemma bitmap_scan_spec:
  assumes "bm_inv m" and "0 < count"
  shows "(bitmap_scan m count = Some (EOF, m) \<and> (\<forall>s. s + count \<le> blength m * 8 \<longrightarrow> \<not> free_run m s count))
    \<or> (\<exists>s m'. bitmap_scan m count = Some (int (boffset m + s), m') \<and> bm_inv m' \<and> blength m' = blength m \<and>
        boffset m' = boffset m \<and> s + count \<le> blength m * 8 \<and> free_run m s count \<and>
        (\<forall>s'. free_run m s' count \<longrightarrow> s \<le> s') \<and>
        (\<forall>j. used m' j \<longleftrightarrow> used m j \<or> s \<le> j \<and> j < s + count))"
proof -
  have w: "w32 (blength m * 8) = blength m * 8" using assms(1) by (simp add: bm_inv_def)
  obtain start where start: "scan_loop (blength m * 8) m 0 0 count = Some start"
    "start = EOF \<longrightarrow> (\<forall>s. s + count \<le> blength m * 8 \<longrightarrow> \<not> free_run m s count)"
    "start \<noteq> EOF \<longrightarrow> (\<exists>s. start = int s \<and> s + count \<le> blength m * 8 \<and> free_run m s count \<and>
        (\<forall>s'. free_run m s' count \<longrightarrow> s \<le> s'))"
    using scan_loop_spec [OF assms(1) scan_inv_start [OF assms(2)], of "blength m * 8"] by auto
  show ?thesis
  proof (cases "start = EOF")
    case True
    with start w show ?thesis by (simp add: bitmap_scan_def)
  next
    case False
    with start(3) obtain s where s: "start = int s" "s + count \<le> blength m * 8" "free_run m s count"
      "\<forall>s'. free_run m s' count \<longrightarrow> s \<le> s'" by auto
    from mark_loop_spec [OF assms(1) s(2)] obtain m' where m': "mark_loop count m s = Some m'" "bm_inv m'"
      "blength m' = blength m" "boffset m' = boffset m"
      "\<forall>j. used m' j \<longleftrightarrow> used m j \<or> s \<le> j \<and> j < s + count" by auto
    have "s32 (int s + int (boffset m)) = int (boffset m + s)"
      using assms s(2) by (simp add: bm_inv_def)
    with start(1) w False s(1) m'(1)
    have "bitmap_scan m count = Some (int (boffset m + s), m')" by (simp add: bitmap_scan_def)
    with s m' show ?thesis by blast
  qed
qed

section \<open>The map as an allocator\<close>

text \<open>A scan and a release as the allocators of the kernel use them. \<open>bm_alloc\<close> is the scan and the test of
  its result for \<open>EOF\<close>, as in \<open>scan_page\<close> of \<open>kernel/memory.c\<close>; \<open>bm_release\<close> is the body of the loop of
  \<open>reset_page\<close> there, which asserts that the bit is set and then clears it. \<open>bitmap_set\<close> itself refuses
  nothing. \<open>Memory\<close> proves that its \<open>scan_page\<close> and \<open>reset_page\<close> are made of the two.\<close>

definition bm_alloc :: "bitmap \<Rightarrow> nat \<Rightarrow> (nat option \<times> bitmap) option" where
  "bm_alloc m n = do {
     (r, m') \<leftarrow> bitmap_scan m n;
     Some (if r = EOF then None else Some (nat r), m') }"

definition bm_release :: "bitmap \<Rightarrow> nat \<Rightarrow> bitmap option" where
  "bm_release m k = do {
     t \<leftarrow> bitmap_test m k;
     cassert t;
     bitmap_set m k False }"

lemma free_run_taken:
  assumes "0 < n"
  shows "s + n \<le> blength m * 8 \<and> free_run m s n \<longleftrightarrow>
    {boffset m + s..<boffset m + s + n} \<subseteq> bm_range m - bm_taken m" (is "?L \<longleftrightarrow> ?R")
proof
  assume ?L
  then show ?R by (auto simp: bm_range_def bm_taken_def free_run_def)
next
  assume R: ?R
  have "boffset m + s + (n - 1) \<in> bm_range m" using R assms by (auto simp: subset_iff)
  then have "s + n \<le> blength m * 8" using assms by (auto simp: bm_range_def)
  moreover have "\<not> used m i" if "s \<le> i" "i < s + n" for i
  proof -
    have "boffset m + i \<in> bm_range m - bm_taken m" using R that by (auto simp: subset_iff)
    then show ?thesis by (auto simp: bm_range_def bm_taken_def)
  qed
  ultimately show ?L by (simp add: free_run_def)
qed

lemma bm_range_run:
  "0 < n \<Longrightarrow> {j..<j + n} \<subseteq> bm_range m - bm_taken m \<Longrightarrow>
   j = boffset m + (j - boffset m) \<and> free_run m (j - boffset m) n"
  using free_run_taken [of n "j - boffset m" m] by (auto simp: bm_range_def subset_iff)

lemma bm_alloc_found:
  assumes "bm_inv m" and "0 < n" and "bm_alloc m n = Some (Some k, m')"
  shows "bm_inv m' \<and> bm_range m' = bm_range m \<and> {k..<k + n} \<subseteq> bm_range m - bm_taken m \<and>
    bm_taken m' = bm_taken m \<union> {k..<k + n} \<and>
    (\<forall>j. {j..<j + n} \<subseteq> bm_range m - bm_taken m \<longrightarrow> k \<le> j)"
proof -
  from bitmap_scan_spec [OF assms(1,2)] assms(3) obtain s where
    k: "k = boffset m + s" and m': "bm_inv m'" "blength m' = blength m" "boffset m' = boffset m"
    and s: "s + n \<le> blength m * 8" "free_run m s n" "\<forall>s'. free_run m s' n \<longrightarrow> s \<le> s'"
    and u: "\<forall>j. used m' j \<longleftrightarrow> used m j \<or> s \<le> j \<and> j < s + n"
    by (auto simp: bm_alloc_def EOF_def nat_add_distrib)
  have "bm_taken m' = bm_taken m \<union> {k..<k + n}"
  proof (rule set_eqI)
    fix x
    show "x \<in> bm_taken m' \<longleftrightarrow> x \<in> bm_taken m \<union> {k..<k + n}"
      using s(1) u by (auto simp: bm_taken_def m' k intro: exI [of _ "x - boffset m"])
  qed
  moreover have "k \<le> j" if "{j..<j + n} \<subseteq> bm_range m - bm_taken m" for j
    using bm_range_run [OF assms(2) that] s(3) by (auto simp: k)
  ultimately show ?thesis
    using m' free_run_taken [OF assms(2), of s m] s k by (auto simp: bm_range_def)
qed

interpretation bm: index_allocator bm_alloc bm_release bm_taken bm_range bm_inv
proof
  fix m n k m'
  assume inv: "bm_inv m"
  show "\<exists>r. bm_alloc m n = Some r" if "0 < n"
    using bitmap_scan_spec [OF inv that] by (auto simp: bm_alloc_def)
  show "bm_inv m' \<and> bm_range m' = bm_range m \<and> {k..<k + n} \<subseteq> bm_range m - bm_taken m \<and>
      bm_taken m' = bm_taken m \<union> {k..<k + n} \<and>
      (\<forall>j. {j..<j + n} \<subseteq> bm_range m - bm_taken m \<longrightarrow> k \<le> j)"
    if "0 < n" "bm_alloc m n = Some (Some k, m')"
    by (rule bm_alloc_found [OF inv that])
  show "m' = m \<and> (\<forall>k. \<not> {k..<k + n} \<subseteq> bm_range m - bm_taken m)"
    if "0 < n" "bm_alloc m n = Some (None, m')"
  proof -
    have "m' = m \<and> (\<forall>s. s + n \<le> blength m * 8 \<longrightarrow> \<not> free_run m s n)"
      using bitmap_scan_spec [OF inv that(1)] that(2) by (auto simp: bm_alloc_def EOF_def)
    then show ?thesis using free_run_taken [OF that(1)] bm_range_run [OF that(1)] by metis
  qed
  show "\<exists>m'. bm_release m k = Some m' \<and> bm_inv m' \<and> bm_range m' = bm_range m \<and>
      bm_taken m' = bm_taken m - {k}" if "k \<in> bm_taken m"
  proof -
    from that obtain i where i: "k = boffset m + i" "i < blength m * 8" "used m i"
      by (auto simp: bm_taken_def)
    show ?thesis
      by (rule bitmap_set_eq [OF inv i(2), of False])
        (use i bitmap_test_eq [OF inv i(2)] in \<open>auto simp: bm_release_def bm_taken_def bm_range_def\<close>)
  qed
  show "bm_release m k = None" if "k \<notin> bm_taken m"
  proof (cases "k \<in> bm_range m")
    case True
    then obtain i where i: "k = boffset m + i" "i < blength m * 8"
      by (auto simp: bm_range_def le_iff_add)
    with that have "\<not> used m i" by (auto simp: bm_taken_def)
    with i show ?thesis by (simp add: bm_release_def bitmap_test_eq [OF inv])
  next
    case False
    then show ?thesis
      by (auto simp: bm_release_def bitmap_test_def bm_range_def cassert_def Let_def
          div_less_iff_less_mult)
  qed
qed

section \<open>Properties\<close>

text \<open>C17. \<open>bitmap_scan\<close> always returns. It answers \<open>EOF\<close> exactly when no \<open>count\<close> consecutive
  bits are free, and then changes nothing; otherwise it answers the first index of the lowest such
  run (with the offset of the map added), and afterwards exactly those bits are set in addition.\<close>

theorem bitmap_scan_first_fit:
  assumes "bm_inv m" and "0 < count"
  shows "\<exists>r m'. bitmap_scan m count = Some (r, m') \<and>
    (if \<exists>s. s + count \<le> blength m * 8 \<and> free_run m s count
     then \<exists>s. r = int (boffset m + s) \<and> s + count \<le> blength m * 8 \<and> free_run m s count \<and>
       (\<forall>s'. free_run m s' count \<longrightarrow> s \<le> s') \<and> bm_inv m' \<and>
       (\<forall>j. used m' j \<longleftrightarrow> used m j \<or> s \<le> j \<and> j < s + count)
     else r = EOF \<and> m' = m)"
  using bitmap_scan_spec [OF assms] by auto

lemma bitmap_scan_first_fit_witness:
  "\<exists>r m'. bitmap_scan (bitmap_make [0xF7] 1 100) 2 = Some (r, m') \<and> r = EOF"
proof -
  have "list_all (\<lambda>s. used (bitmap_make [0xF7] 1 100) s \<or> used (bitmap_make [0xF7] 1 100) (s + 1)) [0..<7]"
    by code_simp
  then have no: "\<not> free_run (bitmap_make [0xF7] 1 100) s 2" if "s + 2 \<le> 8" for s
    using that by (force simp: free_run_def list_all_iff)
  show ?thesis
    using bitmap_scan_first_fit [of "bitmap_make [0xF7] 1 100" 2] no
    by (auto simp: bm_inv_def bitmap_make_def)
qed

end
