(* ===== verification/ListC.thy ===== *)
theory ListC
  imports Prelude
begin

text \<open>
  \<open>src/src/lib/list.c\<close> and \<open>list.h\<close>: the intrusive doubly linked lists that every queue of the
  kernel is made of (ready and waiting tasks, timers, block requests, buffers, free blocks of the
  heap). A \<open>list_t\<close> at address \<open>l\<close> is its two sentinel nodes, \<open>head\<close> at \<open>l\<close> and \<open>tail\<close> at \<open>l + 8\<close>;
  the heap gives the \<open>prev\<close> and \<open>next\<close> field of the node at each address. \<open>dll h l xs\<close> is the
  abstraction: the list at \<open>l\<close> holds the nodes \<open>xs\<close>, in this order.

  The locale \<open>node_lists\<close> is the interface the kernel relies on, with its frame conditions (a list
  that shares no node is not touched); \<open>dll\<close> provides it (interpretation \<open>dl\<close>).
\<close>

record lheap =
  prv :: "addr \<Rightarrow> addr"
  nxt :: "addr \<Rightarrow> addr"

definition list_head :: "addr \<Rightarrow> addr" where "list_head l = l"
definition list_tail :: "addr \<Rightarrow> addr" where "list_tail l = l + 8"

definition set_prv :: "lheap \<Rightarrow> addr \<Rightarrow> addr \<Rightarrow> lheap" where
  "set_prv h n p = h\<lparr>prv := (prv h)(n := p)\<rparr>"

definition set_nxt :: "lheap \<Rightarrow> addr \<Rightarrow> addr \<Rightarrow> lheap" where
  "set_nxt h n p = h\<lparr>nxt := (nxt h)(n := p)\<rparr>"

definition list_init :: "lheap \<Rightarrow> addr \<Rightarrow> lheap" where
  "list_init h l =
     (let h = set_prv h (list_head l) NULL;
          h = set_nxt h (list_tail l) NULL;
          h = set_nxt h (list_head l) (list_tail l)
      in set_prv h (list_tail l) (list_head l))"

text \<open>A write through the null pointer faults (the first page is never mapped).\<close>

definition list_insert_before :: "lheap \<Rightarrow> addr \<Rightarrow> addr \<Rightarrow> lheap option" where
  "list_insert_before h anchor node =
     (let h = set_prv h node (prv h anchor);
          h = set_nxt h node anchor
      in do {
        cassert (prv h anchor \<noteq> NULL);
        let h = set_nxt h (prv h anchor) node;
        Some (set_prv h anchor node) })"

definition list_insert_after :: "lheap \<Rightarrow> addr \<Rightarrow> addr \<Rightarrow> lheap option" where
  "list_insert_after h anchor node =
     (let h = set_prv h node anchor;
          h = set_nxt h node (nxt h anchor)
      in do {
        cassert (nxt h anchor \<noteq> NULL);
        let h = set_prv h (nxt h anchor) node;
        Some (set_nxt h anchor node) })"

text \<open>The loop of \<open>list_search\<close>, from the node \<open>cur\<close> on.\<close>

partial_function (option) search_loop :: "lheap \<Rightarrow> addr \<Rightarrow> addr \<Rightarrow> addr \<Rightarrow> bool option" where
  "search_loop h tail node cur =
     (if cur = tail then Some False
      else if cur = node then Some True
      else search_loop h tail node (nxt h cur))"

definition list_search :: "lheap \<Rightarrow> addr \<Rightarrow> addr \<Rightarrow> bool option" where
  "list_search h l node = search_loop h (list_tail l) node (nxt h (list_head l))"

definition list_empty :: "lheap \<Rightarrow> addr \<Rightarrow> bool" where
  "list_empty h l \<longleftrightarrow> nxt h (list_head l) = list_tail l"

definition list_push :: "lheap \<Rightarrow> addr \<Rightarrow> addr \<Rightarrow> lheap option" where
  "list_push h l node = do {
     found \<leftarrow> list_search h l node;
     cassert (\<not> found);
     list_insert_after h (list_head l) node }"

definition list_remove :: "lheap \<Rightarrow> addr \<Rightarrow> lheap option" where
  "list_remove h node = do {
     cassert (prv h node \<noteq> NULL);
     cassert (nxt h node \<noteq> NULL);
     let h = set_nxt h (prv h node) (nxt h node);
     let h = set_prv h (nxt h node) (prv h node);
     let h = set_nxt h node NULL;
     Some (set_prv h node NULL) }"

definition list_pop :: "lheap \<Rightarrow> addr \<Rightarrow> (addr \<times> lheap) option" where
  "list_pop h l = do {
     cassert (\<not> list_empty h l);
     let node = nxt h (list_head l);
     h' \<leftarrow> list_remove h node;
     Some (node, h') }"

definition list_pushback :: "lheap \<Rightarrow> addr \<Rightarrow> addr \<Rightarrow> lheap option" where
  "list_pushback h l node = do {
     found \<leftarrow> list_search h l node;
     cassert (\<not> found);
     list_insert_before h (list_tail l) node }"

definition list_popback :: "lheap \<Rightarrow> addr \<Rightarrow> (addr \<times> lheap) option" where
  "list_popback h l = do {
     cassert (\<not> list_empty h l);
     let node = prv h (list_tail l);
     h' \<leftarrow> list_remove h node;
     Some (node, h') }"

partial_function (option) size_loop :: "lheap \<Rightarrow> addr \<Rightarrow> nat \<Rightarrow> addr \<Rightarrow> nat option" where
  "size_loop h tail n cur =
     (if cur = tail then Some n else size_loop h tail (w32 (n + 1)) (nxt h cur))"

definition list_size :: "lheap \<Rightarrow> addr \<Rightarrow> nat option" where
  "list_size h l = size_loop h (list_tail l) 0 (nxt h (list_head l))"

text \<open>The search for the anchor: the first node with a greater key, or the tail. \<open>key\<close> is the
  \<open>int\<close> at the node's offset (\<open>element_node_key\<close>).\<close>

partial_function (option) anchor_loop ::
  "lheap \<Rightarrow> addr \<Rightarrow> (addr \<Rightarrow> int) \<Rightarrow> int \<Rightarrow> addr \<Rightarrow> addr option" where
  "anchor_loop h tail key k cur =
     (if cur = tail then Some tail
      else if key cur > k then Some cur
      else anchor_loop h tail key k (nxt h cur))"

definition list_insert_sort :: "lheap \<Rightarrow> addr \<Rightarrow> addr \<Rightarrow> (addr \<Rightarrow> int) \<Rightarrow> lheap option" where
  "list_insert_sort h l node key = do {
     anchor \<leftarrow> anchor_loop h (list_tail l) key (key node) (nxt h (list_head l));
     cassert (nxt h node = NULL);
     cassert (prv h node = NULL);
     list_insert_before h anchor node }"

section \<open>Chains of nodes\<close>

fun chain :: "lheap \<Rightarrow> addr list \<Rightarrow> bool" where
  "chain h (x # y # zs) \<longleftrightarrow> nxt h x = y \<and> prv h y = x \<and> chain h (y # zs)"
| "chain h _ \<longleftrightarrow> True"

lemma set_simps [simp]:
  "prv (set_prv h n p) = (prv h)(n := p)" "nxt (set_prv h n p) = nxt h"
  "prv (set_nxt h n p) = prv h" "nxt (set_nxt h n p) = (nxt h)(n := p)"
  by (simp_all add: set_prv_def set_nxt_def)

lemma chain_append: "chain h (xs @ y # ys) \<longleftrightarrow> chain h (xs @ [y]) \<and> chain h (y # ys)"
  by (induction h xs rule: chain.induct) (auto simp: neq_Nil_conv)

lemma chain_cong:
  assumes "\<And>x. x \<in> set (butlast xs) \<Longrightarrow> nxt h' x = nxt h x"
    and "\<And>x. x \<in> set (tl xs) \<Longrightarrow> prv h' x = prv h x"
  shows "chain h' xs = chain h xs"
  using assms
proof (induction h xs rule: chain.induct)
  case (1 h x y zs)
  have "chain h' (y # zs) = chain h (y # zs)"
    by (rule "1.IH") (use "1.prems" in \<open>auto split: if_splits dest: in_set_butlastD\<close>)
  then show ?case using "1.prems" by simp
qed simp_all

lemma chain_cong_snoc:
  assumes "\<And>x. x \<in> set A \<Longrightarrow> nxt h' x = nxt h x" and "\<And>x. x \<in> set (A @ [p]) \<Longrightarrow> prv h' x = prv h x"
  shows "chain h' (A @ [p]) = chain h (A @ [p])"
  by (rule chain_cong) (use assms in \<open>auto dest: in_set_tlD\<close>)

lemma chain_cong_cons:
  assumes "\<And>x. x \<in> set (a # B) \<Longrightarrow> nxt h' x = nxt h x" and "\<And>x. x \<in> set B \<Longrightarrow> prv h' x = prv h x"
  shows "chain h' (a # B) = chain h (a # B)"
  by (rule chain_cong) (use assms in \<open>auto dest: in_set_butlastD split: if_splits\<close>)

text \<open>The heap in which \<open>n\<close> stands between \<open>p\<close> and \<open>a\<close>, and the one in which nothing does.\<close>

definition linked :: "lheap \<Rightarrow> addr \<Rightarrow> addr \<Rightarrow> addr \<Rightarrow> lheap" where
  "linked h p n a = h\<lparr>prv := (prv h)(n := p, a := n), nxt := (nxt h)(n := a, p := n)\<rparr>"

definition unlinked :: "lheap \<Rightarrow> addr \<Rightarrow> addr \<Rightarrow> addr \<Rightarrow> lheap" where
  "unlinked h p n a = h\<lparr>prv := (prv h)(a := p, n := NULL), nxt := (nxt h)(p := a, n := NULL)\<rparr>"

lemma chain_linked:
  assumes "chain h (A @ p # a # B)" and "distinct (A @ p # a # B)" and "n \<notin> set (A @ p # a # B)"
  shows "chain (linked h p n a) (A @ p # n # a # B)"
proof -
  have "chain (linked h p n a) (A @ [p]) = chain h (A @ [p])"
    by (rule chain_cong_snoc) (use assms in \<open>auto simp: linked_def\<close>)
  moreover have "chain (linked h p n a) (a # B) = chain h (a # B)"
    by (rule chain_cong_cons) (use assms in \<open>auto simp: linked_def\<close>)
  ultimately show ?thesis
    using assms
    by (simp add: chain_append [of _ A p "a # B"] chain_append [of _ A p "n # a # B"] linked_def)
qed

lemma chain_unlinked:
  assumes "chain h (A @ p # n # a # B)" and "distinct (A @ p # n # a # B)"
  shows "chain (unlinked h p n a) (A @ p # a # B)"
proof -
  have "chain (unlinked h p n a) (A @ [p]) = chain h (A @ [p])"
    by (rule chain_cong_snoc) (use assms in \<open>auto simp: unlinked_def\<close>)
  moreover have "chain (unlinked h p n a) (a # B) = chain h (a # B)"
    by (rule chain_cong_cons) (use assms in \<open>auto simp: unlinked_def\<close>)
  ultimately show ?thesis
    using assms
    by (simp add: chain_append [of _ A p "a # B"] chain_append [of _ A p "n # a # B"] unlinked_def)
qed

lemma insert_before_linked:
  "p \<noteq> NULL \<Longrightarrow> prv h a = p \<Longrightarrow> n \<noteq> a \<Longrightarrow> list_insert_before h a n = Some (linked h p n a)"
  by (auto simp: list_insert_before_def linked_def set_prv_def set_nxt_def Let_def)

lemma insert_after_linked:
  "a \<noteq> NULL \<Longrightarrow> nxt h p = a \<Longrightarrow> n \<noteq> p \<Longrightarrow> list_insert_after h p n = Some (linked h p n a)"
  by (auto simp: list_insert_after_def linked_def set_prv_def set_nxt_def Let_def)

lemma remove_unlinked:
  "p \<noteq> NULL \<Longrightarrow> a \<noteq> NULL \<Longrightarrow> prv h n = p \<Longrightarrow> nxt h n = a \<Longrightarrow> n \<noteq> p \<Longrightarrow> n \<noteq> a \<Longrightarrow>
   list_remove h n = Some (unlinked h p n a)"
  by (auto simp: list_remove_def unlinked_def set_prv_def set_nxt_def Let_def)

section \<open>Lists\<close>

definition lnodes :: "addr \<Rightarrow> addr list \<Rightarrow> addr list" where
  "lnodes l xs = list_head l # xs @ [list_tail l]"

definition dll :: "lheap \<Rightarrow> addr \<Rightarrow> addr list \<Rightarrow> bool" where
  "dll h l xs \<longleftrightarrow> chain h (lnodes l xs) \<and> distinct (lnodes l xs) \<and> NULL \<notin> set (lnodes l xs)"

lemma dll_init: "l \<noteq> NULL \<Longrightarrow> dll (list_init h l) l []"
  by (simp add: dll_def lnodes_def list_init_def Let_def list_head_def list_tail_def)

text \<open>A list is cut at any place into what is before and what is after.\<close>

lemma lnodes_cut:
  obtains A p a B where "lnodes l (as @ bs) = A @ p # a # B" "A @ [p] = list_head l # as"
    "a # B = bs @ [list_tail l]"
proof -
  obtain A p where "A @ [p] = list_head l # as" by (metis append_butlast_last_id list.distinct(1))
  moreover obtain a B where "a # B = bs @ [list_tail l]" by (cases bs) auto
  moreover have "lnodes l (as @ bs) = (list_head l # as) @ bs @ [list_tail l]"
    by (simp add: lnodes_def)
  ultimately show thesis by (metis append.assoc append_Cons append_Nil that)
qed

lemma dll_insert:
  assumes "dll h l (as @ bs)" and "n \<notin> set (lnodes l (as @ bs))" and "n \<noteq> NULL"
    and "p = last (list_head l # as)" and "a = hd (bs @ [list_tail l])"
  shows "dll (linked h p n a) l (as @ n # bs)" and "nxt h p = a" and "prv h a = p"
    and "p \<noteq> NULL" and "a \<noteq> NULL" and "n \<noteq> p" and "n \<noteq> a"
proof -
  obtain A p' a' B where cut: "lnodes l (as @ bs) = A @ p' # a' # B" "A @ [p'] = list_head l # as"
    "a' # B = bs @ [list_tail l]" by (rule lnodes_cut)
  have pa: "p' = p" "a' = a" using cut assms(4,5) by (metis last_snoc, metis list.sel(1))
  have new: "lnodes l (as @ n # bs) = A @ p # n # a # B"
    using cut pa by (simp add: lnodes_def)
  have old: "chain h (A @ p # a # B)" "distinct (A @ p # a # B)" "NULL \<notin> set (A @ p # a # B)"
    using assms(1) cut(1) pa by (simp_all add: dll_def)
  have "n \<notin> set (A @ p # a # B)" using assms(2) cut(1) pa by simp
  with chain_linked [OF old(1,2) this] old assms(3)
  show "dll (linked h p n a) l (as @ n # bs)" by (auto simp: dll_def new)
  show "nxt h p = a" "prv h a = p" using old(1) by (simp_all add: chain_append [of h A p "a # B"])
  show "p \<noteq> NULL" "a \<noteq> NULL" using old(3) by auto
  show "n \<noteq> p" "n \<noteq> a" using \<open>n \<notin> set (A @ p # a # B)\<close> by auto
qed

lemma dll_delete:
  assumes "dll h l (as @ n # bs)"
    and "p = last (list_head l # as)" and "a = hd (bs @ [list_tail l])"
  shows "dll (unlinked h p n a) l (as @ bs)" and "list_remove h n = Some (unlinked h p n a)"
proof -
  obtain A p' a' B where cut: "lnodes l (as @ bs) = A @ p' # a' # B" "A @ [p'] = list_head l # as"
    "a' # B = bs @ [list_tail l]" by (rule lnodes_cut)
  have pa: "p' = p" "a' = a" using cut assms(2,3) by (metis last_snoc, metis list.sel(1))
  have full: "lnodes l (as @ n # bs) = A @ p # n # a # B"
    using cut pa by (simp add: lnodes_def)
  have old: "chain h (A @ p # n # a # B)" "distinct (A @ p # n # a # B)"
    "NULL \<notin> set (A @ p # n # a # B)"
    using assms(1) full by (simp_all add: dll_def)
  show "dll (unlinked h p n a) l (as @ bs)"
    using chain_unlinked [OF old(1,2)] old cut(1) pa by (simp add: dll_def)
  show "list_remove h n = Some (unlinked h p n a)"
    by (rule remove_unlinked) (use old in \<open>auto simp: chain_append [of h A p "n # a # B"]\<close>)
qed

text \<open>A list whose nodes are not touched stays.\<close>

lemma dll_frame:
  assumes "dll h l xs" and "\<And>x. x \<in> set (lnodes l xs) \<Longrightarrow> nxt h' x = nxt h x \<and> prv h' x = prv h x"
  shows "dll h' l xs"
proof -
  have "chain h' (lnodes l xs) = chain h (lnodes l xs)"
    by (rule chain_cong) (use assms(2) in \<open>auto dest: in_set_butlastD in_set_tlD\<close>)
  with assms(1) show ?thesis by (simp add: dll_def)
qed

section \<open>Loops over a list\<close>

lemma search_loop_chain:
  "chain h (x # ys @ [t]) \<Longrightarrow> t \<notin> set ys \<Longrightarrow> search_loop h t n (nxt h x) = Some (n \<in> set ys)"
proof (induction ys arbitrary: x)
  case Nil
  then show ?case by (simp add: search_loop.simps [of h t n t])
next
  case (Cons y ys)
  then show ?case by (auto simp: search_loop.simps [of h t n y])
qed

lemma size_loop_chain:
  "chain h (x # ys @ [t]) \<Longrightarrow> t \<notin> set ys \<Longrightarrow> k + length ys < 4294967296 \<Longrightarrow>
   size_loop h t k (nxt h x) = Some (k + length ys)"
proof (induction ys arbitrary: x k)
  case Nil
  then show ?case by (simp add: size_loop.simps [of h t k t])
next
  case (Cons y ys)
  then show ?case by (auto simp: size_loop.simps [of h t k y])
qed

lemma anchor_loop_chain:
  "chain h (x # ys @ [t]) \<Longrightarrow> t \<notin> set ys \<Longrightarrow>
   anchor_loop h t key k (nxt h x) = Some (hd (dropWhile (\<lambda>y. key y \<le> k) ys @ [t]))"
proof (induction ys arbitrary: x)
  case Nil
  then show ?case by (simp add: anchor_loop.simps [of h t key k t])
next
  case (Cons y ys)
  then show ?case by (auto simp: anchor_loop.simps [of h t key k y])
qed

lemma dll_chain: "dll h l xs \<Longrightarrow> chain h (list_head l # xs @ [list_tail l]) \<and> list_tail l \<notin> set xs"
  by (simp add: dll_def lnodes_def)

lemma list_search_dll: "dll h l xs \<Longrightarrow> list_search h l n = Some (n \<in> set xs)"
  by (simp add: list_search_def search_loop_chain dll_chain)

lemma list_size_dll: "dll h l xs \<Longrightarrow> length xs < 4294967296 \<Longrightarrow> list_size h l = Some (length xs)"
  by (simp add: list_size_def size_loop_chain [where k = 0, simplified] dll_chain)

lemma list_empty_dll: "dll h l xs \<Longrightarrow> list_empty h l \<longleftrightarrow> xs = []"
  using dll_chain [of h l xs] by (cases xs) (auto simp: list_empty_def)

section \<open>The interface\<close>

text \<open>Where a sorted insertion puts a node: after every node whose key is not greater.\<close>

definition insert_at :: "(addr \<Rightarrow> int) \<Rightarrow> addr \<Rightarrow> addr list \<Rightarrow> addr list" where
  "insert_at key n xs = takeWhile (\<lambda>x. key x \<le> key n) xs @ n # dropWhile (\<lambda>x. key x \<le> key n) xs"

lemma insert_at_simps [simp]:
  "insert_at key n [] = [n]"
  "insert_at key n (x # xs) = (if key x \<le> key n then x # insert_at key n xs else n # x # xs)"
  by (simp_all add: insert_at_def)

lemma set_insert_at [simp]: "set (insert_at key n xs) = insert n (set xs)"
  by (induction xs) auto

lemma sorted_insert_at: "sorted (map key xs) \<Longrightarrow> sorted (map key (insert_at key n xs))"
  by (induction xs) auto

fun push_all :: "('h \<Rightarrow> addr \<Rightarrow> addr \<Rightarrow> 'h option) \<Rightarrow> 'h \<Rightarrow> addr \<Rightarrow> addr list \<Rightarrow> 'h option" where
  "push_all push h l [] = Some h"
| "push_all push h l (n # ns) = do { h' \<leftarrow> push h l n; push_all push h' l ns }"

locale node_lists =
  fixes repr :: "'h \<Rightarrow> addr \<Rightarrow> addr list \<Rightarrow> bool"
    and off :: "'h \<Rightarrow> addr \<Rightarrow> bool"
    and push :: "'h \<Rightarrow> addr \<Rightarrow> addr \<Rightarrow> 'h option"
    and pushback :: "'h \<Rightarrow> addr \<Rightarrow> addr \<Rightarrow> 'h option"
    and sorted_in :: "'h \<Rightarrow> addr \<Rightarrow> addr \<Rightarrow> (addr \<Rightarrow> int) \<Rightarrow> 'h option"
    and remove :: "'h \<Rightarrow> addr \<Rightarrow> 'h option"
  assumes repr_distinct: "repr h l xs \<Longrightarrow> distinct (lnodes l xs)"
    and push_front: "repr h l xs \<Longrightarrow> n \<notin> set (lnodes l xs) \<Longrightarrow> n \<noteq> NULL \<Longrightarrow>
      \<exists>h'. push h l n = Some h' \<and> repr h' l (n # xs) \<and>
        (\<forall>l' ys. repr h l' ys \<longrightarrow> set (lnodes l' ys) \<inter> insert n (set (lnodes l xs)) = {} \<longrightarrow> repr h' l' ys)"
    and push_end: "repr h l xs \<Longrightarrow> n \<notin> set (lnodes l xs) \<Longrightarrow> n \<noteq> NULL \<Longrightarrow>
      \<exists>h'. pushback h l n = Some h' \<and> repr h' l (xs @ [n]) \<and>
        (\<forall>l' ys. repr h l' ys \<longrightarrow> set (lnodes l' ys) \<inter> insert n (set (lnodes l xs)) = {} \<longrightarrow> repr h' l' ys)"
    and push_sorted: "repr h l xs \<Longrightarrow> n \<notin> set (lnodes l xs) \<Longrightarrow> n \<noteq> NULL \<Longrightarrow> off h n \<Longrightarrow>
      \<exists>h'. sorted_in h l n key = Some h' \<and> repr h' l (insert_at key n xs) \<and>
        (\<forall>l' ys. repr h l' ys \<longrightarrow> set (lnodes l' ys) \<inter> insert n (set (lnodes l xs)) = {} \<longrightarrow> repr h' l' ys)"
    and push_twice: "repr h l xs \<Longrightarrow> n \<in> set xs \<Longrightarrow> push h l n = None \<and> pushback h l n = None"
    and remove_node: "repr h l xs \<Longrightarrow> n \<in> set xs \<Longrightarrow>
      \<exists>h'. remove h n = Some h' \<and> repr h' l (remove1 n xs) \<and> off h' n \<and>
        (\<forall>l' ys. repr h l' ys \<longrightarrow> set (lnodes l' ys) \<inter> set (lnodes l xs) = {} \<longrightarrow> repr h' l' ys)"
    and remove_off: "off h n \<Longrightarrow> remove h n = None"
begin

text \<open>Nodes pushed at the front lie in the list in the reverse order.\<close>

lemma push_all_repr:
  assumes "repr h l xs" and "distinct ns" and "set ns \<inter> set (lnodes l xs) = {}" and "NULL \<notin> set ns"
  shows "\<exists>h'. push_all push h l ns = Some h' \<and> repr h' l (rev ns @ xs)"
  using assms
proof (induction ns arbitrary: h xs)
  case (Cons n ns)
  from push_front [OF Cons.prems(1), of n] Cons.prems obtain h1
    where h1: "push h l n = Some h1" "repr h1 l (n # xs)" by auto
  have "\<exists>h'. push_all push h1 l ns = Some h' \<and> repr h' l (rev ns @ n # xs)"
    by (rule Cons.IH) (use h1 Cons.prems in \<open>auto simp: lnodes_def\<close>)
  with h1 show ?case by simp
qed simp

lemma push_remove:
  assumes "repr h l xs" and "n \<notin> set (lnodes l xs)" and "n \<noteq> NULL"
  shows "\<exists>h' h''. push h l n = Some h' \<and> remove h' n = Some h'' \<and> repr h'' l xs \<and> off h'' n"
proof -
  from push_front [OF assms] obtain h' where h': "push h l n = Some h'" "repr h' l (n # xs)" by blast
  with remove_node [OF h'(2), of n] show ?thesis by auto
qed

lemma sorted_in_sorted:
  assumes "repr h l xs" and "n \<notin> set (lnodes l xs)" and "n \<noteq> NULL" and "off h n"
    and "sorted (map key xs)"
  shows "\<exists>h' ys. sorted_in h l n key = Some h' \<and> repr h' l ys \<and> sorted (map key ys) \<and>
    set ys = insert n (set xs)"
  using push_sorted [OF assms(1-4), of key] sorted_insert_at [OF assms(5), of n] set_insert_at by blast

end

definition node_off :: "lheap \<Rightarrow> addr \<Rightarrow> bool" where
  "node_off h n \<longleftrightarrow> prv h n = NULL \<and> nxt h n = NULL"

lemma linked_frame:
  assumes "dll h l' ys" and "set (lnodes l' ys) \<inter> insert n (set (lnodes l (as @ bs))) = {}"
    and "p = last (list_head l # as)" and "a = hd (bs @ [list_tail l])"
  shows "dll (linked h p n a) l' ys"
proof (rule dll_frame [OF assms(1)])
  fix x
  assume "x \<in> set (lnodes l' ys)"
  moreover have "p \<in> set (list_head l # as)" unfolding assms(3) by (rule last_in_set) simp
  moreover have "a \<in> set (bs @ [list_tail l])" unfolding assms(4) by (rule hd_in_set) simp
  ultimately have "x \<noteq> p \<and> x \<noteq> a \<and> x \<noteq> n" using assms(2) by (auto simp: lnodes_def)
  then show "nxt (linked h p n a) x = nxt h x \<and> prv (linked h p n a) x = prv h x"
    by (simp add: linked_def)
qed

lemma dll_link_step:
  assumes "dll h l (as @ bs)" and "n \<notin> set (lnodes l (as @ bs))" and "n \<noteq> NULL"
    and "p = last (list_head l # as)" and "a = hd (bs @ [list_tail l])"
  shows "dll (linked h p n a) l (as @ n # bs) \<and>
    (\<forall>l' ys. dll h l' ys \<longrightarrow> set (lnodes l' ys) \<inter> insert n (set (lnodes l (as @ bs))) = {} \<longrightarrow>
       dll (linked h p n a) l' ys)"
  using dll_insert(1) [OF assms] linked_frame [OF _ _ assms(4,5), of h _ _ n] by blast

lemma unlinked_frame:
  assumes "dll h l' ys" and "set (lnodes l' ys) \<inter> set (lnodes l (as @ n # bs)) = {}"
    and "p = last (list_head l # as)" and "a = hd (bs @ [list_tail l])"
  shows "dll (unlinked h p n a) l' ys"
proof (rule dll_frame [OF assms(1)])
  fix x
  assume "x \<in> set (lnodes l' ys)"
  moreover have "p \<in> set (list_head l # as)" unfolding assms(3) by (rule last_in_set) simp
  moreover have "a \<in> set (bs @ [list_tail l])" unfolding assms(4) by (rule hd_in_set) simp
  ultimately have "x \<noteq> p \<and> x \<noteq> a \<and> x \<noteq> n" using assms(2) by (auto simp: lnodes_def)
  then show "nxt (unlinked h p n a) x = nxt h x \<and> prv (unlinked h p n a) x = prv h x"
    by (simp add: unlinked_def)
qed

lemma list_push_dll:
  assumes "dll h l xs" and "n \<notin> set (lnodes l xs)" and "n \<noteq> NULL"
  shows "list_push h l n = Some (linked h (list_head l) n (hd (xs @ [list_tail l])))"
  using dll_insert(2,5,6) [of h l "[]" xs n, OF _ _ _ refl refl] assms list_search_dll [OF assms(1), of n]
  by (simp add: list_push_def insert_after_linked lnodes_def)

lemma list_pushback_dll:
  assumes "dll h l xs" and "n \<notin> set (lnodes l xs)" and "n \<noteq> NULL"
  shows "list_pushback h l n = Some (linked h (last (list_head l # xs)) n (list_tail l))"
  using dll_insert(3,4,7) [of h l xs "[]" n, OF _ _ _ refl refl] assms list_search_dll [OF assms(1), of n]
  by (simp add: list_pushback_def insert_before_linked lnodes_def del: last.simps)

lemma list_insert_sort_dll:
  fixes key :: "addr \<Rightarrow> int"
  assumes "dll h l xs" and "n \<notin> set (lnodes l xs)" and "n \<noteq> NULL" and "node_off h n"
  defines "as \<equiv> takeWhile (\<lambda>x. key x \<le> key n) xs" and "bs \<equiv> dropWhile (\<lambda>x. key x \<le> key n) xs"
  shows "list_insert_sort h l n key
    = Some (linked h (last (list_head l # as)) n (hd (bs @ [list_tail l])))"
proof -
  have xs: "as @ bs = xs" by (simp add: as_def bs_def)
  have "anchor_loop h (list_tail l) key (key n) (nxt h (list_head l)) = Some (hd (bs @ [list_tail l]))"
    using dll_chain [OF assms(1)] unfolding bs_def by (blast intro: anchor_loop_chain)
  moreover have "dll h l (as @ bs)" "n \<notin> set (lnodes l (as @ bs))" using assms(1,2) xs by simp_all
  note ins = dll_insert [OF this assms(3) refl refl]
  have "list_insert_before h (hd (bs @ [list_tail l])) n
      = Some (linked h (last (list_head l # as)) n (hd (bs @ [list_tail l])))"
    by (rule insert_before_linked [OF ins(4,3,7)])
  ultimately show ?thesis using assms(4) by (simp add: list_insert_sort_def node_off_def)
qed

interpretation dl: node_lists dll node_off list_push list_pushback list_insert_sort list_remove
proof
  fix h l xs n and key :: "addr \<Rightarrow> int"
  show "list_remove h n = None" if "node_off h n"
    using that by (simp add: list_remove_def node_off_def)
  assume dll: "dll h l xs"
  then show "distinct (lnodes l xs)" by (simp add: dll_def)
  show "list_push h l n = None \<and> list_pushback h l n = None" if "n \<in> set xs"
    using that list_search_dll [OF dll] by (simp add: list_push_def list_pushback_def)
  show "\<exists>h'. list_remove h n = Some h' \<and> dll h' l (remove1 n xs) \<and> node_off h' n \<and>
      (\<forall>l' ys. dll h l' ys \<longrightarrow> set (lnodes l' ys) \<inter> set (lnodes l xs) = {} \<longrightarrow> dll h' l' ys)"
    if "n \<in> set xs"
  proof -
    from that obtain as bs where xs: "xs = as @ n # bs" "n \<notin> set as" by (meson split_list_first)
    let ?p = "last (list_head l # as)" and ?a = "hd (bs @ [list_tail l])"
    from dll_delete [OF dll [unfolded xs(1)] refl refl]
    have "list_remove h n = Some (unlinked h ?p n ?a)" "dll (unlinked h ?p n ?a) l (remove1 n xs)"
      using xs by (simp_all add: remove1_append)
    moreover have "node_off (unlinked h ?p n ?a) n"
    proof -
      have "?p \<in> set (list_head l # as)" by (rule last_in_set) simp
      moreover have "?a \<in> set (bs @ [list_tail l])" by (rule hd_in_set) simp
      ultimately have "?p \<noteq> n" "?a \<noteq> n" using dll xs by (auto simp: dll_def lnodes_def simp del: last.simps)
      then show ?thesis by (simp add: node_off_def unlinked_def)
    qed
    ultimately show ?thesis using unlinked_frame [OF _ _ refl refl, of h _ _ l as n bs] xs by blast
  qed
  assume n: "n \<notin> set (lnodes l xs)" "n \<noteq> NULL"
  show "\<exists>h'. list_push h l n = Some h' \<and> dll h' l (n # xs) \<and>
      (\<forall>l' ys. dll h l' ys \<longrightarrow> set (lnodes l' ys) \<inter> insert n (set (lnodes l xs)) = {} \<longrightarrow> dll h' l' ys)"
    using list_push_dll [OF dll n] dll_link_step [of h l "[]" xs n, OF _ _ _ refl refl] dll n by simp
  show "\<exists>h'. list_pushback h l n = Some h' \<and> dll h' l (xs @ [n]) \<and>
      (\<forall>l' ys. dll h l' ys \<longrightarrow> set (lnodes l' ys) \<inter> insert n (set (lnodes l xs)) = {} \<longrightarrow> dll h' l' ys)"
    using list_pushback_dll [OF dll n] dll_link_step [of h l xs "[]" n, OF _ _ _ refl refl] dll n
    by (simp del: last.simps)
  show "\<exists>h'. list_insert_sort h l n key = Some h' \<and> dll h' l (insert_at key n xs) \<and>
      (\<forall>l' ys. dll h l' ys \<longrightarrow> set (lnodes l' ys) \<inter> insert n (set (lnodes l xs)) = {} \<longrightarrow> dll h' l' ys)"
    if "node_off h n"
    using list_insert_sort_dll [OF dll n that, of key] dll n unfolding insert_at_def
    using dll_link_step [of h l "takeWhile (\<lambda>x. key x \<le> key n) xs" "dropWhile (\<lambda>x. key x \<le> key n) xs" n,
        OF _ _ _ refl refl] by (simp only: takeWhile_dropWhile_id) blast
qed

lemma list_pop_dll:
  assumes "dll h l (n # xs)"
  shows "\<exists>h'. list_pop h l = Some (n, h') \<and> dll h' l xs \<and> node_off h' n"
proof -
  have "nxt h (list_head l) = n" using dll_chain [OF assms] by simp
  then show ?thesis
    using dl.remove_node [OF assms, of n] list_empty_dll [OF assms] by (auto simp: list_pop_def)
qed

lemma list_popback_dll:
  assumes "dll h l (xs @ [n])"
  shows "\<exists>h'. list_popback h l = Some (n, h') \<and> dll h' l xs \<and> node_off h' n"
proof -
  have "chain h ((list_head l # xs) @ n # [list_tail l])" "distinct (lnodes l (xs @ [n]))"
    using assms by (simp_all add: dll_def lnodes_def)
  then have "chain h (n # [list_tail l])" and "n \<notin> set xs"
    using chain_append [of h "list_head l # xs" n "[list_tail l]"] by (blast, simp add: lnodes_def)
  then have "prv h (list_tail l) = n" and "n \<notin> set xs" by simp_all
  then show ?thesis
    using dl.remove_node [OF assms, of n] list_empty_dll [OF assms]
    by (auto simp: list_popback_def remove1_append)
qed

section \<open>Properties\<close>

text \<open>C23. \<open>list_insert_sort\<close> on a list sorted by a key: it returns, the list is sorted by the key
  again and holds the new node in addition, nodes with equal keys keep the order of their
  insertion, and every list that shares no node with it is left as it was.\<close>

theorem list_insert_sort_sorted:
  fixes key :: "addr \<Rightarrow> int"
  assumes "dll h l xs" and "n \<notin> set (lnodes l xs)" and "n \<noteq> NULL" and "node_off h n"
    and "sorted (map key xs)"
  shows "\<exists>h' as bs. list_insert_sort h l n key = Some h' \<and> xs = as @ bs \<and> dll h' l (as @ n # bs) \<and>
    sorted (map key (as @ n # bs)) \<and> (\<forall>a \<in> set as. key a \<le> key n) \<and> (\<forall>b \<in> set bs. key n < key b) \<and>
    (\<forall>l' ys. dll h l' ys \<longrightarrow> set (lnodes l' ys) \<inter> insert n (set (lnodes l xs)) = {} \<longrightarrow> dll h' l' ys)"
proof -
  obtain h' where h': "list_insert_sort h l n key = Some h'" "dll h' l (insert_at key n xs)"
    "\<forall>l' ys. dll h l' ys \<longrightarrow> set (lnodes l' ys) \<inter> insert n (set (lnodes l xs)) = {} \<longrightarrow> dll h' l' ys"
    using dl.push_sorted [OF assms(1-4)] by blast
  let ?as = "takeWhile (\<lambda>x. key x \<le> key n) xs" and ?bs = "dropWhile (\<lambda>x. key x \<le> key n) xs"
  have eq: "insert_at key n xs = ?as @ n # ?bs" by (simp add: insert_at_def)
  have "sorted (map key (?as @ n # ?bs))" using sorted_insert_at [OF assms(5), of n] by (simp only: eq)
  moreover have "\<forall>b \<in> set ?bs. key n < key b"
    using assms(5) by (induction xs) auto
  moreover have "\<forall>a \<in> set ?as. key a \<le> key n" by (auto dest: set_takeWhileD)
  ultimately show ?thesis using h' by (metis eq takeWhile_dropWhile_id)
qed

definition empty_heap :: lheap where
  "empty_heap = \<lparr>prv = (\<lambda>_. NULL), nxt = (\<lambda>_. NULL)\<rparr>"

lemma list_insert_sort_sorted_witness:
  "\<exists>h'. list_insert_sort (list_init empty_heap 100) 100 200 int = Some h' \<and> dll h' 100 [200]"
  using list_insert_sort_sorted [OF dll_init, of 100 200 empty_heap int]
  by (auto simp: lnodes_def list_head_def list_tail_def node_off_def empty_heap_def list_init_def Let_def)

text \<open>Pushing fresh nodes and removing one of them: every push returns, the list holds the
  nodes in the reverse order of the pushes in front of the old ones, \<open>list_search\<close>, \<open>list_size\<close> and
  \<open>list_empty\<close> answer accordingly, a second push of the same node is refused, and a removed node is
  off the list and cannot be removed again.\<close>

theorem list_push_remove:
  assumes "dll h l xs" and "distinct ns" and "set ns \<inter> set (lnodes l xs) = {}" and "NULL \<notin> set ns"
    and "n \<in> set ns" and "length ns + length xs < 4294967296"
  shows "\<exists>h1 h2. push_all list_push h l ns = Some h1 \<and> dll h1 l (rev ns @ xs) \<and>
    list_size h1 l = Some (length ns + length xs) \<and> list_search h1 l n = Some True \<and>
    \<not> list_empty h1 l \<and> list_push h1 l n = None \<and>
    list_remove h1 n = Some h2 \<and> dll h2 l (remove1 n (rev ns @ xs)) \<and>
    list_search h2 l n = Some False \<and> list_remove h2 n = None"
proof -
  obtain h1 where h1: "push_all list_push h l ns = Some h1" "dll h1 l (rev ns @ xs)"
    using dl.push_all_repr [OF assms(1-4)] by blast
  have mem: "n \<in> set (rev ns @ xs)" using assms(5) by simp
  obtain h2 where h2: "list_remove h1 n = Some h2" "dll h2 l (remove1 n (rev ns @ xs))" "node_off h2 n"
    using dl.remove_node [OF h1(2) mem] by blast
  have "distinct (rev ns @ xs)" using h1(2) by (simp add: dll_def lnodes_def)
  then have "n \<notin> set (remove1 n (rev ns @ xs))" by (simp add: set_remove1_eq)
  moreover have "ns \<noteq> []" using assms(5) by auto
  ultimately show ?thesis
    using h1 h2 mem assms(6) dl.push_twice [OF h1(2) mem] dl.remove_off [OF h2(3)]
      list_search_dll [OF h1(2)] list_search_dll [OF h2(2)] list_size_dll [OF h1(2)]
      list_empty_dll [OF h1(2)] by auto
qed

lemma list_push_remove_witness:
  "\<exists>h1 h2. push_all list_push (list_init empty_heap 100) 100 [200, 300] = Some h1 \<and>
    list_remove h1 200 = Some h2 \<and> dll h2 100 [300]"
  using list_push_remove [OF dll_init, of 100 "[200, 300]" 200 empty_heap]
  by (auto simp: lnodes_def list_head_def list_tail_def)

end
