(* ===== verification/Console.thy ===== *)
theory Console
  imports Stdlib
begin

text \<open>
  \<open>src/src/kernel/console.c\<close>: the text console, a state machine over the bytes written to it
  (plain characters, control characters and the escape sequences of a VT100). The state is
  \<open>console_t\<close> with the video memory it writes and the trace of what it asks of the hardware.
  Offsets and coordinates are \<open>u32\<close>s, kept as \<open>nat\<close> with the wrap-around written out.

  \<open>con_inv\<close> ties the cursor to the position in video memory; every operation keeps it, whatever
  the bytes, and writes nothing outside the video memory.
\<close>

section \<open>State\<close>

datatype cstate = STATE_NOR | STATE_ESC | STATE_QUE | STATE_ARG | STATE_CSI

text \<open>What the console asks of the hardware: a port write, or the beep of \<open>start_beep\<close>.\<close>

datatype cevent = Outb nat u8 | Beep

record console =
  mem_base :: nat
  mem_size :: nat
  mem_end :: nat
  screen :: nat
  scr_size :: nat
  pos :: nat
  cx :: nat
  cy :: nat
  saved_x :: nat
  saved_y :: nat
  cwidth :: nat
  cheight :: nat
  row_size :: nat
  cst :: cstate
  cargs :: "nat list"
  cargc :: nat
  ques :: bool
  erase :: u16
  style :: u8
  vmem :: mem
  cio :: "cevent list"

definition CRT_ADDR_REG :: nat where "CRT_ADDR_REG = 0x3D4"
definition CRT_DATA_REG :: nat where "CRT_DATA_REG = 0x3D5"
definition ARG_NR :: nat where "ARG_NR = 16"

definition outb :: "nat \<Rightarrow> u8 \<Rightarrow> console \<Rightarrow> console" where
  "outb port v c = c\<lparr>cio := cio c @ [Outb port v]\<rparr>"

text \<open>A \<open>u16\<close> store, low byte first, and the load.\<close>

definition store16 :: "mem \<Rightarrow> addr \<Rightarrow> u16 \<Rightarrow> mem" where
  "store16 m a v = m(a := ucast v, a + 1 := ucast (drop_bit 8 v))"

section \<open>Operations\<close>

definition set_screen :: "console \<Rightarrow> console" where
  "set_screen c =
     (let off = w32_sub (screen c) (mem_base c)
      in outb CRT_DATA_REG (of_nat (off div 2)) (outb CRT_ADDR_REG 0xD
        (outb CRT_DATA_REG (of_nat (off div 512)) (outb CRT_ADDR_REG 0xC c))))"

definition set_cursor :: "console \<Rightarrow> console" where
  "set_cursor c =
     (let off = w32_sub (pos c) (mem_base c)
      in outb CRT_DATA_REG (of_nat (off div 2)) (outb CRT_ADDR_REG 0xF
        (outb CRT_DATA_REG (of_nat (off div 512)) (outb CRT_ADDR_REG 0xE c))))"

definition set_xy :: "console \<Rightarrow> nat \<Rightarrow> nat \<Rightarrow> console" where
  "set_xy c x y =
     (if x > cwidth c \<or> y \<ge> cheight c then c
      else c\<lparr>cx := x, cy := y, pos := w32 (screen c + y * row_size c + x * 2)\<rparr>)"

definition save_cursor :: "console \<Rightarrow> console" where
  "save_cursor c = c\<lparr>saved_x := cx c, saved_y := cy c\<rparr>"

fun erase_loop :: "nat \<Rightarrow> mem \<Rightarrow> addr \<Rightarrow> u16 \<Rightarrow> mem" where
  "erase_loop 0 m start v = m"
| "erase_loop (Suc count) m start v = erase_loop count (store16 m start v) (start + 2) v"

definition erase_screen :: "console \<Rightarrow> addr \<Rightarrow> nat \<Rightarrow> console" where
  "erase_screen c start count = c\<lparr>vmem := erase_loop count (vmem c) start (erase c)\<rparr>"

definition console_clear :: "console \<Rightarrow> console" where
  "console_clear c =
     (let c = c\<lparr>screen := mem_base c, pos := mem_base c, cx := 0, cy := 0\<rparr>;
          c = set_cursor c;
          c = set_screen c
      in erase_screen c (mem_base c) (mem_size c div 2))"

definition scroll_up :: "console \<Rightarrow> console" where
  "scroll_up c =
     (let c = (if w32 (screen c + scr_size c + row_size c) \<ge> mem_end c
               then c\<lparr>vmem := memcpy_loop (scr_size c) (vmem c) (mem_base c) (screen c),
                      pos := w32_sub (pos c) (w32_sub (screen c) (mem_base c)),
                      screen := mem_base c\<rparr>
               else c);
          c = erase_screen c (w32 (screen c + scr_size c)) (cwidth c);
          c = c\<lparr>screen := w32 (screen c + row_size c), pos := w32 (pos c + row_size c)\<rparr>
      in set_screen c)"

text \<open>\<open>scroll_down\<close> is there for \<open>ESC M\<close>, which does not call it.\<close>

definition scroll_down :: "console \<Rightarrow> console" where
  "scroll_down c =
     (let c = c\<lparr>screen := w32_sub (screen c) (row_size c)\<rparr>;
          c = (if screen c < mem_base c then c\<lparr>screen := mem_base c\<rparr> else c)
      in set_screen c)"

definition lf :: "console \<Rightarrow> console" where
  "lf c =
     (if cy c + 1 < cheight c then c\<lparr>cy := cy c + 1, pos := w32 (pos c + row_size c)\<rparr>
      else scroll_up c)"

definition cr :: "console \<Rightarrow> console" where
  "cr c = c\<lparr>pos := w32_sub (pos c) (cx c * 2), cx := 0\<rparr>"

text \<open>The wrap of a line, shared by \<open>tab\<close> and \<open>chr\<close>.\<close>

definition wrap :: "console \<Rightarrow> console" where
  "wrap c =
     (if cx c \<ge> cwidth c
      then lf (c\<lparr>cx := cx c - cwidth c, pos := w32_sub (pos c) (row_size c)\<rparr>)
      else c)"

definition tab :: "console \<Rightarrow> console" where
  "tab c =
     (let off = 8 - cx c mod 8
      in wrap (c\<lparr>cx := w32 (cx c + off), pos := w32 (pos c + off * 2)\<rparr>))"

definition bs :: "console \<Rightarrow> console" where
  "bs c =
     (if cx c = 0 then c
      else (let c = c\<lparr>cx := cx c - 1, pos := w32_sub (pos c) 2\<rparr>
            in c\<lparr>vmem := store16 (vmem c) (pos c) (erase c)\<rparr>))"

definition del :: "console \<Rightarrow> console" where
  "del c = c\<lparr>vmem := store16 (vmem c) (pos c) (erase c)\<rparr>"

definition chr :: "console \<Rightarrow> u8 \<Rightarrow> console" where
  "chr c ch =
     (let c = wrap c
      in c\<lparr>vmem := (vmem c)(pos c := ch, pos c + 1 := style c),
           pos := w32 (pos c + 2), cx := w32 (cx c + 1)\<rparr>)"

definition start_beep :: "console \<Rightarrow> console" where
  "start_beep c = c\<lparr>cio := cio c @ [Beep]\<rparr>"

definition state_normal :: "console \<Rightarrow> u8 \<Rightarrow> console" where
  "state_normal c ch =
     (if ch = 0x00 then c
      else if ch = 0x07 then start_beep c
      else if ch = 0x08 then bs c
      else if ch = 0x09 then tab c
      else if ch = 0x0A then cr (lf c)
      else if ch = 0x0B \<or> ch = 0x0C then lf c
      else if ch = 0x0D then cr c
      else if ch = 0x7F then del c
      else if ch = 0x1B then c\<lparr>cst := STATE_ESC\<rparr>
      else chr c ch)"

definition state_esc :: "console \<Rightarrow> u8 \<Rightarrow> console" where
  "state_esc c ch =
     (if ch = chr8 (CHR ''['') then c\<lparr>cst := STATE_QUE\<rparr>
      else if ch = chr8 (CHR ''E'') then cr (lf c)
      else if ch = chr8 (CHR ''M'') then c
      else if ch = chr8 (CHR ''D'') then lf c
      else if ch = chr8 (CHR ''Z'') then c
      else if ch = chr8 (CHR ''7'') then save_cursor c
      else if ch = chr8 (CHR ''8'') then set_xy c (saved_x c) (saved_y c)
      else c)"

definition state_arg :: "console \<Rightarrow> u8 \<Rightarrow> bool \<times> console" where
  "state_arg c ch =
     (if cargc c \<ge> ARG_NR then (False, c)
      else if ch = chr8 (CHR '';'') then (False, c\<lparr>cargc := cargc c + 1\<rparr>)
      else if 48 \<le> unat ch \<and> unat ch \<le> 57
      then (False, c\<lparr>cargs := (cargs c)[cargc c := w32_sub (cargs c ! cargc c * 10 + unat ch) 48]\<rparr>)
      else (True, c\<lparr>cargc := cargc c + 1, cst := STATE_CSI\<rparr>))"

text \<open>\<open>csi_J\<close>: erase after the cursor, before it, or the whole screen.\<close>

definition csi_J :: "console \<Rightarrow> console" where
  "csi_J c =
     (if cargs c ! 0 = 0
      then erase_screen c (pos c) (w32_sub (w32 (screen c + scr_size c)) (pos c) div 2)
      else if cargs c ! 0 = 1
      then erase_screen c (screen c) (w32_sub (pos c) (screen c) div 2)
      else if cargs c ! 0 = 2 then erase_screen c (screen c) (scr_size c div 2)
      else c)"

definition csi_K :: "console \<Rightarrow> console" where
  "csi_K c =
     (if cargs c ! 0 = 0 then erase_screen c (pos c) (w32_sub (cwidth c) (cx c))
      else if cargs c ! 0 = 1 then erase_screen c (w32_sub (pos c) (cx c * 2)) (cx c)
      else if cargs c ! 0 = 2 then erase_screen c (w32_sub (pos c) (cx c * 2)) (cwidth c)
      else c)"

text \<open>The loops of \<open>insert_line\<close> and \<open>delete_line\<close> over the rows. In \<open>delete_line\<close> the pointer
  \<open>start\<close> is a \<open>u16 *\<close>, so \<open>start + i * row_size\<close> is \<open>2 * i * row_size\<close> bytes further.\<close>

partial_function (option) insert_line_loop :: "console \<Rightarrow> addr \<Rightarrow> nat \<Rightarrow> console option" where
  "insert_line_loop c start i =
     (let src = w32_sub (mem_end c) (i * row_size c)
      in if src < start then Some c
         else insert_line_loop
           (c\<lparr>vmem := memcpy_loop (row_size c) (vmem c) (src + row_size c) src\<rparr>) start (i + 1))"

definition insert_line :: "console \<Rightarrow> console option" where
  "insert_line c = do {
     c' \<leftarrow> insert_line_loop c (w32 (screen c + cy c * row_size c)) 2;
     Some (erase_screen c' (w32 (screen c' + cy c' * row_size c')) (cwidth c')) }"

partial_function (option) delete_line_loop :: "console \<Rightarrow> addr \<Rightarrow> nat \<Rightarrow> console option" where
  "delete_line_loop c start i =
     (let src = start + 2 * (i * row_size c)
      in if src \<ge> mem_end c then Some c
         else delete_line_loop
           (c\<lparr>vmem := memcpy_loop (row_size c) (vmem c) (src - row_size c) src\<rparr>) start (i + 1))"

definition delete_line :: "console \<Rightarrow> console option" where
  "delete_line c = do {
     c' \<leftarrow> delete_line_loop c (w32 (screen c + cy c * row_size c)) 1;
     Some (erase_screen c' (w32_sub (mem_end c') (row_size c')) (cwidth c')) }"

text \<open>The first argument as a count: at least one, at most \<open>height\<close> (also for characters).\<close>

definition csi_count :: "console \<Rightarrow> nat" where
  "csi_count c =
     (let nr = cargs c ! 0 in if nr > cheight c then cheight c else if nr = 0 then 1 else nr)"

fun repeat_op :: "nat \<Rightarrow> (console \<Rightarrow> console option) \<Rightarrow> console \<Rightarrow> console option" where
  "repeat_op 0 f c = Some c"
| "repeat_op (Suc n) f c = do { c' \<leftarrow> f c; repeat_op n f c' }"

definition csi_L :: "console \<Rightarrow> console option" where
  "csi_L c = repeat_op (csi_count c) insert_line c"

definition csi_M :: "console \<Rightarrow> console option" where
  "csi_M c = repeat_op (csi_count c) delete_line c"

fun shift_left :: "nat \<Rightarrow> mem \<Rightarrow> addr \<Rightarrow> mem" where
  "shift_left 0 m ptr = m"
| "shift_left (Suc n) m ptr = shift_left n (m(ptr := m (ptr + 2), ptr + 1 := m (ptr + 3))) (ptr + 2)"

text \<open>\<open>while (++i < width)\<close> from \<open>i = x\<close>: \<open>width - 1 - x\<close> rounds.\<close>

definition delete_char :: "console \<Rightarrow> console" where
  "delete_char c =
     (let n = cwidth c - 1 - cx c
      in c\<lparr>vmem := store16 (shift_left n (vmem c) (pos c)) (pos c + 2 * n) (erase c)\<rparr>)"

definition csi_P :: "console \<Rightarrow> console option" where
  "csi_P c = repeat_op (csi_count c) (\<lambda>c. Some (delete_char c)) c"

fun shift_right :: "nat \<Rightarrow> mem \<Rightarrow> addr \<Rightarrow> mem" where
  "shift_right 0 m ptr = m"
| "shift_right (Suc n) m ptr = shift_right n (m(ptr := m (ptr - 2), ptr + 1 := m (ptr - 1))) (ptr - 2)"

text \<open>\<open>ptr\<close> is a \<open>char *\<close>: the last store writes the low byte of \<open>erase\<close> only.\<close>

definition insert_char :: "console \<Rightarrow> console" where
  "insert_char c =
     (let n = cwidth c - cx c - 1
      in c\<lparr>vmem := (shift_right n (vmem c) (pos c + 2 * n))(pos c := ucast (erase c))\<rparr>)"

definition csi_at :: "console \<Rightarrow> console option" where
  "csi_at c = repeat_op (csi_count c) (\<lambda>c. Some (insert_char c)) c"

definition style_step :: "nat \<Rightarrow> u8 \<Rightarrow> u8" where
  "style_step a s =
     (if a = 0 then 7
      else if a = 1 then 0x0F
      else if a = 0x80 then s OR 0x80
      else if a = 7 then drop_bit 4 s OR push_bit 4 s
      else if 30 \<le> a \<and> a \<le> 37 then (s AND 0xF8) OR of_nat (a - 30)
      else if 40 \<le> a \<and> a \<le> 47 then (s AND 0x8F) OR push_bit 4 (of_nat (a - 40))
      else s)"

definition csi_m :: "console \<Rightarrow> console" where
  "csi_m c =
     (let s = fold style_step (take (cargc c) (cargs c)) 0
      in c\<lparr>style := s, erase := push_bit 8 (ucast s) OR 0x20\<rparr>)"

definition arg_dec :: "nat \<Rightarrow> console \<Rightarrow> console" where
  "arg_dec i c = (if cargs c ! i \<noteq> 0 then c\<lparr>cargs := (cargs c)[i := cargs c ! i - 1]\<rparr> else c)"

definition arg_inc :: "console \<Rightarrow> console" where
  "arg_inc c = (if cargs c ! 0 = 0 then c\<lparr>cargs := (cargs c)[0 := 1]\<rparr> else c)"

definition state_csi :: "console \<Rightarrow> u8 \<Rightarrow> console option" where
  "state_csi c0 ch =
     (let c = c0\<lparr>cst := STATE_NOR\<rparr>; is = (\<lambda>k. ch = chr8 k)
      in if is (CHR ''G'') \<or> ch = 0x60
         then (let c = arg_dec 0 c in Some (set_xy c (cargs c ! 0) (cy c)))
         else if is (CHR ''A'')
         then (let c = arg_inc c in Some (set_xy c (cx c) (w32_sub (cy c) (cargs c ! 0))))
         else if is (CHR ''B'') \<or> is (CHR ''e'')
         then (let c = arg_inc c in Some (set_xy c (cx c) (w32 (cy c + cargs c ! 0))))
         else if is (CHR ''C'') \<or> is (CHR ''a'')
         then (let c = arg_inc c in Some (set_xy c (w32 (cx c + cargs c ! 0)) (cy c)))
         else if is (CHR ''D'')
         then (let c = arg_inc c in Some (set_xy c (w32_sub (cx c) (cargs c ! 0)) (cy c)))
         else if is (CHR ''E'')
         then (let c = arg_inc c in Some (set_xy c 0 (w32 (cy c + cargs c ! 0))))
         else if is (CHR ''F'')
         then (let c = arg_inc c in Some (set_xy c 0 (w32_sub (cy c) (cargs c ! 0))))
         else if is (CHR ''d'')
         then (let c = arg_dec 0 c in Some (set_xy c (cx c) (cargs c ! 0)))
         else if is (CHR ''H'') \<or> is (CHR ''f'')
         then (let c = arg_dec 1 (arg_dec 0 c) in Some (set_xy c (cargs c ! 1) (cargs c ! 0)))
         else if is (CHR ''J'') then Some (csi_J c)
         else if is (CHR ''K'') then Some (csi_K c)
         else if is (CHR ''L'') then csi_L c
         else if is (CHR ''M'') then csi_M c
         else if is (CHR ''P'') then csi_P c
         else if is (CHR ''@'') then csi_at c
         else if is (CHR ''m'') then Some (csi_m c)
         else if is (CHR ''r'') then Some c
         else if is (CHR ''s'')
         then (let c = save_cursor c in Some (set_xy c (saved_x c) (saved_y c)))
         else if is (CHR ''u'') then Some (set_xy c (saved_x c) (saved_y c))
         else Some c)"

text \<open>One round of the loop of \<open>console_write\<close>, with the fall-through of its cases.\<close>

definition arg_then_csi :: "console \<Rightarrow> u8 \<Rightarrow> console option" where
  "arg_then_csi c ch = (let (done', c) = state_arg c ch in if \<not> done' then Some c else state_csi c ch)"

definition console_byte :: "console \<Rightarrow> u8 \<Rightarrow> console option" where
  "console_byte c ch =
     (case cst c of
        STATE_NOR \<Rightarrow> Some (state_normal c ch)
      | STATE_ESC \<Rightarrow> Some (state_esc c ch)
      | STATE_QUE \<Rightarrow>
          (let c = c\<lparr>cargs := replicate ARG_NR 0, cargc := 0, cst := STATE_ARG,
                      ques := (ch = chr8 (CHR ''?''))\<rparr>
           in if ques c then Some c else arg_then_csi c ch)
      | STATE_ARG \<Rightarrow> arg_then_csi c ch
      | STATE_CSI \<Rightarrow> state_csi c ch)"

fun write_loop :: "console \<Rightarrow> u8 list \<Rightarrow> console option" where
  "write_loop c [] = Some c"
| "write_loop c (ch # buf) = do { c' \<leftarrow> console_byte c ch; write_loop c' buf }"

text \<open>\<open>while (nr++ < count)\<close> leaves \<open>nr = count + 1\<close>, which is what is returned. The bytes of
  \<open>buf\<close> are given as a list, \<open>count\<close> of them.\<close>

definition console_write :: "console \<Rightarrow> u8 list \<Rightarrow> (nat \<times> console) option" where
  "console_write c buf = do {
     c' \<leftarrow> write_loop c buf;
     Some (length buf + 1, set_cursor c') }"

definition console_init :: "console \<Rightarrow> console" where
  "console_init c =
     (let c = c\<lparr>mem_base := 0xB8000, mem_size := (0x4000 div 160) * 160\<rparr>;
          c = c\<lparr>mem_end := mem_base c + mem_size c, cwidth := 80, cheight := 25\<rparr>;
          c = c\<lparr>row_size := cwidth c * 2, scr_size := cwidth c * cheight c * 2,
                 erase := 0x0720, style := 7\<rparr>
      in console_clear c)"

section \<open>The invariant\<close>

text \<open>\<open>con_ok n\<close>: the constants of \<open>console_init\<close>, the screen a whole number of rows into the
  video memory with at least 25 rows behind it, and the cursor at most in column \<open>n\<close> with \<open>pos\<close>
  its address. Between two bytes \<open>n\<close> is 80: a full line is wrapped by the next character.\<close>

definition con_ok :: "nat \<Rightarrow> console \<Rightarrow> bool" where
  "con_ok n c \<longleftrightarrow>
     mem_base c = 753664 \<and> mem_size c = 16320 \<and> mem_end c = 769984 \<and> scr_size c = 4000 \<and>
     cwidth c = 80 \<and> cheight c = 25 \<and> row_size c = 160 \<and>
     length (cargs c) = 16 \<and> cargc c \<le> 16 \<and>
     753664 \<le> screen c \<and> screen c \<le> 765824 \<and> screen c mod 160 = 64 \<and>
     cx c \<le> n \<and> cy c < 25 \<and> saved_x c \<le> 80 \<and> saved_y c < 25 \<and>
     pos c = screen c + 160 * cy c + 2 * cx c"

definition con_inv :: "console \<Rightarrow> bool" where
  "con_inv c = con_ok 80 c"

text \<open>Nothing outside \<open>[mem_base, mem_end)\<close> is written.\<close>

definition in_video :: "addr \<Rightarrow> bool" where
  "in_video a \<longleftrightarrow> 753664 \<le> a \<and> a < 769984"

definition vm_frame :: "console \<Rightarrow> console \<Rightarrow> bool" where
  "vm_frame c c' \<longleftrightarrow> (\<forall>a. \<not> in_video a \<longrightarrow> vmem c' a = vmem c a)"

definition con_step :: "console \<Rightarrow> console \<Rightarrow> bool" where
  "con_step c c' \<longleftrightarrow> con_inv c' \<and> vm_frame c c'"

lemma vm_frame_refl [simp]: "vm_frame c c"
  by (simp add: vm_frame_def)

lemma vm_frame_same: "vmem c' = vmem c \<Longrightarrow> vm_frame c c'"
  by (simp add: vm_frame_def)

lemma vm_frame_trans [trans]: "vm_frame a b \<Longrightarrow> vm_frame b c \<Longrightarrow> vm_frame a c"
  by (simp add: vm_frame_def)

lemma con_step_trans: "con_step a b \<Longrightarrow> con_step b c \<Longrightarrow> con_step a c"
  by (auto simp: con_step_def intro: vm_frame_trans)

lemma con_step_inv: "con_step c c' \<Longrightarrow> con_inv c'"
  by (simp add: con_step_def)

lemma erase_loop_outside:
  "a < start \<or> start + 2 * n \<le> a \<Longrightarrow> erase_loop n m start v a = m a"
  by (induction n arbitrary: m start) (auto simp: store16_def)

lemma memcpy_loop_outside:
  "a < dst \<or> dst + n \<le> a \<Longrightarrow> memcpy_loop n m dst src a = m a"
  by (induction n arbitrary: m dst src) auto

lemma erase_frame:
  assumes "753664 \<le> start" and "start + 2 * n \<le> 769984"
  shows "vm_frame c (erase_screen c start n)"
  using assms by (auto simp: vm_frame_def erase_screen_def in_video_def intro!: erase_loop_outside)

lemma copy_frame:
  assumes "753664 \<le> dst" and "dst + n \<le> 769984"
  shows "vm_frame c (c\<lparr>vmem := memcpy_loop n (vmem c) dst src\<rparr>)"
  using assms by (auto simp: vm_frame_def in_video_def intro!: memcpy_loop_outside)

lemma erase_ok [simp]: "con_ok n (erase_screen c s k) = con_ok n c"
  by (simp add: con_ok_def erase_screen_def)

lemma vmem_ok [simp]: "con_ok n (c\<lparr>vmem := m\<rparr>) = con_ok n c"
  by (simp add: con_ok_def)

lemma cio_ok [simp]: "con_ok n (c\<lparr>cio := m\<rparr>) = con_ok n c"
  by (simp add: con_ok_def)

lemma cst_ok [simp]: "con_ok n (c\<lparr>cst := m\<rparr>) = con_ok n c"
  by (simp add: con_ok_def)

lemma set_screen_ok [simp]: "con_ok n (set_screen c) = con_ok n c"
  by (simp add: set_screen_def outb_def Let_def)

lemma set_cursor_ok [simp]: "con_ok n (set_cursor c) = con_ok n c"
  by (simp add: set_cursor_def outb_def Let_def)

lemma set_screen_vmem [simp]: "vmem (set_screen c) = vmem c"
  by (simp add: set_screen_def outb_def Let_def)

lemma set_cursor_vmem [simp]: "vmem (set_cursor c) = vmem c"
  by (simp add: set_cursor_def outb_def Let_def)

section \<open>Every operation keeps the invariant\<close>

lemma row_bound: "s mod 160 = 64 \<Longrightarrow> \<not> 765824 \<le> s \<Longrightarrow> s \<le> 765664" for s :: nat
proof -
  assume "s mod 160 = 64" and "\<not> 765824 \<le> s"
  with div_mult_mod_eq [of s 160] have s: "s div 160 * 160 + 64 = s" and "s div 160 < 4786" by linarith+
  then have "s div 160 \<le> 4785" by simp
  with s show ?thesis by linarith
qed

lemma scroll_up_ok:
  assumes "con_ok n c" and "n \<le> 88"
  shows "con_ok n (scroll_up c)"
proof (cases "screen c + 4160 \<ge> 769984")
  case True
  with assms show ?thesis by (simp add: scroll_up_def con_ok_def Let_def erase_screen_def set_screen_def outb_def)
next
  case False
  have "screen c \<le> 765664"
  proof (rule row_bound)
    show "screen c mod 160 = 64" using assms by (simp add: con_ok_def)
    show "\<not> 765824 \<le> screen c" using False by simp
  qed
  moreover have "(screen c + 160) mod 160 = 64" using assms by (simp add: con_ok_def)
  ultimately show ?thesis
    using assms False by (simp add: scroll_up_def con_ok_def Let_def erase_screen_def set_screen_def outb_def)
qed

lemma scroll_up_frame:
  assumes "con_ok n c"
  shows "vm_frame c (scroll_up c)"
proof (cases "screen c + 4160 \<ge> 769984")
  case True
  with assms show ?thesis
    by (auto simp: scroll_up_def con_ok_def Let_def vm_frame_def in_video_def erase_screen_def
        erase_loop_outside memcpy_loop_outside)
next
  case False
  with assms show ?thesis
    by (auto simp: scroll_up_def con_ok_def Let_def vm_frame_def in_video_def erase_screen_def
        erase_loop_outside)
qed

lemma lf_ok: "con_ok n c \<Longrightarrow> n \<le> 88 \<Longrightarrow> con_ok n (lf c)"
  using scroll_up_ok [of n c] by (auto simp: lf_def con_ok_def)

lemma lf_frame: "con_ok n c \<Longrightarrow> vm_frame c (lf c)"
  using scroll_up_frame [of n c] by (simp add: lf_def vm_frame_same)

lemma scroll_up_cursor [simp]: "cx (scroll_up c) = cx c" "cy (scroll_up c) = cy c"
  by (simp_all add: scroll_up_def Let_def set_screen_def outb_def erase_screen_def)

lemma lf_cx [simp]: "cx (lf c) = cx c"
  by (simp add: lf_def)

lemma con_ok_col: "con_ok n c \<Longrightarrow> cx c \<le> k \<Longrightarrow> con_ok k c"
  by (simp add: con_ok_def)

text \<open>\<open>wrap\<close> before its \<open>lf\<close>: the cursor is \<open>cx - 80\<close> columns into the same row (the
  position, one row back, is not on the row of \<open>y\<close> until \<open>lf\<close>).\<close>

lemma wrap_ok:
  assumes "con_ok n c" and "n \<le> 88"
  shows "con_ok 79 (wrap c)" and "vm_frame c (wrap c)"
proof -
  define c1 where "c1 = c\<lparr>cx := cx c - cwidth c, pos := w32_sub (pos c) (row_size c)\<rparr>"
  have eq: "wrap c = (if cx c \<ge> 80 then lf c1 else c)"
    using assms by (simp add: wrap_def c1_def con_ok_def)
  have "cx c \<ge> 80 \<Longrightarrow> con_ok 8 c1" using assms by (auto simp: c1_def con_ok_def)
  then have a: "cx c \<ge> 80 \<Longrightarrow> con_ok 8 (lf c1)" and b: "cx c \<ge> 80 \<Longrightarrow> vm_frame c1 (lf c1)"
    using lf_ok lf_frame by auto
  have "vm_frame c c1" by (simp add: c1_def vm_frame_same)
  with b show "vm_frame c (wrap c)" by (auto simp: eq intro: vm_frame_trans)
  show "con_ok 79 (wrap c)"
    using a assms by (auto simp: eq con_ok_def)
qed

lemma cr_ok: "con_inv c \<Longrightarrow> con_step c (cr c)"
  by (simp add: cr_def con_step_def con_inv_def con_ok_def vm_frame_same)

lemma lf_step: "con_inv c \<Longrightarrow> con_step c (lf c)"
  by (simp add: con_step_def con_inv_def lf_ok lf_frame)

lemma lf_cr_step: "con_inv c \<Longrightarrow> con_step c (cr (lf c))"
  using lf_step [of c] cr_ok [of "lf c"] by (blast intro: con_step_trans con_step_inv)

lemma tab_ok:
  assumes "con_inv c"
  shows "con_step c (tab c)"
proof -
  define off where "off = 8 - cx c mod 8"
  define c1 where "c1 = c\<lparr>cx := w32 (cx c + off), pos := w32 (pos c + off * 2)\<rparr>"
  have "con_ok 88 c1" using assms by (auto simp: c1_def off_def con_inv_def con_ok_def)
  from wrap_ok [OF this] have "con_ok 79 (wrap c1)" "vm_frame c1 (wrap c1)" by auto
  moreover have "vm_frame c c1" by (simp add: c1_def vm_frame_same)
  moreover have "tab c = wrap c1" by (simp add: tab_def c1_def off_def Let_def)
  ultimately show ?thesis
    by (auto simp: con_step_def con_inv_def intro: con_ok_col vm_frame_trans simp: con_ok_def)
qed

lemma bs_ok: "con_inv c \<Longrightarrow> con_step c (bs c)"
  by (auto simp: bs_def con_step_def con_inv_def con_ok_def vm_frame_def in_video_def store16_def
      Let_def)

lemma del_ok: "con_inv c \<Longrightarrow> con_step c (del c)"
  by (auto simp: del_def con_step_def con_inv_def con_ok_def vm_frame_def in_video_def store16_def)

lemma chr_ok:
  assumes "con_inv c"
  shows "con_step c (chr c ch)"
proof -
  define c1 where "c1 = wrap c"
  have c1: "con_ok 79 c1" "vm_frame c c1"
    using assms wrap_ok [of 80 c] by (auto simp: con_inv_def c1_def)
  have eq: "chr c ch = c1\<lparr>vmem := (vmem c1)(pos c1 := ch, pos c1 + 1 := style c1),
      pos := w32 (pos c1 + 2), cx := w32 (cx c1 + 1)\<rparr>"
    by (simp add: chr_def c1_def Let_def)
  have "con_inv (chr c ch)" using c1(1) by (auto simp: eq con_inv_def con_ok_def)
  moreover have "vm_frame c1 (chr c ch)"
    using c1(1) by (auto simp: eq con_ok_def vm_frame_def in_video_def)
  ultimately show ?thesis using c1(2) by (auto simp: con_step_def intro: vm_frame_trans)
qed

lemma con_step_same: "con_inv c' \<Longrightarrow> vmem c' = vmem c \<Longrightarrow> con_step c c'"
  by (simp add: con_step_def vm_frame_same)

lemma state_normal_ok: "con_inv c \<Longrightarrow> con_step c (state_normal c ch)"
  by (auto simp: state_normal_def start_beep_def con_inv_def [of "_\<lparr>cst := _\<rparr>"]
      con_inv_def [of "_\<lparr>cio := _\<rparr>"] con_inv_def [of c]
      intro!: bs_ok tab_ok lf_cr_step lf_step cr_ok del_ok chr_ok con_step_same)

lemma set_xy_ok: "con_inv c \<Longrightarrow> con_step c (set_xy c x y)"
  by (auto simp: set_xy_def con_inv_def con_ok_def intro!: con_step_same)

lemma save_cursor_ok: "con_inv c \<Longrightarrow> con_step c (save_cursor c)"
  by (auto simp: save_cursor_def con_inv_def con_ok_def intro!: con_step_same)

lemma con_step_refl: "con_inv c \<Longrightarrow> con_step c c"
  by (simp add: con_step_same)

lemma cst_step: "con_inv c \<Longrightarrow> con_step c (c\<lparr>cst := s\<rparr>)"
  by (rule con_step_same) (simp_all add: con_inv_def)

lemma state_esc_ok: "con_inv c \<Longrightarrow> con_step c (state_esc c ch)"
  by (auto simp: state_esc_def
      intro!: cst_step lf_cr_step lf_step save_cursor_ok set_xy_ok con_step_refl)

lemma state_arg_ok: "con_inv c \<Longrightarrow> con_step c (snd (state_arg c ch))"
  by (auto simp: state_arg_def ARG_NR_def con_inv_def con_ok_def intro!: con_step_same)

lemma con_step_erase:
  assumes "con_inv c" and "753664 \<le> start" and "start + 2 * n \<le> 769984"
  shows "con_step c (erase_screen c start n)"
  using assms by (simp add: con_step_def con_inv_def erase_frame)

lemma csi_J_ok: "con_inv c \<Longrightarrow> con_step c (csi_J c)"
  unfolding csi_J_def
  by (auto simp: con_inv_def con_ok_def intro!: con_step_erase con_step_refl)

lemma csi_K_ok: "con_inv c \<Longrightarrow> con_step c (csi_K c)"
  unfolding csi_K_def
  by (auto simp: con_inv_def con_ok_def intro!: con_step_erase con_step_refl)

subsection \<open>Operations with loops\<close>

text \<open>\<open>con_opt c r\<close>: \<open>r\<close> returns, and what it returns is a step from \<open>c\<close>.\<close>

definition con_opt :: "console \<Rightarrow> console option \<Rightarrow> bool" where
  "con_opt c r \<longleftrightarrow> (\<exists>c'. r = Some c' \<and> con_step c c')"

lemma con_opt_Some [simp]: "con_opt c (Some c') = con_step c c'"
  by (simp add: con_opt_def)

lemma con_opt_bind: "con_opt c r \<Longrightarrow> (\<And>c'. con_step c c' \<Longrightarrow> con_opt c' (f c')) \<Longrightarrow> con_opt c (r \<bind> f)"
  by (fastforce simp: con_opt_def intro: con_step_trans)

lemma repeat_ok:
  assumes "\<And>c. con_inv c \<Longrightarrow> con_opt c (f c)"
  shows "con_inv c \<Longrightarrow> con_opt c (repeat_op n f c)"
  by (induction n arbitrary: c) (auto intro!: con_opt_bind assms con_step_refl dest: con_step_inv)

lemma con_step_copy:
  assumes "con_inv c" and "753664 \<le> dst" and "dst + n \<le> 769984"
  shows "con_step c (c\<lparr>vmem := memcpy_loop n (vmem c) dst src\<rparr>)"
  using assms by (simp add: con_step_def con_inv_def copy_frame)

text \<open>The rows are copied down from the last one, \<open>i = 2\<close>, until the row before \<open>start\<close>; there
  are 102 rows of video memory, so \<open>i\<close> never passes 103.\<close>

lemma insert_line_loop_ok:
  assumes "con_inv c" and "753664 \<le> start" and "2 \<le> i" and "i \<le> 103"
  shows "con_opt c (insert_line_loop c start i)"
  using assms
proof (induction "103 - i" arbitrary: c i)
  case 0
  then have "insert_line_loop c start i = Some c"
    by (simp add: insert_line_loop.simps [of c] Let_def con_inv_def con_ok_def)
  with "0.prems" show ?case by (simp add: con_step_refl)
next
  case (Suc k)
  have c: "mem_end c = 769984" "row_size c = 160"
    using Suc.prems by (simp_all add: con_inv_def con_ok_def)
  define src where "src = 769984 - i * 160"
  have src: "w32_sub 769984 (i * 160) = src" using Suc.hyps(2) by (simp add: src_def)
  show ?case
  proof (cases "src < start")
    case True
    with Suc.prems c src show ?thesis
      by (simp add: insert_line_loop.simps [of c] Let_def con_step_refl)
  next
    case False
    define c' where "c' = c\<lparr>vmem := memcpy_loop 160 (vmem c) (src + 160) src\<rparr>"
    have st: "con_step c c'"
      unfolding c'_def using Suc.prems False by (intro con_step_copy) (auto simp: src_def)
    have "con_opt c' (insert_line_loop c' start (i + 1))"
      using Suc.prems Suc.hyps(2) st by (intro Suc.hyps(1)) (auto dest: con_step_inv)
    moreover have "insert_line_loop c start i = insert_line_loop c' start (i + 1)"
      using False c src by (simp add: insert_line_loop.simps [of c] Let_def c'_def)
    ultimately show ?thesis using st by (auto simp: con_opt_def intro: con_step_trans)
  qed
qed

lemma row_start:
  assumes "con_inv c"
  shows "753664 \<le> w32 (screen c + cy c * row_size c)" and
    "w32 (screen c + cy c * row_size c) \<le> 769824"
  using assms by (auto simp: con_inv_def con_ok_def)

lemma con_step_erase_row:
  assumes "con_inv c" and "753664 \<le> start" and "start \<le> 769824"
  shows "con_step c (erase_screen c start (cwidth c))"
  using assms by (intro con_step_erase) (auto simp: con_inv_def con_ok_def)

lemma insert_line_ok: "con_inv c \<Longrightarrow> con_opt c (insert_line c)"
  unfolding insert_line_def
  by (rule con_opt_bind) (auto intro!: insert_line_loop_ok con_step_erase_row row_start dest: con_step_inv)

lemma delete_line_loop_ok:
  assumes "con_inv c" and "753664 \<le> start" and "1 \<le> i" and "i \<le> 52"
  shows "con_opt c (delete_line_loop c start i)"
  using assms
proof (induction "52 - i" arbitrary: c i)
  case 0
  then have "delete_line_loop c start i = Some c"
    by (simp add: delete_line_loop.simps [of c] Let_def con_inv_def con_ok_def)
  with "0.prems" show ?case by (simp add: con_step_refl)
next
  case (Suc k)
  have c: "mem_end c = 769984" "row_size c = 160"
    using Suc.prems by (simp_all add: con_inv_def con_ok_def)
  define src where "src = start + 2 * (i * 160)"
  show ?case
  proof (cases "src \<ge> 769984")
    case True
    with Suc.prems c show ?thesis
      by (simp add: delete_line_loop.simps [of c] Let_def con_step_refl src_def)
  next
    case False
    define c' where "c' = c\<lparr>vmem := memcpy_loop 160 (vmem c) (src - 160) src\<rparr>"
    have st: "con_step c c'"
      unfolding c'_def using Suc.prems False by (intro con_step_copy) (auto simp: src_def)
    have "con_opt c' (delete_line_loop c' start (i + 1))"
      using Suc.prems Suc.hyps(2) st by (intro Suc.hyps(1)) (auto dest: con_step_inv)
    moreover have "delete_line_loop c start i = delete_line_loop c' start (i + 1)"
      using False c by (simp add: delete_line_loop.simps [of c] Let_def c'_def src_def)
    ultimately show ?thesis using st by (auto simp: con_opt_def intro: con_step_trans)
  qed
qed

lemma delete_line_ok: "con_inv c \<Longrightarrow> con_opt c (delete_line c)"
  unfolding delete_line_def
proof (rule con_opt_bind)
  fix c' assume "con_step c c'"
  then have "con_inv c'" by (rule con_step_inv)
  then show "con_opt c' (Some (erase_screen c' (w32_sub (mem_end c') (row_size c')) (cwidth c')))"
    using con_step_erase_row [of c' 769824] by (simp add: con_inv_def con_ok_def)
qed (auto intro!: delete_line_loop_ok row_start)

lemma shift_left_outside:
  "a < p \<or> p + 2 * n \<le> a \<Longrightarrow> shift_left n m p a = m a"
  by (induction n arbitrary: m p) auto

lemma shift_right_outside:
  "2 * n \<le> p \<Longrightarrow> a < p + 2 - 2 * n \<or> p + 2 \<le> a \<Longrightarrow> shift_right n m p a = m a"
proof (induction n arbitrary: m p)
  case (Suc n)
  have "shift_right n (m(p := m (p - 2), p + 1 := m (p - 1))) (p - 2) a =
      (m(p := m (p - 2), p + 1 := m (p - 1))) a"
    by (rule Suc.IH) (use Suc.prems in auto)
  with Suc.prems show ?case by auto
qed simp

lemma con_step_vmem:
  assumes "con_inv c" and "\<And>a. \<not> in_video a \<Longrightarrow> m a = vmem c a"
  shows "con_step c (c\<lparr>vmem := m\<rparr>)"
  using assms by (simp add: con_step_def con_inv_def vm_frame_def)

lemma delete_char_ok: "con_inv c \<Longrightarrow> con_step c (delete_char c)"
  unfolding delete_char_def Let_def
  by (rule con_step_vmem)
    (auto simp: in_video_def store16_def shift_left_outside con_inv_def con_ok_def)

lemma insert_char_ok: "con_inv c \<Longrightarrow> con_step c (insert_char c)"
  unfolding insert_char_def Let_def
  by (rule con_step_vmem)
    (auto simp: in_video_def shift_right_outside con_inv_def con_ok_def)

lemma csi_repeat_ok:
  "con_inv c \<Longrightarrow> con_opt c (csi_L c)" "con_inv c \<Longrightarrow> con_opt c (csi_M c)"
  "con_inv c \<Longrightarrow> con_opt c (csi_P c)" "con_inv c \<Longrightarrow> con_opt c (csi_at c)"
  by (simp_all add: csi_L_def csi_M_def csi_P_def csi_at_def repeat_ok insert_line_ok
      delete_line_ok delete_char_ok insert_char_ok)

lemma csi_m_ok: "con_inv c \<Longrightarrow> con_step c (csi_m c)"
  by (rule con_step_same) (simp_all add: csi_m_def Let_def con_inv_def con_ok_def)

lemma arg_ok [simp]: "con_inv (arg_dec i c) = con_inv c" "con_inv (arg_inc c) = con_inv c"
  by (simp_all add: arg_dec_def arg_inc_def con_inv_def con_ok_def)

lemma arg_vmem [simp]: "vmem (arg_dec i c) = vmem c" "vmem (arg_inc c) = vmem c"
  by (simp_all add: arg_dec_def arg_inc_def)

lemma con_step_via:
  assumes "con_step c' d" and "vmem c' = vmem c"
  shows "con_step c d"
  using assms by (simp add: con_step_def vm_frame_def)

lemma con_opt_via:
  assumes "con_opt c' r" and "vmem c' = vmem c"
  shows "con_opt c r"
  using assms by (auto simp: con_opt_def intro: con_step_via)

lemma set_xy_dec: "con_inv c \<Longrightarrow> con_step c (set_xy (arg_dec i c) x y)"
  by (rule con_step_via [of "arg_dec i c"]) (simp_all add: set_xy_ok)

lemma set_xy_dec2: "con_inv c \<Longrightarrow> con_step c (set_xy (arg_dec j (arg_dec i c)) x y)"
  by (rule con_step_via [of "arg_dec i c"]) (simp_all add: set_xy_dec)

lemma set_xy_inc: "con_inv c \<Longrightarrow> con_step c (set_xy (arg_inc c) x y)"
  by (rule con_step_via [of "arg_inc c"]) (simp_all add: set_xy_ok)

lemma set_xy_save: "con_inv c \<Longrightarrow> con_step c (set_xy (save_cursor c) x y)"
  by (rule con_step_trans [OF save_cursor_ok set_xy_ok]) (auto intro: con_step_inv save_cursor_ok)

lemma state_csi_ok:
  assumes "con_inv c"
  shows "con_opt c (state_csi c ch)"
proof -
  define d where "d = c\<lparr>cst := STATE_NOR\<rparr>"
  have d: "con_inv d" using assms by (simp add: d_def con_inv_def)
  have "con_opt d (state_csi c ch)"
    unfolding state_csi_def Let_def d_def [symmetric]
    using d by (simp add: csi_repeat_ok csi_J_ok csi_K_ok csi_m_ok set_xy_ok set_xy_dec set_xy_dec2
        set_xy_inc set_xy_save con_step_refl)
  then show ?thesis by (rule con_opt_via) (simp add: d_def)
qed

lemma arg_then_csi_ok: "con_inv c \<Longrightarrow> con_opt c (arg_then_csi c ch)"
  using state_arg_ok [of c ch] state_csi_ok [of "snd (state_arg c ch)" ch]
  by (auto simp: arg_then_csi_def split: prod.splits dest: con_step_inv)
    (auto simp: con_opt_def intro: con_step_trans dest: con_step_inv)

lemma console_byte_ok:
  assumes "con_inv c"
  shows "con_opt c (console_byte c ch)"
proof (cases "cst c")
  case STATE_QUE
  define d where "d = c\<lparr>cargs := replicate ARG_NR 0, cargc := 0, cst := STATE_ARG,
    ques := (ch = chr8 (CHR ''?''))\<rparr>"
  have d: "con_inv d" "vmem d = vmem c"
    using assms by (simp_all add: d_def con_inv_def con_ok_def ARG_NR_def)
  have "console_byte c ch = (if ques d then Some d else arg_then_csi d ch)"
    using STATE_QUE by (simp add: console_byte_def d_def Let_def)
  with d show ?thesis
    by (auto intro: con_step_same con_opt_via arg_then_csi_ok)
qed (use assms in \<open>simp_all add: console_byte_def state_normal_ok state_esc_ok arg_then_csi_ok
  state_csi_ok\<close>)

lemma write_loop_ok: "con_inv c \<Longrightarrow> con_opt c (write_loop c buf)"
  by (induction buf arbitrary: c)
    (auto simp: con_step_refl intro!: con_opt_bind console_byte_ok dest: con_step_inv)

lemma write_loop_append: "write_loop c (a @ b) = write_loop c a \<bind> (\<lambda>c. write_loop c b)"
  by (induction a arbitrary: c) (auto split: Option.bind_splits)

lemma console_write_ok:
  assumes "con_inv c"
  shows "\<exists>c'. console_write c buf = Some (length buf + 1, c') \<and> con_step c c'"
proof -
  from write_loop_ok [OF assms, of buf] obtain c' where
    "write_loop c buf = Some c'" "con_step c c'" by (auto simp: con_opt_def)
  moreover have "con_step c' (set_cursor c')"
    using \<open>con_step c c'\<close> by (intro con_step_same) (simp_all add: con_inv_def con_step_def)
  ultimately show ?thesis by (auto simp: console_write_def intro: con_step_trans)
qed

lemma console_init_ok:
  assumes "length (cargs c) = 16" and "cargc c \<le> 16" and "saved_x c = 0" and "saved_y c = 0"
  shows "con_step c (console_init c)"
proof -
  define d where "d = c\<lparr>mem_base := 753664, mem_size := 16320, mem_end := 769984, cwidth := 80,
    cheight := 25, row_size := 160, scr_size := 4000, erase := 0x0720, style := 7,
    screen := 753664, pos := 753664, cx := 0, cy := 0\<rparr>"
  have d: "con_inv d" using assms by (simp add: d_def con_inv_def con_ok_def)
  have "console_init c = erase_screen (set_screen (set_cursor d)) 753664 8160"
    by (simp add: console_init_def console_clear_def Let_def d_def set_cursor_def set_screen_def outb_def)
  moreover have "con_step (set_screen (set_cursor d)) \<dots>"
    by (rule con_step_erase) (use d in \<open>simp_all add: con_inv_def\<close>)
  ultimately show ?thesis by (auto intro: con_step_via simp: d_def)
qed

section \<open>What is on the screen\<close>

text \<open>The abstract screen: the character and attribute shown in row \<open>r\<close>, column \<open>x\<close>.\<close>

definition cell :: "console \<Rightarrow> nat \<Rightarrow> nat \<Rightarrow> u8 \<times> u8" where
  "cell c r x = (vmem c (screen c + 160 * r + 2 * x), vmem c (screen c + 160 * r + 2 * x + 1))"

definition blank :: "console \<Rightarrow> u8 \<times> u8" where
  "blank c = (ucast (erase c), ucast (drop_bit 8 (erase c)))"

lemma erase_loop_at:
  "i < n \<Longrightarrow> erase_loop n m p v (p + 2 * i) = ucast v \<and>
    erase_loop n m p v (p + 2 * i + 1) = ucast (drop_bit 8 v)"
proof (induction n arbitrary: m p i)
  case (Suc n)
  show ?case
  proof (cases i)
    case 0
    then show ?thesis by (auto simp: erase_loop_outside store16_def)
  next
    case (Suc j)
    with Suc.prems Suc.IH [of j "store16 m p v" "p + 2"] show ?thesis by simp
  qed
qed simp

lemma cell_set_screen [simp]: "cell (set_screen c) = cell c"
  by (simp add: cell_def fun_eq_iff set_screen_def outb_def Let_def)

text \<open>Scrolling: rows 1 to 24 move up by one and row 24 is blank, whether the screen only moves
  on in video memory or is first copied back to its beginning.\<close>

lemma scroll_up_cells:
  assumes "con_ok n c" and "r < 25" and "x < 80"
  shows "cell (scroll_up c) r x = (if r < 24 then cell c (r + 1) x else blank c)"
proof (cases "screen c + 4160 \<ge> 769984")
  case True
  define m where "m = memcpy_loop 4000 (vmem c) 753664 (screen c)"
  have m: "m (753664 + i) = vmem c (screen c + i)" if "i < 4000" for i
    using that True by (auto simp: m_def memcpy_loop_eq mwrite_apply)
  have "cell (scroll_up c) r x = (let a = 753664 + (160 * (r + 1) + 2 * x)
      in (erase_loop 80 m 757664 (erase c) a, erase_loop 80 m 757664 (erase c) (a + 1)))"
    using assms True by (simp add: scroll_up_def con_ok_def Let_def cell_def erase_screen_def m_def
        set_screen_def outb_def add.assoc)
  also have "\<dots> = (if r < 24 then cell c (r + 1) x else blank c)"
  proof (cases "r < 24")
    case True
    have "160 * (r + 1) + 2 * x + 1 < 4000" using True assms by simp
    then show ?thesis
      using m [of "160 * (r + 1) + 2 * x"] m [of "160 * (r + 1) + 2 * x + 1"] True
      by (simp add: erase_loop_outside cell_def Let_def ac_simps)
  next
    case False
    with assms have r: "r = 24" by simp
    with erase_loop_at [of x 80 m 757664 "erase c"] assms show ?thesis
      by (simp add: blank_def Let_def ac_simps)
  qed
  finally show ?thesis .
next
  case False
  have "cell (scroll_up c) r x = (let a = screen c + 160 * (r + 1) + 2 * x; b = screen c + 4000
      in (erase_loop 80 (vmem c) b (erase c) a, erase_loop 80 (vmem c) b (erase c) (a + 1)))"
    using assms False by (simp add: scroll_up_def con_ok_def Let_def cell_def erase_screen_def
        set_screen_def outb_def ac_simps)
  also have "\<dots> = (if r < 24 then cell c (r + 1) x else blank c)"
  proof (cases "r < 24")
    case True
    with assms show ?thesis by (simp add: erase_loop_outside cell_def Let_def)
  next
    case False
    with assms have r: "r = 24" by simp
    with erase_loop_at [of x 80 "vmem c" "screen c + 4000" "erase c"] assms show ?thesis
      by (simp add: blank_def Let_def ac_simps)
  qed
  finally show ?thesis .
qed

text \<open>A byte that \<open>state_normal\<close> prints.\<close>

definition printable :: "u8 \<Rightarrow> bool" where
  "printable ch \<longleftrightarrow> ch \<notin> {0, 0x07, 0x08, 0x09, 0x0A, 0x0B, 0x0C, 0x0D, 0x7F, 0x1B}"

lemma state_normal_printable: "printable ch \<Longrightarrow> state_normal c ch = chr c ch"
  by (simp add: printable_def state_normal_def)

lemma grid_eq:
  fixes r q x y :: nat
  assumes "x < 80" and "y < 80"
  shows "160 * r + 2 * x = 160 * q + 2 * y \<longleftrightarrow> r = q \<and> x = y"
proof
  assume eq: "160 * r + 2 * x = 160 * q + 2 * y"
  have "(160 * r + 2 * x) div 160 = r" "(160 * q + 2 * y) div 160 = q" using assms by simp_all
  with eq show "r = q \<and> x = y" by simp
qed simp

lemma grid_parity: "160 * r + 2 * x \<noteq> Suc (160 * q + 2 * y)" for r q x y :: nat
  by presburger

lemma chr_in_row:
  assumes "con_inv c" and "cx c < 80"
  shows "chr c ch = c\<lparr>vmem := (vmem c)(pos c := ch, pos c + 1 := style c),
    pos := pos c + 2, cx := cx c + 1\<rparr>"
  using assms by (simp add: chr_def wrap_def con_inv_def con_ok_def)

text \<open>A text that fits on the rest of the row is shown there, in the current style; the other
  cells keep what they show.\<close>

lemma write_text:
  assumes "con_inv c" and "cst c = STATE_NOR" and "list_all printable s" and "cx c + length s \<le> 80"
  shows "\<exists>c'. write_loop c s = Some c' \<and> con_inv c' \<and> cst c' = STATE_NOR \<and>
    cx c' = cx c + length s \<and> cy c' = cy c \<and> screen c' = screen c \<and>
    (\<forall>r < 25. \<forall>x < 80. cell c' r x =
      (if r = cy c \<and> cx c \<le> x \<and> x < cx c + length s then (s ! (x - cx c), style c) else cell c r x)) \<and>
    style c' = style c"
  using assms
proof (induction s arbitrary: c)
  case Nil
  then show ?case by auto
next
  case (Cons ch s)
  define d where "d = chr c ch"
  have d: "d = c\<lparr>vmem := (vmem c)(pos c := ch, pos c + 1 := style c), pos := pos c + 2, cx := cx c + 1\<rparr>"
    unfolding d_def using Cons.prems by (intro chr_in_row) auto
  have b: "console_byte c ch = Some d"
    using Cons.prems by (simp add: console_byte_def state_normal_printable d_def)
  have inv: "con_inv d" using Cons.prems(1) chr_ok by (auto simp: d_def dest: con_step_inv)
  have cellc: "cell d r x = (if r = cy c \<and> x = cx c then (ch, style c) else cell c r x)"
    if "r < 25" "x < 80" for r x
    using Cons.prems that grid_eq [of x "cx c" r "cy c"] grid_parity [of r x "cy c" "cx c"]
      grid_parity [of "cy c" "cx c" r x]
    by (auto simp: d cell_def con_inv_def con_ok_def)
  obtain c' where c': "write_loop d s = Some c'" "con_inv c'" "cst c' = STATE_NOR"
    "cx c' = cx d + length s" "cy c' = cy d" "screen c' = screen d" "style c' = style d"
    "\<forall>r < 25. \<forall>x < 80. cell c' r x =
      (if r = cy d \<and> cx d \<le> x \<and> x < cx d + length s then (s ! (x - cx d), style d) else cell d r x)"
    using Cons.IH [of d] inv Cons.prems by (auto simp: d)
  have "cell c' r x = (if r = cy c \<and> cx c \<le> x \<and> x < cx c + length (ch # s)
      then ((ch # s) ! (x - cx c), style c) else cell c r x)" if "r < 25" "x < 80" for r x
    using c'(8) cellc [OF that] that by (auto simp: d nth_Cons')
  with c' b show ?case by (intro exI [of _ c']) (simp add: d)
qed

section \<open>Escape sequences\<close>

lemma chr8_codes [simp]:
  "chr8 (CHR ''['') = 0x5B" "chr8 (CHR '';'') = 0x3B" "chr8 (CHR ''?'') = 0x3F"
  "chr8 (CHR ''A'') = 0x41" "chr8 (CHR ''B'') = 0x42" "chr8 (CHR ''C'') = 0x43"
  "chr8 (CHR ''D'') = 0x44" "chr8 (CHR ''E'') = 0x45" "chr8 (CHR ''F'') = 0x46"
  "chr8 (CHR ''G'') = 0x47" "chr8 (CHR ''H'') = 0x48" "chr8 (CHR ''J'') = 0x4A"
  "chr8 (CHR ''K'') = 0x4B" "chr8 (CHR ''L'') = 0x4C" "chr8 (CHR ''M'') = 0x4D"
  "chr8 (CHR ''P'') = 0x50" "chr8 (CHR ''@'') = 0x40" "chr8 (CHR ''Z'') = 0x5A"
  "chr8 (CHR ''7'') = 0x37" "chr8 (CHR ''8'') = 0x38" "chr8 (CHR ''a'') = 0x61"
  "chr8 (CHR ''d'') = 0x64" "chr8 (CHR ''e'') = 0x65" "chr8 (CHR ''f'') = 0x66"
  "chr8 (CHR ''m'') = 0x6D" "chr8 (CHR ''r'') = 0x72" "chr8 (CHR ''s'') = 0x73"
  "chr8 (CHR ''u'') = 0x75"
  by (simp_all add: chr8_def)

lemma byte_arg_digits:
  assumes "cst c = STATE_ARG" and "cargc c < 16" and "length (cargs c) = 16"
    and "list_all is_digit8 s" and "dec_value (cargs c ! cargc c) s < 2147483648"
  shows "write_loop c s = Some (c\<lparr>cargs := (cargs c)[cargc c := dec_value (cargs c ! cargc c) s]\<rparr>)"
  using assms
proof (induction s arbitrary: c)
  case (Cons ch s)
  define v where "v = cargs c ! cargc c * 10 + (unat ch - 48)"
  have ch: "48 \<le> unat ch" "unat ch \<le> 57" using Cons.prems by (auto simp: is_digit8_def)
  have "v \<le> dec_value v s" by (rule dec_value_ge)
  with Cons.prems have v: "v < 2147483648" by (simp add: v_def)
  then have "w32_sub (cargs c ! cargc c * 10 + unat ch) 48 = v"
    using ch by (simp add: v_def)
  moreover have "ch \<noteq> 0x3B" using ch by auto
  ultimately have "console_byte c ch = Some (c\<lparr>cargs := (cargs c)[cargc c := v]\<rparr>)"
    using Cons.prems ch by (simp add: console_byte_def arg_then_csi_def state_arg_def ARG_NR_def)
  with Cons.IH [of "c\<lparr>cargs := (cargs c)[cargc c := v]\<rparr>"] Cons.prems show ?case
    by (simp add: v_def)
qed simp

lemma byte_que:
  assumes "cst c = STATE_QUE" and "ch \<noteq> 0x3F"
  shows "write_loop c (ch # s) = write_loop (c\<lparr>cargs := replicate 16 0, cargc := 0, cst := STATE_ARG,
    ques := False\<rparr>) (ch # s)"
  using assms by (simp add: console_byte_def Let_def ARG_NR_def)

lemma write_csi_H:
  assumes "con_inv c" and "cst c = STATE_NOR"
    and "list_all is_digit8 a" and "a \<noteq> []" and "dec_value 0 a < 2147483648"
    and "list_all is_digit8 b" and "dec_value 0 b < 2147483648"
    and "ra = dec_value 0 a - 1" and "cb = dec_value 0 b - 1"
  shows "\<exists>c'. write_loop c ([0x1B, 0x5B] @ a @ [0x3B] @ b @ [0x48]) = Some c' \<and>
    cst c' = STATE_NOR \<and> vmem c' = vmem c \<and> screen c' = screen c \<and>
    (cx c', cy c') = (if ra < 25 \<and> cb \<le> 80 then (cb, ra) else (cx c, cy c))"
proof -
  define c1 where "c1 = c\<lparr>cst := STATE_QUE\<rparr>"
  define c2 where "c2 = c\<lparr>cargs := replicate 16 0, cargc := 0, cst := STATE_ARG, ques := False\<rparr>"
  define c3 where "c3 = c2\<lparr>cargs := (replicate 16 0)[0 := dec_value 0 a]\<rparr>"
  define c4 where "c4 = c3\<lparr>cargc := 1\<rparr>"
  define c5 where "c5 = c4\<lparr>cargs := (cargs c4)[1 := dec_value 0 b]\<rparr>"
  have l: "write_loop c [0x1B, 0x5B] = Some c1"
    using assms(2) by (simp add: console_byte_def state_normal_def state_esc_def c1_def)
  obtain ch a' where a: "a = ch # a'" using assms(4) by (cases a) auto
  have "ch \<noteq> 0x3F" using assms(3) by (auto simp: a is_digit8_def)
  then have que: "write_loop c1 (a @ s) = write_loop c2 (a @ s)" for s
    using byte_que [of c1 ch "a' @ s"] by (simp add: a c1_def c2_def)
  have l2: "write_loop c2 a = Some c3"
    using assms byte_arg_digits [of c2 a] by (simp add: c2_def c3_def)
  have l3: "write_loop c3 [0x3B] = Some c4"
    by (simp add: c4_def c3_def c2_def console_byte_def arg_then_csi_def state_arg_def ARG_NR_def)
  have l4: "write_loop c4 b = Some c5"
    using assms byte_arg_digits [of c4 b] by (simp add: c2_def c3_def c4_def c5_def)
  have eq: "write_loop c ([0x1B, 0x5B] @ a @ [0x3B] @ b @ [0x48]) = console_byte c5 0x48"
    unfolding write_loop_append [of c "[0x1B, 0x5B]"] l Option.bind.bind_lunit que
      write_loop_append [of c2 a] l2 write_loop_append [of c3 "[0x3B]"] l3
      write_loop_append [of c4 b] l4
    by simp
  show ?thesis
    using assms unfolding eq
    by (auto simp: c5_def c4_def c3_def c2_def console_byte_def arg_then_csi_def state_arg_def
        ARG_NR_def state_csi_def Let_def arg_dec_def set_xy_def con_inv_def con_ok_def)
qed

section \<open>Properties\<close>

text \<open>C1. Whatever bytes are written to the console, in whatever pieces, \<open>console_write\<close> returns,
  its invariant holds again (the cursor is on the screen, \<open>pos\<close> is its address, the screen lies in
  the video memory), and no byte outside the video memory is changed. The value returned is one
  more than the number of bytes.\<close>

theorem console_write_safe:
  assumes "con_inv c"
  shows "\<exists>c'. console_write c buf = Some (length buf + 1, c') \<and> con_inv c' \<and>
    (\<forall>a. a < 0xB8000 \<or> 0xB8000 + 0x4000 div 160 * 160 \<le> a \<longrightarrow> vmem c' a = vmem c a)"
  using console_write_ok [OF assms, of buf]
  by (fastforce simp: con_step_def vm_frame_def in_video_def)

definition con_zero :: console where
  "con_zero = \<lparr>mem_base = 0, mem_size = 0, mem_end = 0, screen = 0, scr_size = 0, pos = 0, cx = 0,
     cy = 0, saved_x = 0, saved_y = 0, cwidth = 0, cheight = 0, row_size = 0, cst = STATE_NOR,
     cargs = replicate 16 0, cargc = 0, ques = False, erase = 0, style = 0, vmem = (\<lambda>_. 0), cio = []\<rparr>"

lemma con_init_zero: "con_inv (console_init con_zero)"
  using console_init_ok [of con_zero] by (simp add: con_zero_def con_step_def)

lemma con_init_state [simp]: "cst (console_init con_zero) = STATE_NOR"
  "cx (console_init con_zero) = 0" "cy (console_init con_zero) = 0"
  "screen (console_init con_zero) = 753664"
  by (simp_all add: console_init_def console_clear_def Let_def set_cursor_def set_screen_def outb_def
      erase_screen_def con_zero_def)

lemma console_write_safe_witness:
  "\<exists>c'. console_write (console_init con_zero) [0x1B, 0x5B, 0x4D, 65, 10] = Some (6, c') \<and> con_inv c'"
  using console_write_safe [OF con_init_zero, of "[0x1B, 0x5B, 0x4D, 65, 10]"] by auto

text \<open>C29. A line feed in the last row scrolls: in both branches of \<open>scroll_up\<close> (moving on in video
  memory, or copying the screen back to its beginning first) rows 1 to 24 are shown one row higher,
  the last row is blank, and the cursor keeps its row and column.\<close>

theorem line_feed_scrolls:
  assumes "con_inv c" and "cy c = 24" and "r < 25" and "x < 80"
  shows "cell (lf c) r x = (if r < 24 then cell c (r + 1) x else blank c) \<and>
    cy (lf c) = 24 \<and> cx (lf c) = cx c \<and> con_inv (lf c)"
proof -
  have "lf c = scroll_up c" using assms by (simp add: lf_def con_inv_def con_ok_def)
  with assms scroll_up_cells [of 80 c r x] lf_step [of c] show ?thesis
    by (simp add: con_inv_def con_step_def)
qed

lemma line_feed_scrolls_witness:
  "cell (lf ((console_init con_zero)\<lparr>cy := 24, pos := 757504\<rparr>)) 24 79 =
    blank ((console_init con_zero)\<lparr>cy := 24, pos := 757504\<rparr>)"
  using line_feed_scrolls [of "(console_init con_zero)\<lparr>cy := 24, pos := 757504\<rparr>" 24 79] con_init_zero
  by (simp add: con_inv_def con_ok_def)

text \<open>A text of printable bytes that fits on the rest of the current row is shown there in the
  current style, character by character; every other cell of the screen keeps what it shows and the
  cursor stands behind the text.\<close>

theorem console_shows_text:
  assumes "con_inv c" and "cst c = STATE_NOR" and "list_all printable s" and "cx c + length s \<le> 80"
  shows "\<exists>c'. console_write c s = Some (length s + 1, c') \<and>
    cx c' = cx c + length s \<and> cy c' = cy c \<and>
    (\<forall>r < 25. \<forall>x < 80. cell c' r x =
      (if r = cy c \<and> cx c \<le> x \<and> x < cx c + length s then (s ! (x - cx c), style c) else cell c r x))"
proof -
  have cur: "cx (set_cursor d) = cx d" "cy (set_cursor d) = cy d" "cell (set_cursor d) = cell d" for d
    by (simp_all add: set_cursor_def outb_def Let_def cell_def fun_eq_iff)
  from write_text [OF assms] show ?thesis by (auto simp: console_write_def cur)
qed

lemma console_shows_text_witness:
  "\<exists>c'. console_write (console_init con_zero) [110, 101, 111] = Some (4, c') \<and> cx c' = 3 \<and>
    fst (cell c' 0 1) = 101"
  using console_shows_text [of "console_init con_zero" "[110, 101, 111]"] con_init_zero
  by (fastforce simp: printable_def)

text \<open>C30. The escape sequence \<open>ESC [ a ; b H\<close> with decimal numbers \<open>a\<close> and \<open>b\<close> moves the cursor to
  row \<open>a - 1\<close> and column \<open>b - 1\<close> (0 and 1 both mean the first), if that is on the screen, and leaves
  it alone otherwise; it shows nothing, and the console is back in its normal state.\<close>

theorem console_moves_cursor:
  assumes "con_inv c" and "cst c = STATE_NOR"
    and "list_all is_digit8 a" and "a \<noteq> []" and "dec_value 0 a < 2147483648"
    and "list_all is_digit8 b" and "dec_value 0 b < 2147483648"
  shows "\<exists>c'. write_loop c ([0x1B, 0x5B] @ a @ [0x3B] @ b @ [0x48]) = Some c' \<and>
    cst c' = STATE_NOR \<and> vmem c' = vmem c \<and> screen c' = screen c \<and>
    (cx c', cy c') = (if dec_value 0 a - 1 < 25 \<and> dec_value 0 b - 1 \<le> 80
      then (dec_value 0 b - 1, dec_value 0 a - 1) else (cx c, cy c))"
  by (rule write_csi_H [OF assms refl refl])

lemma console_moves_cursor_witness:
  "\<exists>c'. write_loop (console_init con_zero) [0x1B, 0x5B, 49, 50, 0x3B, 51, 0x48] = Some c' \<and>
    cx c' = 2 \<and> cy c' = 11"
  using console_moves_cursor [of "console_init con_zero" "[49, 50]" "[51]"] con_init_zero
  by (fastforce simp: is_digit8_def)

section \<open>Two behaviours to know\<close>

text \<open>\<open>state_esc\<close> goes back to the normal state on no byte but \<open>[\<close>: after \<open>ESC 7\<close> the console stays
  in the escape state, and a text that follows is not shown.\<close>

theorem esc_swallows_text:
  assumes "cst c = STATE_ESC" and "list_all (\<lambda>b. b \<notin> {0x5B, 0x45, 0x44, 0x37, 0x38}) s"
  shows "write_loop c s = Some c"
  using assms by (induction s) (auto simp: console_byte_def state_esc_def)

text \<open>\<open>delete_line\<close> is to remove the cursor's row, but its pointer arithmetic is on \<open>u16 *\<close>: what
  the row shows is not changed.\<close>

lemma delete_line_loop_keeps:
  assumes "row_size c = 160" and "1 \<le> i" and "delete_line_loop c start i = Some c'" and "a < start + 160"
  shows "vmem c' a = vmem c a \<and> screen c' = screen c \<and> mem_end c' = mem_end c \<and>
    row_size c' = row_size c \<and> cwidth c' = cwidth c"
  using assms
proof (induction "mem_end c - i" arbitrary: c i rule: less_induct)
  case less
  show ?case
  proof (cases "start + 2 * (i * 160) \<ge> mem_end c")
    case True
    with less.prems show ?thesis by (simp add: delete_line_loop.simps [of c] Let_def)
  next
    case False
    define d where "d = c\<lparr>vmem := memcpy_loop 160 (vmem c) (start + 2 * (i * 160) - 160)
      (start + 2 * (i * 160))\<rparr>"
    have "delete_line_loop d start (i + 1) = Some c'"
      using False less.prems by (simp add: delete_line_loop.simps [of c] Let_def d_def)
    moreover have "mem_end d - (i + 1) < mem_end c - i" using False less.prems by (simp add: d_def)
    moreover have "vmem d a = vmem c a"
      using less.prems by (auto simp: d_def memcpy_loop_outside)
    ultimately show ?thesis using less.hyps [of d "i + 1"] less.prems by (simp add: d_def)
  qed
qed

theorem delete_line_keeps_row:
  assumes "con_inv c" and "x < 80" and "delete_line c = Some c'"
  shows "cell c' (cy c) x = cell c (cy c) x"
proof -
  define start where "start = w32 (screen c + cy c * row_size c)"
  have start: "start = screen c + 160 * cy c" "start + 160 \<le> 769824"
    using assms(1) by (auto simp: start_def con_inv_def con_ok_def)
  obtain d where d: "delete_line_loop c start 1 = Some d"
    "c' = erase_screen d (w32_sub (mem_end d) (row_size d)) (cwidth d)"
    using assms(3) by (auto simp: delete_line_def start_def split: Option.bind_splits)
  have scr: "screen c' = screen c"
    using delete_line_loop_keeps [OF _ _ d(1), of 0] assms(1)
    by (simp add: d(2) con_inv_def con_ok_def erase_screen_def)
  have "vmem c' a = vmem c a" if "a < start + 160" for a
    using delete_line_loop_keeps [OF _ _ d(1) that] assms(1) start(2) that
    by (auto simp: d(2) con_inv_def con_ok_def erase_screen_def erase_loop_outside)
  from this [of "start + 2 * x"] this [of "start + 2 * x + 1"] show ?thesis
    using assms(2) start(1) scr by (simp add: cell_def)
qed

end
