(* ===== verification/TimeC.thy ===== *)
theory TimeC
  imports Stdlib
begin

text \<open>
  \<open>src/src/kernel/time.c\<close> (with the copy of \<open>localtime\<close> in \<open>src/src/lib/time.c\<close>) and the alarm of
  \<open>src/src/kernel/rtc.c\<close>: conversion between seconds since 1970 and the calendar, and reading and
  programming the CMOS clock. \<open>int\<close>s are \<open>int\<close>, a \<open>time_t\<close> is a \<open>u32\<close> kept as a \<open>nat\<close>.

  The reference is the Gregorian calendar, \<open>greg_seconds\<close>.
\<close>

section \<open>The code\<close>

record tm =
  tm_sec :: int
  tm_min :: int
  tm_hour :: int
  tm_mday :: int
  tm_mon :: int
  tm_year :: int
  tm_wday :: int
  tm_yday :: int
  tm_isdst :: int

definition MINUTE :: int where "MINUTE = 60"
definition HOUR :: int where "HOUR = 60 * MINUTE"
definition DAY :: int where "DAY = 24 * HOUR"
definition YEAR :: int where "YEAR = 365 * DAY"

text \<open>Days before each month of a leap year; entry 0 is a filler.\<close>

definition month :: "int list" where
  "month = [0, 0, 31, 31 + 29, 31 + 29 + 31, 31 + 29 + 31 + 30, 31 + 29 + 31 + 30 + 31,
     31 + 29 + 31 + 30 + 31 + 30, 31 + 29 + 31 + 30 + 31 + 30 + 31,
     31 + 29 + 31 + 30 + 31 + 30 + 31 + 31, 31 + 29 + 31 + 30 + 31 + 30 + 31 + 31 + 30,
     31 + 29 + 31 + 30 + 31 + 30 + 31 + 31 + 30 + 31,
     31 + 29 + 31 + 30 + 31 + 30 + 31 + 31 + 30 + 31 + 30]"

definition month_at :: "int \<Rightarrow> int option" where
  "month_at i = (if 0 \<le> i then aget month (nat i) else None)"

definition elapsed_leap_years :: "int \<Rightarrow> int" where
  "elapsed_leap_years year =
     cdiv (year - 1) 4 - cdiv (year - 1) 100 + cdiv (year + 299) 400 - cdiv (1970 - 1900) 4"

definition is_leap_year :: "int \<Rightarrow> bool" where
  "is_leap_year year \<longleftrightarrow>
     cmod year 4 = 0 \<and> cmod year 100 \<noteq> 0 \<or> cmod (year + 1900) 400 = 0"

text \<open>An \<open>int\<close> that is added to or stored in a \<open>time_t\<close>.\<close>

definition u32_of :: "int \<Rightarrow> nat" where
  "u32_of i = nat (i mod 4294967296)"

text \<open>The month loop of \<open>localtime\<close>: the first month whose start lies behind the day of the year.\<close>

fun month_loop :: "nat \<Rightarrow> int \<Rightarrow> int \<Rightarrow> int \<Rightarrow> int option" where
  "month_loop 0 mon offset yday = None"
| "month_loop (Suc fuel) mon offset yday =
     (if mon < 13
      then do {
        days \<leftarrow> month_at mon;
        if days - offset > yday then Some mon else month_loop fuel (mon + 1) offset yday }
      else Some mon)"

text \<open>The fields of the caller's \<open>tm\<close> are filled in; \<open>tm_isdst\<close> stays.\<close>

definition localtime :: "nat \<Rightarrow> tm \<Rightarrow> tm option" where
  "localtime stamp t = (
     let sec = int (stamp mod 60);
         remain = stamp div 60;
         min = int (remain mod 60);
         remain = remain div 60;
         hour = int (remain mod 24);
         days = remain div 24;
         wday = int (w32 (days + 4) mod 7);
         years = int (days div 365 + 70);
         offset = (if is_leap_year years then 0 else 1);
         days = u32_of (int days - elapsed_leap_years years);
         yday = int (days mod nat (366 - offset))
     in do {
       mon \<leftarrow> month_loop 13 1 offset yday;
       m \<leftarrow> month_at (mon - 1);
       Some (t\<lparr>tm_sec := sec, tm_min := min, tm_hour := hour, tm_wday := wday, tm_year := years,
         tm_yday := yday, tm_mon := mon - 1, tm_mday := yday - m + offset + 1\<rparr>) })"

definition year_of :: "tm \<Rightarrow> int" where
  "year_of t = (if tm_year t \<ge> 70 then tm_year t - 70 else tm_year t - 70 + 100)"

text \<open>\<open>YEAR * year\<close> and the sums with it are products and sums of C's \<open>int\<close>, which leave its range from the
  year 2039 on. The definition takes them in two's complement, as the machine does: the numbers are those
  before the cut, and the result is cut to the 32 bits of \<open>time_t\<close>.\<close>

definition mktime :: "tm \<Rightarrow> nat option" where
  "mktime t = (
     let year = year_of t;
         res = YEAR * year;
         res = res + DAY * cdiv (year + 1) 4
     in do {
       m \<leftarrow> month_at (tm_mon t);
       let res = res + m * DAY;
       let res = (if tm_mon t > 2 \<and> cmod (year + 2) 4 \<noteq> 0 then res - DAY else res);
       let res = res + DAY * (tm_mday t - 1);
       let res = res + HOUR * tm_hour t;
       let res = res + MINUTE * tm_min t;
       let res = res + tm_sec t;
       Some (u32_of res) })"

definition get_yday :: "tm \<Rightarrow> int option" where
  "get_yday t = do {
     m \<leftarrow> month_at (tm_mon t);
     let res = m + tm_mday t;
     let year = year_of t;
     Some (if cmod (year + 2) 4 \<noteq> 0 \<and> tm_mon t > 2 then res - 1 else res) }"

subsection \<open>The CMOS clock\<close>

text \<open>The hardware: \<open>cmos k reg\<close> is what the \<open>k\<close>-th read access answers for register \<open>reg\<close>. A
  read counts the accesses; a write is recorded.\<close>

record rtc =
  reads :: nat
  writes :: "(u8 \<times> u8) list"

definition CMOS_SECOND :: u8 where "CMOS_SECOND = 0x00"
definition CMOS_MINUTE :: u8 where "CMOS_MINUTE = 0x02"
definition CMOS_HOUR :: u8 where "CMOS_HOUR = 0x04"
definition CMOS_WEEKDAY :: u8 where "CMOS_WEEKDAY = 0x06"
definition CMOS_DAY :: u8 where "CMOS_DAY = 0x07"
definition CMOS_MONTH :: u8 where "CMOS_MONTH = 0x08"
definition CMOS_YEAR :: u8 where "CMOS_YEAR = 0x09"
definition CMOS_CENTURY :: u8 where "CMOS_CENTURY = 0x32"

definition cmos_read :: "(nat \<Rightarrow> u8 \<Rightarrow> u8) \<Rightarrow> u8 \<Rightarrow> rtc \<Rightarrow> u8 \<times> rtc" where
  "cmos_read cmos reg r = (cmos (reads r) reg, r\<lparr>reads := reads r + 1\<rparr>)"

definition cmos_write :: "u8 \<Rightarrow> u8 \<Rightarrow> rtc \<Rightarrow> rtc" where
  "cmos_write reg v r = r\<lparr>writes := writes r @ [(reg, v)]\<rparr>"

text \<open>The fields in the order they are read; all are BCD numbers still.\<close>

record bcd_time =
  b_sec :: u8
  b_min :: u8
  b_hour :: u8
  b_wday :: u8
  b_mday :: u8
  b_mon :: u8
  b_year :: u8
  b_century :: u8

definition read_round :: "(nat \<Rightarrow> u8 \<Rightarrow> u8) \<Rightarrow> rtc \<Rightarrow> bcd_time \<times> rtc" where
  "read_round cmos r = (
     let (s, r) = cmos_read cmos CMOS_SECOND r;
         (mi, r) = cmos_read cmos CMOS_MINUTE r;
         (h, r) = cmos_read cmos CMOS_HOUR r;
         (wd, r) = cmos_read cmos CMOS_WEEKDAY r;
         (d, r) = cmos_read cmos CMOS_DAY r;
         (mo, r) = cmos_read cmos CMOS_MONTH r;
         (y, r) = cmos_read cmos CMOS_YEAR r;
         (c, r) = cmos_read cmos CMOS_CENTURY r
     in (\<lparr>b_sec = s, b_min = mi, b_hour = h, b_wday = wd, b_mday = d, b_mon = mo, b_year = y,
          b_century = c\<rparr>, r))"

partial_function (option) time_read_bcd ::
  "(nat \<Rightarrow> u8 \<Rightarrow> u8) \<Rightarrow> rtc \<Rightarrow> (bcd_time \<times> rtc) option" where
  "time_read_bcd cmos r = (
     let (t, r) = read_round cmos r;
         (s, r) = cmos_read cmos CMOS_SECOND r
     in if b_sec t \<noteq> s then time_read_bcd cmos r else Some (t, r))"

definition bcd_int :: "u8 \<Rightarrow> int" where
  "bcd_int b = int (unat (bcd_to_bin b))"

text \<open>The broken-down time and the century.\<close>

definition time_read :: "(nat \<Rightarrow> u8 \<Rightarrow> u8) \<Rightarrow> rtc \<Rightarrow> (tm \<times> int \<times> rtc) option" where
  "time_read cmos r = do {
     (t, r) \<leftarrow> time_read_bcd cmos r;
     let t' = \<lparr>tm_sec = bcd_int (b_sec t), tm_min = bcd_int (b_min t), tm_hour = bcd_int (b_hour t),
       tm_mday = bcd_int (b_mday t), tm_mon = bcd_int (b_mon t), tm_year = bcd_int (b_year t),
       tm_wday = bcd_int (b_wday t), tm_yday = 0, tm_isdst = 0\<rparr>;
     yday \<leftarrow> get_yday t';
     Some (t'\<lparr>tm_yday := yday, tm_isdst := - 1\<rparr>, bcd_int (b_century t), r) }"

text \<open>\<open>time_init\<close>: the startup time.\<close>

definition time_init :: "(nat \<Rightarrow> u8 \<Rightarrow> u8) \<Rightarrow> rtc \<Rightarrow> (nat \<times> rtc) option" where
  "time_init cmos r = do {
     (t, c, r) \<leftarrow> time_read cmos r;
     stamp \<leftarrow> mktime t;
     Some (stamp, r) }"

text \<open>\<open>set_alarm\<close> of \<open>rtc.c\<close>; the registers 1, 3 and 5 are those of the alarm.\<close>

definition ALARM_SECOND :: u8 where "ALARM_SECOND = 0x01"
definition ALARM_MINUTE :: u8 where "ALARM_MINUTE = 0x03"
definition ALARM_HOUR :: u8 where "ALARM_HOUR = 0x05"
definition CMOS_B :: u8 where "CMOS_B = 0x0b"
definition CMOS_C :: u8 where "CMOS_C = 0x0c"

definition add_sec :: "tm \<Rightarrow> int \<Rightarrow> tm" where
  "add_sec t sec = (
     let t = t\<lparr>tm_sec := tm_sec t + sec\<rparr>
     in if tm_sec t \<ge> 60 then t\<lparr>tm_sec := cmod (tm_sec t) 60, tm_min := tm_min t + 1\<rparr> else t)"

definition add_min :: "tm \<Rightarrow> int \<Rightarrow> tm" where
  "add_min t mi = (
     let t = t\<lparr>tm_min := tm_min t + mi\<rparr>
     in if tm_min t \<ge> 60 then t\<lparr>tm_min := cmod (tm_min t) 60, tm_hour := tm_hour t + 1\<rparr> else t)"

definition add_hour :: "tm \<Rightarrow> int \<Rightarrow> tm" where
  "add_hour t hour = (
     let t = t\<lparr>tm_hour := tm_hour t + hour\<rparr>
     in if tm_hour t \<ge> 24 then t\<lparr>tm_hour := cmod (tm_hour t) 24\<rparr> else t)"

definition alarm_at :: "tm \<Rightarrow> nat \<Rightarrow> tm" where
  "alarm_at t secs = (
     let sec = secs mod 60;
         secs = secs div 60;
         mi = secs mod 60;
         hour = secs div 60
     in add_hour (add_min (add_sec t (int sec)) (int mi)) (int hour))"

definition set_alarm :: "(nat \<Rightarrow> u8 \<Rightarrow> u8) \<Rightarrow> nat \<Rightarrow> rtc \<Rightarrow> rtc option" where
  "set_alarm cmos secs r = do {
     (t, c, r) \<leftarrow> time_read cmos r;
     let t = alarm_at t secs;
     let r = cmos_write ALARM_HOUR (bin_to_bcd (word_of_int (tm_hour t))) r;
     let r = cmos_write ALARM_MINUTE (bin_to_bcd (word_of_int (tm_min t))) r;
     let r = cmos_write ALARM_SECOND (bin_to_bcd (word_of_int (tm_sec t))) r;
     let r = cmos_write CMOS_B 0x22 r;
     Some (snd (cmos_read cmos CMOS_C r)) }"

section \<open>The calendar\<close>

definition greg_leap :: "nat \<Rightarrow> bool" where
  "greg_leap y \<longleftrightarrow> 4 dvd y \<and> (\<not> 100 dvd y \<or> 400 dvd y)"

definition greg_mlen :: "nat \<Rightarrow> nat \<Rightarrow> nat" where
  "greg_mlen y m = (if m = 2 then (if greg_leap y then 29 else 28)
     else if m \<in> {4, 6, 9, 11} then 30 else 31)"

definition greg_ylen :: "nat \<Rightarrow> nat" where
  "greg_ylen y = (if greg_leap y then 366 else 365)"

text \<open>Days from 1970-01-01 to the given day, and seconds to the given second.\<close>

definition greg_days :: "nat \<Rightarrow> nat \<Rightarrow> nat \<Rightarrow> nat" where
  "greg_days y m d = sum_list (map greg_ylen [1970..<y]) + sum_list (map (greg_mlen y) [1..<m]) + (d - 1)"

definition greg_seconds :: "nat \<Rightarrow> nat \<Rightarrow> nat \<Rightarrow> nat \<Rightarrow> nat \<Rightarrow> nat \<Rightarrow> nat" where
  "greg_seconds y m d h mi s = ((greg_days y m d * 24 + h) * 60 + mi) * 60 + s"

lemma greg_leap_table: "list_all (\<lambda>k. greg_leap (1970 + k) \<longleftrightarrow> (k + 2) mod 4 = 0) [0..<130]"
  by code_simp

lemma greg_leap_from: "k < 130 \<Longrightarrow> greg_leap (1970 + k) \<longleftrightarrow> (k + 2) mod 4 = 0"
  using greg_leap_table by (simp only: list_all_iff set_upt) auto

lemma greg_years_from:
  "k \<le> 130 \<Longrightarrow> sum_list (map greg_ylen [1970..<1970 + k]) = 365 * k + (k + 1) div 4"
proof (induction k)
  case (Suc k)
  have "(Suc k + 1) div 4 = (k + 1) div 4 + (if (k + 2) mod 4 = 0 then 1 else 0)" by presburger
  moreover have "[1970..<1970 + Suc k] = [1970..<1970 + k] @ [1970 + k]"
    using upt_Suc_append [of 1970 "1970 + k"] by simp
  ultimately show ?case
    using Suc greg_leap_from [of k] by (auto simp: greg_ylen_def [of "1970 + k"] simp del: upt_Suc)
qed simp

lemma greg_years:
  assumes "1970 \<le> y" and "y < 2100"
  shows "sum_list (map greg_ylen [1970..<y]) = 365 * (y - 1970) + (y - 1970 + 1) div 4"
    and "greg_leap y \<longleftrightarrow> (y - 1970 + 2) mod 4 = 0"
  using greg_years_from [of "y - 1970"] greg_leap_from [of "y - 1970"] assms by simp_all

lemma month_table:
  "list_all (\<lambda>m. month_at (int m) = Some (month ! m) \<and> 0 \<le> month ! m \<and> month ! m \<le> 335 \<and>
     (m < 12 \<longrightarrow> month ! (m + 1) = month ! m + (if m = 2 then 29 else if m \<in> {4, 6, 9, 11} then 30 else 31)))
   [1..<13]"
  by code_simp

lemma month_facts:
  assumes "1 \<le> m" and "m \<le> 12"
  shows "month_at (int m) = Some (month ! m)" and "month ! m \<le> 335"
    and "m < 12 \<Longrightarrow> month ! (m + 1) = month ! m + (if m = 2 then 29 else if m \<in> {4, 6, 9, 11} then 30 else 31)"
proof -
  have "m \<in> set [1..<13]" using assms by simp
  then show "month_at (int m) = Some (month ! m)" and "month ! m \<le> 335"
    and "m < 12 \<Longrightarrow> month ! (m + 1) = month ! m + (if m = 2 then 29 else if m \<in> {4, 6, 9, 11} then 30 else 31)"
    using month_table unfolding list_all_iff by blast+
qed

text \<open>The month table against the month lengths.\<close>

lemma greg_months:
  assumes "1 \<le> m" and "m \<le> 12"
  shows "int (sum_list (map (greg_mlen y) [1..<m])) = month ! m - (if m > 2 \<and> \<not> greg_leap y then 1 else 0)"
  using assms
proof (induction m)
  case (Suc m)
  show ?case
  proof (cases "m = 0")
    case True
    then show ?thesis by (simp add: month_def)
  next
    case False
    have "month ! Suc m = month ! m + (if m = 2 then 29 else if m \<in> {4, 6, 9, 11} then 30 else 31)"
      using month_facts(3) [of m] False Suc.prems by simp
    with Suc False show ?thesis by (auto simp: greg_mlen_def [of y m])
  qed
qed simp

lemma u32_of_nat [simp]: "u32_of (int n) = w32 n"
  by (simp add: u32_of_def w32_def nat_mod_distrib)

lemma greg_mlen_le: "greg_mlen y m \<le> 31"
  by (simp add: greg_mlen_def)

text \<open>A \<open>tm\<close> that stands for a date: the year as it is counted by \<open>mktime\<close>.\<close>

definition tm_is :: "tm \<Rightarrow> nat \<Rightarrow> nat \<Rightarrow> nat \<Rightarrow> nat \<Rightarrow> nat \<Rightarrow> nat \<Rightarrow> bool" where
  "tm_is t y m d h mi s \<longleftrightarrow> year_of t = int y - 1970 \<and> tm_mon t = int m \<and> tm_mday t = int d \<and>
     tm_hour t = int h \<and> tm_min t = int mi \<and> tm_sec t = int s \<and>
     1970 \<le> y \<and> y < 2100 \<and> 1 \<le> m \<and> m \<le> 12 \<and> 1 \<le> d \<and> d \<le> greg_mlen y m \<and> h < 24 \<and> mi < 60 \<and> s < 60"

lemma days_bound:
  assumes "1970 \<le> y" and "y < 2100" and "1 \<le> m" and "m \<le> 12" and "1 \<le> d" and "d \<le> greg_mlen y m"
  shows "greg_days y m d < 48000"
proof -
  have "int (sum_list (map (greg_mlen y) [1..<m])) \<le> 335"
    using greg_months [OF assms(3,4), of y] month_facts(2) [OF assms(3,4)] by auto
  moreover have "d \<le> 31" using assms(6) greg_mlen_le [of y m] by simp
  ultimately show ?thesis using assms by (simp add: greg_days_def greg_years)
qed

lemma days_int:
  assumes "1970 \<le> y" and "y < 2100" and "1 \<le> m" and "m \<le> 12" and "1 \<le> d"
  shows "int (greg_days y m d) = 365 * (int y - 1970) + (int y - 1970 + 1) div 4 + month ! m
    - (if m > 2 \<and> (int y - 1970 + 2) mod 4 \<noteq> 0 then 1 else 0) + (int d - 1)"
proof -
  have k: "int y - 1970 = int (y - 1970)" using assms by simp
  have "greg_leap y \<longleftrightarrow> (int y - 1970 + 2) mod 4 = 0"
    unfolding k greg_years(2) [OF assms(1,2)] by presburger
  then show ?thesis
    using assms greg_months [OF assms(3,4), of y]
    by (simp add: greg_days_def greg_years of_nat_diff zdiv_int)
qed

lemma mktime_seconds:
  assumes "tm_is t y m d h mi s"
  shows "mktime t = Some (greg_seconds y m d h mi s)"
proof -
  note a = assms [unfolded tm_is_def]
  have b: "greg_days y m d < 48000" using a days_bound by blast
  then have lt: "greg_seconds y m d h mi s < 4294967296"
    using a by (simp add: greg_seconds_def)
  define Y where "Y = year_of t"
  have Y: "int y = Y + 1970" using a by (simp add: Y_def)
  define late where "late = (tm_mon t > 2 \<and> (Y + 2) mod 4 \<noteq> 0)"
  have e: "int (greg_days y m d) = 365 * Y + (Y + 1) div 4 + month ! m
      - (if late then 1 else 0) + (int d - 1)"
    using a days_int [of y m d] by (simp add: Y late_def)
  have "mktime t = Some (u32_of (31536000 * Y + 86400 * ((Y + 1) div 4) + month ! m * 86400
      - (if late then 86400 else 0) + 86400 * (int d - 1) + 3600 * int h + 60 * int mi + int s))"
    using a month_facts(1) [of m]
    by (simp add: mktime_def Let_def YEAR_def DAY_def HOUR_def MINUTE_def Y_def [symmetric] late_def)
  also have "31536000 * Y + 86400 * ((Y + 1) div 4) + month ! m * 86400
      - (if late then 86400 else 0) + 86400 * (int d - 1) + 3600 * int h + 60 * int mi + int s
      = int (greg_seconds y m d h mi s)"
    by (simp add: greg_seconds_def e)
  finally have "mktime t = Some (u32_of (int (greg_seconds y m d h mi s)))" .
  with lt show ?thesis by simp
qed

section \<open>Day of the year, reading the clock, the alarm\<close>

lemma get_yday_day:
  assumes "tm_is t y m d h mi s"
  shows "get_yday t = Some (int (greg_days y m d) - int (greg_days y 1 1) + 1)"
proof -
  note a = assms [unfolded tm_is_def]
  have "get_yday t = Some (month ! m - (if m > 2 \<and> (int y - 1970 + 2) mod 4 \<noteq> 0 then 1 else 0) + int d)"
    using a month_facts(1) [of m] by (simp add: get_yday_def Let_def add.commute)
  moreover have "month ! 1 = 0" by (simp add: month_def)
  then have "int (greg_days y m d) - int (greg_days y 1 1) + 1 =
      month ! m - (if m > 2 \<and> (int y - 1970 + 2) mod 4 \<noteq> 0 then 1 else 0) + int d"
    using a days_int [of y m d] days_int [of y 1 1] by simp
  ultimately show ?thesis by simp
qed

definition to_bcd :: "nat \<Rightarrow> u8" where
  "to_bcd n = bin_to_bcd (of_nat n)"

lemma bcd_int_to_bcd: "n < 100 \<Longrightarrow> bcd_int (to_bcd n) = int n"
proof -
  assume n: "n < 100"
  then have "unat (of_nat n :: u8) = n" by (simp add: unat_of_nat)
  with n bcd_roundtrip [of "of_nat n"] show ?thesis by (simp add: bcd_int_def to_bcd_def)
qed

text \<open>A CMOS clock that stands still and shows a date; the year has two digits.\<close>

definition cmos_shows :: "(nat \<Rightarrow> u8 \<Rightarrow> u8) \<Rightarrow> nat \<Rightarrow> nat \<Rightarrow> nat \<Rightarrow> nat \<Rightarrow> nat \<Rightarrow> nat \<Rightarrow> bool" where
  "cmos_shows cmos y m d h mi s \<longleftrightarrow> (\<forall>k. cmos k CMOS_SECOND = to_bcd s \<and> cmos k CMOS_MINUTE = to_bcd mi \<and>
     cmos k CMOS_HOUR = to_bcd h \<and> cmos k CMOS_DAY = to_bcd d \<and> cmos k CMOS_MONTH = to_bcd m \<and>
     cmos k CMOS_YEAR = to_bcd (y mod 100))"

definition valid_date :: "nat \<Rightarrow> nat \<Rightarrow> nat \<Rightarrow> nat \<Rightarrow> nat \<Rightarrow> nat \<Rightarrow> bool" where
  "valid_date y m d h mi s \<longleftrightarrow> 1970 \<le> y \<and> y < 2070 \<and> 1 \<le> m \<and> m \<le> 12 \<and> 1 \<le> d \<and> d \<le> greg_mlen y m \<and>
     h < 24 \<and> mi < 60 \<and> s < 60"

lemma two_digit_year:
  assumes "1970 \<le> y" and "y < 2070"
  shows "(if int (y mod 100) \<ge> 70 then int (y mod 100) - 70 else int (y mod 100) - 70 + 100) = int y - 1970"
proof -
  have "list_all (\<lambda>k. (if int ((1970 + k) mod 100) \<ge> 70 then int ((1970 + k) mod 100) - 70
      else int ((1970 + k) mod 100) - 70 + 100) = int k) [0..<100]" by code_simp
  moreover have "y - 1970 \<in> set [0..<100]" using assms by simp
  ultimately have "(if int ((1970 + (y - 1970)) mod 100) \<ge> 70 then int ((1970 + (y - 1970)) mod 100) - 70
      else int ((1970 + (y - 1970)) mod 100) - 70 + 100) = int (y - 1970)"
    by (simp only: list_all_iff)
  moreover have "1970 + (y - 1970) = y" and "int (y - 1970) = int y - 1970" using assms by simp_all
  ultimately show ?thesis by (simp only:)
qed

lemma year_of_upd [simp]: "year_of (t\<lparr>tm_yday := a, tm_isdst := b\<rparr>) = year_of t"
  by (simp add: year_of_def)

lemma time_read_shows:
  assumes "cmos_shows cmos y m d h mi s" and "valid_date y m d h mi s"
  shows "\<exists>t c r'. time_read cmos r = Some (t, c, r') \<and> tm_is t y m d h mi s \<and>
    tm_yday t = int (greg_days y m d) - int (greg_days y 1 1) + 1 \<and> writes r' = writes r"
proof -
  obtain b r' where b: "time_read_bcd cmos r = Some (b, r')" "b_sec b = to_bcd s" "b_min b = to_bcd mi"
    "b_hour b = to_bcd h" "b_mday b = to_bcd d" "b_mon b = to_bcd m" "b_year b = to_bcd (y mod 100)"
    "writes r' = writes r"
    using assms(1)
    by (simp add: time_read_bcd.simps [of cmos r] read_round_def cmos_read_def cmos_shows_def Let_def)
  define t where "t = \<lparr>tm_sec = bcd_int (b_sec b), tm_min = bcd_int (b_min b), tm_hour = bcd_int (b_hour b),
    tm_mday = bcd_int (b_mday b), tm_mon = bcd_int (b_mon b), tm_year = bcd_int (b_year b),
    tm_wday = bcd_int (b_wday b), tm_yday = 0, tm_isdst = 0\<rparr>"
  note v = assms(2) [unfolded valid_date_def]
  have "d < 100" using v greg_mlen_le [of y m] by simp
  then have "tm_is t y m d h mi s"
    using v two_digit_year [of y]
    by (simp add: tm_is_def t_def b year_of_def bcd_int_to_bcd split: if_splits)
  moreover have "time_read cmos r = (get_yday t \<bind>
      (\<lambda>yday. Some (t\<lparr>tm_yday := yday, tm_isdst := - 1\<rparr>, bcd_int (b_century b), r')))"
    by (simp add: time_read_def b(1) t_def)
  ultimately show ?thesis
    using b(8) get_yday_day [of t y m d h mi s] by (simp add: tm_is_def)
qed

text \<open>The second of the day.\<close>

definition day_second :: "tm \<Rightarrow> int" where
  "day_second t = (tm_hour t * 60 + tm_min t) * 60 + tm_sec t"

definition in_day :: "tm \<Rightarrow> bool" where
  "in_day t \<longleftrightarrow> 0 \<le> tm_sec t \<and> tm_sec t < 60 \<and> 0 \<le> tm_min t \<and> tm_min t < 60 \<and>
     0 \<le> tm_hour t \<and> tm_hour t < 24"

lemma mod_sub: "n \<le> x \<Longrightarrow> x < 2 * n \<Longrightarrow> x mod n = x - n" for x n :: int
  by (metis diff_ge_0_iff_ge diff_less_eq minus_mod_self2 mod_pos_pos_trivial mult_2)

lemma add_sec_day:
  assumes "0 \<le> tm_sec t" "tm_sec t < 60" "0 \<le> s" "s < 60"
  shows "day_second (add_sec t s) = day_second t + s" and "0 \<le> tm_sec (add_sec t s)"
    and "tm_sec (add_sec t s) < 60" and "tm_min (add_sec t s) \<in> {tm_min t, tm_min t + 1}"
    and "tm_hour (add_sec t s) = tm_hour t"
  using assms mod_sub [of 60 "tm_sec t + s"] by (auto simp: add_sec_def Let_def day_second_def)

lemma add_min_day:
  assumes "0 \<le> tm_min t" "tm_min t \<le> 60" "0 \<le> m" "m < 60"
  shows "day_second (add_min t m) = day_second t + 60 * m" and "0 \<le> tm_min (add_min t m)"
    and "tm_min (add_min t m) < 60" and "tm_hour (add_min t m) \<in> {tm_hour t, tm_hour t + 1}"
    and "tm_sec (add_min t m) = tm_sec t"
  using assms mod_sub [of 60 "tm_min t + m"] by (auto simp: add_min_def Let_def day_second_def)

lemma add_hour_day:
  assumes "0 \<le> tm_hour t" "0 \<le> h"
  shows "tm_hour (add_hour t h) = (tm_hour t + h) mod 24"
    and "tm_sec (add_hour t h) = tm_sec t" and "tm_min (add_hour t h) = tm_min t"
  using assms by (auto simp: add_hour_def Let_def)

lemma alarm_at_day:
  assumes "in_day t"
  shows "in_day (alarm_at t secs)" and "day_second (alarm_at t secs) = (day_second t + int secs) mod 86400"
proof -
  define s where "s = int (secs mod 60)"
  define mi where "mi = int (secs div 60 mod 60)"
  define h where "h = int (secs div 60 div 60)"
  have r: "0 \<le> s" "s < 60" "0 \<le> mi" "mi < 60" "0 \<le> h" by (simp_all add: s_def mi_def h_def)
  have secs: "int secs = (h * 60 + mi) * 60 + s"
  proof -
    have "secs = (secs div 60 div 60 * 60 + secs div 60 mod 60) * 60 + secs mod 60"
      by (simp only: div_mult_mod_eq)
    from arg_cong [OF this, of int] show ?thesis by (simp only: of_nat_add of_nat_mult of_nat_numeral s_def mi_def h_def)
  qed
  define t1 where "t1 = add_sec t s"
  define t2 where "t2 = add_min t1 mi"
  have eq: "alarm_at t secs = add_hour t2 h"
    by (simp add: alarm_at_def Let_def t1_def t2_def s_def mi_def h_def)
  note t = assms [unfolded in_day_def]
  have t1: "day_second t1 = day_second t + s" "0 \<le> tm_sec t1" "tm_sec t1 < 60"
    "tm_min t1 \<in> {tm_min t, tm_min t + 1}" "tm_hour t1 = tm_hour t"
    unfolding t1_def using t r add_sec_day [of t s] by auto
  have t2: "day_second t2 = day_second t1 + 60 * mi" "0 \<le> tm_min t2" "tm_min t2 < 60"
    "tm_hour t2 \<in> {tm_hour t1, tm_hour t1 + 1}" "tm_sec t2 = tm_sec t1"
    unfolding t2_def using t r t1 add_min_day [of t1 mi] by auto
  have h2: "0 \<le> tm_hour t2" using t t1 t2 by auto
  note t3 = add_hour_day [OF h2 r(5)]
  show "in_day (alarm_at t secs)" using t1 t2 by (simp add: eq in_day_def t3)
  have "day_second t2 = day_second t + s + 60 * mi" using t1 t2 by simp
  then have "day_second t + int secs = (tm_hour t2 + h) * 3600 + (tm_min t2 * 60 + tm_sec t2)"
    by (simp add: secs day_second_def)
  moreover define A where "A = tm_hour t2 + h"
  moreover define B where "B = tm_min t2 * 60 + tm_sec t2"
  ultimately have X: "day_second t + int secs = A * 3600 + B" by simp
  have B: "0 \<le> B" "B < 3600" using t1 t2 by (auto simp: B_def)
  then have "(A * 3600 + B) div 3600 = A" "(A * 3600 + B) mod 3600 = B" by simp_all
  then have "(day_second t + int secs) mod 86400 = (A mod 24) * 3600 + B"
    using zmod_zmult2_eq [of 24 "A * 3600 + B" 3600] by (simp add: X)
  then have "(day_second t + int secs) mod 86400 =
      ((tm_hour t2 + h) mod 24) * 3600 + (tm_min t2 * 60 + tm_sec t2)"
    by (simp add: A_def B_def)
  then show "day_second (alarm_at t secs) = (day_second t + int secs) mod 86400"
    by (simp add: eq day_second_def t3)
qed

section \<open>The time of day of \<open>localtime\<close>\<close>

lemma month_loop_total:
  "1 \<le> mon \<Longrightarrow> mon \<le> 13 \<Longrightarrow> 14 \<le> mon + int fuel \<Longrightarrow>
   \<exists>r. month_loop fuel mon offset yday = Some r \<and> mon \<le> r \<and> r \<le> 13"
proof (induction fuel arbitrary: mon)
  case (Suc fuel)
  show ?case
  proof (cases "mon < 13")
    case True
    have "month_at mon = Some (month ! nat mon)"
      using month_facts(1) [of "nat mon"] True Suc.prems by simp
    moreover have "\<exists>r. month_loop fuel (mon + 1) offset yday = Some r \<and> mon + 1 \<le> r \<and> r \<le> 13"
      using True Suc.prems by (intro Suc.IH) auto
    ultimately show ?thesis using True by auto
  next
    case False
    with Suc.prems show ?thesis by auto
  qed
qed simp

lemma localtime_total:
  "\<exists>t'. localtime stamp t = Some t' \<and> tm_sec t' = int (stamp mod 60) \<and> tm_min t' = int (stamp div 60 mod 60) \<and>
    tm_hour t' = int (stamp div 60 div 60 mod 24) \<and> tm_wday t' = int (w32 (stamp div 60 div 60 div 24 + 4) mod 7)"
proof -
  define offset :: int where
    "offset = (if is_leap_year (int (stamp div 60 div 60 div 24 div 365 + 70)) then 0 else 1)"
  define yday where "yday = int (u32_of (int (stamp div 60 div 60 div 24) -
    elapsed_leap_years (int (stamp div 60 div 60 div 24 div 365 + 70))) mod nat (366 - offset))"
  have "month_at 1 = Some 0" by (simp add: month_at_def month_def)
  moreover have "0 \<le> offset" "0 \<le> yday" by (simp_all add: offset_def yday_def)
  ultimately have "month_loop 13 1 offset yday = month_loop 12 2 offset yday"
    by (simp add: month_loop.simps(2) [of 12, simplified])
  with month_loop_total [of 2 12 offset yday] obtain mon where
    mon: "month_loop 13 1 offset yday = Some mon" "2 \<le> mon" "mon \<le> 13" by auto
  have "month_at (mon - 1) = Some (month ! nat (mon - 1))"
    using month_facts(1) [of "nat (mon - 1)"] mon(2,3) by simp
  with mon(1) show ?thesis
    unfolding localtime_def Let_def offset_def [symmetric] yday_def [symmetric] by simp
qed

section \<open>Properties\<close>

text \<open>C31. On every valid date from 1970 to 2069, shown in BCD with a year of two digits by a CMOS
  clock that stands still, \<open>time_init\<close> computes the startup time of the Gregorian calendar: the
  number of seconds since 1970-01-01 00:00:00, in 32 bits without overflow.\<close>

theorem startup_time_gregorian:
  assumes "cmos_shows cmos y m d h mi s" and "valid_date y m d h mi s"
  shows "\<exists>r'. time_init cmos r = Some (greg_seconds y m d h mi s, r') \<and> writes r' = writes r \<and>
    greg_seconds y m d h mi s < 2 ^ 32"
proof -
  obtain t c r' where t: "time_read cmos r = Some (t, c, r')" "tm_is t y m d h mi s" "writes r' = writes r"
    using time_read_shows [OF assms] by blast
  moreover have "greg_days y m d < 48000"
    using t(2) by (intro days_bound) (auto simp: tm_is_def)
  ultimately show ?thesis
    using assms(2) by (auto simp: time_init_def mktime_seconds greg_seconds_def valid_date_def)
qed

definition cmos_2024 :: "nat \<Rightarrow> u8 \<Rightarrow> u8" where
  "cmos_2024 k reg = (if reg = CMOS_SECOND then 0x59 else if reg = CMOS_MINUTE then 0x34
     else if reg = CMOS_HOUR then 0x12 else if reg = CMOS_DAY then 0x29
     else if reg = CMOS_MONTH then 0x02 else if reg = CMOS_YEAR then 0x24 else 0)"

lemma cmos_2024_shows: "cmos_shows cmos_2024 2024 2 29 12 34 59"
proof -
  have "to_bcd 59 = 0x59" "to_bcd 34 = 0x34" "to_bcd 12 = 0x12" "to_bcd 29 = 0x29" "to_bcd 2 = 0x02"
    "to_bcd (2024 mod 100) = 0x24" by code_simp+
  then show ?thesis
    by (simp add: cmos_shows_def cmos_2024_def CMOS_SECOND_def CMOS_MINUTE_def CMOS_HOUR_def
        CMOS_DAY_def CMOS_MONTH_def CMOS_YEAR_def)
qed

lemma valid_2024: "valid_date 2024 2 29 12 34 59"
  by code_simp

lemma startup_time_gregorian_witness:
  "\<exists>r'. time_init cmos_2024 \<lparr>reads = 0, writes = []\<rparr> = Some (greg_seconds 2024 2 29 12 34 59, r')"
  using startup_time_gregorian [OF cmos_2024_shows valid_2024] by blast

text \<open>C32. \<open>set_alarm\<close> programs the alarm registers, in BCD, with the time of day that lies \<open>secs\<close>
  seconds after the one the clock shows, for every number of seconds: the carries from seconds to
  minutes to hours are right and the hour wraps around at midnight.\<close>

theorem set_alarm_time:
  assumes "cmos_shows cmos y m d h mi s" and "valid_date y m d h mi s"
  shows "\<exists>r' h' mi' s'. set_alarm cmos secs r = Some r' \<and>
    writes r' = writes r @ [(ALARM_HOUR, to_bcd h'), (ALARM_MINUTE, to_bcd mi'), (ALARM_SECOND, to_bcd s'),
      (CMOS_B, 0x22)] \<and> h' < 24 \<and> mi' < 60 \<and> s' < 60 \<and>
    (h' * 60 + mi') * 60 + s' = ((h * 60 + mi) * 60 + s + secs) mod 86400"
proof -
  obtain t c r1 where t: "time_read cmos r = Some (t, c, r1)" "tm_is t y m d h mi s" "writes r1 = writes r"
    using time_read_shows [OF assms] by blast
  define a where "a = alarm_at t secs"
  have "in_day t" "day_second t = int ((h * 60 + mi) * 60 + s)"
    using t(2) by (auto simp: tm_is_def in_day_def day_second_def)
  from alarm_at_day [OF this(1), of secs] this(2)
  have a: "in_day a" "day_second a = int (((h * 60 + mi) * 60 + s + secs) mod 86400)"
    by (simp_all add: a_def zmod_int)
  obtain h' mi' s' where f: "tm_hour a = int h'" "tm_min a = int mi'" "tm_sec a = int s'"
    using a(1) unfolding in_day_def by (metis nonneg_int_cases)
  have "int ((h' * 60 + mi') * 60 + s') = int (((h * 60 + mi) * 60 + s + secs) mod 86400)"
    using a(2) by (simp only: day_second_def f) simp
  then have "(h' * 60 + mi') * 60 + s' = ((h * 60 + mi) * 60 + s + secs) mod 86400" by (simp only: of_nat_eq_iff)
  moreover have "h' < 24" "mi' < 60" "s' < 60" using a(1) f by (simp_all add: in_day_def)
  ultimately show ?thesis
    using t by (simp add: set_alarm_def Let_def a_def [symmetric] f cmos_write_def cmos_read_def to_bcd_def) blast
qed

lemma set_alarm_time_witness:
  "\<exists>r' h' mi' s'. set_alarm cmos_2024 41102 \<lparr>reads = 0, writes = []\<rparr> = Some r' \<and>
    (h' * 60 + mi') * 60 + s' = (1 :: nat)"
  using set_alarm_time [OF cmos_2024_shows valid_2024, of 41102 "\<lparr>reads = 0, writes = []\<rparr>"] by auto

text \<open>\<open>localtime\<close> returns for every stamp, and the time of day and the day of the week it
  fills in are right: together with the number of days they give back the stamp.\<close>

theorem localtime_time_of_day:
  assumes "stamp < 2 ^ 32"
  shows "\<exists>t'. localtime stamp t = Some t' \<and> in_day t' \<and>
    int stamp = int (stamp div 86400) * 86400 + day_second t' \<and>
    tm_wday t' = (int (stamp div 86400) + 4) mod 7"
proof -
  obtain t' where t': "localtime stamp t = Some t'" "tm_sec t' = int (stamp mod 60)"
    "tm_min t' = int (stamp div 60 mod 60)" "tm_hour t' = int (stamp div 60 div 60 mod 24)"
    "tm_wday t' = int (w32 (stamp div 60 div 60 div 24 + 4) mod 7)"
    using localtime_total by blast
  have d: "stamp div 60 div 60 div 24 = stamp div 86400" by (simp add: div_mult2_eq [symmetric])
  have "stamp = ((stamp div 60 div 60 div 24 * 24 + stamp div 60 div 60 mod 24) * 60 + stamp div 60 mod 60) * 60
      + stamp mod 60" by (simp only: div_mult_mod_eq)
  from arg_cong [OF this, of int] have "int stamp = int (stamp div 86400) * 86400 + day_second t'"
    unfolding d by (simp add: day_second_def t')
  moreover have "stamp div 86400 + 4 < 2 ^ 32" using assms by (simp add: div_less_iff_less_mult)
  then have "tm_wday t' = (int (stamp div 86400) + 4) mod 7"
    unfolding t'(5) d by (simp add: zmod_int)
  ultimately show ?thesis using t'(1) by (auto simp: in_day_def t')
qed

definition tm_zero :: tm where
  "tm_zero = \<lparr>tm_sec = 0, tm_min = 0, tm_hour = 0, tm_mday = 0, tm_mon = 0, tm_year = 0, tm_wday = 0,
     tm_yday = 0, tm_isdst = 0\<rparr>"

lemma localtime_time_of_day_witness:
  "\<exists>t'. localtime 1709210099 tm_zero = Some t' \<and> tm_wday t' = 4"
  using localtime_time_of_day [of 1709210099 tm_zero] by auto

end
