(* ===== verification/MutexC.thy ===== *)
theory MutexC
  imports ListC
begin

text \<open>
  \<open>src/src/kernel/mutex.c\<close>: the mutex with its queue of waiting tasks, and the reentrant lock
  built on it. A function runs with interrupts off between two places where the task can lose the
  processor (\<open>task_block\<close>, \<open>task_yield\<close>, and everywhere outside \<open>mutex.c\<close>'s critical sections);
  the program counter of a task names the place where it is, and one step of the system is what a
  task does from there to the next such place. Tasks are numbers, the queue is the abstract list
  of \<open>ListC\<close> (\<open>list_push\<close> puts in front, \<open>waiters.tail.prev\<close> is the last one).

  Shown: mutual exclusion, no assertion of \<open>mutex.c\<close> fails, and no wake-up is lost.
\<close>

section \<open>The code\<close>

text \<open>\<open>Locking\<close>: at the loop test of \<open>mutex_lock\<close>; \<open>Waiting\<close>: blocked in its loop; \<open>GotMutex\<close>: back
  from \<open>mutex_lock\<close>; \<open>Held\<close>: \<open>lock_acquire\<close> has returned; \<open>Releasing\<close>: before the call of
  \<open>mutex_unlock\<close> in \<open>lock_release\<close>.\<close>

datatype lpc = Idle | Locking | Waiting | GotMutex | Held | Releasing

record lock_t =
  mvalue :: bool
  waiters :: "nat list"
  holder :: "nat option"
  repeats :: nat
  pc :: "nat \<Rightarrow> lpc"

definition mutex_init :: "lock_t \<Rightarrow> lock_t" where
  "mutex_init l = l\<lparr>mvalue := False, waiters := []\<rparr>"

definition lock_init :: "lock_t \<Rightarrow> lock_t" where
  "lock_init l = mutex_init (l\<lparr>holder := None, repeats := 0\<rparr>)"

text \<open>One round of the loop of \<open>mutex_lock\<close>: block on the queue while the mutex is held, and take
  it otherwise. \<open>list_push\<close> asserts that the task is not on the queue.\<close>

definition mutex_lock :: "nat \<Rightarrow> lock_t \<Rightarrow> lock_t option" where
  "mutex_lock t l =
     (if mvalue l
      then do {
        cassert (t \<notin> set (waiters l));
        Some (l\<lparr>waiters := t # waiters l, pc := (pc l)(t := Waiting)\<rparr>) }
      else Some (l\<lparr>mvalue := True, pc := (pc l)(t := GotMutex)\<rparr>))"

text \<open>\<open>mutex_unlock\<close> gives the mutex up and wakes the task that waits longest; \<open>task_unblock\<close> takes
  it off the queue, and the task tests the mutex again when it runs.\<close>

definition mutex_unlock :: "nat \<Rightarrow> lock_t \<Rightarrow> lock_t option" where
  "mutex_unlock t l = do {
     cassert (mvalue l);
     let l = l\<lparr>mvalue := False, pc := (pc l)(t := Idle)\<rparr>;
     Some (if waiters l \<noteq> []
       then l\<lparr>waiters := butlast (waiters l), pc := (pc l)(last (waiters l) := Locking)\<rparr>
       else l) }"

definition lock_acquire :: "nat \<Rightarrow> lock_t \<Rightarrow> lock_t" where
  "lock_acquire t l =
     (if holder l \<noteq> Some t then l\<lparr>pc := (pc l)(t := Locking)\<rparr>
      else l\<lparr>repeats := w32 (repeats l + 1)\<rparr>)"

text \<open>The rest of \<open>lock_acquire\<close> after \<open>mutex_lock\<close> has returned.\<close>

definition lock_acquired :: "nat \<Rightarrow> lock_t \<Rightarrow> lock_t option" where
  "lock_acquired t l = do {
     let l = l\<lparr>holder := Some t\<rparr>;
     cassert (repeats l = 0);
     Some (l\<lparr>repeats := 1, pc := (pc l)(t := Held)\<rparr>) }"

definition lock_release :: "nat \<Rightarrow> lock_t \<Rightarrow> lock_t option" where
  "lock_release t l = do {
     cassert (holder l = Some t);
     if repeats l > 1 then Some (l\<lparr>repeats := repeats l - 1\<rparr>)
     else do {
       cassert (repeats l = 1);
       Some (l\<lparr>holder := None, repeats := 0, pc := (pc l)(t := Releasing)\<rparr>) } }"

section \<open>The system\<close>

text \<open>What task \<open>t\<close> does next, by its program counter. An idle task may ask for the lock; a task
  that has it may ask again (fewer than \<open>2 ^ 32\<close> times) or release it. \<open>None\<close> is a failed
  assertion.\<close>

inductive lstep :: "nat \<Rightarrow> lock_t \<Rightarrow> lock_t option \<Rightarrow> bool" where
  acquire: "pc l t = Idle \<Longrightarrow> lstep t l (Some (lock_acquire t l))"
| again: "pc l t = Held \<Longrightarrow> repeats l < 4294967295 \<Longrightarrow> lstep t l (Some (lock_acquire t l))"
| test: "pc l t = Locking \<Longrightarrow> lstep t l (mutex_lock t l)"
| got: "pc l t = GotMutex \<Longrightarrow> lstep t l (lock_acquired t l)"
| release: "pc l t = Held \<Longrightarrow> lstep t l (lock_release t l)"
| unlock: "pc l t = Releasing \<Longrightarrow> lstep t l (mutex_unlock t l)"

inductive lreach :: "lock_t \<Rightarrow> bool" where
  start: "(\<And>t. pc l t = Idle) \<Longrightarrow> lreach (lock_init l)"
| step: "lreach l \<Longrightarrow> lstep t l (Some l') \<Longrightarrow> lreach l'"

inductive_cases lstepE: "lstep t l r"

section \<open>The invariant\<close>

definition owns :: "lpc \<Rightarrow> bool" where
  "owns p \<longleftrightarrow> p = GotMutex \<or> p = Held \<or> p = Releasing"

text \<open>\<open>w\<close> is the task that owns the mutex.\<close>

definition lock_inv :: "nat option \<Rightarrow> lock_t \<Rightarrow> bool" where
  "lock_inv w l \<longleftrightarrow>
     (\<forall>t. owns (pc l t) \<longleftrightarrow> w = Some t) \<and>
     (mvalue l \<longleftrightarrow> w \<noteq> None) \<and>
     (\<forall>t. holder l = Some t \<longleftrightarrow> pc l t = Held) \<and>
     (holder l = None \<longrightarrow> repeats l = 0) \<and>
     (holder l \<noteq> None \<longrightarrow> 0 < repeats l \<and> repeats l < 4294967296) \<and>
     distinct (waiters l) \<and> (\<forall>t. t \<in> set (waiters l) \<longleftrightarrow> pc l t = Waiting) \<and>
     (w \<noteq> None \<or> waiters l = [] \<or> (\<exists>t. pc l t = Locking))"

lemma owns_simps [simp]: "owns GotMutex" "owns Held" "owns Releasing" "\<not> owns Idle" "\<not> owns Locking"
  "\<not> owns Waiting"
  by (simp_all add: owns_def)

lemma lock_inv_init: "(\<And>t. pc l t = Idle) \<Longrightarrow> lock_inv None (lock_init l)"
  by (simp add: lock_inv_def lock_init_def mutex_init_def)

lemma lock_invD:
  assumes "lock_inv w l"
  shows "owns (pc l t) \<longleftrightarrow> w = Some t" and "mvalue l \<longleftrightarrow> w \<noteq> None" and "holder l = Some t \<longleftrightarrow> pc l t = Held"
    and "holder l = None \<Longrightarrow> repeats l = 0" and "t \<in> set (waiters l) \<longleftrightarrow> pc l t = Waiting"
    and "holder l = Some t \<Longrightarrow> 0 < repeats l" and "distinct (waiters l)"
    and "w = None \<Longrightarrow> waiters l = [] \<or> (\<exists>t. pc l t = Locking)"
    and "holder l = Some t \<Longrightarrow> repeats l < 4294967296"
  using assms by (auto simp: lock_inv_def)

lemma lock_invI:
  assumes "\<And>t. owns (pc l t) \<longleftrightarrow> w = Some t" and "mvalue l \<longleftrightarrow> w \<noteq> None"
    and "\<And>t. holder l = Some t \<longleftrightarrow> pc l t = Held" and "holder l = None \<Longrightarrow> repeats l = 0"
    and "\<And>t. holder l = Some t \<Longrightarrow> 0 < repeats l \<and> repeats l < 4294967296" and "distinct (waiters l)"
    and "\<And>t. t \<in> set (waiters l) \<longleftrightarrow> pc l t = Waiting"
    and "w = None \<Longrightarrow> waiters l \<noteq> [] \<Longrightarrow> \<exists>t. pc l t = Locking"
  shows "lock_inv w l"
  unfolding lock_inv_def
proof (intro conjI)
  show "holder l \<noteq> None \<longrightarrow> 0 < repeats l \<and> repeats l < 4294967296"
    using assms(5) by auto
  show "w \<noteq> None \<or> waiters l = [] \<or> (\<exists>t. pc l t = Locking)" using assms(8) by blast
qed (use assms(1-4,6,7) in blast)+

lemma set_butlast: "distinct xs \<Longrightarrow> xs \<noteq> [] \<Longrightarrow> set (butlast xs) = set xs - {last xs}"
proof -
  assume "distinct xs" "xs \<noteq> []"
  then have "distinct (butlast xs @ [last xs])" "set xs = set (butlast xs @ [last xs])" by simp_all
  then show ?thesis by auto
qed

lemma inv_acquire:
  assumes "lock_inv w l" and "pc l t = Idle \<or> pc l t = Held \<and> repeats l < 4294967295"
  shows "lock_inv w (lock_acquire t l)"
proof (cases "pc l t = Idle")
  case True
  then have h: "holder l \<noteq> Some t" "w \<noteq> Some t" using lock_invD(1) [OF assms(1), of t] lock_invD(3) [OF assms(1), of t] by auto
  show ?thesis
    unfolding lock_acquire_def by (rule lock_invI) (use True h lock_invD [OF assms(1)] in \<open>auto split: if_splits\<close>)
next
  case False
  with assms have h: "holder l = Some t" "repeats l < 4294967295" by (auto simp: lock_invD)
  show ?thesis
    unfolding lock_acquire_def by (rule lock_invI) (use h lock_invD [OF assms(1)] in \<open>auto split: if_splits\<close>)
qed

lemma inv_mutex_lock:
  assumes "lock_inv w l" and "pc l t = Locking"
  shows "\<exists>w' l'. mutex_lock t l = Some l' \<and> lock_inv w' l'"
proof (cases "mvalue l")
  case True
  have x: "t \<notin> set (waiters l)" "w \<noteq> Some t" "holder l \<noteq> Some t"
    using assms(2) lock_invD(1) [OF assms(1), of t] lock_invD(3) [OF assms(1), of t]
      lock_invD(5) [OF assms(1), of t] by auto
  have "lock_inv w (l\<lparr>waiters := t # waiters l, pc := (pc l)(t := Waiting)\<rparr>)"
    by (rule lock_invI) (use x True lock_invD [OF assms(1)] in \<open>auto split: if_splits\<close>)
  with True x show ?thesis by (auto simp: mutex_lock_def)
next
  case False
  have x: "t \<notin> set (waiters l)" "w = None" "holder l \<noteq> Some t"
    using assms(2) False lock_invD(2) [OF assms(1)] lock_invD(3) [OF assms(1), of t]
      lock_invD(5) [OF assms(1), of t] by auto
  have "lock_inv (Some t) (l\<lparr>mvalue := True, pc := (pc l)(t := GotMutex)\<rparr>)"
    by (rule lock_invI) (use x lock_invD [OF assms(1)] in \<open>auto split: if_splits\<close>)
  with False show ?thesis by (auto simp: mutex_lock_def)
qed

lemma inv_acquired:
  assumes "lock_inv w l" and "pc l t = GotMutex"
  shows "\<exists>l'. lock_acquired t l = Some l' \<and> lock_inv w l'"
proof -
  have w: "w = Some t" using lock_invD(1) [OF assms(1), of t] assms(2) by simp
  have none: "holder l = None"
  proof (cases "holder l")
    case (Some u)
    then have "pc l u = Held" using lock_invD(3) [OF assms(1)] by simp
    with lock_invD(1) [OF assms(1), of u] w assms(2) show ?thesis by simp
  qed
  have x: "t \<notin> set (waiters l)" using lock_invD(5) [OF assms(1)] assms(2) by simp
  have nh: "pc l u \<noteq> Held" for u using lock_invD(3) [OF assms(1), of u] none by simp
  have "lock_inv w (l\<lparr>holder := Some t, repeats := 1, pc := (pc l)(t := Held)\<rparr>)"
    by (rule lock_invI) (use w x nh lock_invD [OF assms(1)] in \<open>auto split: if_splits\<close>)
  with none lock_invD(4) [OF assms(1)] show ?thesis by (simp add: lock_acquired_def)
qed

lemma inv_release:
  assumes "lock_inv w l" and "pc l t = Held"
  shows "\<exists>l'. lock_release t l = Some l' \<and> lock_inv w l'"
proof -
  have h: "holder l = Some t" "0 < repeats l" "w = Some t"
    using lock_invD(1) [OF assms(1), of t] lock_invD(3,6) [OF assms(1), of t] assms(2) by auto
  show ?thesis
  proof (cases "repeats l > 1")
    case True
    have "repeats l - 1 < 4294967296" using lock_invD(9) [OF assms(1) h(1)] by simp
    with h have "lock_inv w (l\<lparr>repeats := repeats l - 1\<rparr>)"
      by (intro lock_invI) (use lock_invD [OF assms(1)] True h \<open>repeats l - 1 < 4294967296\<close> in \<open>auto\<close>)
    with True h show ?thesis by (simp add: lock_release_def)
  next
    case False
    have x: "t \<notin> set (waiters l)" using lock_invD(5) [OF assms(1)] assms(2) by simp
    have nh: "pc l u \<noteq> Held" if "u \<noteq> t" for u using lock_invD(3) [OF assms(1), of u] h that by simp
    have "lock_inv w (l\<lparr>holder := None, repeats := 0, pc := (pc l)(t := Releasing)\<rparr>)"
      by (rule lock_invI) (use h x nh lock_invD [OF assms(1)] in \<open>auto split: if_splits\<close>)
    with False h show ?thesis by (simp add: lock_release_def)
  qed
qed

lemma inv_unlock:
  assumes "lock_inv w l" and "pc l t = Releasing"
  shows "\<exists>l'. mutex_unlock t l = Some l' \<and> lock_inv None l'"
proof -
  have w: "w = Some t" using lock_invD(1) [OF assms(1), of t] assms(2) by simp
  then have v: "mvalue l" using lock_invD(2) [OF assms(1)] by simp
  have own: "owns (pc l u) \<longleftrightarrow> u = t" for u using lock_invD(1) [OF assms(1), of u] w by auto
  have nh: "pc l u \<noteq> Held" for u using own [of u] assms(2) by (cases "u = t") auto
  then have h: "holder l = None" using lock_invD(3) [OF assms(1)] by (cases "holder l") auto
  have x: "t \<notin> set (waiters l)" using lock_invD(5) [OF assms(1)] assms(2) by simp
  define l1 where "l1 = l\<lparr>mvalue := False, pc := (pc l)(t := Idle)\<rparr>"
  show ?thesis
  proof (cases "waiters l = []")
    case True
    have "lock_inv None l1"
      unfolding l1_def by (rule lock_invI) (use own h nh True x lock_invD [OF assms(1)] in \<open>auto split: if_splits\<close>)
    with True v show ?thesis by (simp add: mutex_unlock_def l1_def)
  next
    case False
    let ?w = "last (waiters l)"
    have d: "distinct (waiters l)" "pc l ?w = Waiting"
      using lock_invD(5) [OF assms(1), of ?w] lock_invD(7) [OF assms(1)] False by auto
    have s: "set (butlast (waiters l)) = set (waiters l) - {?w}" using d False by (intro set_butlast)
    have ne: "?w \<noteq> t" using d assms(2) by auto
    have "lock_inv None (l1\<lparr>waiters := butlast (waiters l), pc := (pc l1)(?w := Locking)\<rparr>)"
      unfolding l1_def
      by (rule lock_invI) (use own h nh s ne x d lock_invD [OF assms(1)] in \<open>auto simp: distinct_butlast split: if_splits\<close>)
    with False v show ?thesis by (simp add: mutex_unlock_def l1_def)
  qed
qed

lemma lstep_inv: "lstep t l r \<Longrightarrow> lock_inv w l \<Longrightarrow> \<exists>w' l'. r = Some l' \<and> lock_inv w' l'"
  by (erule lstepE)
    (use inv_acquire inv_mutex_lock inv_acquired inv_release inv_unlock in \<open>blast+\<close>)

lemma lreach_inv: "lreach l \<Longrightarrow> \<exists>w. lock_inv w l"
  by (induction rule: lreach.induct) (blast intro: lock_inv_init, blast dest: lstep_inv)

section \<open>Properties\<close>

text \<open>C7. Mutual exclusion and no failed assertion, for any number of tasks in any interleaving:
  in every reachable state at most one task is between the return of \<open>mutex_lock\<close> and its call of
  \<open>mutex_unlock\<close>, \<open>holder\<close> names exactly the task that has the lock, and no step of any task, the
  reentrant acquisition and release included, fails an assertion of \<open>mutex.c\<close>.\<close>

theorem lock_mutual_exclusion:
  assumes "lreach l"
  shows "(owns (pc l t) \<longrightarrow> owns (pc l u) \<longrightarrow> t = u) \<and> (holder l = Some t \<longleftrightarrow> pc l t = Held) \<and>
    (lstep t l r \<longrightarrow> r \<noteq> None)"
proof -
  from lreach_inv [OF assms] obtain w where w: "lock_inv w l" by blast
  with lstep_inv [of t l r w] lock_invD(1,3) [OF w] show ?thesis by auto
qed

text \<open>Task 1 has the lock and task 2 waits for it.\<close>

definition lock_zero :: lock_t where
  "lock_zero = \<lparr>mvalue = False, waiters = [], holder = None, repeats = 0, pc = (\<lambda>_. Idle)\<rparr>"

definition lock_contended :: lock_t where
  "lock_contended = \<lparr>mvalue = True, waiters = [2], holder = Some 1, repeats = 1,
     pc = (\<lambda>_. Idle)(1 := Held, 2 := Waiting)\<rparr>"

lemma lock_contended_reachable: "lreach lock_contended"
proof -
  define l0 where "l0 = lock_init lock_zero"
  define l1 where "l1 = lock_acquire 1 l0"
  define l2 where "l2 = the (mutex_lock 1 l1)"
  define l3 where "l3 = the (lock_acquired 1 l2)"
  define l4 where "l4 = lock_acquire 2 l3"
  note d = l4_def l3_def l2_def l1_def l0_def lock_zero_def lock_init_def mutex_init_def
    lock_acquire_def mutex_lock_def lock_acquired_def Let_def
  have "lreach l0" unfolding l0_def by (rule lreach.start) (simp add: lock_zero_def)
  then have "lreach l1" unfolding l1_def by (rule lreach.step) (rule lstep.acquire, simp add: d)
  then have "lreach l2" by (rule lreach.step) (use lstep.test [of l1 1] in \<open>simp add: d\<close>)
  then have "lreach l3" by (rule lreach.step) (use lstep.got [of l2 1] in \<open>simp add: d\<close>)
  then have "lreach l4" unfolding l4_def by (rule lreach.step) (rule lstep.acquire, simp add: d)
  then show ?thesis
    by (rule lreach.step)
      (use lstep.test [of l4 2] in \<open>simp add: d lock_contended_def fun_upd_twist\<close>)
qed

lemma lock_mutual_exclusion_witness:
  "holder lock_contended = Some 1 \<and> \<not> owns (pc lock_contended 2)"
  using lock_mutual_exclusion [OF lock_contended_reachable, of 1 2]
  by (simp add: lock_contended_def)

text \<open>C33. No lost wake-up: in every reachable state in which tasks wait for the mutex, either some
  task owns it (and will wake one of them when it gives it up), or a task that was woken or has
  just come is about to test it and will find it free.\<close>

theorem lock_no_lost_wakeup:
  assumes "lreach l" and "pc l t = Waiting"
  shows "t \<in> set (waiters l) \<and>
    ((\<exists>u. owns (pc l u) \<and> (pc l u = Releasing \<longrightarrow>
        (\<exists>l'. mutex_unlock u l = Some l' \<and> pc l' (last (waiters l)) = Locking))) \<or>
     (\<exists>u l'. pc l u = Locking \<and> mutex_lock u l = Some l' \<and> pc l' u = GotMutex))"
proof -
  from lreach_inv [OF assms(1)] obtain w where w: "lock_inv w l" by blast
  have t: "t \<in> set (waiters l)" using lock_invD(5) [OF w] assms(2) by simp
  show ?thesis
  proof (cases w)
    case None
    then have "\<not> mvalue l" using lock_invD(2) [OF w] by simp
    moreover obtain u where "pc l u = Locking" using lock_invD(8) [OF w None] t by auto
    ultimately show ?thesis using t by (auto simp: mutex_lock_def)
  next
    case (Some u)
    then have "mvalue l" "owns (pc l u)" using lock_invD(1,2) [OF w] by simp_all
    moreover have "waiters l \<noteq> []" using t by auto
    ultimately show ?thesis using t by (auto simp: mutex_unlock_def Let_def)
  qed
qed

lemma lock_no_lost_wakeup_witness: "2 \<in> set (waiters lock_contended)"
  using lock_no_lost_wakeup [OF lock_contended_reachable, of 2] by (simp add: lock_contended_def)

end
