(* ===== verification/Pipe.thy ===== *)
theory Pipe
  imports Fifo
begin

text \<open>
  \<open>src/src/fs/pipe.c\<close>: a task in \<open>pipe_read\<close> and a task in \<open>pipe_write\<close> on the same pipe, whose
  bytes are in the ring of \<open>Fifo\<close>. A task blocks when the ring is empty (full), the other one
  wakes it after its next access, and it then goes on behind the \<open>if\<close>, without a second test. One
  round of a loop is a step; the two tasks interleave between rounds in any way, which includes
  what the scheduler does (it switches only where a task blocks).

  Shown: no byte is lost, invented or reordered, no assertion fails (the ring is never read empty
  nor overrun), the two tasks never wait for each other, and they come to an end.
\<close>

section \<open>The code\<close>

text \<open>\<open>Run\<close>: at the loop test; \<open>Block\<close>: in \<open>task_block\<close>; \<open>Woken\<close>: behind it; \<open>Done\<close>: returned.\<close>

datatype ppc = Run | Block | Woken | Done

text \<open>The reader's buffer holds \<open>rbuf\<close> so far (\<open>nr\<close> is its length) and is to hold \<open>rcount\<close>
  bytes; the writer still has \<open>wrest\<close> to write.\<close>

record pipe_t =
  pfifo :: fifo
  rxwaiter :: bool
  txwaiter :: bool
  rpc :: ppc
  wpc :: ppc
  rbuf :: "u8 list"
  rcount :: nat
  wrest :: "u8 list"

text \<open>\<open>buf[nr++] = fifo_get(fifo)\<close> and the wake-up of a waiting writer.\<close>

definition read_take :: "pipe_t \<Rightarrow> pipe_t option" where
  "read_take p = do {
     (b, f) \<leftarrow> fifo_get (pfifo p);
     let p = p\<lparr>pfifo := f, rbuf := rbuf p @ [b], rpc := Run\<rparr>;
     Some (if txwaiter p then p\<lparr>txwaiter := False, wpc := Woken\<rparr> else p) }"

definition pipe_read :: "pipe_t \<Rightarrow> pipe_t option" where
  "pipe_read p =
     (if length (rbuf p) < rcount p
      then if fifo_empty (pfifo p)
           then do {
             cassert (\<not> rxwaiter p);
             Some (p\<lparr>rxwaiter := True, rpc := Block\<rparr>) }
           else read_take p
      else Some (p\<lparr>rpc := Done\<rparr>))"

text \<open>\<open>fifo_put(fifo, buf[nr++])\<close> and the wake-up of a waiting reader.\<close>

definition write_give :: "pipe_t \<Rightarrow> pipe_t option" where
  "write_give p = do {
     f \<leftarrow> fifo_put (pfifo p) (hd (wrest p));
     let p = p\<lparr>pfifo := f, wrest := tl (wrest p), wpc := Run\<rparr>;
     Some (if rxwaiter p then p\<lparr>rxwaiter := False, rpc := Woken\<rparr> else p) }"

definition pipe_write :: "pipe_t \<Rightarrow> pipe_t option" where
  "pipe_write p =
     (if wrest p \<noteq> []
      then do {
        full \<leftarrow> fifo_full (pfifo p);
        if full
        then do {
          cassert (\<not> txwaiter p);
          Some (p\<lparr>txwaiter := True, wpc := Block\<rparr>) }
        else write_give p }
      else Some (p\<lparr>wpc := Done\<rparr>))"

section \<open>The system\<close>

inductive pstep :: "pipe_t \<Rightarrow> pipe_t option \<Rightarrow> bool" where
  rd: "rpc p = Run \<Longrightarrow> pstep p (pipe_read p)"
| rd_on: "rpc p = Woken \<Longrightarrow> pstep p (read_take p)"
| wr: "wpc p = Run \<Longrightarrow> pstep p (pipe_write p)"
| wr_on: "wpc p = Woken \<Longrightarrow> pstep p (write_give p)"

inductive preach :: "pipe_t \<Rightarrow> pipe_t \<Rightarrow> bool" for p0 where
  start: "preach p0 p0"
| step: "preach p0 p \<Longrightarrow> pstep p (Some p') \<Longrightarrow> preach p0 p'"

inductive_cases pstepE: "pstep p r"

definition pipe_start :: "fifo \<Rightarrow> nat \<Rightarrow> u8 list \<Rightarrow> pipe_t" where
  "pipe_start f n data = \<lparr>pfifo = f, rxwaiter = False, txwaiter = False, rpc = Run, wpc = Run,
     rbuf = [], rcount = n, wrest = data\<rparr>"

section \<open>The invariant\<close>

text \<open>\<open>D\<close> is all there was to read at the start: the ring and what the writer was given.\<close>

definition pipe_inv :: "u8 list \<Rightarrow> pipe_t \<Rightarrow> bool" where
  "pipe_inv D p \<longleftrightarrow> fifo_inv (pfifo p) \<and> rbuf p @ fifo_content (pfifo p) @ wrest p = D \<and>
     length (rbuf p) \<le> rcount p \<and>
     (rxwaiter p \<longleftrightarrow> rpc p = Block) \<and> (txwaiter p \<longleftrightarrow> wpc p = Block) \<and>
     (rpc p = Block \<longrightarrow> fifo_content (pfifo p) = [] \<and> length (rbuf p) < rcount p) \<and>
     (rpc p = Woken \<longrightarrow> fifo_content (pfifo p) \<noteq> [] \<and> length (rbuf p) < rcount p) \<and>
     (rpc p = Done \<longrightarrow> length (rbuf p) = rcount p) \<and>
     (wpc p = Block \<longrightarrow> fifo_count (pfifo p) = fifo_cap (pfifo p) \<and> wrest p \<noteq> []) \<and>
     (wpc p = Woken \<longrightarrow> fifo_count (pfifo p) < fifo_cap (pfifo p) \<and> wrest p \<noteq> []) \<and>
     (wpc p = Done \<longrightarrow> wrest p = [])"

lemma pipe_inv_start: "fifo_inv f \<Longrightarrow> pipe_inv (fifo_content f @ data) (pipe_start f n data)"
  by (simp add: pipe_inv_def pipe_start_def)

lemma content_count: "fifo_content f = [] \<longleftrightarrow> fifo_count f = 0"
  by (metis length_0_conv length_fifo_content)

lemma fifo_cap_pos: "fifo_inv f \<Longrightarrow> 0 < fifo_cap f"
  by (simp add: fifo_inv_def fifo_cap_def)

text \<open>An access removes or adds one byte; the sum of what is left to do decreases with every step.\<close>

definition pmeasure :: "pipe_t \<Rightarrow> nat" where
  "pmeasure p = 2 * (rcount p - length (rbuf p)) + 2 * length (wrest p) +
     (if rpc p = Run then 1 else 0) + (if wpc p = Run then 1 else 0)"

lemma take_ok:
  assumes "pipe_inv D p" and "fifo_content (pfifo p) \<noteq> []" and "length (rbuf p) < rcount p"
    and "rpc p = Run \<or> rpc p = Woken"
  shows "\<exists>p'. read_take p = Some p' \<and> pipe_inv D p' \<and> pmeasure p' < pmeasure p"
proof -
  have inv: "fifo_inv (pfifo p)" using assms(1) by (simp add: pipe_inv_def)
  obtain b bs where c: "fifo_content (pfifo p) = b # bs" using assms(2) by (cases "fifo_content (pfifo p)") auto
  obtain f where f: "fifo_get (pfifo p) = Some (b, f)" "fifo_inv f" "fifo_cap f = fifo_cap (pfifo p)"
    "fifo_content f = bs" using ring.get_cons [OF inv c] by blast
  have "fifo_count f = length bs" "fifo_count (pfifo p) = Suc (length bs)"
    using c f(4) length_fifo_content by (metis, metis length_Cons)
  moreover have "fifo_count (pfifo p) < flength (pfifo p)" by (rule fifo_count_less [OF inv])
  ultimately show ?thesis
    using assms f c by (auto simp: read_take_def pipe_inv_def pmeasure_def Let_def fifo_cap_def)
qed

lemma give_ok:
  assumes "pipe_inv D p" and "fifo_count (pfifo p) < fifo_cap (pfifo p)" and "wrest p \<noteq> []"
    and "wpc p = Run \<or> wpc p = Woken"
  shows "\<exists>p'. write_give p = Some p' \<and> pipe_inv D p' \<and> pmeasure p' < pmeasure p"
proof -
  have inv: "fifo_inv (pfifo p)" using assms(1) by (simp add: pipe_inv_def)
  obtain w ws where w: "wrest p = w # ws" using assms(3) by (cases "wrest p") auto
  obtain f where f: "fifo_put (pfifo p) w = Some f" "fifo_inv f" "fifo_cap f = fifo_cap (pfifo p)"
    "fifo_content f = fifo_content (pfifo p) @ [w]"
    using ring.put_any [OF inv, of w] assms(2) by auto
  have "fifo_count f = Suc (fifo_count (pfifo p))"
    using f(4) length_fifo_content [of f] by simp
  with assms f w show ?thesis
    by (auto simp: write_give_def pipe_inv_def pmeasure_def Let_def)
qed

lemma read_ok:
  assumes "pipe_inv D p" and "rpc p = Run"
  shows "\<exists>p'. pipe_read p = Some p' \<and> pipe_inv D p' \<and> pmeasure p' < pmeasure p"
proof (cases "length (rbuf p) < rcount p \<and> \<not> fifo_empty (pfifo p)")
  case True
  then have "fifo_content (pfifo p) \<noteq> []"
    using assms(1) fifo_empty_count by (auto simp: pipe_inv_def content_count)
  with True take_ok [OF assms(1)] assms(2) show ?thesis by (simp add: pipe_read_def)
next
  case False
  have "fifo_empty (pfifo p) \<longleftrightarrow> fifo_content (pfifo p) = []"
    using assms(1) fifo_empty_count by (auto simp: pipe_inv_def content_count)
  with assms False show ?thesis
    by (auto simp: pipe_read_def pipe_inv_def pmeasure_def)
qed

lemma write_ok:
  assumes "pipe_inv D p" and "wpc p = Run"
  shows "\<exists>p'. pipe_write p = Some p' \<and> pipe_inv D p' \<and> pmeasure p' < pmeasure p"
proof -
  have inv: "fifo_inv (pfifo p)" using assms(1) by (simp add: pipe_inv_def)
  show ?thesis
  proof (cases "wrest p \<noteq> [] \<and> fifo_count (pfifo p) < fifo_cap (pfifo p)")
    case True
    with give_ok [OF assms(1)] assms(2) fifo_full_count [OF inv] show ?thesis
      by (simp add: pipe_write_def)
  next
    case False
    have "fifo_count (pfifo p) < flength (pfifo p)" by (rule fifo_count_less [OF inv])
    with False have "wrest p \<noteq> [] \<Longrightarrow> fifo_count (pfifo p) = fifo_cap (pfifo p)"
      by (auto simp: fifo_cap_def)
    with assms show ?thesis
      by (auto simp: pipe_write_def pipe_inv_def pmeasure_def fifo_full_count)
  qed
qed

lemma woken_ok:
  assumes "pipe_inv D p"
  shows "rpc p = Woken \<Longrightarrow> \<exists>p'. read_take p = Some p' \<and> pipe_inv D p' \<and> pmeasure p' < pmeasure p"
    and "wpc p = Woken \<Longrightarrow> \<exists>p'. write_give p = Some p' \<and> pipe_inv D p' \<and> pmeasure p' < pmeasure p"
  using assms take_ok [OF assms] give_ok [OF assms] by (simp_all add: pipe_inv_def [of D p])

lemma pstep_ok: "pstep p r \<Longrightarrow> pipe_inv D p \<Longrightarrow> \<exists>p'. r = Some p' \<and> pipe_inv D p' \<and> pmeasure p' < pmeasure p"
  by (erule pstepE) (simp_all add: read_ok write_ok woken_ok)

lemma preach_inv: "preach p0 p \<Longrightarrow> pipe_inv D p0 \<Longrightarrow> pipe_inv D p"
  by (induction rule: preach.induct) (auto dest: pstep_ok)

section \<open>Properties\<close>

text \<open>C9. A pipe delivers: however the reader and the writer interleave, what has been read is
  always the first part of what there was to read, in order, the rest is in the ring or still with
  the writer, and no step of either task fails an assertion, reads the ring empty or overruns it.\<close>

theorem pipe_no_loss:
  assumes "fifo_inv f" and "preach (pipe_start f n data) p"
  shows "rbuf p @ fifo_content (pfifo p) @ wrest p = fifo_content f @ data \<and> length (rbuf p) \<le> n \<and>
    (pstep p r \<longrightarrow> r \<noteq> None)"
proof -
  have inv: "pipe_inv (fifo_content f @ data) p"
    by (rule preach_inv [OF assms(2) pipe_inv_start [OF assms(1)]])
  have "rcount p = n" using assms(2)
    by (induction rule: preach.induct)
      (auto simp: pipe_start_def pipe_read_def read_take_def pipe_write_def write_give_def Let_def
        elim!: pstepE split: if_splits Option.bind_splits)
  with inv pstep_ok [OF _ inv, of r] show ?thesis by (auto simp: pipe_inv_def)
qed

definition pipe_ring :: fifo where
  "pipe_ring = fifo_init [0, 0] 2"

lemma pipe_ring_inv: "fifo_inv pipe_ring"
  by (simp add: pipe_ring_def fifo_init_def fifo_inv_def)

lemma pipe_no_loss_witness:
  "\<exists>p. preach (pipe_start pipe_ring 2 [7, 8]) p \<and> rpc p = Block \<and>
    rbuf p @ fifo_content (pfifo p) @ wrest p = [7, 8]"
proof -
  define p0 where "p0 = pipe_start pipe_ring 2 [7, 8]"
  have "pstep p0 (Some (p0\<lparr>rxwaiter := True, rpc := Block\<rparr>))"
    using pstep.rd [of p0]
    by (simp add: p0_def pipe_start_def pipe_read_def pipe_ring_def fifo_init_def fifo_empty_def)
  then have r: "preach p0 (p0\<lparr>rxwaiter := True, rpc := Block\<rparr>)" by (rule preach.step [OF preach.start])
  have "fifo_content pipe_ring = []" by (simp add: pipe_ring_def fifo_content_init)
  with pipe_no_loss [OF pipe_ring_inv r [unfolded p0_def]] r show ?thesis
    by (intro exI [of _ "p0\<lparr>rxwaiter := True, rpc := Block\<rparr>"]) (simp add: p0_def)
qed

text \<open>C10. The two tasks come to an end and never wait for each other: every step decreases a
  measure, so every run is finite; and where no step is possible any more, either the reader has
  returned with the first \<open>n\<close> bytes, or the writer has returned, fewer than \<open>n\<close> bytes were there
  and the reader has read them all.\<close>

theorem pipe_no_deadlock:
  assumes "fifo_inv f" and "preach (pipe_start f n data) p"
  shows "(pstep p (Some p') \<longrightarrow> pmeasure p' < pmeasure p) \<and>
    ((\<nexists>r. pstep p r) \<longrightarrow>
      rpc p = Done \<and> rbuf p = take n (fifo_content f @ data) \<and> length (rbuf p) = n \<or>
      wpc p = Done \<and> rbuf p = fifo_content f @ data \<and> length (rbuf p) < n)"
proof -
  have inv: "pipe_inv (fifo_content f @ data) p"
    by (rule preach_inv [OF assms(2) pipe_inv_start [OF assms(1)]])
  have n: "rcount p = n" using assms(2)
    by (induction rule: preach.induct)
      (auto simp: pipe_start_def pipe_read_def read_take_def pipe_write_def write_give_def Let_def
        elim!: pstepE split: if_splits Option.bind_splits)
  note i = inv [unfolded pipe_inv_def]
  have stuck: "rpc p = Done \<and> rbuf p = take n (fifo_content f @ data) \<and> length (rbuf p) = n \<or>
      wpc p = Done \<and> rbuf p = fifo_content f @ data \<and> length (rbuf p) < n" if "\<nexists>r. pstep p r"
  proof -
    have "rpc p \<in> {Block, Done}" "wpc p \<in> {Block, Done}"
      using that pstep.intros [of p] by (cases "rpc p"; cases "wpc p"; blast)+
    then consider "rpc p = Done" | "rpc p = Block" "wpc p = Done" | "rpc p = Block" "wpc p = Block" by blast
    then show ?thesis
    proof cases
      case 1
      then have "length (rbuf p) = n" using i n by simp
      moreover have "take (length (rbuf p)) (rbuf p @ fifo_content (pfifo p) @ wrest p) = rbuf p" by simp
      ultimately show ?thesis using 1 i by metis
    next
      case 2
      with i n show ?thesis by auto
    next
      case 3
      then have "fifo_count (pfifo p) = 0" "fifo_count (pfifo p) = fifo_cap (pfifo p)"
        using i content_count by auto
      moreover have "0 < fifo_cap (pfifo p)" using i fifo_cap_pos by blast
      ultimately show ?thesis by simp
    qed
  qed
  with pstep_ok [OF _ inv] show ?thesis by blast
qed

lemma pipe_no_deadlock_witness:
  "\<exists>p. preach (pipe_start pipe_ring 0 []) p \<and> rpc p = Done \<and> pmeasure p < pmeasure (pipe_start pipe_ring 0 [])"
proof -
  define p0 where "p0 = pipe_start pipe_ring 0 []"
  have s: "pstep p0 (Some (p0\<lparr>rpc := Done\<rparr>))"
    using pstep.rd [of p0] by (simp add: p0_def pipe_start_def pipe_read_def)
  then have "preach p0 (p0\<lparr>rpc := Done\<rparr>)" by (rule preach.step [OF preach.start])
  moreover have "pmeasure (p0\<lparr>rpc := Done\<rparr>) < pmeasure p0"
    using pipe_no_deadlock [OF pipe_ring_inv preach.start, of 0 "[]" "p0\<lparr>rpc := Done\<rparr>"] s
    by (simp add: p0_def)
  ultimately show ?thesis by (auto simp: p0_def)
qed

end
