(* ===== verification/Memory.thy ===== *)
theory Memory
  imports Stdlib Bitmap
begin

text \<open>
  \<open>src/src/kernel/memory.c\<close>: physical pages with reference counts, the kernel's pages, page
  directories and page tables, \<open>brk\<close>, \<open>mmap\<close>, copy on write.

  Physical memory is \<open>pm\<close>, the words of every page by page number; a page table entry is such a
  word, and its bit fields are read and set as bits. The last entry of a directory points to the
  directory, so the table of directory entry \<open>i\<close>, which the code reaches at
  \<open>0xFFC00000 | i << 12\<close>, is the page that entry \<open>i\<close> of the current directory names. Kernel
  addresses below 16M are mapped to themselves: a page allocated by \<open>alloc_kpage\<close> is the physical
  page of the same number.
\<close>

section \<open>Constants and state\<close>

definition PAGE_SIZE :: nat where "PAGE_SIZE = 0x1000"
definition MEMORY_BASE :: nat where "MEMORY_BASE = 0x100000"
definition KERNEL_MEMORY_SIZE :: nat where "KERNEL_MEMORY_SIZE = 0x1000000"
definition USER_EXEC_ADDR :: nat where "USER_EXEC_ADDR = KERNEL_MEMORY_SIZE"
definition USER_MMAP_ADDR :: nat where "USER_MMAP_ADDR = 0x8000000"
definition USER_STACK_TOP :: nat where "USER_STACK_TOP = 0x10000000"
definition USER_STACK_SIZE :: nat where "USER_STACK_SIZE = 0x200000"
definition USER_STACK_BOTTOM :: nat where "USER_STACK_BOTTOM = USER_STACK_TOP - USER_STACK_SIZE"
definition KERNEL_PAGE_DIR :: nat where "KERNEL_PAGE_DIR = 0x1000"
definition KERNEL_PAGE_TABLE :: "nat list" where "KERNEL_PAGE_TABLE = [0x2000, 0x3000, 0x4000, 0x5000]"
definition KERNEL_USER :: nat where "KERNEL_USER = 0"
definition NEONIX_MAGIC :: nat where "NEONIX_MAGIC = 0x20220220"
definition MULTIBOOT2_MAGIC :: nat where "MULTIBOOT2_MAGIC = 0x36d76289"

definition IDX :: "nat \<Rightarrow> nat" where "IDX addr = addr div 4096"
definition DIDX :: "nat \<Rightarrow> nat" where "DIDX addr = addr div 4194304 mod 1024"
definition TIDX :: "nat \<Rightarrow> nat" where "TIDX addr = addr div 4096 mod 1024"
definition PAGE :: "nat \<Rightarrow> nat" where "PAGE idx = w32 (idx * 4096)"

definition ASSERT_PAGE :: "nat \<Rightarrow> unit option" where
  "ASSERT_PAGE addr = cassert (addr mod 4096 = 0)"

text \<open>A page table entry (\<open>page_entry_t\<close>) is a word; these are its bit fields.\<close>

type_synonym entry = u32

definition present :: "entry \<Rightarrow> bool" where "present e = bit e 0"
definition writable :: "entry \<Rightarrow> bool" where "writable e = bit e 1"
definition user :: "entry \<Rightarrow> bool" where "user e = bit e 2"
definition shared :: "entry \<Rightarrow> bool" where "shared e = bit e 9"
definition privat :: "entry \<Rightarrow> bool" where "privat e = bit e 10"
definition readonly :: "entry \<Rightarrow> bool" where "readonly e = bit e 11"
definition index :: "entry \<Rightarrow> nat" where "index e = unat (drop_bit 12 e)"

definition put_flag :: "nat \<Rightarrow> bool \<Rightarrow> entry \<Rightarrow> entry" where
  "put_flag k b e = (if b then set_bit k e else unset_bit k e)"

definition put_index :: "nat \<Rightarrow> entry \<Rightarrow> entry" where
  "put_index i e = (e AND 0xFFF) OR push_bit 12 (of_nat i)"

definition entry_init :: "nat \<Rightarrow> entry" where
  "entry_init i = put_index i (put_flag 2 True (put_flag 1 True (put_flag 0 True 0)))"

record mstate =
  memory_base :: nat
  memory_size :: nat
  total_pages :: nat
  free_pages :: nat
  start_page :: nat
  memory_map_pages :: nat
  memory_map :: "nat list"
  kernel_map :: bitmap
  cr3 :: nat
  pm :: "nat \<Rightarrow> nat \<Rightarrow> u32"

text \<open>The fields of the running task that the memory functions use.\<close>

record mtask =
  uid :: nat
  pde :: nat
  vmap :: bitmap
  end_addr :: nat
  brk :: nat

section \<open>Finding the memory\<close>

text \<open>The entries of the loader's memory table (20 bytes each): the largest usable zone wins.\<close>

fun ards_loop :: "nat \<Rightarrow> mem \<Rightarrow> addr \<Rightarrow> nat \<times> nat \<Rightarrow> nat \<times> nat" where
  "ards_loop 0 m p z = z"
| "ards_loop (Suc n) m p (b, s) =
     ards_loop n m (p + 20)
       (if load32 m (p + 16) = 1 \<and> load64 m (p + 8) > s then (w32 (load64 m p), w32 (load64 m (p + 8)))
        else (b, s))"

text \<open>The tags of a multiboot2 information, each aligned to 8 bytes, up to the memory map.\<close>

partial_function (option) tag_loop :: "mem \<Rightarrow> addr \<Rightarrow> addr option" where
  "tag_loop m tag =
     (if load32 m tag \<noteq> 0 \<and> load32 m tag \<noteq> 6
      then tag_loop m (w32 (tag + unat (ALIGN (of_nat (load32 m (tag + 4))) 8)))
      else Some tag)"

partial_function (option) mmap_loop ::
  "mem \<Rightarrow> addr \<Rightarrow> addr \<Rightarrow> nat \<Rightarrow> nat \<times> nat \<Rightarrow> (nat \<times> nat) option" where
  "mmap_loop m p limit step z =
     (if p < limit
      then mmap_loop m (w32 (p + step)) limit step
        (if load32 m (p + 16) = 1 \<and> load64 m (p + 8) > snd z
         then (w32 (load64 m p), w32 (load64 m (p + 8))) else z)
      else Some z)"

definition memory_init :: "mem \<Rightarrow> nat \<Rightarrow> addr \<Rightarrow> mstate \<Rightarrow> mstate option" where
  "memory_init m magic addr ms = do {
     (b, s) \<leftarrow>
       (if magic = NEONIX_MAGIC then Some (ards_loop (load32 m addr) m (addr + 4) (0, 0))
        else if magic = MULTIBOOT2_MAGIC
        then do {
          tag \<leftarrow> tag_loop m (addr + 8);
          mmap_loop m (tag + 16) (w32 (tag + load32 m (tag + 4))) (load32 m (tag + 8)) (0, 0) }
        else None);
     cassert (b = MEMORY_BASE);
     cassert (s mod 4096 = 0);
     let ms = ms\<lparr>memory_base := b, memory_size := s, total_pages := IDX s + IDX MEMORY_BASE,
       free_pages := IDX s\<rparr>;
     cassert (\<not> s < KERNEL_MEMORY_SIZE);
     Some ms }"

definition memory_map_init :: "mstate \<Rightarrow> mstate option" where
  "memory_map_init ms = do {
     n \<leftarrow> div_round_up (total_pages ms) PAGE_SIZE;
     let start = IDX MEMORY_BASE + n;
     let map0 = replicate (n * PAGE_SIZE) 0;
     mm \<leftarrow> for_each (\<lambda>i mm. aset mm i 1) [0..<start] map0;
     let len = (IDX KERNEL_MEMORY_SIZE - IDX MEMORY_BASE) div 8;
     kmap \<leftarrow> bitmap_init (replicate len 0) len (IDX MEMORY_BASE);
     (r, kmap) \<leftarrow> bitmap_scan kmap n;
     Some (ms\<lparr>memory_map_pages := n, free_pages := w32_sub (free_pages ms) n, start_page := start,
       memory_map := mm, kernel_map := kmap\<rparr>) }"

section \<open>Physical pages\<close>

definition get_page :: "mstate \<Rightarrow> (nat \<times> mstate) option" where
  "get_page ms =
     (case find (\<lambda>i. memory_map ms ! i = 0) [start_page ms..<total_pages ms] of
        None \<Rightarrow> None
      | Some i \<Rightarrow> Some (PAGE i, ms\<lparr>memory_map := (memory_map ms)[i := 1],
          free_pages := w32_sub (free_pages ms) 1\<rparr>))"

definition put_page :: "nat \<Rightarrow> mstate \<Rightarrow> mstate option" where
  "put_page addr ms = do {
     ASSERT_PAGE addr;
     let idx = IDX addr;
     cassert (start_page ms \<le> idx \<and> idx < total_pages ms);
     c \<leftarrow> aget (memory_map ms) idx;
     cassert (c \<ge> 1);
     let ms = ms\<lparr>memory_map := (memory_map ms)[idx := c - 1]\<rparr>;
     let ms = (if c - 1 = 0 then ms\<lparr>free_pages := w32 (free_pages ms + 1)\<rparr> else ms);
     cassert (free_pages ms > 0 \<and> free_pages ms < total_pages ms);
     Some ms }"

section \<open>Tables\<close>

definition set_pm :: "nat \<Rightarrow> nat \<Rightarrow> u32 \<Rightarrow> mstate \<Rightarrow> mstate" where
  "set_pm p i v ms = ms\<lparr>pm := (pm ms)(p := (pm ms p)(i := v))\<rparr>"

text \<open>\<open>mapping_init\<close>: page 0 is not mapped; everything else below 16M is mapped to itself, and its
  pages are marked as taken.\<close>

text \<open>The build defines \<open>NEONIX_DEBUG\<close>, so that the pages of the kernel are open to user mode.\<close>

definition USER_MEMORY :: bool where "USER_MEMORY = True"

definition map_entry :: "nat \<Rightarrow> nat \<Rightarrow> nat \<Rightarrow> mstate \<Rightarrow> mstate option" where
  "map_entry didx pte tidx ms =
     (let i = didx * 1024 + tidx
      in if i = 0 then Some ms
         else do {
           mm \<leftarrow> aset (memory_map ms) i 1;
           Some ((set_pm (IDX pte) tidx (put_flag 2 USER_MEMORY (entry_init i)) ms)\<lparr>memory_map := mm\<rparr>) })"

definition map_table :: "nat \<Rightarrow> mstate \<Rightarrow> mstate option" where
  "map_table didx ms =
     (let pte = KERNEL_PAGE_TABLE ! didx;
          ms = ms\<lparr>pm := (pm ms)(IDX pte := (\<lambda>_. 0))\<rparr>;
          ms = set_pm (IDX KERNEL_PAGE_DIR) didx (put_flag 2 USER_MEMORY (entry_init (IDX pte))) ms
      in for_each (map_entry didx pte) [0..<1024] ms)"

definition mapping_init :: "mstate \<Rightarrow> mstate option" where
  "mapping_init ms = do {
     let ms = ms\<lparr>pm := (pm ms)(IDX KERNEL_PAGE_DIR := (\<lambda>_. 0))\<rparr>;
     ms \<leftarrow> for_each map_table [0..<length KERNEL_PAGE_TABLE] ms;
     let ms = set_pm (IDX KERNEL_PAGE_DIR) 1023 (entry_init (IDX KERNEL_PAGE_DIR)) ms;
     Some (ms\<lparr>cr3 := KERNEL_PAGE_DIR\<rparr>) }"

text \<open>The current directory is the page of \<open>cr3\<close>. \<open>get_pte\<close> gives the page of the table.\<close>

definition get_pte :: "nat \<Rightarrow> bool \<Rightarrow> mstate \<Rightarrow> (nat \<times> mstate) option" where
  "get_pte vaddr create ms = do {
     let i = DIDX vaddr;
     let e = pm ms (IDX (cr3 ms)) i;
     cassert (create \<or> \<not> create \<and> present e);
     if \<not> present e
     then do {
       (page, ms) \<leftarrow> get_page ms;
       let ms = set_pm (IDX (cr3 ms)) i (entry_init (IDX page)) ms;
       Some (IDX page, ms\<lparr>pm := (pm ms)(IDX page := (\<lambda>_. 0))\<rparr>) }
     else Some (index e, ms) }"

text \<open>\<open>get_entry\<close>: the page of the table, and the place of the entry in it.\<close>

definition get_entry :: "nat \<Rightarrow> bool \<Rightarrow> mstate \<Rightarrow> ((nat \<times> nat) \<times> mstate) option" where
  "get_entry vaddr create ms = do {
     (t, ms) \<leftarrow> get_pte vaddr create ms;
     Some ((t, TIDX vaddr), ms) }"

definition link_page :: "nat \<Rightarrow> mstate \<Rightarrow> mstate option" where
  "link_page vaddr ms = do {
     ASSERT_PAGE vaddr;
     ((t, i), ms) \<leftarrow> get_entry vaddr True ms;
     if present (pm ms t i) then Some ms
     else do {
       (paddr, ms) \<leftarrow> get_page ms;
       Some (set_pm t i (entry_init (IDX paddr)) ms) } }"

definition unlink_page :: "nat \<Rightarrow> mstate \<Rightarrow> mstate option" where
  "unlink_page vaddr ms = do {
     ASSERT_PAGE vaddr;
     if \<not> present (pm ms (IDX (cr3 ms)) (DIDX vaddr)) then Some ms
     else do {
       ((t, i), ms) \<leftarrow> get_entry vaddr False ms;
       if \<not> present (pm ms t i) then Some ms
       else do {
         let ms = set_pm t i (put_flag 0 False (pm ms t i)) ms;
         put_page (PAGE (index (pm ms t i))) ms } } }"

text \<open>\<open>copy_page\<close> copies the page \<open>src\<close> to a fresh one, through a mapping of address 0 that it
  takes away again.\<close>

definition copy_page :: "nat \<Rightarrow> mstate \<Rightarrow> (nat \<times> mstate) option" where
  "copy_page src ms = do {
     (paddr, ms) \<leftarrow> get_page ms;
     (t, ms) \<leftarrow> get_pte 0 False ms;
     let ms = set_pm t 0 (entry_init (IDX paddr)) ms;
     let ms = ms\<lparr>pm := (pm ms)(IDX paddr := pm ms src)\<rparr>;
     let ms = set_pm t 0 (put_flag 0 False (pm ms t 0)) ms;
     Some (paddr, ms) }"

section \<open>Kernel pages\<close>

definition scan_page :: "bitmap \<Rightarrow> nat \<Rightarrow> (nat \<times> bitmap) option" where
  "scan_page bm count = do {
     cassert (count > 0);
     (i, bm) \<leftarrow> bitmap_scan bm count;
     cassert (i \<noteq> EOF);
     Some (PAGE (nat i), bm) }"

definition reset_page :: "bitmap \<Rightarrow> nat \<Rightarrow> nat \<Rightarrow> bitmap option" where
  "reset_page bm addr count = do {
     ASSERT_PAGE addr;
     cassert (count > 0);
     for_each (\<lambda>i bm. do {
       t \<leftarrow> bitmap_test bm (w32 (IDX addr + i));
       cassert t;
       bitmap_set bm (w32 (IDX addr + i)) False }) [0..<count] bm }"

definition alloc_kpage :: "nat \<Rightarrow> mstate \<Rightarrow> (nat \<times> mstate) option" where
  "alloc_kpage count ms = do {
     cassert (count > 0);
     (vaddr, bm) \<leftarrow> scan_page (kernel_map ms) count;
     Some (vaddr, ms\<lparr>kernel_map := bm\<rparr>) }"

definition free_kpage :: "nat \<Rightarrow> nat \<Rightarrow> mstate \<Rightarrow> mstate option" where
  "free_kpage vaddr count ms = do {
     ASSERT_PAGE vaddr;
     cassert (count > 0);
     bm \<leftarrow> reset_page (kernel_map ms) vaddr count;
     Some (ms\<lparr>kernel_map := bm\<rparr>) }"

section \<open>Directories\<close>

text \<open>The inner loop of \<open>copy_pde\<close>: an entry that is not shared becomes read only, and its page
  has one more reference.\<close>

definition share_entry :: "nat \<Rightarrow> nat \<Rightarrow> mstate \<Rightarrow> mstate option" where
  "share_entry t tidx ms = (
     let e = pm ms t tidx
     in if \<not> present e then Some ms
        else do {
          c \<leftarrow> aget (memory_map ms) (index e);
          cassert (c > 0);
          let e = (if \<not> shared e then put_flag 1 False e else e);
          let ms = set_pm t tidx e ms;
          let ms = ms\<lparr>memory_map := (memory_map ms)[index e := c + 1]\<rparr>;
          cassert (c + 1 < 255);
          Some ms })"

definition copy_table :: "nat \<Rightarrow> nat \<Rightarrow> mstate \<Rightarrow> mstate option" where
  "copy_table pd didx ms = (
     let dentry = pm ms pd didx
     in if \<not> present dentry then Some ms
        else do {
          let t = index (pm ms (IDX (cr3 ms)) didx);
          ms \<leftarrow> for_each (share_entry t) [0..<1024] ms;
          (paddr, ms) \<leftarrow> copy_page t ms;
          Some (set_pm pd didx (put_index (IDX paddr) (pm ms pd didx)) ms) })"

definition copy_pde :: "'a mtask_scheme \<Rightarrow> mstate \<Rightarrow> (nat \<times> mstate) option" where
  "copy_pde task ms = do {
     (new, ms) \<leftarrow> alloc_kpage 1 ms;
     let pd = IDX new;
     let ms = ms\<lparr>pm := (pm ms)(pd := pm ms (IDX (pde task)))\<rparr>;
     let ms = set_pm pd 1023 (entry_init (IDX new)) ms;
     ms \<leftarrow> for_each (copy_table pd) [length KERNEL_PAGE_TABLE..<1023] ms;
     Some (new, ms\<lparr>cr3 := pde task\<rparr>) }"

definition drop_entry :: "nat \<Rightarrow> nat \<Rightarrow> mstate \<Rightarrow> mstate option" where
  "drop_entry t tidx ms = (
     let e = pm ms t tidx
     in if \<not> present e then Some ms
        else do {
          c \<leftarrow> aget (memory_map ms) (index e);
          cassert (c > 0);
          put_page (PAGE (index e)) ms })"

definition free_table :: "nat \<Rightarrow> mstate \<Rightarrow> mstate option" where
  "free_table didx ms = (
     let dentry = pm ms (IDX (cr3 ms)) didx
     in if \<not> present dentry then Some ms
        else do {
          ms \<leftarrow> for_each (drop_entry (index dentry)) [0..<1024] ms;
          put_page (PAGE (index dentry)) ms })"

definition free_pde :: "'a mtask_scheme \<Rightarrow> mstate \<Rightarrow> mstate option" where
  "free_pde task ms = do {
     cassert (uid task \<noteq> KERNEL_USER);
     ms \<leftarrow> for_each free_table [length KERNEL_PAGE_TABLE..<1023] ms;
     free_kpage (pde task) 1 ms }"

section \<open>System calls\<close>

definition sys_brk :: "nat \<Rightarrow> 'a mtask_scheme \<Rightarrow> mstate \<Rightarrow> (int \<times> 'a mtask_scheme \<times> mstate) option" where
  "sys_brk addr task ms = do {
     ASSERT_PAGE addr;
     cassert (uid task \<noteq> KERNEL_USER);
     cassert (end_addr task \<le> addr \<and> addr \<le> USER_MMAP_ADDR);
     let old = brk task;
     if old > addr
     then do {
       ms \<leftarrow> for_each (\<lambda>k ms. unlink_page (addr + k * PAGE_SIZE) ms)
         [0..<(old - addr + PAGE_SIZE - 1) div PAGE_SIZE] ms;
       Some (0, task\<lparr>brk := addr\<rparr>, ms) }
     else if IDX (addr - old) > free_pages ms then Some (- 1, task, ms)
     else Some (0, task\<lparr>brk := addr\<rparr>, ms) }"

definition PROT_WRITE :: nat where "PROT_WRITE = 2"
definition MAP_SHARED :: nat where "MAP_SHARED = 1"
definition MAP_PRIVATE :: nat where "MAP_PRIVATE = 2"

definition mmap_entry :: "nat \<Rightarrow> nat \<Rightarrow> entry \<Rightarrow> entry" where
  "mmap_entry prot flags e = (
     let e = put_flag 2 True e;
         e = put_flag 1 False e;
         e = put_flag 11 True e;
         e = (if prot AND PROT_WRITE \<noteq> 0 then put_flag 1 True (put_flag 11 False e) else e);
         e = (if flags AND MAP_SHARED \<noteq> 0 then put_flag 9 True e else e)
     in if flags AND MAP_PRIVATE \<noteq> 0 then put_flag 10 True e else e)"

definition mmap_page :: "nat \<Rightarrow> nat \<Rightarrow> nat \<Rightarrow> bitmap \<times> mstate \<Rightarrow> (bitmap \<times> mstate) option" where
  "mmap_page prot flags page = (\<lambda>(bm, ms). do {
     ms \<leftarrow> link_page page ms;
     bm \<leftarrow> bitmap_set bm (IDX page) True;
     ((t, i), ms) \<leftarrow> get_entry page False ms;
     Some (bm, set_pm t i (mmap_entry prot flags (pm ms t i)) ms) })"

text \<open>\<open>sys_mmap\<close> without a file; with one, \<open>lseek\<close> and \<open>read\<close> into the pages follow.\<close>

definition sys_mmap :: "nat \<Rightarrow> nat \<Rightarrow> nat \<Rightarrow> nat \<Rightarrow> 'a mtask_scheme \<Rightarrow> mstate \<Rightarrow>
    (nat \<times> 'a mtask_scheme \<times> mstate) option" where
  "sys_mmap addr len prot flags task ms = do {
     ASSERT_PAGE addr;
     count \<leftarrow> div_round_up len PAGE_SIZE;
     (vaddr, bm) \<leftarrow> (if addr = 0 then scan_page (vmap task) count else Some (addr, vmap task));
     cassert (vaddr \<ge> USER_MMAP_ADDR \<and> vaddr < USER_STACK_BOTTOM);
     (bm, ms) \<leftarrow> for_each (\<lambda>i. mmap_page prot flags (w32 (vaddr + PAGE_SIZE * i))) [0..<count] (bm, ms);
     Some (vaddr, task\<lparr>vmap := bm\<rparr>, ms) }"

definition munmap_page :: "nat \<Rightarrow> bitmap \<times> mstate \<Rightarrow> (bitmap \<times> mstate) option" where
  "munmap_page page = (\<lambda>(bm, ms). do {
     ms \<leftarrow> unlink_page page ms;
     t \<leftarrow> bitmap_test bm (IDX page);
     cassert t;
     bm \<leftarrow> bitmap_set bm (IDX page) False;
     Some (bm, ms) })"

definition sys_munmap :: "nat \<Rightarrow> nat \<Rightarrow> 'a mtask_scheme \<Rightarrow> mstate \<Rightarrow>
    (int \<times> 'a mtask_scheme \<times> mstate) option" where
  "sys_munmap vaddr len task ms = do {
     cassert (vaddr \<ge> USER_MMAP_ADDR \<and> vaddr < USER_STACK_BOTTOM);
     ASSERT_PAGE vaddr;
     count \<leftarrow> div_round_up len PAGE_SIZE;
     (bm, ms) \<leftarrow> for_each (\<lambda>i. munmap_page (w32 (vaddr + PAGE_SIZE * i))) [0..<count] (vmap task, ms);
     Some (0, task\<lparr>vmap := bm\<rparr>, ms) }"

text \<open>\<open>page_fault\<close> either resolves the fault or ends the task (\<open>task_exit(-1)\<close>, which does not
  come back). \<open>error\<close> bit 0 is \<open>present\<close>, bit 1 is \<open>write\<close>.\<close>

datatype fault = Resolved mstate | Task_exit int

definition page_fault :: "nat \<Rightarrow> u32 \<Rightarrow> 'a mtask_scheme \<Rightarrow> mstate \<Rightarrow> fault option" where
  "page_fault vaddr error task ms =
     (if vaddr < USER_EXEC_ADDR \<or> vaddr \<ge> USER_STACK_TOP
      then do {
        cassert (uid task \<noteq> 0);
        Some (Task_exit (- 1)) }
      else if bit error 0
      then do {
        cassert (bit error 1);
        ((t, i), ms) \<leftarrow> get_entry vaddr False ms;
        let e = pm ms t i;
        cassert (present e);
        cassert (\<not> shared e);
        cassert (\<not> readonly e);
        c \<leftarrow> aget (memory_map ms) (index e);
        cassert (c > 0);
        if c = 1 then Some (Resolved (set_pm t i (put_flag 1 True e) ms))
        else do {
          (paddr, ms) \<leftarrow> copy_page (index e) ms;
          c \<leftarrow> aget (memory_map ms) (index e);
          let ms = ms\<lparr>memory_map := (memory_map ms)[index e := c - 1]\<rparr>;
          Some (Resolved (set_pm t i (entry_init (IDX paddr)) ms)) } }
      else if vaddr < brk task \<or> vaddr \<ge> USER_STACK_BOTTOM
      then do {
        ms \<leftarrow> link_page (PAGE (IDX vaddr)) ms;
        Some (Resolved ms) }
      else None)"

section \<open>Bit fields\<close>

lemma fields_unfold:
  "present e = bit e 0" "writable e = bit e 1" "user e = bit e 2" "shared e = bit e 9"
  "privat e = bit e 10" "readonly e = bit e 11"
  by (simp_all add: present_def writable_def user_def shared_def privat_def readonly_def)

lemma bit_put_flag: "k < 32 \<Longrightarrow> bit (put_flag k b e) n \<longleftrightarrow> (if n = k then b else bit e n)"
  by (auto simp: put_flag_def bit_simps)

lemma bit_fff: "bit (0xFFF :: u32) n \<longleftrightarrow> n < 12"
proof -
  have m: "(0xFFF :: u32) = mask 12" by (simp add: mask_eq_exp_minus_1)
  show ?thesis unfolding m by (auto simp only: bit_mask_iff) auto
qed

lemma bit_put_index:
  "bit (put_index i e) n \<longleftrightarrow> (if n < 12 then bit e n else n < 32 \<and> bit (of_nat i :: u32) (n - 12))"
  unfolding put_index_def bit_or_iff bit_and_iff bit_push_bit_iff bit_fff by auto

lemma index_put_index: "i < 2 ^ 20 \<Longrightarrow> index (put_index i e) = i"
proof -
  assume i: "i < 2 ^ 20"
  have "drop_bit 12 (put_index i e) = (of_nat i :: u32)"
  proof (rule bit_word_eqI)
    fix n
    assume n: "n < LENGTH(32)"
    have "n < 20" if b: "bit (of_nat i :: u32) n"
    proof (rule ccontr)
      assume "\<not> n < 20"
      then have "2 ^ 20 \<le> (2 :: nat) ^ n" by (intro power_increasing) simp_all
      then have "i < 2 ^ n" using i by linarith
      then have nb: "\<not> bit i n" by (simp add: bit_iff_odd)
      have "bit (of_nat (unat (of_nat i :: u32)) :: u32) n" using b by simp
      then have "bit (unat (of_nat i :: u32)) n" by (simp add: bit_unsigned_iff)
      then have "bit i n" using i by (simp add: unat_of_nat)
      with nb show False by simp
    qed
    then show "bit (drop_bit 12 (put_index i e)) n \<longleftrightarrow> bit (of_nat i :: u32) n"
      using n by (auto simp: bit_drop_bit_eq bit_put_index)
  qed
  with i show ?thesis by (simp add: index_def unat_of_nat)
qed

lemma index_put_flag: "k < 12 \<Longrightarrow> index (put_flag k b e) = index e"
proof -
  assume "k < 12"
  then have "drop_bit 12 (put_flag k b e) = drop_bit 12 e"
    by (intro bit_eqI) (auto simp: bit_drop_bit_eq bit_put_flag)
  then show ?thesis by (simp add: index_def)
qed

lemma flags_put_index [simp]:
  "present (put_index i e) = present e" "writable (put_index i e) = writable e"
  "user (put_index i e) = user e" "shared (put_index i e) = shared e"
  "privat (put_index i e) = privat e" "readonly (put_index i e) = readonly e"
  by (simp_all add: fields_unfold bit_put_index)

lemma entry_init_fields [simp]:
  "present (entry_init i)" "writable (entry_init i)" "user (entry_init i)" "\<not> shared (entry_init i)"
  "\<not> privat (entry_init i)" "\<not> readonly (entry_init i)"
  by (simp_all add: fields_unfold entry_init_def bit_put_index bit_put_flag)

lemma index_entry_init [simp]: "i < 2 ^ 20 \<Longrightarrow> index (entry_init i) = i"
  by (simp add: entry_init_def index_put_index)

lemma present_put_present [simp]: "present (put_flag 0 b e) = b"
  by (simp add: fields_unfold bit_put_flag)

lemma index_less: "index e < 2 ^ 20"
proof -
  have "unat (drop_bit 12 e) = drop_bit 12 (unat e)" by (rule unat_drop_bit_eq)
  then have "unat (drop_bit 12 e) = unat e div 2 ^ 12" by (simp only: drop_bit_eq_div)
  moreover have "unat e < 2 ^ 32" using unsigned_less [of e] by simp
  ultimately show ?thesis by (simp add: index_def)
qed

lemma not_present_0 [simp]: "\<not> present 0"
  by (simp add: present_def)

section \<open>Physical pages: the reference counts\<close>

text \<open>The free pages are those behind \<open>start_page\<close> without a reference. \<open>free_pages\<close> exceeds
  their number by a constant \<open>k\<close>.\<close>

definition free_set :: "mstate \<Rightarrow> nat set" where
  "free_set ms = {i. start_page ms \<le> i \<and> i < total_pages ms \<and> memory_map ms ! i = 0}"

definition mem_inv :: "nat \<Rightarrow> mstate \<Rightarrow> bool" where
  "mem_inv k ms \<longleftrightarrow> total_pages ms \<le> length (memory_map ms) \<and> total_pages ms \<le> 2 ^ 20 \<and>
     free_pages ms = card (free_set ms) + k \<and> k < total_pages ms"

lemma free_set_finite [simp]: "finite (free_set ms)"
  by (rule finite_subset [of _ "{..<total_pages ms}"]) (auto simp: free_set_def)

lemma free_set_pm [simp]: "free_set (ms\<lparr>pm := x\<rparr>) = free_set ms" "free_set (set_pm p i v ms) = free_set ms"
  by (simp_all add: free_set_def set_pm_def)

lemma mem_inv_pm [simp]: "mem_inv k (ms\<lparr>pm := x\<rparr>) = mem_inv k ms" "mem_inv k (set_pm p i v ms) = mem_inv k ms"
  by (simp_all add: mem_inv_def) (simp_all add: set_pm_def)

lemma free_le: "mem_inv k ms \<Longrightarrow> card (free_set ms) \<le> total_pages ms - start_page ms"
proof -
  have "free_set ms \<subseteq> {start_page ms..<total_pages ms}" by (auto simp: free_set_def)
  from card_mono [OF _ this] show ?thesis by simp
qed

lemma IDX_PAGE: "i < 2 ^ 20 \<Longrightarrow> IDX (PAGE i) = i" and PAGE_eq: "i < 2 ^ 20 \<Longrightarrow> PAGE i = i * 4096"
  by (simp_all add: IDX_def PAGE_def)

text \<open>\<open>get_page\<close> takes the lowest free page, with one reference; it panics only when there is none.\<close>

lemma get_page_spec:
  assumes "mem_inv k ms"
  shows "free_set ms = {} \<Longrightarrow> get_page ms = None"
    and "free_set ms \<noteq> {} \<Longrightarrow> \<exists>i. i \<in> free_set ms \<and> (\<forall>j \<in> free_set ms. i \<le> j) \<and>
      get_page ms = Some (PAGE i, ms\<lparr>memory_map := (memory_map ms)[i := 1], free_pages := free_pages ms - 1\<rparr>)"
proof -
  let ?f = "find (\<lambda>i. memory_map ms ! i = 0) [start_page ms..<total_pages ms]"
  show "get_page ms = None" if "free_set ms = {}"
  proof -
    have "?f = None" using that by (auto simp: find_None_iff free_set_def)
    then show ?thesis by (simp add: get_page_def)
  qed
  show "\<exists>i. i \<in> free_set ms \<and> (\<forall>j \<in> free_set ms. i \<le> j) \<and>
      get_page ms = Some (PAGE i, ms\<lparr>memory_map := (memory_map ms)[i := 1], free_pages := free_pages ms - 1\<rparr>)"
    if "free_set ms \<noteq> {}"
  proof -
    have "?f \<noteq> None" using that by (auto simp: find_None_iff free_set_def)
    then obtain i where f: "?f = Some i" by blast
    then obtain j where j: "j < total_pages ms - start_page ms" "i = start_page ms + j" "memory_map ms ! i = 0"
      "\<forall>j' < j. memory_map ms ! (start_page ms + j') \<noteq> 0"
      by (auto simp: find_Some_iff)
    have "i \<in> free_set ms" using j by (auto simp: free_set_def)
    moreover have "i \<le> j'" if "j' \<in> free_set ms" for j'
    proof (rule ccontr)
      assume "\<not> i \<le> j'"
      with that j(2) have "j' - start_page ms < j" "start_page ms + (j' - start_page ms) = j'"
        by (auto simp: free_set_def)
      with j(4) that show False by (metis (mono_tags, lifting) free_set_def mem_Collect_eq)
    qed
    moreover have "0 < card (free_set ms)" using that by (simp add: card_gt_0_iff)
    moreover have "card (free_set ms) \<le> 2 ^ 20" "k < 2 ^ 20"
      using free_le [OF assms] assms by (auto simp: mem_inv_def)
    ultimately show ?thesis using assms f
      by (auto simp: get_page_def mem_inv_def)
  qed
qed

lemma get_page_inv:
  assumes "mem_inv k ms" and "get_page ms = Some (a, ms')"
  obtains i where "a = PAGE i" "i \<in> free_set ms" "i < 2 ^ 20" "IDX a = i" "mem_inv k ms'" "pm ms' = pm ms" "cr3 ms' = cr3 ms"
    "free_set ms' = free_set ms - {i}" "memory_map ms' = (memory_map ms)[i := 1]"
    "start_page ms' = start_page ms" "total_pages ms' = total_pages ms" "kernel_map ms' = kernel_map ms"
proof -
  have ne: "free_set ms \<noteq> {}" using get_page_spec(1) [OF assms(1)] assms(2) by auto
  from get_page_spec(2) [OF assms(1) ne] assms(2) obtain i where i: "i \<in> free_set ms" "a = PAGE i"
    "ms' = ms\<lparr>memory_map := (memory_map ms)[i := 1], free_pages := free_pages ms - 1\<rparr>" by auto
  have less: "i < 2 ^ 20" "i < length (memory_map ms)"
    using i(1) assms(1) by (auto simp: free_set_def mem_inv_def)
  have fs: "free_set ms' = free_set ms - {i}"
    using less(2) by (auto simp: i(3) free_set_def nth_list_update)
  have "0 < card (free_set ms)" using ne by (simp add: card_gt_0_iff)
  with assms(1) i have "mem_inv k ms'"
    unfolding mem_inv_def fs by (simp add: i(3))
  with i less fs show thesis by (intro that [of i]) (auto simp: IDX_PAGE)
qed

lemma put_page_spec:
  assumes "mem_inv k ms" and "i < total_pages ms" and "start_page ms \<le> i" and "memory_map ms ! i \<ge> 1"
    and "card (free_set ms) + k + 1 < total_pages ms" and "0 < card (free_set ms) + k \<or> memory_map ms ! i = 1"
  shows "\<exists>ms'. put_page (PAGE i) ms = Some ms' \<and> mem_inv k ms' \<and> pm ms' = pm ms \<and> cr3 ms' = cr3 ms \<and>
    memory_map ms' = (memory_map ms)[i := memory_map ms ! i - 1] \<and>
    free_set ms' = (if memory_map ms ! i = 1 then insert i (free_set ms) else free_set ms) \<and>
    start_page ms' = start_page ms \<and> total_pages ms' = total_pages ms"
proof -
  have i: "i < 2 ^ 20" "i < length (memory_map ms)" using assms(1,2) by (auto simp: mem_inv_def)
  define m1 where "m1 = ms\<lparr>memory_map := (memory_map ms)[i := memory_map ms ! i - 1]\<rparr>"
  define ms' where "ms' = (if memory_map ms ! i - 1 = 0 then m1\<lparr>free_pages := w32 (free_pages m1 + 1)\<rparr> else m1)"
  have fs: "free_set ms' = (if memory_map ms ! i = 1 then insert i (free_set ms) else free_set ms)"
    using assms(2-4) i by (auto simp: ms'_def m1_def free_set_def nth_list_update)
  have ni: "i \<notin> free_set ms" using assms(4) by (auto simp: free_set_def)
  have fp: "free_pages ms = card (free_set ms) + k" using assms(1) by (simp add: mem_inv_def)
  have inv: "mem_inv k ms'"
    using assms i ni unfolding mem_inv_def fs by (simp add: ms'_def m1_def)
  have w: "w32 (Suc (card (free_set ms) + k)) = Suc (card (free_set ms) + k)"
    using assms(1,5) by (simp add: mem_inv_def)
  have "put_page (PAGE i) ms = Some ms'"
    using assms i inv fs ni fp w
    by (auto simp: put_page_def ASSERT_PAGE_def PAGE_eq IDX_def ms'_def m1_def Let_def)
  with inv fs show ?thesis by (simp add: ms'_def m1_def)
qed

section \<open>The user part of an address space\<close>

definition is_user :: "nat \<Rightarrow> bool" where
  "is_user v \<longleftrightarrow> 4 \<le> DIDX v \<and> DIDX v < 1023"

text \<open>The directory entry of an address, and the page an address is mapped to.\<close>

definition dent :: "mstate \<Rightarrow> nat \<Rightarrow> entry" where
  "dent ms i = pm ms (IDX (cr3 ms)) i"

definition tent :: "mstate \<Rightarrow> nat \<Rightarrow> nat \<Rightarrow> entry" where
  "tent ms i j = pm ms (index (dent ms i)) j"

definition xlate :: "mstate \<Rightarrow> nat \<Rightarrow> nat option" where
  "xlate ms v =
     (if present (dent ms (DIDX v)) \<and> present (tent ms (DIDX v) (TIDX v))
      then Some (index (tent ms (DIDX v) (TIDX v))) else None)"

text \<open>\<open>is_table p\<close>: page \<open>p\<close> is the directory or a table of it. In a well-formed address space
  these pages and the user pages are not free, tables are not shared between directory entries and
  are not user pages.\<close>

definition is_table :: "mstate \<Rightarrow> nat \<Rightarrow> bool" where
  "is_table ms p \<longleftrightarrow> p = IDX (cr3 ms) \<or> (\<exists>i < 1023. present (dent ms i) \<and> index (dent ms i) = p)"

definition pg_inv :: "mstate \<Rightarrow> bool" where
  "pg_inv ms \<longleftrightarrow>
     (\<forall>p. is_table ms p \<longrightarrow> p \<notin> free_set ms) \<and>
     (\<forall>i < 1023. present (dent ms i) \<longrightarrow> index (dent ms i) \<noteq> IDX (cr3 ms)) \<and>
     (\<forall>i < 1023. \<forall>j < 1023. present (dent ms i) \<longrightarrow> present (dent ms j) \<longrightarrow>
        index (dent ms i) = index (dent ms j) \<longrightarrow> i = j) \<and>
     (\<forall>i j. 4 \<le> i \<longrightarrow> i < 1023 \<longrightarrow> j < 1024 \<longrightarrow> present (dent ms i) \<longrightarrow> present (tent ms i j) \<longrightarrow>
        index (tent ms i j) \<notin> free_set ms \<and> \<not> is_table ms (index (tent ms i j)))"

lemma pg_invD:
  assumes "pg_inv ms"
  shows "is_table ms p \<Longrightarrow> p \<notin> free_set ms"
    and "i < 1023 \<Longrightarrow> present (dent ms i) \<Longrightarrow> index (dent ms i) \<noteq> IDX (cr3 ms)"
    and "i < 1023 \<Longrightarrow> j < 1023 \<Longrightarrow> present (dent ms i) \<Longrightarrow> present (dent ms j) \<Longrightarrow>
      index (dent ms i) = index (dent ms j) \<Longrightarrow> i = j"
    and "4 \<le> i \<Longrightarrow> i < 1023 \<Longrightarrow> j < 1024 \<Longrightarrow> present (dent ms i) \<Longrightarrow> present (tent ms i j) \<Longrightarrow>
      index (tent ms i j) \<notin> free_set ms"
    and "4 \<le> i \<Longrightarrow> i < 1023 \<Longrightarrow> j < 1024 \<Longrightarrow> present (dent ms i) \<Longrightarrow> present (tent ms i j) \<Longrightarrow>
      \<not> is_table ms (index (tent ms i j))"
  using assms unfolding pg_inv_def by blast+

lemma TIDX_less [simp]: "TIDX v < 1024" and DIDX_less [simp]: "DIDX v < 1024"
  by (simp_all add: TIDX_def DIDX_def)

lemma page_indexes:
  assumes "v < 2 ^ 32" and "v' < 2 ^ 32"
  shows "DIDX v = DIDX v' \<and> TIDX v = TIDX v' \<longleftrightarrow> IDX v = IDX v'"
proof -
  have "IDX u = DIDX u * 1024 + TIDX u" if "u < 2 ^ 32" for u
  proof -
    have "u div 4194304 = u div 4096 div 1024" by (simp add: div_mult2_eq [symmetric])
    moreover have "u div 4194304 < 1024" using that by (simp add: div_less_iff_less_mult)
    ultimately show ?thesis by (simp add: IDX_def DIDX_def TIDX_def)
  qed
  note e = this [OF assms(1)] this [OF assms(2)]
  show ?thesis
  proof
    assume "IDX v = IDX v'"
    then have "DIDX v * 1024 + TIDX v = DIDX v' * 1024 + TIDX v'" using e by simp
    moreover have "TIDX v < 1024" "TIDX v' < 1024" by simp_all
    ultimately have "(DIDX v * 1024 + TIDX v) div 1024 = DIDX v'" "(DIDX v * 1024 + TIDX v) mod 1024 = TIDX v'"
      by simp_all
    then show "DIDX v = DIDX v' \<and> TIDX v = TIDX v'" by simp
  qed (simp add: e)
qed

text \<open>A new table: the directory entry is set, the table is empty, and nothing is mapped that was
  not before.\<close>

lemma get_pte_create:
  assumes "mem_inv k ms" and "pg_inv ms" and "is_user v" and "get_pte v True ms = Some (t, ms1)"
  shows "mem_inv k ms1 \<and> pg_inv ms1 \<and> present (dent ms1 (DIDX v)) \<and> index (dent ms1 (DIDX v)) = t \<and>
    cr3 ms1 = cr3 ms \<and> (is_table ms t \<or> t \<in> free_set ms) \<and>
    (\<forall>v'. is_user v' \<longrightarrow> xlate ms1 v' = xlate ms v') \<and> free_set ms1 \<subseteq> free_set ms \<and>
    (\<forall>p. p \<notin> free_set ms \<longrightarrow> \<not> is_table ms p \<longrightarrow> pm ms1 p = pm ms p) \<and>
    (\<forall>i j. present (dent ms i) \<longrightarrow> dent ms1 i = dent ms i \<and> (i < 1023 \<longrightarrow> tent ms1 i j = tent ms i j)) \<and>
    (\<forall>i < 1023. present (dent ms1 i) \<longrightarrow> \<not> present (dent ms i) \<longrightarrow> (\<forall>j. \<not> present (tent ms1 i j)))"
proof (cases "present (dent ms (DIDX v))")
  case True
  moreover have "is_table ms (index (dent ms (DIDX v)))"
    using True assms(3) by (auto simp: is_table_def is_user_def)
  ultimately show ?thesis using assms by (auto simp: get_pte_def dent_def Let_def)
next
  case False
  let ?d = "DIDX v" and ?D = "IDX (cr3 ms)"
  obtain a m where g: "get_page ms = Some (a, m)"
    using assms(4) False by (auto simp: get_pte_def dent_def Let_def split: Option.bind_splits)
  from get_page_inv [OF assms(1) g] obtain f where f: "a = PAGE f" "f \<in> free_set ms" "f < 2 ^ 20" "IDX a = f"
    "mem_inv k m" "pm m = pm ms" "cr3 m = cr3 ms" "free_set m = free_set ms - {f}" by metis
  have ms1: "ms1 = (set_pm ?D ?d (entry_init f) m)\<lparr>pm := (pm (set_pm ?D ?d (entry_init f) m))(f := (\<lambda>_. 0))\<rparr>"
    and t: "t = f"
    using assms(4) False g f by (auto simp: get_pte_def dent_def Let_def)
  have fD: "f \<noteq> ?D" using pg_invD(1) [OF assms(2), of ?D] f(2) by (auto simp: is_table_def)
  have ft: "index (dent ms i) \<noteq> f" if "i < 1023" "present (dent ms i)" for i
    using pg_invD(1) [OF assms(2), of "index (dent ms i)"] f(2) that by (auto simp: is_table_def)
  have c: "cr3 ms1 = cr3 ms" using f by (simp add: ms1 set_pm_def)
  have de: "dent ms1 i = (if i = ?d then entry_init f else dent ms i)" for i
    unfolding dent_def c using fD f(6) by (simp add: ms1 set_pm_def)
  have pm1: "pm ms1 p = (if p = f then (\<lambda>_. 0) else if p = ?D then (pm ms ?D)(?d := entry_init f) else pm ms p)" for p
    using f(6) fD by (simp add: ms1 set_pm_def)
  have te: "tent ms1 i j = (if i = ?d then 0 else tent ms i j)" if "i < 1023" "present (dent ms1 i)" for i j
  proof (cases "i = ?d")
    case True
    then show ?thesis using f(3) by (simp add: tent_def de pm1)
  next
    case False
    then have p: "present (dent ms i)" using that de by simp
    have "index (dent ms i) \<noteq> ?D" using pg_invD(2) [OF assms(2) that(1) p] .
    with ft [OF that(1) p] False show ?thesis by (simp add: tent_def de pm1)
  qed
  have u: "?d < 1023" using assms(3) by (simp add: is_user_def)
  have fs: "free_set ms1 = free_set ms - {f}" using f by (simp add: ms1)
  have tab: "is_table ms1 p \<longleftrightarrow> p = f \<or> is_table ms p" for p
  proof -
    have "(\<exists>i < 1023. present (dent ms1 i) \<and> index (dent ms1 i) = p) \<longleftrightarrow>
        p = f \<or> (\<exists>i < 1023. present (dent ms i) \<and> index (dent ms i) = p)" (is "?L \<longleftrightarrow> ?R")
    proof
      assume ?L
      then show ?R using f(3) by (auto simp: de split: if_splits)
    next
      assume ?R
      then show ?L
      proof
        assume "p = f"
        then show ?L using u f(3) by (intro exI [of _ ?d]) (simp add: de)
      next
        assume "\<exists>i < 1023. present (dent ms i) \<and> index (dent ms i) = p"
        then obtain i where "i < 1023" "present (dent ms i)" "index (dent ms i) = p" by blast
        moreover have "i \<noteq> ?d" using calculation False by auto
        ultimately show ?L by (intro exI [of _ i]) (simp add: de)
      qed
    qed
    then show ?thesis by (auto simp: is_table_def c)
  qed
  have x: "xlate ms1 v' = xlate ms v'" if "is_user v'" for v'
  proof (cases "DIDX v' = ?d")
    case True
    then show ?thesis using False u te [of ?d "TIDX v'"] de [of ?d] by (simp add: xlate_def)
  next
    case ne: False
    then show ?thesis
      using that te [of "DIDX v'" "TIDX v'"] de by (cases "present (dent ms (DIDX v'))") (simp_all add: xlate_def is_user_def)
  qed
  have "pg_inv ms1"
    unfolding pg_inv_def
  proof (intro conjI allI impI)
    fix p assume "is_table ms1 p"
    then show "p \<notin> free_set ms1" using pg_invD(1) [OF assms(2)] by (auto simp: tab fs)
  next
    fix i assume "i < 1023" "present (dent ms1 i)"
    then show "index (dent ms1 i) \<noteq> IDX (cr3 ms1)"
      using pg_invD(2) [OF assms(2)] fD f(3) by (auto simp: c de split: if_splits)
  next
    fix i j assume "i < 1023" "j < 1023" "present (dent ms1 i)" "present (dent ms1 j)"
      "index (dent ms1 i) = index (dent ms1 j)"
    then show "i = j" using pg_invD(3) [OF assms(2)] ft f(3) by (auto simp: de split: if_splits)
  next
    fix i j :: nat assume i: "4 \<le> i" "i < 1023" "j < 1024" "present (dent ms1 i)" "present (tent ms1 i j)"
    then have ne: "i \<noteq> ?d" using te by auto
    then have "present (dent ms i)" "present (tent ms i j)" using i te de by auto
    then have "index (tent ms i j) \<notin> free_set ms" "\<not> is_table ms (index (tent ms i j))"
      using pg_invD(4,5) [OF assms(2) i(1-3)] by auto
    moreover have "tent ms1 i j = tent ms i j" using te i ne by simp
    ultimately show "index (tent ms1 i j) \<notin> free_set ms1" "\<not> is_table ms1 (index (tent ms1 i j))"
      using f(2) by (auto simp: fs tab)
  qed
  moreover have "tent ms1 i j = tent ms i j" if "i < 1023" "present (dent ms i)" for i j
    using te [of i j] de [of i] that False by auto
  ultimately show ?thesis
    using f t c x fs de te pm1 u False ms1 by (auto simp: is_table_def)
qed

text \<open>Taking pages away from the free ones harms no address space.\<close>

lemma same_tables:
  assumes "pm ms' = pm ms" and "cr3 ms' = cr3 ms"
  shows "dent ms' = dent ms" and "tent ms' = tent ms" and "xlate ms' = xlate ms" and "is_table ms' = is_table ms"
proof -
  show d: "dent ms' = dent ms" and t: "tent ms' = tent ms"
    by (simp_all add: dent_def tent_def fun_eq_iff assms)
  show "xlate ms' = xlate ms" and "is_table ms' = is_table ms"
    by (simp_all add: xlate_def is_table_def fun_eq_iff d t assms)
qed

lemma pg_inv_shrink:
  assumes "pg_inv ms" and "pm ms' = pm ms" and "cr3 ms' = cr3 ms" and "free_set ms' \<subseteq> free_set ms"
  shows "pg_inv ms'"
  using assms(1,4) unfolding pg_inv_def same_tables [OF assms(2,3)] assms(3) by blast

text \<open>Writing the entry of a user address in its table.\<close>

lemma set_leaf:
  fixes e :: entry
  assumes "pg_inv ms" and "is_user v" and "present (dent ms (DIDX v))"
    and "present e \<Longrightarrow> index e \<notin> free_set ms \<and> \<not> is_table ms (index e)"
  defines "t \<equiv> index (dent ms (DIDX v))"
  defines "ms' \<equiv> set_pm t (TIDX v) e ms"
  shows "pg_inv ms'" and "dent ms' = dent ms" and "is_table ms' = is_table ms"
    and "i < 1023 \<Longrightarrow> present (dent ms i) \<Longrightarrow>
      tent ms' i j = (if i = DIDX v \<and> j = TIDX v then e else tent ms i j)"
    and "is_user v' \<Longrightarrow> xlate ms' v' = (if DIDX v' = DIDX v \<and> TIDX v' = TIDX v
      then (if present e then Some (index e) else None) else xlate ms v')"
    and "p \<noteq> t \<Longrightarrow> pm ms' p = pm ms p"
proof -
  have u: "DIDX v < 1023" using assms(2) by (simp add: is_user_def)
  have tD: "t \<noteq> IDX (cr3 ms)" unfolding t_def by (rule pg_invD(2) [OF assms(1) u assms(3)])
  show p: "pm ms' p = pm ms p" if "p \<noteq> t" for p using that by (simp add: ms'_def set_pm_def)
  have c: "cr3 ms' = cr3 ms" by (simp add: ms'_def set_pm_def)
  show d: "dent ms' = dent ms" using p tD by (auto simp: dent_def c fun_eq_iff)
  show it: "is_table ms' = is_table ms" by (simp add: is_table_def fun_eq_iff d c)
  show te: "tent ms' i j = (if i = DIDX v \<and> j = TIDX v then e else tent ms i j)"
    if "i < 1023" "present (dent ms i)" for i j
  proof (cases "i = DIDX v")
    case True
    then show ?thesis by (simp add: tent_def d) (simp add: ms'_def set_pm_def t_def)
  next
    case False
    then have "index (dent ms i) \<noteq> t"
      unfolding t_def using pg_invD(3) [OF assms(1) that(1) u that(2) assms(3)] by blast
    with False show ?thesis by (simp add: tent_def d p)
  qed
  have fs: "free_set ms' = free_set ms" by (simp add: ms'_def)
  show "xlate ms' v' = (if DIDX v' = DIDX v \<and> TIDX v' = TIDX v
      then (if present e then Some (index e) else None) else xlate ms v')" if "is_user v'"
    using that te [of "DIDX v'" "TIDX v'"] assms(3)
    by (cases "present (dent ms (DIDX v'))") (auto simp: xlate_def d is_user_def)
  show "pg_inv ms'"
    unfolding pg_inv_def fs it d c
  proof (intro conjI allI impI)
    fix i j :: nat assume i: "4 \<le> i" "i < 1023" "j < 1024" "present (dent ms i)" "present (tent ms' i j)"
    show "index (tent ms' i j) \<notin> free_set ms" "\<not> is_table ms (index (tent ms' i j))"
      using te [of i j] i assms(4) pg_invD(4,5) [OF assms(1) i(1-4)] by (auto split: if_splits)
  qed (use pg_invD(1-3) [OF assms(1)] in blast)+
qed

lemma link_page_spec:
  assumes "mem_inv k ms" and "pg_inv ms" and "is_user v" and "link_page v ms = Some ms'"
  shows "mem_inv k ms' \<and> pg_inv ms' \<and> cr3 ms' = cr3 ms \<and> free_set ms' \<subseteq> free_set ms \<and>
    (\<forall>v'. is_user v' \<longrightarrow> (DIDX v', TIDX v') \<noteq> (DIDX v, TIDX v) \<longrightarrow> xlate ms' v' = xlate ms v') \<and>
    (\<forall>p. p \<notin> free_set ms \<longrightarrow> \<not> is_table ms p \<longrightarrow> pm ms' p = pm ms p) \<and>
    (case xlate ms v of Some f \<Rightarrow> xlate ms' v = Some f
     | None \<Rightarrow> \<exists>f \<in> free_set ms. xlate ms' v = Some f \<and> memory_map ms' ! f = 1)"
proof -
  obtain t ms1 where g: "get_pte v True ms = Some (t, ms1)"
    using assms(4) by (auto simp: link_page_def get_entry_def split: Option.bind_splits)
  note c = get_pte_create [OF assms(1-3) g]
  then have t: "t = index (dent ms1 (DIDX v))" and pd: "present (dent ms1 (DIDX v))"
    and tt: "is_table ms t \<or> t \<in> free_set ms" by auto
  have x1: "xlate ms1 v' = xlate ms v'" if "is_user v'" for v' using c that by blast
  have ent: "pm ms1 t (TIDX v) = tent ms1 (DIDX v) (TIDX v)" by (simp add: tent_def t)
  show ?thesis
  proof (cases "present (tent ms1 (DIDX v) (TIDX v))")
    case True
    then have "ms' = ms1" using assms(4) g ent by (simp add: link_page_def get_entry_def ASSERT_PAGE_def split: if_splits)
    moreover have "xlate ms v = Some (index (tent ms1 (DIDX v) (TIDX v)))"
      using x1 [OF assms(3)] True pd by (simp add: xlate_def)
    ultimately show ?thesis using c assms(3) by auto
  next
    case False
    obtain a ms2 where g2: "get_page ms1 = Some (a, ms2)" and ms': "ms' = set_pm t (TIDX v) (entry_init (IDX a)) ms2"
      using assms(4) g ent False by (auto simp: link_page_def get_entry_def split: Option.bind_splits)
    from c have m1: "mem_inv k ms1" "pg_inv ms1" by auto
    from get_page_inv [OF m1(1) g2] obtain f where f: "f \<in> free_set ms1" "f < 2 ^ 20" "IDX a = f"
      "mem_inv k ms2" "pm ms2 = pm ms1" "cr3 ms2 = cr3 ms1" "free_set ms2 = free_set ms1 - {f}"
      "memory_map ms2 = (memory_map ms1)[f := 1]" by metis
    note st = same_tables [OF f(5,6)]
    have pg2: "pg_inv ms2" by (rule pg_inv_shrink [OF m1(2) f(5,6)]) (use f(7) in auto)
    have nt: "\<not> is_table ms2 f" using pg_invD(1) [OF m1(2), of f] f(1) by (auto simp: st)
    have sl: "index (entry_init f) \<notin> free_set ms2 \<and> \<not> is_table ms2 (index (entry_init f))"
      using f nt by simp
    have pd2: "present (dent ms2 (DIDX v))" using pd assms(3) by (simp add: st)
    note leaf = set_leaf [OF pg2 assms(3) pd2 sl]
    have ms'': "ms' = set_pm (index (dent ms2 (DIDX v))) (TIDX v) (entry_init f) ms2"
      by (simp add: ms' st t f(3))
    have "f \<in> free_set ms" using f(1) c by auto
    moreover have "f < length (memory_map ms1)" using f(1) m1(1) by (auto simp: free_set_def mem_inv_def)
    moreover have "xlate ms v = None" using x1 [OF assms(3)] False by (simp add: xlate_def)
    moreover have "pm ms' p = pm ms p" if "\<not> is_table ms p" "p \<notin> free_set ms" for p
    proof -
      have "p \<noteq> t" using tt that by auto
      then have "pm ms' p = pm ms1 p" using leaf(6) [of p] f(5) by (simp add: ms'' st t)
      with c that show ?thesis by auto
    qed
    moreover have "xlate ms' v = Some f" using leaf(5) [OF assms(3)] f(2) by (simp add: ms'')
    moreover have "xlate ms' v' = xlate ms v'" if "is_user v'" "(DIDX v', TIDX v') \<noteq> (DIDX v, TIDX v)" for v'
      using leaf(5) [OF that(1)] that(2) x1 [OF that(1)] by (auto simp: ms'' st)
    moreover have "mem_inv k ms'" "pg_inv ms'" "free_set ms' \<subseteq> free_set ms" "cr3 ms' = cr3 ms"
      "memory_map ms' = (memory_map ms1)[f := 1]"
      using c f leaf(1) by (auto simp: ms'') (auto simp: set_pm_def)
    ultimately show ?thesis by auto
  qed
qed

section \<open>Copy on write\<close>

text \<open>Writing a word of a kernel table does not touch the user part.\<close>

lemma set_kernel_entry:
  fixes e :: entry and j :: nat
  assumes "pg_inv ms" and "k < 4" and "present (dent ms k)" and "t = index (dent ms k)"
  defines "ms' \<equiv> set_pm t j e ms"
  shows "pg_inv ms'" and "dent ms' = dent ms" and "is_table ms' = is_table ms"
    and "4 \<le> i \<Longrightarrow> i < 1023 \<Longrightarrow> present (dent ms i) \<Longrightarrow> tent ms' i = tent ms i"
    and "is_user v \<Longrightarrow> xlate ms' v = xlate ms v" and "p \<noteq> t \<Longrightarrow> pm ms' p = pm ms p"
proof -
  have k: "k < 1023" using assms(2) by simp
  have tD: "t \<noteq> IDX (cr3 ms)" unfolding assms(4) by (rule pg_invD(2) [OF assms(1) k assms(3)])
  show p: "pm ms' p = pm ms p" if "p \<noteq> t" for p using that by (simp add: ms'_def set_pm_def)
  have c: "cr3 ms' = cr3 ms" by (simp add: ms'_def set_pm_def)
  show d: "dent ms' = dent ms" using p tD by (auto simp: dent_def c fun_eq_iff)
  show it: "is_table ms' = is_table ms" by (simp add: is_table_def fun_eq_iff d c)
  show te: "tent ms' i = tent ms i" if "4 \<le> i" "i < 1023" "present (dent ms i)" for i
  proof -
    have "index (dent ms i) \<noteq> t"
      unfolding assms(4) using pg_invD(3) [OF assms(1) that(2) k that(3) assms(3)] that(1) assms(2) by auto
    then show ?thesis by (simp add: tent_def d p fun_eq_iff)
  qed
  show "xlate ms' v = xlate ms v" if "is_user v"
    using that te [of "DIDX v"] by (cases "present (dent ms (DIDX v))") (auto simp: xlate_def d is_user_def)
  have fs: "free_set ms' = free_set ms" by (simp add: ms'_def)
  show "pg_inv ms'"
    unfolding pg_inv_def fs it d c
  proof (intro conjI allI impI)
    fix i j :: nat assume i: "4 \<le> i" "i < 1023" "j < 1024" "present (dent ms i)" "present (tent ms' i j)"
    then show "index (tent ms' i j) \<notin> free_set ms" "\<not> is_table ms (index (tent ms' i j))"
      using te [OF i(1,2,4)] pg_invD(4,5) [OF assms(1) i(1-4)] by auto
  qed (use pg_invD(1-3) [OF assms(1)] in blast)+
qed

text \<open>Filling a page that is neither a table nor mapped.\<close>

lemma set_frame:
  fixes w :: "nat \<Rightarrow> u32"
  assumes "pg_inv ms" and "\<not> is_table ms f"
  defines "ms' \<equiv> ms\<lparr>pm := (pm ms)(f := w)\<rparr>"
  shows "pg_inv ms'" and "dent ms' = dent ms" and "is_table ms' = is_table ms"
    and "i < 1023 \<Longrightarrow> present (dent ms i) \<Longrightarrow> tent ms' i = tent ms i"
    and "is_user v \<Longrightarrow> xlate ms' v = xlate ms v" and "p \<noteq> f \<Longrightarrow> pm ms' p = pm ms p" and "pm ms' f = w"
proof -
  show p: "pm ms' p = pm ms p" if "p \<noteq> f" for p using that by (simp add: ms'_def)
  show "pm ms' f = w" by (simp add: ms'_def)
  have c: "cr3 ms' = cr3 ms" by (simp add: ms'_def)
  have fD: "f \<noteq> IDX (cr3 ms)" using assms(2) by (auto simp: is_table_def)
  show d: "dent ms' = dent ms" using p fD by (auto simp: dent_def c fun_eq_iff)
  show it: "is_table ms' = is_table ms" by (simp add: is_table_def fun_eq_iff d c)
  show te: "tent ms' i = tent ms i" if "i < 1023" "present (dent ms i)" for i
  proof -
    have "index (dent ms i) \<noteq> f" using assms(2) that by (auto simp: is_table_def)
    then show ?thesis by (simp add: tent_def d p fun_eq_iff)
  qed
  show "xlate ms' v = xlate ms v" if "is_user v"
    using that te [of "DIDX v"] by (cases "present (dent ms (DIDX v))") (auto simp: xlate_def d is_user_def)
  have fs: "free_set ms' = free_set ms" by (simp add: ms'_def)
  show "pg_inv ms'"
    unfolding pg_inv_def fs it d c
  proof (intro conjI allI impI)
    fix i j :: nat assume i: "4 \<le> i" "i < 1023" "j < 1024" "present (dent ms i)" "present (tent ms' i j)"
    then show "index (tent ms' i j) \<notin> free_set ms" "\<not> is_table ms (index (tent ms' i j))"
      using te [OF i(2,4)] pg_invD(4,5) [OF assms(1) i(1-4)] by auto
  qed (use pg_invD(1-3) [OF assms(1)] in blast)+
qed

lemma copy_page_spec:
  assumes "mem_inv k ms" and "pg_inv ms" and "present (dent ms 0)" and "free_set ms \<noteq> {}"
    and "src \<notin> free_set ms" and "\<not> is_table ms src"
  shows "\<exists>f ms'. copy_page src ms = Some (PAGE f, ms') \<and> f \<in> free_set ms \<and> f < 2 ^ 20 \<and>
    mem_inv k ms' \<and> pg_inv ms' \<and> \<not> is_table ms' f \<and> cr3 ms' = cr3 ms \<and> dent ms' = dent ms \<and>
    is_table ms' = is_table ms \<and>
    (\<forall>i. 4 \<le> i \<longrightarrow> i < 1023 \<longrightarrow> present (dent ms i) \<longrightarrow> tent ms' i = tent ms i) \<and>
    (\<forall>v. is_user v \<longrightarrow> xlate ms' v = xlate ms v) \<and> free_set ms' = free_set ms - {f} \<and>
    memory_map ms' = (memory_map ms)[f := 1] \<and> start_page ms' = start_page ms \<and>
    total_pages ms' = total_pages ms \<and> free_pages ms' = free_pages ms - 1 \<and> pm ms' f = pm ms src \<and>
    (\<forall>p. p \<noteq> f \<longrightarrow> \<not> is_table ms p \<longrightarrow> pm ms' p = pm ms p)"
proof -
  obtain f where f: "f \<in> free_set ms"
    "get_page ms = Some (PAGE f, ms\<lparr>memory_map := (memory_map ms)[f := 1], free_pages := free_pages ms - 1\<rparr>)"
    using get_page_spec(2) [OF assms(1,4)] by blast
  define m1 where "m1 = ms\<lparr>memory_map := (memory_map ms)[f := 1], free_pages := free_pages ms - 1\<rparr>"
  have g: "get_page ms = Some (PAGE f, m1)" using f(2) by (simp add: m1_def)
  from get_page_inv [OF assms(1) g] have "\<exists>i. PAGE f = PAGE i \<and> i < 2 ^ 20 \<and> mem_inv k m1 \<and> IDX (PAGE f) = i \<and>
      free_set m1 = free_set ms - {i}" by metis
  moreover have f20: "f < 2 ^ 20" using f(1) assms(1) by (auto simp: free_set_def mem_inv_def)
  ultimately have m1: "mem_inv k m1" "free_set m1 = free_set ms - {f}" by (auto simp: IDX_PAGE)
  have pc: "pm m1 = pm ms" "cr3 m1 = cr3 ms" by (simp_all add: m1_def)
  note st = same_tables [OF pc]
  have pg1: "pg_inv m1" by (rule pg_inv_shrink [OF assms(2) pc]) (use m1 in auto)
  define t where "t = index (dent ms 0)"
  define m2 where "m2 = set_pm t 0 (entry_init f) m1"
  have d0: "present (dent m1 0)" "t = index (dent m1 0)" using assms(3) by (simp_all add: st t_def)
  note k2 = set_kernel_entry [OF pg1 _ d0, where j = 0 and e = "entry_init f", folded m2_def]
  have nf: "\<not> is_table ms f" using pg_invD(1) [OF assms(2), of f] f(1) by auto
  have nf2: "\<not> is_table m2 f" using nf k2(3) by (simp add: st)
  define m3 where "m3 = m2\<lparr>pm := (pm m2)(f := pm ms src)\<rparr>"
  have pg2: "pg_inv m2" by (rule k2(1)) simp
  note k3 = set_frame [OF pg2 nf2, where w = "pm ms src", folded m3_def]
  have d3: "dent m3 = dent ms" using k3(2) k2(2) by (simp add: st)
  have it3: "is_table m3 = is_table ms" using k3(3) k2(3) by (simp add: st)
  define m4 where "m4 = set_pm t 0 (put_flag 0 False (pm m3 t 0)) m3"
  have d30: "present (dent m3 0)" "t = index (dent m3 0)" using assms(3) by (simp_all add: d3 t_def)
  note k4 = set_kernel_entry [OF k3(1) _ d30, where j = 0 and e = "put_flag 0 False (pm m3 t 0)", folded m4_def]
  have tt: "is_table ms t" unfolding is_table_def t_def using assms(3) by (intro disjI2 exI [of _ 0]) simp
  have src: "pm m2 src = pm ms src" using k2(6) [of src] assms(6) tt pc by auto
  have pte: "get_pte 0 False m1 = Some (t, m1)"
    using assms(3) by (simp add: get_pte_def DIDX_def t_def dent_def pc)
  have "copy_page src ms = Some (PAGE f, m4)"
    unfolding copy_page_def using g pte src tt nf
    by (cases "t = f") (simp_all add: m4_def m3_def m2_def IDX_PAGE [OF f20] Let_def)
  moreover have "tent m4 i = tent ms i" if "4 \<le> i" "i < 1023" "present (dent ms i)" for i
    using k4(4) [of i] k3(4) [of i] k2(4) [of i] that by (simp add: d3 k3(2) k2(2) st)
  moreover have "xlate m4 v = xlate ms v" if "is_user v" for v
    using k4(5) [of v] k3(5) [of v] k2(5) [of v] that by (simp add: st)
  moreover have "pm m4 p = pm ms p" if "p \<noteq> f" "\<not> is_table ms p" for p
    using k4(6) [of p] k3(6) [of p] k2(6) [of p] that tt pc by auto
  moreover have "pm m4 f = pm ms src" using k4(6) [of f] k3(7) nf tt by auto
  moreover have "mem_inv k m4" "free_set m4 = free_set ms - {f}" "memory_map m4 = (memory_map ms)[f := 1]"
    "start_page m4 = start_page ms" "total_pages m4 = total_pages ms" "cr3 m4 = cr3 ms" "free_pages m4 = free_pages ms - 1"
    using m1 by (simp_all add: m4_def m3_def m2_def) (simp_all add: set_pm_def m1_def)
  moreover have "pg_inv m4" "dent m4 = dent ms" "is_table m4 = is_table ms"
    using k4(1-3) d3 it3 by simp_all
  ultimately show ?thesis using f(1) f20 nf by (intro exI [of _ f] exI [of _ m4]) simp
qed

text \<open>The fault of a write to a page that several address spaces refer to.\<close>

lemma page_fault_copies:
  assumes "mem_inv k ms" and "pg_inv ms" and "present (dent ms 0)" and "free_set ms \<noteq> {}"
    and "is_user v" and "v < USER_STACK_TOP" and "bit error 0" and "bit error 1"
    and "xlate ms v = Some p" and "e = tent ms (DIDX v) (TIDX v)" and "\<not> shared e" and "\<not> readonly e"
    and "p < length (memory_map ms)" and "memory_map ms ! p = c" and "2 \<le> c"
  shows "\<exists>ms' f. page_fault v error task ms = Some (Resolved ms') \<and> f \<in> free_set ms \<and>
    mem_inv k ms' \<and> pg_inv ms' \<and> xlate ms' v = Some f \<and> writable (tent ms' (DIDX v) (TIDX v)) \<and>
    pm ms' f = pm ms p \<and> pm ms' p = pm ms p \<and> memory_map ms' ! f = 1 \<and> memory_map ms' ! p = c - 1 \<and>
    (\<forall>v'. is_user v' \<longrightarrow> (DIDX v', TIDX v') \<noteq> (DIDX v, TIDX v) \<longrightarrow> xlate ms' v' = xlate ms v') \<and>
    (\<forall>q. q \<noteq> f \<longrightarrow> \<not> is_table ms q \<longrightarrow> pm ms' q = pm ms q)"
proof -
  let ?d = "DIDX v" and ?j = "TIDX v"
  have u: "4 \<le> ?d" "?d < 1023" using assms(5) by (simp_all add: is_user_def)
  have pd: "present (dent ms ?d)" and pe: "present e" and pi: "index e = p"
    using assms(9,10) by (auto simp: xlate_def split: if_splits)
  have np: "p \<notin> free_set ms" "\<not> is_table ms p"
    using pg_invD(4,5) [OF assms(2) u _ pd, of ?j] pe pi assms(10) by auto
  define t where "t = index (dent ms ?d)"
  have ge: "get_entry v False ms = Some ((t, ?j), ms)"
    using pd by (simp add: get_entry_def get_pte_def t_def dent_def Let_def)
  have et: "pm ms t ?j = e" using assms(10) by (simp add: tent_def t_def)
  obtain f m where m: "copy_page p ms = Some (PAGE f, m)" "f \<in> free_set ms" "f < 2 ^ 20"
    "mem_inv k m" "pg_inv m" "\<not> is_table m f" "cr3 m = cr3 ms" "dent m = dent ms" "is_table m = is_table ms"
    "\<forall>i. 4 \<le> i \<longrightarrow> i < 1023 \<longrightarrow> present (dent ms i) \<longrightarrow> tent m i = tent ms i"
    "\<forall>v. is_user v \<longrightarrow> xlate m v = xlate ms v" "free_set m = free_set ms - {f}"
    "memory_map m = (memory_map ms)[f := 1]" "start_page m = start_page ms" "total_pages m = total_pages ms"
    "pm m f = pm ms p" "\<forall>q. q \<noteq> f \<longrightarrow> \<not> is_table ms q \<longrightarrow> pm m q = pm ms q"
    using copy_page_spec [OF assms(1-4) np] by blast
  have fp: "f \<noteq> p" using m(2) np(1) by auto
  have fl: "f < length (memory_map ms)" using m(2) assms(1) by (auto simp: free_set_def mem_inv_def)
  have cp: "memory_map m ! p = c" "p < length (memory_map m)" using fp m(13) assms(13,14) by simp_all
  define m2 where "m2 = m\<lparr>memory_map := (memory_map m)[p := c - 1]\<rparr>"
  have fs2: "free_set m2 = free_set m"
    using cp assms(15) by (auto simp: m2_def free_set_def nth_list_update)
  have mi2: "mem_inv k m2" using m(4) unfolding mem_inv_def fs2 by (simp add: m2_def)
  have pc2: "pm m2 = pm m" "cr3 m2 = cr3 m" by (simp_all add: m2_def)
  note st2 = same_tables [OF pc2]
  have pg2: "pg_inv m2" by (rule pg_inv_shrink [OF m(5) pc2]) (simp add: fs2)
  have sl: "index (entry_init f) \<notin> free_set m2 \<and> \<not> is_table m2 (index (entry_init f))"
    using m(3,6,12) by (simp add: fs2 st2)
  have pd2: "present (dent m2 ?d)" using pd m(8) by (simp add: st2)
  note leaf = set_leaf [OF pg2 assms(5) pd2 sl]
  define m3 where "m3 = set_pm (index (dent m2 ?d)) ?j (entry_init f) m2"
  have t2: "index (dent m2 ?d) = t" using m(8) by (simp add: st2 t_def)
  have m3: "m3 = set_pm t ?j (entry_init f) m2" by (simp add: m3_def t2)
  have "page_fault v error task ms = Some (Resolved m3)"
  proof -
    have "4 \<le> v div 4194304" using u(1) mod_less_eq_dividend [of "v div 4194304" 1024]
      unfolding DIDX_def by linarith
    then have "\<not> v < USER_EXEC_ADDR"
      by (simp add: USER_EXEC_ADDR_def KERNEL_MEMORY_SIZE_def less_eq_div_iff_mult_less_eq)
    then show ?thesis
      using assms(6-8,11-15) ge et pe pi m(1) cp
      by (simp add: page_fault_def Let_def m3 m2_def IDX_PAGE [OF m(3)])
  qed
  moreover have "xlate m3 v = Some f" using leaf(5) [OF assms(5)] m(3) by (simp add: m3_def)
  moreover have "writable (tent m3 ?d ?j)" using leaf(4) [OF u(2) pd2, of ?j] by (simp add: m3_def)
  moreover have "mem_inv k m3" "pg_inv m3" using mi2 leaf(1) by (simp_all add: m3_def)
  moreover have "xlate m3 v' = xlate ms v'" if "is_user v'" "(DIDX v', TIDX v') \<noteq> (DIDX v, TIDX v)" for v'
    using leaf(5) [OF that(1)] that m(11) by (auto simp: m3_def st2)
  moreover have q: "pm m3 q = pm m q" if "\<not> is_table ms q" for q
  proof -
    have "is_table ms t" using pd u(2) by (auto simp: is_table_def t_def)
    then have "q \<noteq> t" using that by auto
    then show ?thesis using leaf(6) [of q] t2 by (simp add: m3_def pc2)
  qed
  then have "pm m3 f = pm ms p" "pm m3 p = pm ms p" using m(6,9,16,17) np(2) fp by auto
  moreover have "memory_map m3 ! f = 1" "memory_map m3 ! p = c - 1"
    using m(13) fp fl cp by (simp_all add: m3_def m2_def set_pm_def)
  ultimately show ?thesis using m(2,17) q by (intro exI [of _ m3] exI [of _ f]) auto
qed

section \<open>Kernel pages as an allocator\<close>

lemma reset_page_release:
  assumes "a mod 4096 = 0" and "0 < n" and "IDX a + n < 4294967296"
  shows "reset_page m a n = release_from bm_release m (IDX a) n"
proof -
  define F where "F = (\<lambda>i m. do {
       t \<leftarrow> bitmap_test m (w32 (IDX a + i));
       cassert t;
       bitmap_set m (w32 (IDX a + i)) False })"
  have F: "F i m = bm_release m (IDX a + i)" if "IDX a + i < 4294967296" for i m
    using that by (simp add: F_def bm_release_def)
  have "for_each F [i..<i + n] m = release_from bm_release m (IDX a + i) n"
    if "IDX a + i + n < 4294967296" for i m n
    using that
  proof (induction n arbitrary: i m)
    case (Suc n)
    have "[i..<i + Suc n] = i # [Suc i..<Suc i + n]" by (simp add: upt_conv_Cons del: upt_Suc)
    moreover have "for_each F [Suc i..<Suc i + n] = (\<lambda>m'. release_from bm_release m' (IDX a + i + 1) n)"
      using Suc.IH [of "Suc i"] Suc.prems by (intro ext) simp
    moreover have "F i m = bm_release m (IDX a + i)" using Suc.prems by (intro F) simp
    ultimately show ?case by (simp del: upt_Suc)
  qed simp
  from this [of 0 n] assms show ?thesis by (simp add: reset_page_def ASSERT_PAGE_def F_def)
qed

lemma scan_page_alloc:
  "0 < n \<Longrightarrow> scan_page m n = (bm_alloc m n \<bind> (\<lambda>(r, m'). map_option (\<lambda>k. (PAGE k, m')) r))"
  by (auto simp: scan_page_def bm_alloc_def cassert_def split: Option.bind_splits prod.splits)

section \<open>Properties\<close>

lemma get_put:
  assumes "mem_inv k ms" and "free_set ms \<noteq> {}" and "card (free_set ms) + k < total_pages ms"
  shows "\<exists>i ms'. get_page ms = Some (PAGE i, ms') \<and> i \<in> free_set ms \<and> (\<forall>j \<in> free_set ms. i \<le> j) \<and>
    ms' = ms\<lparr>memory_map := (memory_map ms)[i := 1], free_pages := free_pages ms - 1\<rparr> \<and> mem_inv k ms' \<and>
    put_page (PAGE i) ms' = Some ms"
proof -
  from get_page_spec(2) [OF assms(1,2)] obtain i where i: "i \<in> free_set ms" "\<forall>j \<in> free_set ms. i \<le> j"
    "get_page ms = Some (PAGE i, ms\<lparr>memory_map := (memory_map ms)[i := 1], free_pages := free_pages ms - 1\<rparr>)"
    by blast
  define ms' where "ms' = ms\<lparr>memory_map := (memory_map ms)[i := 1], free_pages := free_pages ms - 1\<rparr>"
  have g: "get_page ms = Some (PAGE i, ms')" using i(3) by (simp add: ms'_def)
  have inv': "mem_inv k ms'" using get_page_inv [OF assms(1) g] by metis
  have i20: "i < 2 ^ 20" "i < total_pages ms" "start_page ms \<le> i" "i < length (memory_map ms)"
    "memory_map ms ! i = 0"
    using i(1) assms(1) by (auto simp: free_set_def mem_inv_def)
  have c: "0 < card (free_set ms)" using assms(2) by (simp add: card_gt_0_iff)
  have fp: "free_pages ms = card (free_set ms) + k" "card (free_set ms) + k < 4294967296"
    using assms(1,3) by (simp_all add: mem_inv_def)
  have "(memory_map ms)[i := 0] = memory_map ms" using i20(5) by (metis list_update_id)
  then have "put_page (PAGE i) ms' = Some ms"
    using i20 c fp assms(3)
    by (simp add: put_page_def ASSERT_PAGE_def PAGE_eq IDX_def ms'_def Let_def)
  with g inv' i show ?thesis by (auto simp: ms'_def)
qed

text \<open>C2. Physical pages: \<open>get_page\<close> gives out exactly a page that has no reference, the lowest, which then has one, and
  fails only when there is none; giving that page back at once restores the state. \<open>put_page\<close>, of any page, takes exactly one
  reference away; the page is free again, and counted by \<open>free_pages\<close>, only when that was the last one, and a page without
  a reference is refused. It also fails when no page is free and the page has other references, a case that its
  last assertion forbids. Both keep \<open>free_pages\<close> in step with the references.\<close>

theorem physical_pages:
  assumes "mem_inv k ms" and "card (free_set ms) + k + 1 < total_pages ms"
  shows "(if free_set ms = {} then get_page ms = None
     else \<exists>i ms'. get_page ms = Some (PAGE i, ms') \<and> i \<in> free_set ms \<and> (\<forall>j \<in> free_set ms. i \<le> j) \<and>
       ms' = ms\<lparr>memory_map := (memory_map ms)[i := 1], free_pages := free_pages ms - 1\<rparr> \<and> mem_inv k ms' \<and>
       put_page (PAGE i) ms' = Some ms) \<and>
    (\<forall>i. start_page ms \<le> i \<longrightarrow> i < total_pages ms \<longrightarrow> (let c = memory_map ms ! i in
       put_page (PAGE i) ms =
         (if c = 0 \<or> c > 1 \<and> free_pages ms = 0 then None
          else Some (ms\<lparr>memory_map := (memory_map ms)[i := c - 1], free_pages := free_pages ms + (if c = 1 then 1 else 0)\<rparr>)))) \<and>
    (\<forall>a ms'. put_page a ms = Some ms' \<longrightarrow> mem_inv k ms')"
proof (intro conjI allI impI)
  note inv = assms(1) [unfolded mem_inv_def]
  show "if free_set ms = {} then get_page ms = None
     else \<exists>i ms'. get_page ms = Some (PAGE i, ms') \<and> i \<in> free_set ms \<and> (\<forall>j \<in> free_set ms. i \<le> j) \<and>
       ms' = ms\<lparr>memory_map := (memory_map ms)[i := 1], free_pages := free_pages ms - 1\<rparr> \<and> mem_inv k ms' \<and>
       put_page (PAGE i) ms' = Some ms"
    using get_page_spec(1) [OF assms(1)] get_put [OF assms(1)] assms(2) by auto
  show P: "let c = memory_map ms ! i in put_page (PAGE i) ms = (if c = 0 \<or> c > 1 \<and> free_pages ms = 0 then None
      else Some (ms\<lparr>memory_map := (memory_map ms)[i := c - 1], free_pages := free_pages ms + (if c = 1 then 1 else 0)\<rparr>))"
    if "start_page ms \<le> i" "i < total_pages ms" for i
  proof -
    have "i < 2 ^ 20" "i < length (memory_map ms)" "free_pages ms + 1 < total_pages ms" "free_pages ms + 1 < 4294967296"
      using inv that assms(2) by auto
    then show ?thesis using that
      by (auto simp: put_page_def ASSERT_PAGE_def PAGE_eq IDX_def Let_def w32_small cassert_def)
  qed
  show "mem_inv k ms'" if p: "put_page a ms = Some ms'" for a ms'
  proof -
    have a: "a mod 4096 = 0" "start_page ms \<le> IDX a" "IDX a < total_pages ms"
      using p by (auto simp: put_page_def ASSERT_PAGE_def cassert_def Let_def split: if_splits)
    have "IDX a < 2 ^ 20" using a(3) inv by simp
    then have "a = PAGE (IDX a)" using a(1) by (auto simp: PAGE_eq IDX_def)
    with a obtain i where i: "a = PAGE i" "start_page ms \<le> i" "i < total_pages ms" by blast
    with P [OF i(2,3)] p have c: "memory_map ms ! i \<ge> 1" "memory_map ms ! i = 1 \<or> 0 < free_pages ms"
      by (auto simp: Let_def split: if_splits)
    have "0 < card (free_set ms) + k \<or> memory_map ms ! i = 1" using c(2) inv by auto
    from put_page_spec [OF assms(1) i(3,2) c(1) assms(2) this] p i(1) show ?thesis by auto
  qed
qed

text \<open>A small machine: 16 pages, the directory in page 1 with tables in pages 2 (for address 0)
  and 3 (for address 16M), where page 11 is mapped read only and referred to twice.\<close>

definition demo_leaf :: entry where
  "demo_leaf = put_flag 1 False (entry_init 11)"

definition demo_mem :: mstate where
  "demo_mem = \<lparr>memory_base = 0, memory_size = 0, total_pages = 16, free_pages = 4, start_page = 10,
     memory_map_pages = 1, memory_map = replicate 11 1 @ [2] @ replicate 4 0,
     kernel_map = bitmap_make [0, 0] 2 256, cr3 = 0x1000,
     pm = (\<lambda>p i. if p = 1 \<and> i = 0 then entry_init 2 else if p = 1 \<and> i = 4 then entry_init 3
       else if p = 3 \<and> i = 0 then demo_leaf else 0)\<rparr>"

lemma demo_free: "free_set demo_mem = {12, 13, 14, 15}"
proof -
  have "free_set demo_mem = set (filter (\<lambda>i. memory_map demo_mem ! i = 0) [10..<16])"
  proof -
    have "start_page demo_mem = 10" "total_pages demo_mem = 16" by (simp_all add: demo_mem_def)
    then show ?thesis by (simp only: free_set_def set_filter set_upt atLeastLessThan_iff conj_assoc)
  qed
  also have "filter (\<lambda>i. memory_map demo_mem ! i = 0) [10..<16] = [12, 13, 14, 15]" by code_simp
  finally show ?thesis by simp
qed

lemma demo_inv: "mem_inv 0 demo_mem"
  by (simp add: mem_inv_def demo_free) (simp add: demo_mem_def)

lemma physical_pages_witness:
  "\<exists>i ms' ms2. get_page demo_mem = Some (PAGE i, ms') \<and> put_page (PAGE i) ms' = Some demo_mem \<and>
    put_page (PAGE 11) demo_mem = Some ms2 \<and> memory_map ms2 ! 11 = 1 \<and> free_pages ms2 = 4 \<and> put_page (PAGE 13) demo_mem = None"
proof -
  have d: "start_page demo_mem = 10" "total_pages demo_mem = 16" "free_pages demo_mem = 4" "memory_map demo_mem = replicate 11 1 @ [2] @ replicate 4 0"
    by (simp_all add: demo_mem_def)
  have "card (free_set demo_mem) + 0 + 1 < total_pages demo_mem" by (simp add: demo_free d(2))
  note P = physical_pages [OF demo_inv this]
  from P [THEN conjunct1] obtain i ms' where "get_page demo_mem = Some (PAGE i, ms')" "put_page (PAGE i) ms' = Some demo_mem"
    by (auto simp: demo_free)
  moreover from P [THEN conjunct2, THEN conjunct1, rule_format, of 11] obtain ms2 where
    "put_page (PAGE 11) demo_mem = Some ms2" "memory_map ms2 ! 11 = 1" "free_pages ms2 = 4"
    by (auto simp: d nth_append)
  moreover have "put_page (PAGE 13) demo_mem = None"
    using P [THEN conjunct2, THEN conjunct1, rule_format, of 13] by (simp add: d nth_append)
  ultimately show ?thesis by blast
qed

lemma demo_entry [simp]: "index demo_leaf = 11" "present demo_leaf" "\<not> shared demo_leaf" "\<not> readonly demo_leaf"
  "\<not> writable demo_leaf"
proof -
  have "bit (entry_init 11) 0" "\<not> bit (entry_init 11) 9" "\<not> bit (entry_init 11) 11"
    using entry_init_fields [of 11] by (simp_all add: fields_unfold)
  then show "index demo_leaf = 11" "present demo_leaf" "\<not> shared demo_leaf" "\<not> readonly demo_leaf"
    "\<not> writable demo_leaf"
    by (simp_all add: demo_leaf_def index_put_flag) (simp_all add: fields_unfold bit_put_flag)
qed

lemma demo_dent: "dent demo_mem i = (if i = 0 then entry_init 2 else if i = 4 then entry_init 3 else 0)"
  by (auto simp: dent_def demo_mem_def IDX_def)

lemma demo_tent: "tent demo_mem 4 j = (if j = 0 then demo_leaf else 0)"
  by (auto simp: tent_def demo_dent) (auto simp: demo_mem_def)

lemma demo_table: "is_table demo_mem p \<longleftrightarrow> p \<in> {1, 2, 3}"
proof -
  have "is_table demo_mem p \<longleftrightarrow> p = IDX (cr3 demo_mem) \<or> p = 2 \<or> p = 3"
    unfolding is_table_def demo_dent by (auto intro: exI [of _ 0] exI [of _ 4] split: if_splits)
  then show ?thesis by (auto simp: demo_mem_def IDX_def)
qed

lemma demo_pg: "pg_inv demo_mem"
proof -
  have c: "IDX (cr3 demo_mem) = 1" by (simp add: demo_mem_def IDX_def)
  show ?thesis
    unfolding pg_inv_def demo_table demo_free c
    by (auto simp: demo_dent demo_tent demo_entry split: if_splits)
qed

lemma demo_xlate: "xlate demo_mem 0x1000000 = Some 11"
  by (simp add: xlate_def DIDX_def TIDX_def demo_dent demo_tent)

lemma demo_user: "is_user 0x1000000" "is_user 0x1001000" "is_user 0x1400000"
  by (simp_all add: is_user_def DIDX_def)

text \<open>C3. \<open>link_page\<close> on a user address: an address that is mapped stays mapped to the same page;
  one that is not gets a page that was free, referred to once; no other user address changes its
  mapping, no page that is in use (and not a table) changes its contents, and the invariants of the
  reference counts and of the tables are kept, also when a new table is needed.\<close>

theorem link_page_maps:
  assumes "mem_inv k ms" and "pg_inv ms" and "is_user v" and "link_page v ms = Some ms'"
  shows "mem_inv k ms' \<and> pg_inv ms' \<and> free_set ms' \<subseteq> free_set ms \<and>
    (case xlate ms v of Some f \<Rightarrow> xlate ms' v = Some f
     | None \<Rightarrow> \<exists>f \<in> free_set ms. xlate ms' v = Some f \<and> memory_map ms' ! f = 1) \<and>
    (\<forall>v'. is_user v' \<longrightarrow> (DIDX v', TIDX v') \<noteq> (DIDX v, TIDX v) \<longrightarrow> xlate ms' v' = xlate ms v') \<and>
    (\<forall>p. p \<notin> free_set ms \<longrightarrow> \<not> is_table ms p \<longrightarrow> pm ms' p = pm ms p)"
  using link_page_spec [OF assms] by blast

lemma link_page_maps_witness:
  "\<exists>ms'. link_page 0x1400000 demo_mem = Some ms' \<and> xlate ms' 0x1000000 = Some 11 \<and> mem_inv 0 ms' \<and>
    xlate ms' 0x1400000 \<noteq> None"
proof -
  have "link_page 0x1400000 demo_mem \<noteq> None"
  proof -
    have "map_option (\<lambda>_. ()) (link_page 0x1400000 demo_mem) = Some ()" by code_simp
    then show ?thesis by auto
  qed
  then obtain ms' where l: "link_page 0x1400000 demo_mem = Some ms'" by blast
  note r = link_page_maps [OF demo_inv demo_pg demo_user(3) l]
  have "xlate ms' 0x1000000 = xlate demo_mem 0x1000000"
    using r demo_user(1) by (auto simp: DIDX_def TIDX_def)
  with r l demo_xlate show ?thesis by (auto split: option.splits)
qed

text \<open>C4. Copy on write: a write fault on a user page that is referred to more than once, neither
  shared nor read only, is resolved as long as there is a free page. The address is then mapped
  writable to a page that was free and holds a copy; the old page keeps its contents for the other
  address spaces, with one reference less; every other user address keeps its mapping and every
  other page that is not a table its contents.\<close>

theorem copy_on_write:
  assumes "mem_inv k ms" and "pg_inv ms" and "present (dent ms 0)" and "free_set ms \<noteq> {}"
    and "is_user v" and "v < USER_STACK_TOP" and "bit error 0" and "bit error 1"
    and "xlate ms v = Some p" and "e = tent ms (DIDX v) (TIDX v)" and "\<not> shared e" and "\<not> readonly e"
    and "p < length (memory_map ms)" and "memory_map ms ! p = c" and "2 \<le> c"
  shows "\<exists>ms' f. page_fault v error task ms = Some (Resolved ms') \<and> f \<in> free_set ms \<and>
    mem_inv k ms' \<and> pg_inv ms' \<and> xlate ms' v = Some f \<and> writable (tent ms' (DIDX v) (TIDX v)) \<and>
    pm ms' f = pm ms p \<and> pm ms' p = pm ms p \<and> memory_map ms' ! f = 1 \<and> memory_map ms' ! p = c - 1 \<and>
    (\<forall>v'. is_user v' \<longrightarrow> (DIDX v', TIDX v') \<noteq> (DIDX v, TIDX v) \<longrightarrow> xlate ms' v' = xlate ms v') \<and>
    (\<forall>q. q \<noteq> f \<longrightarrow> \<not> is_table ms q \<longrightarrow> pm ms' q = pm ms q)"
  by (rule page_fault_copies [OF assms])

definition demo_task :: mtask where
  "demo_task = \<lparr>uid = 1, pde = 0x1000, vmap = bitmap_make [0] 1 0x8000, end_addr = 0x1000000, brk = 0x1002000\<rparr>"

lemma copy_on_write_witness:
  "\<exists>ms' f. page_fault 0x1000000 3 demo_task demo_mem = Some (Resolved ms') \<and> xlate ms' 0x1000000 = Some f \<and>
    f \<noteq> 11 \<and> memory_map ms' ! 11 = 1"
proof -
  have "memory_map demo_mem ! 11 = 2" "11 < length (memory_map demo_mem)" "free_set demo_mem \<noteq> {}"
    "present (dent demo_mem 0)"
    by (simp add: demo_mem_def nth_append, simp add: demo_mem_def, simp add: demo_free, simp add: demo_dent)
  moreover have "tent demo_mem (DIDX 0x1000000) (TIDX 0x1000000) = demo_leaf"
    by (simp add: DIDX_def TIDX_def demo_tent)
  moreover have "bit (3 :: u32) 0" "bit (3 :: u32) 1" by simp_all
  ultimately show ?thesis
    using copy_on_write [OF demo_inv demo_pg, of "0x1000000" 3 11 demo_leaf 2 demo_task] demo_user(1) demo_xlate
    by (auto simp: USER_STACK_TOP_def demo_free)
qed

text \<open>C34. Kernel pages: \<open>alloc_kpage\<close> hands out \<open>n\<close> consecutive pages that were not taken, and
  \<open>free_kpage\<close> of the same pages restores the map; two allocations never overlap, and freeing a
  page twice is refused.\<close>

theorem kernel_pages:
  assumes "bm_inv (kernel_map ms)" and "0 < n" and "alloc_kpage n ms = Some (a, ms1)"
    and "boffset (kernel_map ms) + blength (kernel_map ms) * 8 \<le> 2 ^ 20"
  shows "a mod 4096 = 0 \<and> {IDX a..<IDX a + n} \<inter> bm_taken (kernel_map ms) = {} \<and>
    bm_taken (kernel_map ms1) = bm_taken (kernel_map ms) \<union> {IDX a..<IDX a + n} \<and>
    (\<exists>ms2. free_kpage a n ms1 = Some ms2 \<and> bm_taken (kernel_map ms2) = bm_taken (kernel_map ms) \<and>
      free_kpage a n ms2 = None)"
proof -
  obtain i m where i: "bm_alloc (kernel_map ms) n = Some (Some i, m)" "a = PAGE i" "ms1 = ms\<lparr>kernel_map := m\<rparr>"
    using assms(2,3) by (auto simp: alloc_kpage_def scan_page_alloc split: Option.bind_splits)
  note f = bm.alloc_found [OF assms(1,2) i(1)]
  have "i + n \<le> 2 ^ 20"
  proof -
    have "i + (n - 1) \<in> {i..<i + n}" using assms(2) by simp
    then have "i + (n - 1) \<in> bm_range (kernel_map ms)" using f by blast
    then show ?thesis using assms(2,4) by (auto simp: bm_range_def)
  qed
  then have i20: "i < 2 ^ 20" "IDX a = i" "IDX a + n < 4294967296" using assms(2) by (simp_all add: i(2) IDX_PAGE)
  have al: "a mod 4096 = 0" using i20(1) by (simp add: i(2) PAGE_eq)
  note rel = reset_page_release [OF al assms(2) i20(3)]
  obtain m2 where m2: "release_from bm_release m i n = Some m2" "bm_inv m2" "bm_taken m2 = bm_taken (kernel_map ms)"
    using bm.alloc_release [OF assms(1,2) i(1)] by blast
  have "free_kpage a n ms1 = Some (ms1\<lparr>kernel_map := m2\<rparr>)"
    using m2(1) al assms(2) rel i20 by (simp add: free_kpage_def ASSERT_PAGE_def i(3))
  moreover have "bm_release m2 i = None"
    using f m2 assms(2) by (intro bm.release_free) (auto simp: subset_iff)
  then have "release_from bm_release m2 i n = None" using assms(2) by (cases n) simp_all
  then have "free_kpage a n (ms1\<lparr>kernel_map := m2\<rparr>) = None"
    using al assms(2) rel i20 by (simp add: free_kpage_def ASSERT_PAGE_def)
  ultimately show ?thesis using f al m2(3) i20 by (auto simp: i(3))
qed

lemma kernel_pages_witness:
  "\<exists>a ms1 ms2. alloc_kpage 3 demo_mem = Some (a, ms1) \<and> IDX a = 256 \<and> free_kpage a 3 ms1 = Some ms2"
proof -
  have "map_option fst (scan_page (bitmap_make [0, 0] 2 256) 3) = Some 0x100000" by code_simp
  then obtain m where "scan_page (bitmap_make [0, 0] 2 256) 3 = Some (0x100000, m)" by auto
  then obtain ms1 where a: "alloc_kpage 3 demo_mem = Some (0x100000, ms1)"
    by (simp add: alloc_kpage_def demo_mem_def)
  have "bm_inv (kernel_map demo_mem)" "boffset (kernel_map demo_mem) + blength (kernel_map demo_mem) * 8 \<le> 2 ^ 20"
    by (simp_all add: demo_mem_def bm_inv_def bitmap_make_def)
  with kernel_pages [OF _ _ a] a show ?thesis by (auto simp: IDX_def)
qed

end
