(* ===== verification/Task.thy ===== *)
theory Task
  imports Memory ListC
begin

text \<open>
  The task table, the scheduler, blocking, timers and the clock: \<open>src/src/kernel/task.c\<close> (all but
  creation, fork, exit and wait, which need the file system and are in \<open>Process\<close>),
  \<open>timer.c\<close>, \<open>alarm.c\<close>, \<open>clock.c\<close>, and \<open>sys_kill\<close> of \<open>signal.c\<close>, which a timer calls.

  A task is reached by its address, the page that holds its record and its kernel stack, as in the
  code; \<open>task_at\<close> is the memory of these pages. A list of nodes is the list of its elements
  (\<open>ListC\<close> shows that the code's lists are that); the field \<open>node\<close> of a task says which list it is
  linked in, so \<open>node.next == NULL\<close> is \<open>node = None\<close>. List 0 is \<open>block_list\<close>, list 1 is
  \<open>sleep_list\<close>, the others are the queues of mutexes and devices. \<open>task_switch\<close> is the change of
  \<open>cur\<close>; what a function does behind it, it does when the task runs again.
\<close>

section \<open>State\<close>

type_synonym tptr = nat

datatype task_state_t = TASK_INIT | TASK_RUNNING | TASK_READY | TASK_BLOCKED | TASK_SLEEPING | TASK_WAITING | TASK_DIED

text \<open>A signal's action; a handler is a user address, 0 and 1 are \<open>SIG_DFL\<close> and \<open>SIG_IGN\<close>.\<close>

record sigaction_t =
  handler :: nat
  mask :: u32
  sflags :: u32
  restorer :: nat

text \<open>The registers an interrupt has saved at the top of the task's page, as far as they are used.\<close>

record intr_frame =
  r_eax :: u32
  r_ecx :: u32
  r_edx :: u32
  r_eip :: u32
  r_eflags :: u32
  r_esp :: u32

record task_t = mtask +
  node :: "nat option"
  state :: task_state_t
  priority :: nat
  ticks :: int
  tjiffies :: nat
  name :: string
  gid :: nat
  pid :: int
  ppid :: int
  pgid :: int
  sid :: int
  tty :: int
  text_addr :: nat
  data_addr :: nat
  status :: int
  waitpid :: int
  pwd :: nat
  ipwd :: nat
  iroot :: nat
  iexec :: "nat option"
  umask :: nat
  files :: "nat option list"
  signal :: u32
  blocked :: u32
  alarm :: "nat option"
  actions :: "sigaction_t list"
  magic :: nat
  iframe :: intr_frame

datatype handler_t = No_handler | Task_alarm

record timer_t =
  tid :: nat
  ttask :: tptr
  expires :: nat
  thandler :: handler_t

record kstate =
  kmem :: mstate
  task_table :: "tptr list"
  task_at :: "tptr \<Rightarrow> task_t option"
  cur :: tptr
  idle_task :: tptr
  wlists :: "nat \<Rightarrow> tptr list"
  timer_list :: "timer_t list"
  next_timer :: nat
  jiffies :: nat
  intr :: bool
  esp0 :: nat

definition TASK_NR :: nat where "TASK_NR = 64"
definition block_list :: nat where "block_list = 0"
definition sleep_list :: nat where "sleep_list = 1"

definition modify :: "tptr \<Rightarrow> (task_t \<Rightarrow> task_t) \<Rightarrow> kstate \<Rightarrow> kstate option" where
  "modify p f s = do { t \<leftarrow> task_at s p; Some (s\<lparr>task_at := (task_at s)(p := Some (f t))\<rparr>) }"

section \<open>The table\<close>

text \<open>\<open>get_task\<close>: the task of a pid, or the null pointer.\<close>

fun get_task_loop :: "kstate \<Rightarrow> int \<Rightarrow> tptr list \<Rightarrow> tptr option" where
  "get_task_loop s want [] = Some NULL"
| "get_task_loop s want (p # ps) =
     (if p = NULL then get_task_loop s want ps
      else do { t \<leftarrow> task_at s p; if pid t = want then Some p else get_task_loop s want ps })"

definition get_task :: "int \<Rightarrow> kstate \<Rightarrow> tptr option" where
  "get_task want s = get_task_loop s want (task_table s)"

definition sys_getpid :: "kstate \<Rightarrow> int option" where
  "sys_getpid s = do { t \<leftarrow> task_at s (cur s); Some (pid t) }"

definition sys_getppid :: "kstate \<Rightarrow> int option" where
  "sys_getppid s = do { t \<leftarrow> task_at s (cur s); Some (ppid t) }"

definition task_leader :: "task_t \<Rightarrow> bool" where
  "task_leader t \<longleftrightarrow> sid t = pid t"

text \<open>\<open>task_get_fd\<close>: the first free descriptor from 3 on; \<open>task_put_fd\<close> frees one.\<close>

definition TASK_FILE_NR :: nat where "TASK_FILE_NR = 16"

fun get_fd_loop :: "nat option list \<Rightarrow> nat list \<Rightarrow> nat option" where
  "get_fd_loop fs [] = None"
| "get_fd_loop fs (i # is) = (if fs ! i = None then Some i else get_fd_loop fs is)"

definition task_get_fd :: "task_t \<Rightarrow> nat option" where
  "task_get_fd t = get_fd_loop (files t) [3..<TASK_FILE_NR]"

definition task_put_fd :: "nat \<Rightarrow> task_t \<Rightarrow> task_t option" where
  "task_put_fd fd t = do {
     cassert (fd < TASK_FILE_NR);
     Some (t\<lparr>files := (files t)[fd := None]\<rparr>) }"

section \<open>The scheduler\<close>

text \<open>\<open>task_search\<close>: of the tasks in a state, other than the current one, one that has more ticks
  left than the one found so far, or has not run for longer.\<close>

fun search_loop :: "kstate \<Rightarrow> task_state_t \<Rightarrow> tptr list \<Rightarrow> tptr \<Rightarrow> tptr option" where
  "search_loop s st [] best = Some best"
| "search_loop s st (p # ps) best =
     (if p = NULL then search_loop s st ps best
      else do {
        t \<leftarrow> task_at s p;
        if state t \<noteq> st \<or> cur s = p then search_loop s st ps best
        else if best = NULL then search_loop s st ps p
        else do {
          b \<leftarrow> task_at s best;
          search_loop s st ps (if ticks b < ticks t \<or> tjiffies t < tjiffies b then p else best) } })"

definition task_search :: "task_state_t \<Rightarrow> kstate \<Rightarrow> tptr option" where
  "task_search st s = do {
     cassert (\<not> intr s);
     p \<leftarrow> search_loop s st (task_table s) NULL;
     Some (if p = NULL \<and> st = TASK_READY then idle_task s else p) }"

definition set_cr3 :: "nat \<Rightarrow> kstate \<Rightarrow> kstate option" where
  "set_cr3 pd s = do { ASSERT_PAGE pd; Some (s\<lparr>kmem := (kmem s)\<lparr>cr3 := pd\<rparr>\<rparr>) }"

definition task_activate :: "tptr \<Rightarrow> kstate \<Rightarrow> kstate option" where
  "task_activate p s = do {
     t \<leftarrow> task_at s p;
     cassert (magic t = NEONIX_MAGIC);
     s \<leftarrow> if pde t \<noteq> cr3 (kmem s) then set_cr3 (pde t) s else Some s;
     Some (if uid t \<noteq> KERNEL_USER then s\<lparr>esp0 := w32 (p + PAGE_SIZE)\<rparr> else s) }"

definition schedule :: "kstate \<Rightarrow> kstate option" where
  "schedule s = do {
     cassert (\<not> intr s);
     let current = cur s;
     next \<leftarrow> task_search TASK_READY s;
     cassert (next \<noteq> NULL);
     n \<leftarrow> task_at s next;
     cassert (magic n = NEONIX_MAGIC);
     s \<leftarrow> modify current (\<lambda>c. if state c = TASK_RUNNING then c\<lparr>state := TASK_READY\<rparr> else c) s;
     s \<leftarrow> modify current (\<lambda>c. if ticks c = 0 then c\<lparr>ticks := s32 (int (priority c))\<rparr> else c) s;
     s \<leftarrow> modify next (\<lambda>n. n\<lparr>state := TASK_RUNNING\<rparr>) s;
     if next = current then Some s
     else do {
       s \<leftarrow> task_activate next s;
       Some (s\<lparr>cur := next\<rparr>) } }"

definition task_yield :: "kstate \<Rightarrow> kstate option" where
  "task_yield s = schedule s"

section \<open>Timers\<close>

text \<open>The list is sorted by \<open>expires\<close>, compared as an \<open>int\<close>; \<open>timer_list\<close> is what
  \<open>list_insert_sort\<close> makes of it. A timer is known by \<open>tid\<close>, the address it is allocated at.\<close>

definition timer_key :: "timer_t \<Rightarrow> int" where
  "timer_key t = s32 (int (expires t))"

fun timer_insert :: "timer_t \<Rightarrow> timer_t list \<Rightarrow> timer_t list" where
  "timer_insert t [] = [t]"
| "timer_insert t (u # us) = (if timer_key u > timer_key t then t # u # us else u # timer_insert t us)"

definition jiffy :: nat where "jiffy = 10"

definition timer_add :: "nat \<Rightarrow> handler_t \<Rightarrow> kstate \<Rightarrow> nat \<times> kstate" where
  "timer_add ms h s =
     (let t = \<lparr>tid = next_timer s, ttask = cur s, expires = w32 (jiffies s + ms div jiffy), thandler = h\<rparr>
      in (tid t, s\<lparr>timer_list := timer_insert t (timer_list s), next_timer := Suc (next_timer s)\<rparr>))"

text \<open>\<open>timer_put\<close> takes the timer off the list, which must hold it.\<close>

definition timer_put :: "nat \<Rightarrow> kstate \<Rightarrow> kstate option" where
  "timer_put i s = do {
     cassert (i \<in> tid ` set (timer_list s));
     Some (s\<lparr>timer_list := filter (\<lambda>t. tid t \<noteq> i) (timer_list s)\<rparr>) }"

definition timer_expires :: "kstate \<Rightarrow> nat" where
  "timer_expires s = (case timer_list s of [] \<Rightarrow> 4294967295 | t # ts \<Rightarrow> expires t)"

definition timer_init :: "kstate \<Rightarrow> kstate" where
  "timer_init s = s\<lparr>timer_list := []\<rparr>"

text \<open>\<open>timer_remove\<close>: all timers of a task.\<close>

definition timer_remove :: "tptr \<Rightarrow> kstate \<Rightarrow> kstate" where
  "timer_remove p s = s\<lparr>timer_list := filter (\<lambda>t. ttask t \<noteq> p) (timer_list s)\<rparr>"

section \<open>Blocking\<close>

definition is_waiting :: "task_state_t \<Rightarrow> bool" where
  "is_waiting st \<longleftrightarrow> st = TASK_BLOCKED \<or> st = TASK_SLEEPING \<or> st = TASK_WAITING"

text \<open>\<open>task_block\<close>; its result \<open>task->status\<close> is read when the task runs again. The time-out is a
  timer of the running task.\<close>

definition task_block :: "tptr \<Rightarrow> nat \<Rightarrow> task_state_t \<Rightarrow> int \<Rightarrow> kstate \<Rightarrow> kstate option" where
  "task_block p l st timeout s = do {
     cassert (\<not> intr s);
     t \<leftarrow> task_at s p;
     cassert (node t = None);
     cassert (st \<noteq> TASK_READY \<and> st \<noteq> TASK_RUNNING);
     s \<leftarrow> modify p (\<lambda>t. t\<lparr>node := Some l\<rparr>) s;
     let s = s\<lparr>wlists := (wlists s)(l := p # wlists s l)\<rparr>;
     let s = (if timeout > 0 then snd (timer_add (nat timeout) No_handler s) else s);
     s \<leftarrow> modify p (\<lambda>t. t\<lparr>state := st\<rparr>) s;
     if cur s = p then schedule s else Some s }"

definition task_unblock :: "tptr \<Rightarrow> int \<Rightarrow> kstate \<Rightarrow> kstate option" where
  "task_unblock p reason s = do {
     cassert (\<not> intr s);
     t \<leftarrow> task_at s p;
     let s = (case node t of None \<Rightarrow> s | Some l \<Rightarrow> s\<lparr>wlists := (wlists s)(l := remove1 p (wlists s l))\<rparr>);
     modify p (\<lambda>t. t\<lparr>node := None, status := reason, state := TASK_READY\<rparr>) s }"

definition task_sleep :: "nat \<Rightarrow> kstate \<Rightarrow> kstate option" where
  "task_sleep ms s = do {
     cassert (\<not> intr s);
     task_block (cur s) sleep_list TASK_SLEEPING (s32 (int ms)) s }"

section \<open>Signals sent, alarms and the clock\<close>

definition EINTR :: int where "EINTR = 4"
definition ETIME :: int where "ETIME = 62"
definition MINSIG :: int where "MINSIG = 1"
definition MAXSIG :: int where "MAXSIG = 31"
definition SIGALRM :: int where "SIGALRM = 14"

definition SIGMASK :: "int \<Rightarrow> u32" where
  "SIGMASK sig = push_bit (nat (sig - 1)) 1"

definition sys_kill :: "int \<Rightarrow> int \<Rightarrow> kstate \<Rightarrow> (int \<times> kstate) option" where
  "sys_kill want sig s =
     (if sig < MINSIG \<or> sig > MAXSIG then Some (EOF, s)
      else do {
        p \<leftarrow> get_task want s;
        if p = NULL then Some (EOF, s)
        else do {
          t \<leftarrow> task_at s p;
          if uid t = KERNEL_USER then Some (EOF, s)
          else if pid t = 1 then Some (EOF, s)
          else do {
            s \<leftarrow> modify p (\<lambda>t. t\<lparr>signal := signal t OR SIGMASK sig\<rparr>) s;
            s \<leftarrow> if state t = TASK_WAITING \<or> state t = TASK_SLEEPING then task_unblock p (- EINTR) s
                 else Some s;
            Some (0, s) } } })"

definition task_alarm :: "timer_t \<Rightarrow> kstate \<Rightarrow> kstate option" where
  "task_alarm tm s = do {
     s \<leftarrow> modify (ttask tm) (\<lambda>t. t\<lparr>alarm := None\<rparr>) s;
     t \<leftarrow> task_at s (ttask tm);
     (r, s) \<leftarrow> sys_kill (pid t) SIGALRM s;
     Some s }"

text \<open>\<open>sys_alarm\<close> (the product is an \<open>int\<close>; the function returns no value).\<close>

definition sys_alarm :: "int \<Rightarrow> kstate \<Rightarrow> kstate option" where
  "sys_alarm sec s = do {
     t \<leftarrow> task_at s (cur s);
     s \<leftarrow> case alarm t of None \<Rightarrow> Some s | Some i \<Rightarrow> timer_put i s;
     let (i, s) = timer_add (nat (sec * 1000 mod 4294967296)) Task_alarm s;
     modify (cur s) (\<lambda>t. t\<lparr>alarm := Some i\<rparr>) s }"

definition default_timeout :: "timer_t \<Rightarrow> kstate \<Rightarrow> kstate option" where
  "default_timeout tm s = task_unblock (ttask tm) (- ETIME) s"

definition run_handler :: "timer_t \<Rightarrow> kstate \<Rightarrow> kstate option" where
  "run_handler tm s = (case thandler tm of Task_alarm \<Rightarrow> task_alarm tm s | No_handler \<Rightarrow> default_timeout tm s)"

text \<open>\<open>timer_wakeup\<close>: as long as the first timer has expired. An empty list expires at
  \<open>EOF\<close>, the greatest \<open>u32\<close>; the first element of an empty list is no timer.\<close>

partial_function (option) timer_wakeup :: "kstate \<Rightarrow> kstate option" where
  "timer_wakeup s =
     (if timer_expires s \<le> jiffies s
      then (case timer_list s of
          [] \<Rightarrow> None
        | tm # tms \<Rightarrow> do {
            s \<leftarrow> run_handler tm s;
            s \<leftarrow> timer_put (tid tm) s;
            timer_wakeup s })
      else Some s)"

definition clock_handler :: "kstate \<Rightarrow> kstate option" where
  "clock_handler s = do {
     let s = s\<lparr>jiffies := w32 (jiffies s + 1)\<rparr>;
     s \<leftarrow> timer_wakeup s;
     t \<leftarrow> task_at s (cur s);
     cassert (magic t = NEONIX_MAGIC);
     s \<leftarrow> modify (cur s) (\<lambda>t. t\<lparr>tjiffies := jiffies s, ticks := s32 (ticks t - 1)\<rparr>) s;
     t \<leftarrow> task_at s (cur s);
     if ticks t = 0 then schedule s else Some s }"

definition sys_time :: "nat \<Rightarrow> kstate \<Rightarrow> nat" where
  "sys_time startup s = w32 (startup + w32 (jiffies s * 10) div 1000)"

section \<open>The invariant\<close>

text \<open>\<open>live s p t\<close>: the table holds the task \<open>t\<close> at \<open>p\<close>.\<close>

definition live :: "kstate \<Rightarrow> tptr \<Rightarrow> task_t \<Rightarrow> bool" where
  "live s p t \<longleftrightarrow> p \<noteq> NULL \<and> p \<in> set (task_table s) \<and> task_at s p = Some t"

text \<open>What holds of each task, seen from \<open>cur\<close>: it has a time slice, waits in exactly the list it is
  linked in, and only the current task can be running.\<close>

definition task_ok :: "kstate \<Rightarrow> tptr \<Rightarrow> task_t \<Rightarrow> bool" where
  "task_ok s p t \<longleftrightarrow> magic t = NEONIX_MAGIC \<and> 0 < ticks t \<and> ticks t < 2147483648 \<and>
     0 < priority t \<and> priority t < 2147483648 \<and> pde t mod 4096 = 0 \<and>
     (node t = None \<longleftrightarrow> \<not> is_waiting (state t)) \<and> state t \<noteq> TASK_INIT \<and>
     (state t = TASK_RUNNING \<longrightarrow> p = cur s) \<and>
     (state t \<noteq> TASK_DIED \<longrightarrow> alarm t \<noteq> None \<longrightarrow> (\<exists>tm\<in>set (timer_list s). alarm t = Some (tid tm) \<and> ttask tm = p \<and> thandler tm = Task_alarm))"

definition kinv :: "kstate \<Rightarrow> bool" where
  "kinv s \<longleftrightarrow> \<not> intr s \<and>
     length (task_table s) = TASK_NR \<and>
     (\<forall>i<TASK_NR. task_table s ! i \<noteq> NULL \<longrightarrow> (\<exists>t. task_at s (task_table s ! i) = Some t \<and> pid t = int i)) \<and>
     (\<forall>p t. live s p t \<longrightarrow> task_ok s p t) \<and>
     (\<exists>t. live s (cur s) t) \<and>
     (\<exists>t. live s (idle_task s) t \<and> \<not> is_waiting (state t) \<and> state t \<noteq> TASK_DIED) \<and>
     (\<forall>l. distinct (wlists s l)) \<and>
     (\<forall>l p. p \<in> set (wlists s l) \<longleftrightarrow> (\<exists>t. live s p t \<and> node t = Some l)) \<and>
     distinct (map tid (timer_list s)) \<and>
     (\<forall>tm\<in>set (timer_list s). tid tm < next_timer s \<and> (\<exists>t. live s (ttask tm) t \<and> state t \<noteq> TASK_DIED))"

text \<open>The current task can go on.\<close>

definition cur_runs :: "kstate \<Rightarrow> bool" where
  "cur_runs s \<longleftrightarrow> (\<exists>t. live s (cur s) t \<and> (state t = TASK_RUNNING \<or> state t = TASK_READY))"

subsection \<open>The pieces of the invariant\<close>

lemma kinvD:
  assumes "kinv s"
  shows "\<not> intr s" and "length (task_table s) = TASK_NR"
    and "i < TASK_NR \<Longrightarrow> task_table s ! i \<noteq> NULL \<Longrightarrow> \<exists>t. task_at s (task_table s ! i) = Some t \<and> pid t = int i"
    and "live s p t \<Longrightarrow> task_ok s p t" and "\<exists>t. live s (cur s) t"
    and "\<exists>t. live s (idle_task s) t \<and> \<not> is_waiting (state t) \<and> state t \<noteq> TASK_DIED"
    and "distinct (wlists s l)"
    and "p \<in> set (wlists s l) \<longleftrightarrow> (\<exists>t. live s p t \<and> node t = Some l)"
    and "distinct (map tid (timer_list s))"
    and "tm \<in> set (timer_list s) \<Longrightarrow> tid tm < next_timer s \<and> (\<exists>t. live s (ttask tm) t \<and> state t \<noteq> TASK_DIED)"
  using assms by (simp_all add: kinv_def)

lemma live_at: "live s p t \<Longrightarrow> task_at s p = Some t" "live s p t \<Longrightarrow> p \<noteq> NULL" "live s p t \<Longrightarrow> p \<in> set (task_table s)"
  by (simp_all add: live_def)

lemma live_fun: "live s p t \<Longrightarrow> live s p u \<Longrightarrow> u = t"
  by (simp add: live_def)

lemma modify_live: "live s p t \<Longrightarrow> modify p f s = Some (s\<lparr>task_at := (task_at s)(p := Some (f t))\<rparr>)"
  by (simp add: modify_def live_def)

lemma live_upd [simp]:
  "live (s\<lparr>task_at := (task_at s)(p := Some t)\<rparr>) q u \<longleftrightarrow>
     q \<noteq> NULL \<and> q \<in> set (task_table s) \<and> (if q = p then u = t else task_at s q = Some u)"
  by (auto simp: live_def)

lemma live_other [simp]:
  "live (s\<lparr>wlists := W\<rparr>) q u \<longleftrightarrow> live s q u" "live (s\<lparr>timer_list := T\<rparr>) q u \<longleftrightarrow> live s q u"
  "live (s\<lparr>next_timer := n\<rparr>) q u \<longleftrightarrow> live s q u" "live (s\<lparr>jiffies := j\<rparr>) q u \<longleftrightarrow> live s q u"
  "live (s\<lparr>cur := c\<rparr>) q u \<longleftrightarrow> live s q u" "live (s\<lparr>kmem := k\<rparr>) q u \<longleftrightarrow> live s q u"
  "live (s\<lparr>esp0 := e\<rparr>) q u \<longleftrightarrow> live s q u"
  by (simp_all add: live_def)

text \<open>A task changes, and with it the lists it is in.\<close>

lemma kinv_change:
  assumes "kinv s" and "live s p t" and "pid t' = pid t" and "task_ok s p t'"
    and "p = idle_task s \<Longrightarrow> \<not> is_waiting (state t') \<and> state t' \<noteq> TASK_DIED"
    and "state t' = TASK_DIED \<Longrightarrow> \<forall>tm\<in>set (timer_list s). ttask tm \<noteq> p"
    and "\<And>l. distinct (W l)"
    and "\<And>l q. q \<noteq> p \<Longrightarrow> q \<in> set (W l) \<longleftrightarrow> q \<in> set (wlists s l)"
    and "\<And>l. p \<in> set (W l) \<longleftrightarrow> node t' = Some l"
  shows "kinv (s\<lparr>task_at := (task_at s)(p := Some t'), wlists := W\<rparr>)"
proof -
  note D = kinvD [OF assms(1)]
  have p: "p \<noteq> NULL" "p \<in> set (task_table s)" "task_at s p = Some t" using assms(2) by (simp_all add: live_def)
  let ?s = "s\<lparr>task_at := (task_at s)(p := Some t'), wlists := W\<rparr>"
  have L: "live ?s q u \<longleftrightarrow> (if q = p then u = t' else live s q u)" for q u
    using p by (auto simp: live_def)
  have ok: "task_ok ?s q u \<longleftrightarrow> task_ok s q u" for q u by (simp add: task_ok_def)
  have "\<forall>i<TASK_NR. task_table ?s ! i \<noteq> NULL \<longrightarrow> (\<exists>t. task_at ?s (task_table ?s ! i) = Some t \<and> pid t = int i)"
    using D(3) p(3) assms(3) by fastforce
  moreover have "\<forall>q u. live ?s q u \<longrightarrow> task_ok ?s q u" unfolding L ok using D(4) assms(4) by auto
  moreover have "\<exists>u. live ?s (cur s) u" unfolding L using D(5) by auto
  moreover have "\<exists>u. live ?s (idle_task s) u \<and> \<not> is_waiting (state u) \<and> state u \<noteq> TASK_DIED"
    unfolding L using D(6) assms(5) by auto
  moreover have "q \<in> set (W l) \<longleftrightarrow> (\<exists>u. live ?s q u \<and> node u = Some l)" for l q
    unfolding L using D(8) [of q l] assms(8) [of q l] assms(9) [of l] by (cases "q = p") simp_all
  moreover have "\<exists>u. live ?s (ttask tm) u \<and> state u \<noteq> TASK_DIED" if "tm \<in> set (timer_list s)" for tm
    unfolding L using D(10) [OF that] assms(6) that by auto
  ultimately show ?thesis
    using D(1,2,9,10) assms(7) by (simp add: kinv_def)
qed

lemma kinv_same_lists:
  assumes "kinv s" and "live s p t" and "pid t' = pid t" and "node t' = node t" and "task_ok s p t'"
    and "p = idle_task s \<Longrightarrow> \<not> is_waiting (state t') \<and> state t' \<noteq> TASK_DIED"
    and "state t' = TASK_DIED \<Longrightarrow> \<forall>tm\<in>set (timer_list s). ttask tm \<noteq> p"
  shows "kinv (s\<lparr>task_at := (task_at s)(p := Some t')\<rparr>)"
proof -
  note D = kinvD [OF assms(1)]
  have "p \<in> set (wlists s l) \<longleftrightarrow> node t' = Some l" for l
    using D(8) [of p l] assms(2,4) live_fun by metis
  from kinv_change [OF assms(1-3,5-7), of "wlists s", OF _ _ D(7) _ this] show ?thesis by simp
qed

lemma kinv_timers:
  assumes "kinv s" and "distinct (map tid T)"
    and "\<And>tm. tm \<in> set T \<Longrightarrow> tid tm < n \<and> (\<exists>t. live s (ttask tm) t \<and> state t \<noteq> TASK_DIED)"
    and "\<And>p t i. live s p t \<Longrightarrow> state t \<noteq> TASK_DIED \<Longrightarrow> alarm t = Some i \<Longrightarrow> \<exists>tm\<in>set T. i = tid tm \<and> ttask tm = p \<and> thandler tm = Task_alarm"
  shows "kinv (s\<lparr>timer_list := T, next_timer := n\<rparr>)"
proof -
  note D = kinvD [OF assms(1)]
  let ?s = "s\<lparr>timer_list := T, next_timer := n\<rparr>"
  have "task_ok ?s q u" if "live s q u" for q u
    using D(4) [OF that] assms(4) [OF that] by (auto simp: task_ok_def)
  then show ?thesis using D assms(2,3) by (auto simp: kinv_def)
qed

subsection \<open>The scheduler\<close>

lemma search_loop_ok:
  assumes "\<forall>p\<in>set ps. p \<noteq> NULL \<longrightarrow> task_at s p \<noteq> None" and "best \<noteq> NULL \<longrightarrow> task_at s best \<noteq> None"
  shows "\<exists>r. search_loop s st ps best = Some r \<and>
    (r = best \<or> r \<noteq> NULL \<and> r \<in> set ps \<and> r \<noteq> cur s \<and> (\<exists>t. task_at s r = Some t \<and> state t = st)) \<and>
    (r = NULL \<longrightarrow> best = NULL \<and>
      (\<forall>p\<in>set ps. p \<noteq> NULL \<longrightarrow> p \<noteq> cur s \<longrightarrow> (\<forall>t. task_at s p = Some t \<longrightarrow> state t \<noteq> st)))"
  using assms
proof (induction ps arbitrary: best)
  case (Cons p ps)
  show ?case
  proof (cases "p = NULL")
    case True
    with Cons.IH [of best] Cons.prems show ?thesis by auto
  next
    case False
    then obtain t where t: "task_at s p = Some t" using Cons.prems(1) by auto
    show ?thesis
    proof (cases "state t \<noteq> st \<or> cur s = p")
      case True
      with Cons.IH [of best] Cons.prems False t show ?thesis by auto
    next
      case keep: False
      show ?thesis
      proof (cases "best = NULL")
        case True
        with Cons.IH [of p] Cons.prems False t keep show ?thesis by auto
      next
        case b: False
        then obtain u where u: "task_at s best = Some u" using Cons.prems(2) by auto
        define n where "n = (if ticks u < ticks t \<or> tjiffies t < tjiffies u then p else best)"
        have "search_loop s st (p # ps) best = search_loop s st ps n"
          using False t keep b u by (simp add: n_def)
        moreover have "n \<noteq> NULL \<and> task_at s n \<noteq> None \<and> (n = best \<or> n = p)" using False t b u by (simp add: n_def)
        ultimately show ?thesis using Cons.IH [of n] Cons.prems False t keep b by auto
      qed
    qed
  qed
qed simp

lemma kinv_table:
  assumes "kinv s" and "p \<in> set (task_table s)" and "p \<noteq> NULL"
  shows "\<exists>t. live s p t"
proof -
  obtain i where i: "i < TASK_NR" "p = task_table s ! i"
    using assms(2) kinvD(2) [OF assms(1)] by (auto simp: in_set_conv_nth)
  with kinvD(3) [OF assms(1) i(1)] assms(2,3) show ?thesis by (auto simp: live_def)
qed

text \<open>The task that runs next: a ready task other than the current one if there is any, and the
  idle task otherwise.\<close>

definition ready :: "kstate \<Rightarrow> tptr \<Rightarrow> bool" where
  "ready s p \<longleftrightarrow> p \<noteq> cur s \<and> (\<exists>t. live s p t \<and> state t = TASK_READY)"

lemma task_search_ready:
  assumes "kinv s"
  shows "\<exists>p. task_search TASK_READY s = Some p \<and> (ready s p \<or> (\<forall>q. \<not> ready s q) \<and> p = idle_task s)"
proof -
  note D = kinvD [OF assms]
  have "\<forall>p\<in>set (task_table s). p \<noteq> NULL \<longrightarrow> task_at s p \<noteq> None"
    using kinv_table [OF assms] by (auto simp: live_def)
  then obtain r where r: "search_loop s TASK_READY (task_table s) NULL = Some r"
    "r = NULL \<or> r \<noteq> NULL \<and> r \<in> set (task_table s) \<and> r \<noteq> cur s \<and> (\<exists>t. task_at s r = Some t \<and> state t = TASK_READY)"
    "r = NULL \<longrightarrow> (\<forall>p\<in>set (task_table s). p \<noteq> NULL \<longrightarrow> p \<noteq> cur s \<longrightarrow> (\<forall>t. task_at s p = Some t \<longrightarrow> state t \<noteq> TASK_READY))"
    using search_loop_ok [of "task_table s" s NULL TASK_READY] by auto
  show ?thesis
    using r D(1) by (cases "r = NULL") (auto simp: task_search_def ready_def live_def)
qed

text \<open>\<open>running\<close>: the state after the current task and the next one have been marked.\<close>

definition rested :: "task_t \<Rightarrow> task_t" where
  "rested c = (let c = (if state c = TASK_RUNNING then c\<lparr>state := TASK_READY\<rparr> else c)
     in if ticks c = 0 then c\<lparr>ticks := s32 (int (priority c))\<rparr> else c)"

definition put_task :: "tptr \<Rightarrow> task_t \<Rightarrow> kstate \<Rightarrow> kstate" where
  "put_task p t s = s\<lparr>task_at := (task_at s)(p := Some t)\<rparr>"

lemma modify_put: "task_at s p = Some t \<Longrightarrow> modify p f s = Some (put_task p (f t) s)"
  by (simp add: modify_def put_task_def)

lemma put_task_simps [simp]:
  "task_at (put_task p t s) q = (if q = p then Some t else task_at s q)"
  "put_task p t (put_task p u s) = put_task p t s" "cur (put_task p t s) = cur s"
  "kmem (put_task p t s) = kmem s" "intr (put_task p t s) = intr s" "task_table (put_task p t s) = task_table s"
  "timer_list (put_task p t s) = timer_list s" "wlists (put_task p t s) = wlists s"
  "idle_task (put_task p t s) = idle_task s" "jiffies (put_task p t s) = jiffies s"
  "next_timer (put_task p t s) = next_timer s" "esp0 (put_task p t s) = esp0 s"
  by (simp_all add: put_task_def)

lemma live_put [simp]:
  "live (put_task p t s) q u \<longleftrightarrow> q \<noteq> NULL \<and> q \<in> set (task_table s) \<and> (if q = p then u = t else task_at s q = Some u)"
  by (simp add: put_task_def)

lemma rested_simps [simp]:
  "pid (rested c) = pid c" "node (rested c) = node c" "magic (rested c) = magic c" "pde (rested c) = pde c"
  "uid (rested c) = uid c" "priority (rested c) = priority c" "alarm (rested c) = alarm c"
  "state (rested c) = (if state c = TASK_RUNNING then TASK_READY else state c)"
  "ticks (rested c) = (if ticks c = 0 then s32 (int (priority c)) else ticks c)"
  "tjiffies (rested c) = tjiffies c" "signal (rested c) = signal c" "blocked (rested c) = blocked c"
  by (simp_all add: rested_def Let_def)

lemma schedule_eq:
  assumes "\<not> intr s" and "task_search TASK_READY s = Some p" and "p \<noteq> NULL" and "task_at s p = Some n"
    and "magic n = NEONIX_MAGIC" and "task_at s (cur s) = Some c" and "pde n mod 4096 = 0"
  shows "schedule s = (let n' = (if p = cur s then rested c else n)\<lparr>state := TASK_RUNNING\<rparr>;
       s' = put_task p n' (put_task (cur s) (rested c) s)
     in Some (if p = cur s then s'
       else s'\<lparr>kmem := (kmem s)\<lparr>cr3 := pde n\<rparr>, cur := p,
         esp0 := if uid n \<noteq> KERNEL_USER then w32 (p + PAGE_SIZE) else esp0 s\<rparr>))"
proof -
  have m: "kmem s = (kmem s)\<lparr>cr3 := pde n\<rparr>" if "cr3 (kmem s) = pde n" using that by simp
  show ?thesis
  proof (cases "p = cur s")
    case True
    with assms show ?thesis
      by (simp add: schedule_def modify_put Let_def rested_def)
  next
    case False
    with assms m show ?thesis
      by (simp add: schedule_def modify_put Let_def rested_def task_activate_def set_cr3_def ASSERT_PAGE_def put_task_def)
  qed
qed

lemma search_loop_put:
  assumes "task_at s (cur s) \<noteq> None" and "best \<noteq> cur s"
  shows "search_loop (put_task (cur s) x s) st ps best = search_loop s st ps best"
  using assms(2)
proof (induction ps arbitrary: best)
  case (Cons p ps)
  obtain c where "task_at s (cur s) = Some c" using assms(1) by auto
  then show ?case using Cons by (cases "p = cur s"; cases "task_at s p") (auto cong: if_cong)
qed simp

lemma task_search_put:
  "task_at s (cur s) \<noteq> None \<Longrightarrow> cur s \<noteq> NULL \<Longrightarrow>
   task_search st (put_task (cur s) x s) = task_search st s"
  by (simp add: task_search_def search_loop_put cong: if_cong)

lemma kinv_cur:
  assumes "kinv s" and "live s p t" and "\<And>q u. live s q u \<Longrightarrow> state u \<noteq> TASK_RUNNING"
  shows "kinv (s\<lparr>kmem := k, cur := p, esp0 := e\<rparr>)"
proof -
  note D = kinvD [OF assms(1)]
  let ?s = "s\<lparr>kmem := k, cur := p, esp0 := e\<rparr>"
  have "task_ok ?s q u" if "live s q u" for q u
    using D(4) [OF that] assms(3) [OF that] by (auto simp: task_ok_def)
  with D assms(2) show ?thesis by (auto simp: kinv_def)
qed

lemma ready_put: "cur s \<noteq> NULL \<Longrightarrow> ready (put_task (cur s) x s) q \<longleftrightarrow> ready s q"
  by (auto simp: ready_def live_def)

text \<open>What \<open>schedule\<close> does to a state in which the current task may have used up its slice.\<close>

lemma schedule_next:
  assumes "live s (cur s) c" and "kinv (put_task (cur s) (rested c) s)"
  obtains p n where "ready s p \<or> (\<forall>q. \<not> ready s q) \<and> p = idle_task s" and "live s p n"
    and "\<not> is_waiting (state n)" and "state n \<noteq> TASK_DIED"
    and "schedule s = (let n' = (if p = cur s then rested c else n)\<lparr>state := TASK_RUNNING\<rparr>;
         s' = put_task p n' (put_task (cur s) (rested c) s)
       in Some (if p = cur s then s'
         else s'\<lparr>kmem := (kmem s)\<lparr>cr3 := pde n\<rparr>, cur := p,
           esp0 := if uid n \<noteq> KERNEL_USER then w32 (p + PAGE_SIZE) else esp0 s\<rparr>))"
proof -
  let ?s = "put_task (cur s) (rested c) s"
  note D = kinvD [OF assms(2)]
  have c: "task_at s (cur s) = Some c" "cur s \<noteq> NULL" "cur s \<in> set (task_table s)"
    using assms(1) by (simp_all add: live_def)
  obtain p where p: "task_search TASK_READY s = Some p" "ready s p \<or> (\<forall>q. \<not> ready s q) \<and> p = idle_task s"
    using task_search_ready [OF assms(2)] c by (auto simp: task_search_put ready_put)
  have "\<exists>n. live s p n \<and> \<not> is_waiting (state n) \<and> state n \<noteq> TASK_DIED \<and> live ?s p (if p = cur s then rested c else n)"
  proof (cases "ready s p")
    case True
    then show ?thesis using c by (auto simp: ready_def is_waiting_def live_def)
  next
    case False
    then have "p = idle_task s" using p by blast
    with D(6) c show ?thesis
      by (cases "p = cur s") (auto simp: live_def is_waiting_def split: if_splits)
  qed
  then obtain n where n: "live s p n" "\<not> is_waiting (state n)" "state n \<noteq> TASK_DIED"
    "live ?s p (if p = cur s then rested c else n)" by blast
  from D(4) [OF n(4)] n(1) c(1) have "magic n = NEONIX_MAGIC" "pde n mod 4096 = 0"
    by (auto simp: task_ok_def live_def split: if_splits)
  with that [OF p(2) n(1-3)] schedule_eq [OF _ p(1) _ _ _ c(1), of n] D(1) n(1) show ?thesis
    by (simp add: live_def)
qed

lemma task_ok_put [simp]: "task_ok (put_task p t s) q u \<longleftrightarrow> task_ok s q u"
  by (simp add: task_ok_def)

definition cr3_ok :: "kstate \<Rightarrow> bool" where
  "cr3_ok s \<longleftrightarrow> (\<forall>t. live s (cur s) t \<longrightarrow> cr3 (kmem s) = pde t)"

text \<open>What the scheduler leaves alone: all but the state and the slice of tasks, and which one is
  current.\<close>

definition same_but_sched :: "kstate \<Rightarrow> kstate \<Rightarrow> bool" where
  "same_but_sched s s' \<longleftrightarrow> task_table s' = task_table s \<and> wlists s' = wlists s \<and>
     timer_list s' = timer_list s \<and> jiffies s' = jiffies s \<and> idle_task s' = idle_task s \<and>
     next_timer s' = next_timer s \<and> intr s' = intr s \<and>
     (\<forall>q t. task_at s q = Some t \<longrightarrow> (\<exists>u. task_at s' q = Some u \<and>
       u = t\<lparr>state := state u, ticks := ticks u\<rparr>))"

lemma schedule_ok:
  assumes "live s (cur s) c" and "kinv (put_task (cur s) (rested c) s)" and "cr3_ok s"
  shows "\<exists>s'. schedule s = Some s' \<and> kinv s' \<and> cr3_ok s' \<and> same_but_sched s s' \<and>
    (ready s (cur s') \<or> (\<forall>q. \<not> ready s q) \<and> cur s' = idle_task s) \<and>
    (\<exists>t. live s' (cur s') t \<and> state t = TASK_RUNNING) \<and>
    (\<forall>q. q \<noteq> cur s' \<longrightarrow> task_at s' q = task_at (put_task (cur s) (rested c) s) q)"
proof -
  let ?s = "put_task (cur s) (rested c) s"
  obtain p n where p: "ready s p \<or> (\<forall>q. \<not> ready s q) \<and> p = idle_task s" "live s p n"
    "\<not> is_waiting (state n)" "state n \<noteq> TASK_DIED"
    "schedule s = (let n' = (if p = cur s then rested c else n)\<lparr>state := TASK_RUNNING\<rparr>;
         s' = put_task p n' ?s
       in Some (if p = cur s then s'
         else s'\<lparr>kmem := (kmem s)\<lparr>cr3 := pde n\<rparr>, cur := p,
           esp0 := if uid n \<noteq> KERNEL_USER then w32 (p + PAGE_SIZE) else esp0 s\<rparr>))"
    using schedule_next [OF assms(1,2)] by metis
  define n1 where "n1 = (if p = cur s then rested c else n)"
  define n' where "n' = n1\<lparr>state := TASK_RUNNING\<rparr>"
  have c: "task_at s (cur s) = Some c" "cur s \<noteq> NULL" using assms(1) by (simp_all add: live_def)
  have pn: "task_at s p = Some n" "p \<noteq> NULL" "p \<in> set (task_table s)" using p(2) by (simp_all add: live_def)
  have l1: "live ?s p n1" using pn by (simp add: n1_def)
  note ok1 = kinvD(4) [OF assms(2) l1]
  have nw: "\<not> is_waiting (state n1)" "node n1 = None" "state n1 \<noteq> TASK_DIED"
  proof -
    show "\<not> is_waiting (state n1)" using p(3) pn c by (auto simp: n1_def is_waiting_def)
    then show "node n1 = None" using ok1 by (simp add: task_ok_def)
    show "state n1 \<noteq> TASK_DIED" using p(4) pn c by (auto simp: n1_def)
  qed
  define e where "e = (if uid n \<noteq> KERNEL_USER then w32 (p + PAGE_SIZE) else esp0 s)"
  define k where "k = (if p = cur s then kmem s else (kmem s)\<lparr>cr3 := pde n\<rparr>)"
  define s' where "s' = put_task p n' (?s\<lparr>kmem := k, cur := p, esp0 := if p = cur s then esp0 s else e\<rparr>)"
  have sch: "schedule s = Some s'"
    by (simp add: p(5) Let_def s'_def n'_def n1_def k_def e_def put_task_def)
  have noRun: "state u \<noteq> TASK_RUNNING" if l: "live ?s q u" for q u
  proof
    assume "state u = TASK_RUNNING"
    with kinvD(4) [OF assms(2) l] have "q = cur s" by (simp add: task_ok_def)
    with l \<open>state u = TASK_RUNNING\<close> show False by (simp split: if_splits)
  qed
  let ?r = "?s\<lparr>kmem := k, cur := p, esp0 := if p = cur s then esp0 s else e\<rparr>"
  have kr: "kinv ?r" by (rule kinv_cur [OF assms(2) l1 noRun])
  have lr: "live ?r p n1" using l1 by simp
  have "task_ok ?r p n'" using kinvD(4) [OF kr lr] nw by (auto simp: n'_def task_ok_def is_waiting_def)
  then have "kinv s'"
    unfolding s'_def put_task_def
    by (intro kinv_same_lists [OF kr [unfolded put_task_def] lr [unfolded put_task_def]])
      (simp_all add: n'_def is_waiting_def put_task_def)
  moreover have "cr3_ok s'"
    using assms(3) assms(1) by (auto simp: cr3_ok_def s'_def n'_def n1_def k_def live_def put_task_def)
  moreover have "same_but_sched s s'"
    using c pn by (auto simp: same_but_sched_def s'_def n'_def n1_def rested_def Let_def put_task_def)
  moreover have "live s' p n'" using pn by (simp add: s'_def live_def put_task_def)
  moreover have "cur s' = p" by (simp add: s'_def)
  moreover have "task_at s' q = task_at ?s q" if "q \<noteq> p" for q
    using that by (simp add: s'_def put_task_def)
  ultimately show ?thesis using sch p(1) by (auto simp: n'_def)
qed

subsection \<open>Blocking and waking\<close>

definition unlink :: "tptr \<Rightarrow> nat option \<Rightarrow> (nat \<Rightarrow> tptr list) \<Rightarrow> nat \<Rightarrow> tptr list" where
  "unlink p l W = (case l of None \<Rightarrow> W | Some l \<Rightarrow> W(l := remove1 p (W l)))"

lemma task_unblock_eq:
  assumes "\<not> intr s" and "task_at s p = Some t"
  shows "task_unblock p r s = Some (put_task p (t\<lparr>node := None, status := r, state := TASK_READY\<rparr>)
    (s\<lparr>wlists := unlink p (node t) (wlists s)\<rparr>))"
  using assms by (cases "node t") (simp_all add: task_unblock_def unlink_def modify_def put_task_def Let_def)

lemma unlink_set:
  assumes "kinv s" and "live s p t"
  shows "distinct (unlink p (node t) (wlists s) l)"
    and "q \<noteq> p \<Longrightarrow> q \<in> set (unlink p (node t) (wlists s) l) \<longleftrightarrow> q \<in> set (wlists s l)"
    and "p \<notin> set (unlink p (node t) (wlists s) l)"
proof -
  note D = kinvD(7,8) [OF assms(1)]
  show "distinct (unlink p (node t) (wlists s) l)" using D(1) by (simp add: unlink_def split: option.split)
  show "q \<in> set (unlink p (node t) (wlists s) l) \<longleftrightarrow> q \<in> set (wlists s l)" if "q \<noteq> p"
    using that by (simp add: unlink_def split: option.split)
  have "p \<in> set (wlists s k) \<longleftrightarrow> node t = Some k" for k using D(2) [of p k] assms(2) live_fun by metis
  then show "p \<notin> set (unlink p (node t) (wlists s) l)" using D(1) by (auto simp: unlink_def split: option.split)
qed

lemma upd_comm: "s\<lparr>wlists := W, task_at := T\<rparr> = s\<lparr>task_at := T, wlists := W\<rparr>" for s :: kstate
  by simp

lemma upd_comm2: "s\<lparr>wlists := W, timer_list := T, next_timer := n\<rparr> = s\<lparr>timer_list := T, next_timer := n, wlists := W\<rparr>"
  for s :: kstate by simp

lemma kinv_unblock:
  assumes "kinv s" and "live s p t" and "state t \<noteq> TASK_DIED"
  shows "kinv (put_task p (t\<lparr>node := None, status := r, state := TASK_READY\<rparr>)
    (s\<lparr>wlists := unlink p (node t) (wlists s)\<rparr>))"
proof -
  let ?t = "t\<lparr>node := None, status := r, state := TASK_READY\<rparr>"
  have "task_ok s p ?t" using kinvD(4) [OF assms(1,2)] assms(3) by (auto simp: task_ok_def is_waiting_def)
  then have "kinv (s\<lparr>task_at := (task_at s)(p := Some ?t), wlists := unlink p (node t) (wlists s)\<rparr>)"
    by (intro kinv_change [OF assms(1,2)]) (simp_all add: is_waiting_def unlink_set [OF assms(1,2)])
  then show ?thesis by (simp add: put_task_def upd_comm)
qed

lemma timer_insert_set [simp]: "set (timer_insert t ts) = insert t (set ts)"
  by (induction ts) auto

lemma timer_insert_tids: "distinct (map tid (timer_insert t ts)) \<longleftrightarrow> tid t \<notin> tid ` set ts \<and> distinct (map tid ts)"
  by (induction ts) auto

lemma timer_add_ok:
  assumes "kinv s" and "live s (cur s) c" and "state c \<noteq> TASK_DIED"
  shows "kinv (snd (timer_add ms h s))"
proof -
  note D = kinvD [OF assms(1)]
  let ?t = "\<lparr>tid = next_timer s, ttask = cur s, expires = w32 (jiffies s + ms div jiffy), thandler = h\<rparr>"
  have "next_timer s \<notin> tid ` set (timer_list s)" using D(10) by (metis imageE less_irrefl)
  then have "distinct (map tid (timer_insert ?t (timer_list s)))"
    using D(9) by (simp add: timer_insert_tids)
  moreover have "\<exists>tm\<in>set (timer_insert ?t (timer_list s)). i = tid tm \<and> ttask tm = p \<and> thandler tm = Task_alarm"
    if "live s p t" "state t \<noteq> TASK_DIED" "alarm t = Some i" for p t i
    using D(4) [OF that(1)] that(2,3) by (auto simp: task_ok_def)
  moreover have "tid tm < Suc (next_timer s) \<and> (\<exists>t. live s (ttask tm) t \<and> state t \<noteq> TASK_DIED)"
    if "tm \<in> set (timer_insert ?t (timer_list s))" for tm
    using that D(10) [of tm] assms(2,3) by auto
  ultimately show ?thesis
    using kinv_timers [OF assms(1), of "timer_insert ?t (timer_list s)" "Suc (next_timer s)"]
    by (simp add: timer_add_def Let_def)
qed

lemma rested_waiting: "state t \<noteq> TASK_RUNNING \<Longrightarrow> ticks t \<noteq> 0 \<Longrightarrow> rested t = t"
  by (simp add: rested_def)

text \<open>The current task, not the idle task, blocks.\<close>

lemma task_block_ok:
  assumes "kinv s" and "live s (cur s) t" and "\<not> is_waiting (state t)" and "state t \<noteq> TASK_DIED"
    and "cur s \<noteq> idle_task s" and "is_waiting st" and "cr3_ok s"
  shows "\<exists>s'. task_block (cur s) l st timeout s = Some s' \<and> kinv s' \<and> cr3_ok s' \<and>
    task_at s' (cur s) = Some (t\<lparr>node := Some l, state := st\<rparr>) \<and> cur s' \<noteq> cur s \<and>
    (ready s (cur s') \<or> (\<forall>q. \<not> ready s q) \<and> cur s' = idle_task s) \<and>
    (\<exists>t. live s' (cur s') t \<and> state t = TASK_RUNNING)"
proof -
  define t' where "t' = t\<lparr>node := Some l, state := st\<rparr>"
  define s1 where "s1 = (if timeout > 0 then snd (timer_add (nat timeout) No_handler s) else s)"
  define W where "W = (wlists s)(l := cur s # wlists s l)"
  define s2 where "s2 = put_task (cur s) t' (s1\<lparr>wlists := W\<rparr>)"
  have k1: "kinv s1" using timer_add_ok [OF assms(1,2,4)] assms(1) by (simp add: s1_def)
  have f: "cur s1 = cur s" "task_at s1 = task_at s" "wlists s1 = wlists s" "task_table s1 = task_table s"
    "idle_task s1 = idle_task s" "kmem s1 = kmem s"
    by (simp_all add: s1_def timer_add_def Let_def)
  have l1: "live s1 (cur s) t" using assms(2) by (simp add: live_def f)
  note ok = kinvD(4) [OF k1 l1]
  have n: "node t = None" using ok assms(3) by (simp add: task_ok_def)
  note W8 = kinvD(8) [OF assms(1)]
  have notin: "cur s \<notin> set (wlists s k)" for k using W8 [of "cur s" k] n assms(2) live_fun by (metis option.distinct(1))
  have "st \<noteq> TASK_DIED" "st \<noteq> TASK_INIT" "st \<noteq> TASK_RUNNING" "st \<noteq> TASK_READY"
    using assms(6) by (auto simp: is_waiting_def)
  then have ok': "task_ok s1 (cur s) t'" using ok assms(4,6) by (simp add: task_ok_def t'_def)
  have k2: "kinv s2"
    unfolding s2_def put_task_def
    using kinv_change [OF k1 l1 _ ok', of W] assms(5) \<open>st \<noteq> TASK_DIED\<close> kinvD(7) [OF assms(1)] notin
    by (simp add: t'_def W_def f upd_comm)
  have eq: "task_block (cur s) l st timeout s = schedule s2"
    using kinvD(1) [OF assms(1)] assms(2) n \<open>st \<noteq> TASK_RUNNING\<close> \<open>st \<noteq> TASK_READY\<close>
    by (simp add: task_block_def live_def modify_def Let_def s2_def s1_def put_task_def W_def t'_def timer_add_def upd_comm2)
  have c2: "cur s2 = cur s" by (simp add: s2_def f)
  have l2: "live s2 (cur s2) t'" using assms(2) by (simp add: s2_def f live_def)
  have r: "put_task (cur s2) (rested t') s2 = s2"
    using ok' \<open>st \<noteq> TASK_RUNNING\<close> by (simp add: rested_waiting t'_def task_ok_def c2) (simp add: s2_def f t'_def)
  have "cr3_ok s2" using assms(2,7) by (auto simp: cr3_ok_def s2_def t'_def f live_def)
  from schedule_ok [OF l2 _ this] k2 r obtain s' where s': "schedule s2 = Some s'" "kinv s'" "cr3_ok s'"
    "same_but_sched s2 s'" "ready s2 (cur s') \<or> (\<forall>q. \<not> ready s2 q) \<and> cur s' = idle_task s2"
    "\<exists>t. live s' (cur s') t \<and> state t = TASK_RUNNING"
    "\<forall>q. q \<noteq> cur s' \<longrightarrow> task_at s' q = task_at s2 q" by auto
  have rd: "ready s2 q \<longleftrightarrow> ready s q" for q by (auto simp: ready_def s2_def live_def f)
  have i2: "idle_task s2 = idle_task s" by (simp add: s2_def f)
  have ne: "cur s' \<noteq> cur s" using s'(5) assms(5) unfolding rd i2 by (auto simp: ready_def)
  have "task_at s' (cur s) = Some t'" using s'(7) ne by (simp add: s2_def)
  with s' ne show ?thesis by (auto simp: eq rd i2 t'_def)
qed

subsection \<open>Signals, timers and the clock\<close>

lemma get_task_loop_ok:
  assumes "\<forall>p\<in>set ps. p \<noteq> NULL \<longrightarrow> task_at s p \<noteq> None"
  shows "\<exists>p. get_task_loop s want ps = Some p \<and> (p = NULL \<longrightarrow> (\<forall>q\<in>set ps. \<forall>t. q \<noteq> NULL \<longrightarrow> task_at s q = Some t \<longrightarrow> pid t \<noteq> want)) \<and>
    (p \<noteq> NULL \<longrightarrow> p \<in> set ps \<and> (\<exists>t. task_at s p = Some t \<and> pid t = want))"
  using assms
proof (induction ps)
  case (Cons p ps)
  then show ?case by (cases "p = NULL"; cases "task_at s p") auto
qed simp

lemma get_task_ok:
  assumes "kinv s"
  shows "\<exists>p. get_task want s = Some p \<and>
    (p = NULL \<longrightarrow> (\<forall>q t. live s q t \<longrightarrow> pid t \<noteq> want)) \<and> (p \<noteq> NULL \<longrightarrow> (\<exists>t. live s p t \<and> pid t = want))"
proof -
  have "\<forall>p\<in>set (task_table s). p \<noteq> NULL \<longrightarrow> task_at s p \<noteq> None"
    using kinv_table [OF assms] by (auto simp: live_def)
  from get_task_loop_ok [OF this, of want] show ?thesis by (auto simp: get_task_def live_def)
qed

lemma pid_inj:
  assumes "kinv s" and "live s p t" and "live s q u" and "pid t = pid u"
  shows "p = q"
proof -
  note D = kinvD(2,3) [OF assms(1)]
  have "\<exists>i<TASK_NR. r = task_table s ! i \<and> (\<exists>v. task_at s r = Some v \<and> pid v = int i)" if l: "live s r v" for r v
  proof -
    obtain i where "i < TASK_NR" "r = task_table s ! i"
      using l D(1) unfolding live_def in_set_conv_nth by metis
    with D(2) [of i] l show ?thesis by (auto simp: live_def)
  qed
  from this [OF assms(2)] this [OF assms(3)] assms(2-4) show ?thesis by (auto simp: live_def)
qed

lemma get_task_live:
  assumes "kinv s" and "live s p t"
  shows "get_task (pid t) s = Some p"
proof -
  obtain q where q: "get_task (pid t) s = Some q" "q = NULL \<Longrightarrow> \<forall>q u. live s q u \<longrightarrow> pid u \<noteq> pid t"
    "q \<noteq> NULL \<Longrightarrow> \<exists>u. live s q u \<and> pid u = pid t"
    using get_task_ok [OF assms(1), of "pid t"] by blast
  then have "q \<noteq> NULL" using assms(2) by blast
  then obtain u where "live s q u" "pid u = pid t" using q(3) by blast
  then have "p = q" using pid_inj [OF assms] by simp
  with q(1) show ?thesis by simp
qed

text \<open>A signal changes the bits of one task, and wakes it if it sleeps or waits for a child.\<close>

definition signalled :: "int \<Rightarrow> task_t \<Rightarrow> task_t" where
  "signalled sig t = (let t = t\<lparr>signal := signal t OR SIGMASK sig\<rparr>
     in if state t = TASK_WAITING \<or> state t = TASK_SLEEPING
        then t\<lparr>node := None, status := - EINTR, state := TASK_READY\<rparr> else t)"

definition kill_ok :: "int \<Rightarrow> task_t \<Rightarrow> bool" where
  "kill_ok sig t \<longleftrightarrow> MINSIG \<le> sig \<and> sig \<le> MAXSIG \<and> uid t \<noteq> KERNEL_USER \<and> pid t \<noteq> 1"

lemma sys_kill_eq:
  assumes "kinv s" and "live s p t" and "kill_ok sig t"
  shows "sys_kill (pid t) sig s = Some (0, put_task p (signalled sig t)
    (s\<lparr>wlists := unlink p (if state t = TASK_WAITING \<or> state t = TASK_SLEEPING then node t else None) (wlists s)\<rparr>))"
proof -
  have "get_task (pid t) s = Some p" "p \<noteq> NULL" "task_at s p = Some t" "\<not> intr s"
    using get_task_live [OF assms(1,2)] assms(2) kinvD(1) [OF assms(1)] by (simp_all add: live_def)
  then show ?thesis
    using assms(3)
    by (auto simp: sys_kill_def kill_ok_def modify_put task_unblock_eq signalled_def Let_def unlink_def put_task_def
        split: option.split)
qed

lemma sys_kill_refused:
  assumes "kinv s" and "\<And>p t. live s p t \<Longrightarrow> pid t = want \<Longrightarrow> \<not> kill_ok sig t"
  shows "sys_kill want sig s = Some (EOF, s)"
proof -
  obtain q where q: "get_task want s = Some q" "q \<noteq> NULL \<Longrightarrow> \<exists>u. live s q u \<and> pid u = want"
    using get_task_ok [OF assms(1), of want] by blast
  show ?thesis
  proof (cases "q = NULL")
    case False
    then obtain u where u: "live s q u" "pid u = want" using q(2) by blast
    with assms(2) [OF u] q(1) False show ?thesis by (auto simp: sys_kill_def kill_ok_def live_def)
  qed (simp add: sys_kill_def q)
qed

lemma kinv_signalled:
  assumes "kinv s" and "live s p t"
  shows "kinv (put_task p (signalled sig t)
    (s\<lparr>wlists := unlink p (if state t = TASK_WAITING \<or> state t = TASK_SLEEPING then node t else None) (wlists s)\<rparr>))"
proof -
  let ?t = "t\<lparr>signal := signal t OR SIGMASK sig\<rparr>"
  note D = kinvD [OF assms(1)]
  have ok: "task_ok s p ?t" using D(4) [OF assms(2)] by (simp add: task_ok_def)
  have k: "kinv (put_task p ?t s)"
    unfolding put_task_def
    using D(6,10) assms(2) by (intro kinv_same_lists [OF assms(1,2) _ _ ok]) (auto dest: live_fun)
  show ?thesis
  proof (cases "state t = TASK_WAITING \<or> state t = TASK_SLEEPING")
    case True
    have "live (put_task p ?t s) p ?t" using assms(2) by (simp add: live_def)
    from kinv_unblock [OF k this] True show ?thesis
      by (auto simp: signalled_def put_task_def Let_def)
  next
    case False
    with k show ?thesis by (simp add: signalled_def unlink_def put_task_def)
  qed
qed

lemma sys_kill_ok:
  assumes "kinv s"
  shows "\<exists>r s'. sys_kill want sig s = Some (r, s') \<and> kinv s'"
proof (cases "\<exists>p t. live s p t \<and> pid t = want \<and> kill_ok sig t")
  case True
  then obtain p t where "live s p t" "pid t = want" "kill_ok sig t" by blast
  with sys_kill_eq [OF assms] kinv_signalled [OF assms] show ?thesis by metis
next
  case False
  with sys_kill_refused [OF assms] assms show ?thesis by blast
qed

text \<open>What handlers leave alone.\<close>

definition kept :: "task_t \<Rightarrow> task_t \<Rightarrow> bool" where
  "kept t u \<longleftrightarrow> pid u = pid t \<and> pde u = pde t \<and> uid u = uid t \<and> ticks u = ticks t \<and> priority u = priority t \<and>
     magic u = magic t \<and> (is_waiting (state u) \<longrightarrow> state u = state t \<and> node u = node t) \<and>
     (state t \<noteq> TASK_DIED \<longrightarrow> state u \<noteq> TASK_DIED) \<and> (\<not> is_waiting (state t) \<longrightarrow> \<not> is_waiting (state u)) \<and>
     blocked u = blocked t \<and> tjiffies u = tjiffies t \<and> (alarm u = alarm t \<or> alarm u = None)"

lemma kept_refl [simp]: "kept t t"
  by (simp add: kept_def)

lemma kept_trans:
  assumes "kept t u" and "kept u v"
  shows "kept t v"
proof -
  note a = assms [unfolded kept_def]
  have "is_waiting (state v) \<longrightarrow> state v = state t \<and> node v = node t" using a by metis
  moreover have "alarm v = alarm t \<or> alarm v = None" using a by metis
  moreover have "state t \<noteq> TASK_DIED \<longrightarrow> state v \<noteq> TASK_DIED" "\<not> is_waiting (state t) \<longrightarrow> \<not> is_waiting (state v)"
    using a by metis+
  moreover have "pid v = pid t \<and> pde v = pde t \<and> uid v = uid t \<and> ticks v = ticks t \<and> priority v = priority t \<and>
     magic v = magic t \<and> blocked v = blocked t \<and> tjiffies v = tjiffies t" using a by metis
  ultimately show ?thesis unfolding kept_def by blast
qed

definition keeps :: "kstate \<Rightarrow> kstate \<Rightarrow> bool" where
  "keeps s s' \<longleftrightarrow> next_timer s' = next_timer s \<and> jiffies s' = jiffies s \<and>
     cur s' = cur s \<and> idle_task s' = idle_task s \<and> task_table s' = task_table s \<and> kmem s' = kmem s \<and>
     (\<forall>q t. task_at s q = Some t \<longrightarrow> (\<exists>u. task_at s' q = Some u \<and> kept t u)) \<and>
     (\<forall>q. task_at s q = None \<longrightarrow> task_at s' q = None)"

lemma keeps_refl: "keeps s s"
  by (simp add: keeps_def)

lemma keeps_at: "keeps s s' \<Longrightarrow> task_at s q = Some t \<Longrightarrow> \<exists>u. task_at s' q = Some u \<and> kept t u"
  by (simp add: keeps_def)

lemma keeps_trans: "keeps s1 s2 \<Longrightarrow> keeps s2 s3 \<Longrightarrow> keeps s1 s3"
proof -
  assume a: "keeps s1 s2" "keeps s2 s3"
  have "\<exists>u. task_at s3 q = Some u \<and> kept t u" if q: "task_at s1 q = Some t" for q t
  proof -
    obtain v where v: "task_at s2 q = Some v" "kept t v" using keeps_at [OF a(1) q] by blast
    moreover obtain u where "task_at s3 q = Some u" "kept v u" using keeps_at [OF a(2) v(1)] by blast
    ultimately show ?thesis using kept_trans by blast
  qed
  with a show ?thesis by (simp add: keeps_def)
qed

lemma keeps_put: "task_at s p = Some t \<Longrightarrow> kept t u \<Longrightarrow> keeps s (put_task p u (s\<lparr>wlists := W\<rparr>))"
  by (simp add: keeps_def put_task_def)

lemma keeps_live: "keeps s s' \<Longrightarrow> live s p t \<Longrightarrow> \<exists>u. live s' p u \<and> kept t u"
  by (auto simp: keeps_def live_def)

lemma kept_signalled: "kept t (signalled sig t)"
  by (simp add: signalled_def kept_def Let_def is_waiting_def)

lemma died_timer: "kinv s \<Longrightarrow> live s p t \<Longrightarrow> state t = TASK_DIED \<Longrightarrow> \<forall>tm\<in>set (timer_list s). ttask tm \<noteq> p"
  using kinvD(10) live_fun by metis

lemma rested_died: "state (rested c) = TASK_DIED \<longleftrightarrow> state c = TASK_DIED"
  by simp

lemma keeps_runs:
  assumes "keeps s s'" and "kinv s'" and "cur_runs s"
  shows "cur_runs s'"
proof -
  obtain t where t: "live s (cur s) t" "state t = TASK_RUNNING \<or> state t = TASK_READY"
    using assms(3) by (auto simp: cur_runs_def)
  from keeps_live [OF assms(1) t(1)] obtain u where u: "live s' (cur s) u" "kept t u" by blast
  have "\<not> is_waiting (state t)" "state t \<noteq> TASK_DIED" using t(2) by (auto simp: is_waiting_def)
  with u(2) have "\<not> is_waiting (state u)" "state u \<noteq> TASK_DIED" by (simp_all add: kept_def)
  moreover have "state u \<noteq> TASK_INIT" using kinvD(4) [OF assms(2) u(1)] by (simp add: task_ok_def)
  ultimately have "state u = TASK_RUNNING \<or> state u = TASK_READY" by (cases "state u") (auto simp: is_waiting_def)
  moreover have "cur s' = cur s" using assms(1) by (simp add: keeps_def)
  ultimately show ?thesis using u(1) by (auto simp: cur_runs_def)
qed

lemma keeps_cr3:
  assumes "keeps s s'" and "kinv s" and "cr3_ok s"
  shows "cr3_ok s'"
proof -
  obtain t where t: "live s (cur s) t" using kinvD(5) [OF assms(2)] by blast
  from keeps_live [OF assms(1) this] obtain u where u: "live s' (cur s) u" "kept t u" by blast
  have "pde u = pde t" "cur s' = cur s" "kmem s' = kmem s" using u(2) assms(1) by (simp_all add: kept_def keeps_def)
  with t u(1) assms(3) show ?thesis by (simp add: cr3_ok_def live_def)
qed

lemma sys_kill_keeps:
  assumes "kinv s"
  shows "\<exists>r s'. sys_kill want sig s = Some (r, s') \<and> kinv s' \<and> keeps s s' \<and> timer_list s' = timer_list s \<and>
    (\<forall>q t. task_at s q = Some t \<longrightarrow> (\<exists>u. task_at s' q = Some u \<and> alarm u = alarm t \<and> (state t = TASK_DIED \<longrightarrow> state u = TASK_DIED)))"
proof (cases "\<exists>p t. live s p t \<and> pid t = want \<and> kill_ok sig t")
  case True
  then obtain p t where t: "live s p t" "pid t = want" "kill_ok sig t" by blast
  note e = sys_kill_eq [OF assms t(1,3), unfolded t(2)] and k = kinv_signalled [OF assms t(1), of sig]
  have "keeps s (put_task p (signalled sig t)
      (s\<lparr>wlists := unlink p (if state t = TASK_WAITING \<or> state t = TASK_SLEEPING then node t else None) (wlists s)\<rparr>))"
    using t(1) by (intro keeps_put [OF _ kept_signalled]) (simp add: live_def)
  moreover have "alarm (signalled sig t) = alarm t" "state t = TASK_DIED \<longrightarrow> state (signalled sig t) = TASK_DIED"
    by (simp_all add: signalled_def Let_def)
  ultimately show ?thesis using e k t(1) by (auto simp: live_def put_task_def)
next
  case False
  with sys_kill_refused [OF assms] assms keeps_refl show ?thesis by blast
qed

lemma run_handler_ok:
  assumes "kinv s" and "tm \<in> set (timer_list s)"
  shows "\<exists>s'. run_handler tm s = Some s' \<and> kinv s' \<and> keeps s s' \<and> timer_list s' = timer_list s \<and>
    (thandler tm = No_handler \<longrightarrow> (\<exists>t. task_at s' (ttask tm) = Some t \<and> \<not> is_waiting (state t))) \<and>
    (\<forall>p t. live s' p t \<longrightarrow> state t \<noteq> TASK_DIED \<longrightarrow> alarm t \<noteq> Some (tid tm))"
proof -
  note D = kinvD [OF assms(1)]
  obtain t where t: "live s (ttask tm) t" "state t \<noteq> TASK_DIED" using D(10) [OF assms(2)] by blast
  have t': "task_at s (ttask tm) = Some t" using t(1) by (simp add: live_def)
  have uniq: "tm' = tm" if "tm' \<in> set (timer_list s)" "tid tm' = tid tm" for tm'
    using D(9) assms(2) that by (meson distinct_map inj_on_eq_iff)
  have other: "p = ttask tm \<and> thandler tm = Task_alarm" if "live s p u" "state u \<noteq> TASK_DIED" "alarm u = Some (tid tm)" for p u
    using D(4) [OF that(1)] that(2,3) uniq by (auto simp: task_ok_def)
  show ?thesis
  proof (cases "thandler tm")
    case No_handler
    let ?t = "t\<lparr>node := None, status := - ETIME, state := TASK_READY\<rparr>"
    let ?s = "put_task (ttask tm) ?t (s\<lparr>wlists := unlink (ttask tm) (node t) (wlists s)\<rparr>)"
    have "run_handler tm s = Some ?s"
      using D(1) t' No_handler by (simp add: run_handler_def default_timeout_def task_unblock_eq)
    moreover have "kinv ?s" by (rule kinv_unblock [OF assms(1) t])
    moreover have "keeps s ?s" by (rule keeps_put [OF t']) (simp add: kept_def is_waiting_def)
    moreover have "alarm u \<noteq> Some (tid tm)" if l: "live ?s p u" "state u \<noteq> TASK_DIED" for p u
    proof -
      have "\<exists>v. live s p v \<and> state v \<noteq> TASK_DIED \<and> alarm v = alarm u"
        using l t' t(2) by (cases "p = ttask tm") (auto simp: live_def)
      then show ?thesis using other No_handler by fastforce
    qed
    moreover have "timer_list ?s = timer_list s" "\<exists>t. task_at ?s (ttask tm) = Some t \<and> \<not> is_waiting (state t)"
      by (simp_all add: is_waiting_def)
    ultimately show ?thesis by blast
  next
    case Task_alarm
    let ?s = "put_task (ttask tm) (t\<lparr>alarm := None\<rparr>) s"
    have ok: "task_ok s (ttask tm) (t\<lparr>alarm := None\<rparr>)" using D(4) [OF t(1)] by (simp add: task_ok_def)
    have k: "kinv ?s"
      unfolding put_task_def
      using D(6) t by (intro kinv_same_lists [OF assms(1) t(1) _ _ ok]) (auto dest: live_fun)
    from sys_kill_keeps [OF k, of "pid t" SIGALRM] obtain r s' where s':
      "sys_kill (pid t) SIGALRM ?s = Some (r, s')" "kinv s'" "keeps ?s s'" "timer_list s' = timer_list ?s"
      "\<forall>q t. task_at ?s q = Some t \<longrightarrow> (\<exists>u. task_at s' q = Some u \<and> alarm u = alarm t \<and> (state t = TASK_DIED \<longrightarrow> state u = TASK_DIED))" by blast
    have "run_handler tm s = Some s'"
      using t' Task_alarm s'(1) by (simp add: run_handler_def task_alarm_def modify_put)
    moreover have "keeps s ?s"
      using keeps_put [OF t', of "t\<lparr>alarm := None\<rparr>" "wlists s"] by (simp add: kept_def)
    then have "keeps s s'" using s'(3) keeps_trans by blast
    moreover have "alarm u \<noteq> Some (tid tm)" if l: "live s' p u" and nd: "state u \<noteq> TASK_DIED" for p u
    proof (cases "p = ttask tm")
      case True
      have "task_at ?s (ttask tm) = Some (t\<lparr>alarm := None\<rparr>)" by simp
      with s'(5) obtain u' where "task_at s' (ttask tm) = Some u'" "alarm u' = None" by fastforce
      with l True show ?thesis by (simp add: live_def)
    next
      case False
      have "\<exists>v. live s p v \<and> state v \<noteq> TASK_DIED \<and> alarm v = alarm u"
      proof -
        have "task_at s p \<noteq> None" using \<open>keeps s s'\<close> l by (auto simp: keeps_def live_def)
        then obtain v where v: "task_at s p = Some v" by blast
        then have "task_at ?s p = Some v" using False by simp
        with s'(5) obtain u' where "task_at s' p = Some u'" "alarm u' = alarm v" "state v = TASK_DIED \<longrightarrow> state u' = TASK_DIED" by blast
        with l nd have "alarm v = alarm u" "state v \<noteq> TASK_DIED" by (auto simp: live_def)
        moreover have "p \<in> set (task_table s)" "p \<noteq> NULL" using l \<open>keeps s s'\<close> by (simp_all add: keeps_def live_def)
        ultimately show ?thesis using v by (auto simp: live_def)
      qed
      then show ?thesis using other False by metis
    qed
    moreover have "timer_list s' = timer_list s" "thandler tm \<noteq> No_handler" using s'(4) Task_alarm by simp_all
    ultimately show ?thesis using s'(2) by blast
  qed
qed

text \<open>What a timer does to its task: a time-out ends its wait, an alarm sends it \<open>SIGALRM\<close>.\<close>

definition fired :: "timer_t \<Rightarrow> task_t \<Rightarrow> task_t" where
  "fired tm t = (case thandler tm of
       No_handler \<Rightarrow> t\<lparr>node := None, status := - ETIME, state := TASK_READY\<rparr>
     | Task_alarm \<Rightarrow> if kill_ok SIGALRM t then signalled SIGALRM (t\<lparr>alarm := None\<rparr>) else t\<lparr>alarm := None\<rparr>)"

lemma run_handler_fired:
  assumes "kinv s" and "live s (ttask tm) t" and "state t \<noteq> TASK_DIED" and "run_handler tm s = Some s'"
  shows "task_at s' = (task_at s)(ttask tm := Some (fired tm t))"
proof -
  note D = kinvD [OF assms(1)]
  have t': "task_at s (ttask tm) = Some t" using assms(2) by (simp add: live_def)
  show ?thesis
  proof (cases "thandler tm")
    case No_handler
    then show ?thesis using assms(4) D(1) t' by (auto simp: run_handler_def default_timeout_def task_unblock_eq fired_def put_task_def)
  next
    case Task_alarm
    let ?t = "t\<lparr>alarm := None\<rparr>" let ?s = "put_task (ttask tm) ?t s"
    have ok: "task_ok s (ttask tm) ?t" using D(4) [OF assms(2)] by (simp add: task_ok_def)
    have k: "kinv ?s"
      unfolding put_task_def
      using D(6) assms(2,3) by (intro kinv_same_lists [OF assms(1,2) _ _ ok]) (auto dest: live_fun)
    have l: "live ?s (ttask tm) ?t" using assms(2) by (simp add: live_def)
    have run: "run_handler tm s = do { (r, s) \<leftarrow> sys_kill (pid t) SIGALRM ?s; Some s }"
      using t' Task_alarm by (simp add: run_handler_def task_alarm_def modify_put)
    show ?thesis
    proof (cases "kill_ok SIGALRM t")
      case True
      then have "kill_ok SIGALRM ?t" by (simp add: kill_ok_def)
      from sys_kill_eq [OF k l this] run assms(4) True Task_alarm show ?thesis by (auto simp: fired_def put_task_def)
    next
      case False
      have "\<not> kill_ok SIGALRM u" if u: "live ?s q u" "pid u = pid t" for q u
      proof -
        have "q = ttask tm" using pid_inj [OF k u(1) l] u(2) by simp
        with u(1) have "u = ?t" by (simp add: live_def)
        with False show ?thesis by (simp add: kill_ok_def)
      qed
      then have "sys_kill (pid t) SIGALRM ?s = Some (EOF, ?s)" by (rule sys_kill_refused [OF k])
      with run assms(4) False Task_alarm show ?thesis by (auto simp: fired_def put_task_def)
    qed
  qed
qed

text \<open>\<open>timer_wakeup\<close> runs and removes the timers up to the first one that has not expired.\<close>

lemma timer_wakeup_ok:
  assumes "kinv s" and "jiffies s < 4294967295"
  shows "\<exists>s'. timer_wakeup s = Some s' \<and> kinv s' \<and> keeps s s' \<and>
    timer_list s' = dropWhile (\<lambda>tm. expires tm \<le> jiffies s) (timer_list s) \<and>
    (\<forall>tm\<in>set (takeWhile (\<lambda>tm. expires tm \<le> jiffies s) (timer_list s)). thandler tm = No_handler \<longrightarrow>
      (\<exists>t. task_at s' (ttask tm) = Some t \<and> \<not> is_waiting (state t))) \<and>
    (\<forall>q t. task_at s q = Some t \<longrightarrow>
      task_at s' q = Some (fold fired (filter (\<lambda>tm. ttask tm = q) (takeWhile (\<lambda>tm. expires tm \<le> jiffies s) (timer_list s))) t))"
  using assms
proof (induction "timer_list s" arbitrary: s)
  case Nil
  then show ?case by (simp add: timer_wakeup.simps [of s] timer_expires_def keeps_refl flip: Nil.hyps)
next
  case (Cons tm tms)
  show ?case
  proof (cases "expires tm \<le> jiffies s")
    case False
    with Cons.prems show ?thesis
      by (simp add: timer_wakeup.simps [of s] timer_expires_def keeps_refl flip: Cons.hyps(2))
  next
    case True
    have "tm \<in> set (timer_list s)" by (simp flip: Cons.hyps(2))
    from run_handler_ok [OF Cons.prems(1) this] obtain s1 where s1: "run_handler tm s = Some s1" "kinv s1"
      "keeps s s1" "timer_list s1 = tm # tms"
      "thandler tm = No_handler \<Longrightarrow> \<exists>t. task_at s1 (ttask tm) = Some t \<and> \<not> is_waiting (state t)" "\<And>p t. live s1 p t \<Longrightarrow> state t \<noteq> TASK_DIED \<Longrightarrow> alarm t \<noteq> Some (tid tm)"
      using Cons.hyps(2) by auto
    obtain t0 where t0: "live s (ttask tm) t0" "state t0 \<noteq> TASK_DIED" using kinvD(10) [OF Cons.prems(1) \<open>tm \<in> set (timer_list s)\<close>] by blast
    note at1 = run_handler_fired [OF Cons.prems(1) t0 s1(1)]
    note D = kinvD [OF s1(2)]
    have dist: "tid tm \<notin> tid ` set tms" "distinct (map tid tms)" using D(9) s1(4) by auto
    then have "\<forall>t\<in>set tms. tid t \<noteq> tid tm" by (metis image_eqI)
    then have "filter (\<lambda>t. tid t \<noteq> tid tm) (tm # tms) = tms" by (simp add: filter_id_conv)
    then have p: "timer_put (tid tm) s1 = Some (s1\<lparr>timer_list := tms\<rparr>)" by (simp add: timer_put_def s1(4))
    have al: "\<exists>t\<in>set tms. i = tid t \<and> ttask t = p \<and> thandler t = Task_alarm"
      if l: "live s1 p u" "state u \<noteq> TASK_DIED" "alarm u = Some i" for p u i
    proof -
      have "i \<noteq> tid tm" using s1(6) [OF l(1,2)] l(3) by simp
      moreover have "\<exists>t\<in>set (tm # tms). i = tid t \<and> ttask t = p \<and> thandler t = Task_alarm"
        using D(4) [OF l(1)] l(2,3) by (auto simp: task_ok_def s1(4))
      ultimately show ?thesis by auto
    qed
    have "kinv (s1\<lparr>timer_list := tms, next_timer := next_timer s1\<rparr>)"
      using D(10) by (intro kinv_timers [OF s1(2) dist(2) _ al]) (simp_all add: s1(4))
    then have k: "kinv (s1\<lparr>timer_list := tms\<rparr>)" by simp
    have j: "jiffies s1 = jiffies s" using s1(3) by (simp add: keeps_def)
    have kp: "keeps s (s1\<lparr>timer_list := tms\<rparr>)" using s1(3) by (simp add: keeps_def)
    from Cons.hyps(1) [of "s1\<lparr>timer_list := tms\<rparr>"] k Cons.prems(2) j obtain s' where s':
      "timer_wakeup (s1\<lparr>timer_list := tms\<rparr>) = Some s'" "kinv s'" "keeps (s1\<lparr>timer_list := tms\<rparr>) s'"
      "timer_list s' = dropWhile (\<lambda>tm. expires tm \<le> jiffies s) tms"
      "\<forall>tm\<in>set (takeWhile (\<lambda>tm. expires tm \<le> jiffies s) tms). thandler tm = No_handler \<longrightarrow>
        (\<exists>t. task_at s' (ttask tm) = Some t \<and> \<not> is_waiting (state t))"
      "\<forall>q t. task_at s1 q = Some t \<longrightarrow>
        task_at s' q = Some (fold fired (filter (\<lambda>tm. ttask tm = q) (takeWhile (\<lambda>tm. expires tm \<le> jiffies s) tms)) t)" by auto
    have all: "task_at s' q = Some (fold fired (filter (\<lambda>tm. ttask tm = q) (tm # takeWhile (\<lambda>tm. expires tm \<le> jiffies s) tms)) t)"
      if "task_at s q = Some t" for q t
    proof (cases "ttask tm = q")
      case True
      then have "t0 = t" using that t0(1) by (simp add: live_def)
      then have "task_at s1 q = Some (fired tm t)" using True at1 by simp
      with s'(6) True show ?thesis by simp
    next
      case False
      then have "task_at s1 q = Some t" using that at1 by simp
      with s'(6) False show ?thesis by simp
    qed
    have woken: "\<exists>t. task_at s' (ttask tm) = Some t \<and> \<not> is_waiting (state t)" if h: "thandler tm = No_handler"
    proof -
      obtain t where t: "task_at s1 (ttask tm) = Some t" "\<not> is_waiting (state t)" using s1(5) [OF h] by blast
      then have "task_at (s1\<lparr>timer_list := tms\<rparr>) (ttask tm) = Some t" by simp
      from keeps_at [OF s'(3) this] t(2) show ?thesis by (auto simp: kept_def)
    qed
    have "timer_wakeup s = Some s'"
      using True s1(1) p s'(1) by (subst timer_wakeup.simps) (simp add: timer_expires_def flip: Cons.hyps(2))
    with s'(2,4,5) keeps_trans [OF kp s'(3)] True woken all show ?thesis by (simp flip: Cons.hyps(2))
  qed
qed

lemma alarm_timer:
  "kinv s \<Longrightarrow> live s p t \<Longrightarrow> state t \<noteq> TASK_DIED \<Longrightarrow> alarm t = Some i \<Longrightarrow>
   \<exists>tm\<in>set (timer_list s). i = tid tm \<and> ttask tm = p \<and> thandler tm = Task_alarm"
  using kinvD(4) [of s p t] by (simp add: task_ok_def)

lemma sys_alarm_ok:
  assumes "kinv s" and "live s (cur s) t" and "state t \<noteq> TASK_DIED"
  shows "\<exists>s'. sys_alarm sec s = Some s' \<and> kinv s' \<and> cur s' = cur s \<and> kmem s' = kmem s \<and>
    (\<exists>tm\<in>set (timer_list s'). ttask tm = cur s \<and> thandler tm = Task_alarm \<and>
      expires tm = w32 (jiffies s + nat (sec * 1000 mod 4294967296) div jiffy) \<and>
      task_at s' (cur s) = Some (t\<lparr>alarm := Some (tid tm)\<rparr>)) \<and>
    (\<forall>q. q \<noteq> cur s \<longrightarrow> task_at s' q = task_at s q)"
proof -
  note D = kinvD [OF assms(1)]
  have t: "task_at s (cur s) = Some t" using assms(2) by (simp add: live_def)
  define T where "T = (case alarm t of None \<Rightarrow> timer_list s | Some i \<Rightarrow> filter (\<lambda>tm. tid tm \<noteq> i) (timer_list s))"
  define s1 where "s1 = put_task (cur s) (t\<lparr>alarm := None\<rparr>) s"
  have k1: "kinv s1"
    unfolding s1_def put_task_def
    using D(4) [OF assms(2)] D(6) assms(2,3) by (intro kinv_same_lists [OF assms(1,2)]) (auto simp: task_ok_def dest: live_fun)
  have al: "\<exists>tm\<in>set T. i = tid tm \<and> ttask tm = p \<and> thandler tm = Task_alarm"
    if l: "live s1 p u" "state u \<noteq> TASK_DIED" "alarm u = Some i" for p u i
  proof -
    have p: "p \<noteq> cur s" using l by (auto simp: s1_def)
    then have "live s p u" using l by (simp add: s1_def live_def)
    from alarm_timer [OF assms(1) this l(2,3)] obtain tm where tm: "tm \<in> set (timer_list s)" "i = tid tm"
      "ttask tm = p" "thandler tm = Task_alarm" by blast
    have "tm \<in> set T"
    proof (cases "alarm t")
      case (Some j)
      from alarm_timer [OF assms this] obtain tm' where "tm' \<in> set (timer_list s)" "j = tid tm'" "ttask tm' = cur s"
        by blast
      then have "tid tm \<noteq> j" using D(9) tm(1,3) p by (metis distinct_map inj_on_eq_iff)
      with tm(1) Some show ?thesis by (simp add: T_def)
    qed (use tm(1) in \<open>simp add: T_def\<close>)
    with tm show ?thesis by blast
  qed
  have sub: "set T \<subseteq> set (timer_list s)" "distinct (map tid T)"
    using D(9) by (auto simp: T_def distinct_map inj_on_def split: option.splits)
  have tl1: "timer_list s1 = timer_list s" by (simp add: s1_def)
  have live_tm: "tid tm < next_timer s1 \<and> (\<exists>t. live s1 (ttask tm) t \<and> state t \<noteq> TASK_DIED)"
    if tm: "tm \<in> set T" for tm
    by (rule kinvD(10) [OF k1]) (simp only: tl1 subsetD [OF sub(1) tm])
  define s2 where "s2 = s1\<lparr>timer_list := T, next_timer := next_timer s1\<rparr>"
  have k2: "kinv s2"
    unfolding s2_def
  proof (rule kinv_timers [OF k1 sub(2)])
    show "tid tm < next_timer s1 \<and> (\<exists>t. live s1 (ttask tm) t \<and> state t \<noteq> TASK_DIED)" if "tm \<in> set T" for tm
      by (rule live_tm [OF that])
    show "\<exists>tm\<in>set T. i = tid tm \<and> ttask tm = p \<and> thandler tm = Task_alarm"
      if "live s1 p u" "state u \<noteq> TASK_DIED" "alarm u = Some i" for p u i by (rule al [OF that])
  qed
  have c2: "cur s2 = cur s" by (simp add: s2_def s1_def)
  have l2: "live s2 (cur s2) (t\<lparr>alarm := None\<rparr>)" using assms(2) by (simp add: s2_def s1_def live_def)
  let ?tm = "\<lparr>tid = next_timer s, ttask = cur s, expires = w32 (jiffies s + nat (sec * 1000 mod 4294967296) div jiffy),
    thandler = Task_alarm\<rparr>"
  define s3 where "s3 = snd (timer_add (nat (sec * 1000 mod 4294967296)) Task_alarm s2)"
  have k3: "kinv s3" unfolding s3_def by (rule timer_add_ok [OF k2 l2]) (simp add: assms(3))
  have tl3: "timer_list s3 = timer_insert ?tm T" "cur s3 = cur s" "kmem s3 = kmem s" "task_at s3 = task_at s2"
    "task_table s3 = task_table s" "idle_task s3 = idle_task s"
    by (simp_all add: s3_def timer_add_def Let_def s2_def s1_def)
  let ?t = "t\<lparr>alarm := Some (next_timer s)\<rparr>"
  have l3: "live s3 (cur s) (t\<lparr>alarm := None\<rparr>)" using l2 c2 by (simp add: live_def tl3) (simp add: s2_def s1_def)
  have k4: "kinv (put_task (cur s) ?t s3)"
    unfolding put_task_def
    using kinvD(4) [OF k3 l3] D(6) assms(2,3)
    by (intro kinv_same_lists [OF k3 l3]) (auto simp: task_ok_def tl3 dest: live_fun)
  have "sys_alarm sec s = Some (put_task (cur s) ?t s3)"
  proof (cases "alarm t")
    case None
    then show ?thesis using t
      by (simp add: sys_alarm_def timer_add_def Let_def modify_put put_task_def s3_def s2_def s1_def T_def)
  next
    case (Some i)
    then have "i \<in> tid ` set (timer_list s)" using D(4) [OF assms(2)] assms(3) by (auto simp: task_ok_def)
    with Some show ?thesis using t
      by (simp add: sys_alarm_def timer_put_def timer_add_def Let_def modify_put put_task_def s3_def s2_def s1_def T_def)
  qed
  moreover have "task_at (put_task (cur s) ?t s3) q = task_at s q" if "q \<noteq> cur s" for q
    using that by (simp add: tl3 s2_def s1_def)
  moreover have "?tm \<in> set (timer_list (put_task (cur s) ?t s3))" by (simp add: tl3)
  moreover have "cur (put_task (cur s) ?t s3) = cur s" "kmem (put_task (cur s) ?t s3) = kmem s" by (simp_all add: tl3)
  moreover have "task_at (put_task (cur s) ?t s3) (cur s) = Some (t\<lparr>alarm := Some (tid ?tm)\<rparr>)" by simp
  ultimately show ?thesis using k4
    by (intro exI [of _ "put_task (cur s) ?t s3"] conjI bexI [of _ ?tm] allI impI) simp_all
qed

text \<open>One tick of the clock: the expired timers fire, and the slice of the current task runs down.\<close>

lemma clock_handler_ok:
  assumes "kinv s" and "jiffies s < 4294967294" and "cr3_ok s"
  shows "\<exists>s' s1 c. clock_handler s = Some s' \<and> kinv s' \<and> cr3_ok s' \<and> jiffies s' = jiffies s + 1 \<and>
    timer_list s' = dropWhile (\<lambda>tm. expires tm \<le> jiffies s + 1) (timer_list s) \<and>
    timer_wakeup (s\<lparr>jiffies := jiffies s + 1\<rparr>) = Some s1 \<and> live s1 (cur s) c \<and>
    (if ticks c = 1 then ready s1 (cur s') \<or> (\<forall>q. \<not> ready s1 q) \<and> cur s' = idle_task s
     else cur s' = cur s \<and> task_at s' (cur s) = Some (c\<lparr>tjiffies := jiffies s + 1, ticks := ticks c - 1\<rparr>)) \<and>
    (cur_runs s \<longrightarrow> cur_runs s')"
proof -
  let ?s = "s\<lparr>jiffies := jiffies s + 1\<rparr>"
  have "task_ok ?s = task_ok s" by (rule ext)+ (simp add: task_ok_def)
  then have k0: "kinv ?s" using assms(1) by (simp add: kinv_def)
  from timer_wakeup_ok [OF k0] assms(2) obtain s1 where s1: "timer_wakeup ?s = Some s1" "kinv s1" "keeps ?s s1"
    "timer_list s1 = dropWhile (\<lambda>tm. expires tm \<le> jiffies s + 1) (timer_list s)" by auto
  note D = kinvD [OF s1(2)]
  have f: "cur s1 = cur s" "jiffies s1 = jiffies s + 1" "idle_task s1 = idle_task s" "kmem s1 = kmem s"
    using s1(3) by (simp_all add: keeps_def)
  obtain c where c: "live s1 (cur s1) c" using D(5) by blast
  note ok = D(4) [OF c]
  have c': "task_at s1 (cur s1) = Some c" using c by (simp add: live_def)
  have cr1: "cr3_ok s1"
  proof -
    obtain c0 where c0: "live s (cur s) c0" using kinvD(5) [OF assms(1)] by blast
    then have "task_at ?s (cur s) = Some c0" by (simp add: live_def)
    from keeps_at [OF s1(3) this] c' have "pde c = pde c0" by (simp add: f kept_def)
    with assms(3) c0 c show ?thesis by (simp add: cr3_ok_def f live_def)
  qed
  have runs1: "cur_runs s1" if "cur_runs s" using keeps_runs [OF s1(3,2)] that by (simp add: cur_runs_def)
  let ?c = "c\<lparr>tjiffies := jiffies s + 1, ticks := ticks c - 1\<rparr>"
  let ?s2 = "put_task (cur s1) ?c s1"
  have t: "s32 (ticks c - 1) = ticks c - 1" using ok by (simp add: task_ok_def)
  have ch: "clock_handler s = (if ticks c = 1 then schedule ?s2 else Some ?s2)"
    using assms(2) s1(1) c' ok t by (simp add: clock_handler_def modify_put f task_ok_def)
  have l2: "live ?s2 (cur ?s2) ?c" using c by (simp add: live_def)
  have kr: "kinv (put_task (cur s1) (rested ?c) s1)"
    unfolding put_task_def
  proof (intro kinv_same_lists [OF s1(2) c])
    show "state (rested ?c) = TASK_DIED \<Longrightarrow> \<forall>tm\<in>set (timer_list s1). ttask tm \<noteq> cur s1"
      using died_timer [OF s1(2) c] by (simp split: if_splits)
  qed (use ok D(6) c in \<open>auto simp: task_ok_def is_waiting_def dest: live_fun\<close>)
  have cr2: "cr3_ok ?s2" using cr1 c by (auto simp: cr3_ok_def live_def)
  show ?thesis
  proof (cases "ticks c = 1")
    case True
    from schedule_ok [OF l2 _ cr2] kr obtain s' where s': "schedule ?s2 = Some s'" "kinv s'" "cr3_ok s'"
      "same_but_sched ?s2 s'" "ready ?s2 (cur s') \<or> (\<forall>q. \<not> ready ?s2 q) \<and> cur s' = idle_task ?s2" "cur_runs s'"
      by (auto simp: cur_runs_def)
    have r: "ready ?s2 q \<longleftrightarrow> ready s1 q" for q using c by (auto simp: ready_def live_def)
    have "jiffies s' = jiffies s + 1" "timer_list s' = timer_list s1" using s'(4) by (simp_all add: same_but_sched_def f)
    with s' s1(1,4) c True show ?thesis unfolding ch r by (auto simp: f)
  next
    case False
    have "kinv ?s2"
      unfolding put_task_def
    proof (intro kinv_same_lists [OF s1(2) c])
      show "state ?c = TASK_DIED \<Longrightarrow> \<forall>tm\<in>set (timer_list s1). ttask tm \<noteq> cur s1"
        using died_timer [OF s1(2) c] by simp
    qed (use ok D(6) c False in \<open>auto simp: task_ok_def dest: live_fun\<close>)
    moreover have "cur_runs ?s2" if "cur_runs s" using runs1 [OF that] c by (auto simp: cur_runs_def live_def)
    ultimately show ?thesis using cr2 s1(1,4) c False unfolding ch by (auto simp: f)
  qed
qed

section \<open>The system\<close>

text \<open>What happens between two points at which the kernel lets go: the running task yields, blocks
  (not the idle task), kills, sets an alarm; a device wakes a task; the clock ticks.\<close>

inductive kstep :: "kstate \<Rightarrow> kstate option \<Rightarrow> bool" where
  yield: "kstep s (task_yield s)"
| block: "cur s \<noteq> idle_task s \<Longrightarrow> is_waiting st \<Longrightarrow> kstep s (task_block (cur s) l st timeout s)"
| unblock: "live s p t \<Longrightarrow> state t \<noteq> TASK_DIED \<Longrightarrow> kstep s (task_unblock p reason s)"
| kill: "kstep s (map_option snd (sys_kill want sig s))"
| alarm: "kstep s (sys_alarm sec s)"
| tick: "jiffies s < 4294967294 \<Longrightarrow> kstep s (clock_handler s)"

inductive kreach :: "kstate \<Rightarrow> kstate \<Rightarrow> bool" for s0 where
  start: "kreach s0 s0"
| step: "kreach s0 s \<Longrightarrow> kstep s (Some s') \<Longrightarrow> kreach s0 s'"

inductive_cases kstepE: "kstep s r"

definition kstate_ok :: "kstate \<Rightarrow> bool" where
  "kstate_ok s \<longleftrightarrow> kinv s \<and> cr3_ok s \<and> cur_runs s"

lemma cur_runsE:
  assumes "cur_runs s"
  obtains t where "live s (cur s) t" "\<not> is_waiting (state t)" "state t \<noteq> TASK_DIED"
    "state t = TASK_RUNNING \<or> state t = TASK_READY"
  using assms by (auto simp: cur_runs_def is_waiting_def)

lemma schedule_kinv:
  assumes "kinv s" and "live s (cur s) c" and "\<not> is_waiting (state c)" and "state c \<noteq> TASK_DIED"
  shows "kinv (put_task (cur s) (rested c) s)"
proof -
  note D = kinvD [OF assms(1)]
  show ?thesis
    unfolding put_task_def
    using D(4) [OF assms(2)] D(6) assms(3,4)
    by (intro kinv_same_lists [OF assms(1,2)]) (auto simp: task_ok_def is_waiting_def dest: live_fun split: if_splits)
qed

lemma kstep_ok:
  assumes "kstep s r" and "kstate_ok s"
  shows "\<exists>s'. r = Some s' \<and> kstate_ok s'"
proof -
  have k: "kinv s" "cr3_ok s" "cur_runs s" using assms(2) by (simp_all add: kstate_ok_def)
  obtain c where c: "live s (cur s) c" "\<not> is_waiting (state c)" "state c \<noteq> TASK_DIED"
    "state c = TASK_RUNNING \<or> state c = TASK_READY" using cur_runsE [OF k(3)] by blast
  from assms(1) show ?thesis
  proof cases
    case yield
    from schedule_ok [OF c(1) schedule_kinv [OF k(1) c(1-3)] k(2)] show ?thesis
      by (auto simp: yield task_yield_def kstate_ok_def cur_runs_def)
  next
    case (block st l timeout)
    from task_block_ok [OF k(1) c(1-3) block(2,3) k(2), of l timeout] show ?thesis
      by (auto simp: block(1) kstate_ok_def cur_runs_def)
  next
    case (unblock p t reason)
    have t: "task_at s p = Some t" using unblock(2) by (simp add: live_def)
    let ?s = "put_task p (t\<lparr>node := None, status := reason, state := TASK_READY\<rparr>)
      (s\<lparr>wlists := unlink p (node t) (wlists s)\<rparr>)"
    have k': "kinv ?s" by (rule kinv_unblock [OF k(1) unblock(2,3)])
    have "keeps s ?s" by (rule keeps_put [OF t]) (simp add: kept_def is_waiting_def)
    from keeps_runs [OF this k' k(3)] keeps_cr3 [OF this k(1,2)] k' show ?thesis
      using kinvD(1) [OF k(1)] t by (simp add: unblock(1) task_unblock_eq kstate_ok_def)
  next
    case (kill want sig)
    from sys_kill_keeps [OF k(1), of want sig] obtain r' s' where s': "sys_kill want sig s = Some (r', s')" "kinv s'"
      "keeps s s'" by blast
    from keeps_runs [OF s'(3,2) k(3)] keeps_cr3 [OF s'(3) k(1,2)] s'(1,2) show ?thesis
      by (simp add: kill kstate_ok_def)
  next
    case (alarm sec)
    from sys_alarm_ok [OF k(1) c(1,3), of sec] obtain s' i where s': "sys_alarm sec s = Some s'" "kinv s'" "cur s' = cur s"
      "kmem s' = kmem s" "task_at s' (cur s) = Some (c\<lparr>alarm := Some i\<rparr>)" by blast
    obtain u where u: "live s' (cur s') u" using kinvD(5) [OF s'(2)] by blast
    then have "u = c\<lparr>alarm := Some i\<rparr>" using s'(3,5) by (simp add: live_def)
    with u c(1,4) k(2) s' show ?thesis by (auto simp: alarm kstate_ok_def cr3_ok_def cur_runs_def live_def)
  next
    case tick
    from clock_handler_ok [OF k(1) tick(2) k(2)] k(3) show ?thesis by (auto simp: tick(1) kstate_ok_def)
  qed
qed

lemma kreach_ok: "kreach s0 s \<Longrightarrow> kstate_ok s0 \<Longrightarrow> kstate_ok s"
  by (induction rule: kreach.induct) (use kstep_ok in fastforce)+

section \<open>A small system\<close>

text \<open>The idle task, a running task and a task that sleeps until tick 5.\<close>

definition demo_pages :: "tptr list" where "demo_pages = [0x110000, 0x111000, 0x112000]"

definition new_task :: "nat \<Rightarrow> task_state_t \<Rightarrow> nat option \<Rightarrow> nat \<Rightarrow> task_t" where
  "new_task i st n u = \<lparr>uid = u, pde = 0x1000, vmap = bitmap_make [] 0 0, end_addr = 0, brk = 0, node = n, state = st,
     priority = 5, ticks = 5, tjiffies = 0, name = [], gid = 0, pid = int i, ppid = 0, pgid = 0, sid = 0, tty = 0,
     text_addr = 0, data_addr = 0, status = 0, waitpid = 0, pwd = 0, ipwd = 0, iroot = 0, iexec = None, umask = 18,
     files = replicate 16 None, signal = 0, blocked = 0, alarm = None,
     actions = replicate 31 \<lparr>handler = 0, mask = 0, sflags = 0, restorer = 0\<rparr>, magic = NEONIX_MAGIC,
     iframe = \<lparr>r_eax = 0, r_ecx = 0, r_edx = 0, r_eip = 0, r_eflags = 0, r_esp = 0x10000000\<rparr>\<rparr>"

definition demo_k :: kstate where
  "demo_k = \<lparr>kmem = demo_mem, task_table = demo_pages @ replicate 61 NULL,
     task_at = [0x110000 \<mapsto> new_task 0 TASK_READY None 0, 0x111000 \<mapsto> new_task 1 TASK_RUNNING None 1000,
       0x112000 \<mapsto> new_task 2 TASK_SLEEPING (Some 1) 1000],
     cur = 0x111000, idle_task = 0x110000, wlists = (\<lambda>_. [])(1 := [0x112000]),
     timer_list = [\<lparr>tid = 0, ttask = 0x112000, expires = 5, thandler = No_handler\<rparr>], next_timer = 1,
     jiffies = 4, intr = False, esp0 = 0\<rparr>"

lemma demo_live: "live demo_k p t \<longleftrightarrow>
  p = 0x110000 \<and> t = new_task 0 TASK_READY None 0 \<or> p = 0x111000 \<and> t = new_task 1 TASK_RUNNING None 1000 \<or>
  p = 0x112000 \<and> t = new_task 2 TASK_SLEEPING (Some 1) 1000"
  by (auto simp: live_def demo_k_def demo_pages_def)

lemma demo_k_table: "i < TASK_NR \<Longrightarrow> task_table demo_k ! i \<noteq> NULL \<Longrightarrow>
  \<exists>t. task_at demo_k (task_table demo_k ! i) = Some t \<and> pid t = int i"
proof -
  assume i: "i < TASK_NR" "task_table demo_k ! i \<noteq> NULL"
  have "i < 3"
  proof (rule ccontr)
    assume "\<not> i < 3"
    with i show False by (simp add: demo_k_def demo_pages_def nth_append TASK_NR_def)
  qed
  then have "i = 0 \<or> i = 1 \<or> i = 2" by auto
  then show ?thesis by (auto simp: demo_k_def demo_pages_def new_task_def)
qed

lemma demo_ok: "kstate_ok demo_k"
proof -
  have "task_ok demo_k p t" if "live demo_k p t" for p t
    using that by (auto simp: demo_live task_ok_def new_task_def is_waiting_def) (simp_all add: demo_k_def)
  moreover have "p \<in> set (wlists demo_k l) \<longleftrightarrow> (\<exists>t. live demo_k p t \<and> node t = Some l)" for p l
    by (auto simp: demo_live new_task_def) (simp_all add: demo_k_def split: if_splits)
  moreover have "\<exists>t. live demo_k (cur demo_k) t \<and> (state t = TASK_RUNNING \<or> state t = TASK_READY)"
    by (auto simp: demo_live demo_k_def [THEN arg_cong, of cur] new_task_def)
  moreover have "\<exists>t. live demo_k (idle_task demo_k) t \<and> \<not> is_waiting (state t) \<and> state t \<noteq> TASK_DIED"
    by (auto simp: demo_live demo_k_def [THEN arg_cong, of idle_task] new_task_def is_waiting_def)
  moreover have "\<forall>tm\<in>set (timer_list demo_k). tid tm < next_timer demo_k \<and> (\<exists>t. live demo_k (ttask tm) t \<and> state t \<noteq> TASK_DIED)"
    by (auto simp: demo_k_def [THEN arg_cong, of timer_list] demo_k_def [THEN arg_cong, of next_timer] demo_live new_task_def)
  moreover have "cr3_ok demo_k"
    by (auto simp: cr3_ok_def demo_live new_task_def) (simp_all add: demo_k_def demo_mem_def)
  moreover have "\<not> intr demo_k" "length (task_table demo_k) = TASK_NR" "distinct (wlists demo_k l)"
    "distinct (map tid (timer_list demo_k))" for l
    by (simp_all add: demo_k_def demo_pages_def TASK_NR_def)
  ultimately show ?thesis using demo_k_table by (auto simp: kstate_ok_def kinv_def cur_runs_def)
qed

end
