(* ===== verification/Sched.thy ===== *)
theory Sched
  imports Task
begin

text \<open>
  The properties of the scheduler, of blocking, of the timers and of the clock, over the model of
  \<open>Task\<close>.
\<close>

section \<open>Scheduling\<close>

text \<open>C5. The scheduler's invariant holds at all times: only the current task is running, and it can
  run, with its own page directory loaded; a task waits exactly if it is linked in one list, and a
  list holds exactly the tasks that are linked in it, once each; every task has a time slice left;
  and no assertion of any operation fails, nor does a null pointer get followed.\<close>

theorem scheduler_invariant:
  assumes "kstate_ok s0" and "kreach s0 s"
  shows "(\<forall>p t. live s p t \<longrightarrow> (state t = TASK_RUNNING \<longrightarrow> p = cur s) \<and>
      (node t = None \<longleftrightarrow> \<not> is_waiting (state t)) \<and> 0 < ticks t) \<and>
    (\<forall>l. distinct (wlists s l) \<and> (\<forall>p. p \<in> set (wlists s l) \<longleftrightarrow> (\<exists>t. live s p t \<and> node t = Some l))) \<and>
    (\<exists>t. live s (cur s) t \<and> (state t = TASK_RUNNING \<or> state t = TASK_READY) \<and> cr3 (kmem s) = pde t) \<and>
    (\<forall>r. kstep s r \<longrightarrow> r \<noteq> None)"
proof -
  have ok: "kstate_ok s" by (rule kreach_ok [OF assms(2,1)])
  then have k: "kinv s" "cr3_ok s" "cur_runs s" by (simp_all add: kstate_ok_def)
  have "r \<noteq> None" if "kstep s r" for r using kstep_ok [OF that ok] by blast
  moreover have "\<exists>t. live s (cur s) t \<and> (state t = TASK_RUNNING \<or> state t = TASK_READY) \<and> cr3 (kmem s) = pde t"
    using k(2,3) unfolding cr3_ok_def cur_runs_def by blast
  moreover have "(state t = TASK_RUNNING \<longrightarrow> p = cur s) \<and> (node t = None \<longleftrightarrow> \<not> is_waiting (state t)) \<and> 0 < ticks t"
    if "live s p t" for p t
    using kinvD(4) [OF k(1) that] by (simp add: task_ok_def)
  ultimately show ?thesis using kinvD(7,8) [OF k(1)] by blast
qed

lemma scheduler_invariant_witness:
  "\<exists>s. kreach demo_k s \<and> s \<noteq> demo_k \<and> (\<exists>t. live s (cur s) t \<and> cr3 (kmem s) = pde t)"
proof -
  have "kstep demo_k (clock_handler demo_k)" by (rule kstep.tick) (simp add: demo_k_def)
  moreover from kstep_ok [OF this demo_ok] obtain s where s: "clock_handler demo_k = Some s" by blast
  ultimately have r: "kreach demo_k s" using kreach.step [OF kreach.start] by metis
  have "jiffies s \<noteq> jiffies demo_k"
    using clock_handler_ok [of demo_k] demo_ok s by (auto simp: kstate_ok_def demo_k_def)
  then have "s \<noteq> demo_k" by auto
  with scheduler_invariant [OF demo_ok r] r show ?thesis by blast
qed

text \<open>C11. The scheduler picks a ready task: another one if there is any, and otherwise the idle task,
  which is always able to run; it marks it running and loads its directory, gives the task that has
  used up its slice a new one, and touches no other task.\<close>

theorem schedule_picks_ready:
  assumes "kstate_ok s"
  shows "\<exists>s' t. schedule s = Some s' \<and> (ready s (cur s') \<or> (\<forall>q. \<not> ready s q) \<and> cur s' = idle_task s) \<and>
    live s' (cur s') t \<and> state t = TASK_RUNNING \<and> cr3 (kmem s') = pde t \<and> kstate_ok s' \<and>
    (\<forall>q. q \<noteq> cur s \<longrightarrow> q \<noteq> cur s' \<longrightarrow> task_at s' q = task_at s q)"
proof -
  have k: "kinv s" "cr3_ok s" "cur_runs s" using assms by (simp_all add: kstate_ok_def)
  obtain c where c: "live s (cur s) c" "\<not> is_waiting (state c)" "state c \<noteq> TASK_DIED"
    using cur_runsE [OF k(3)] by blast
  from schedule_ok [OF c(1) schedule_kinv [OF k(1) c] k(2)] show ?thesis
    by (fastforce simp: kstate_ok_def cur_runs_def cr3_ok_def)
qed

lemma schedule_picks_ready_witness:
  "\<exists>s'. schedule demo_k = Some s' \<and> cur s' = 0x110000"
proof -
  from schedule_picks_ready [OF demo_ok] obtain s' where "schedule demo_k = Some s'"
    "ready demo_k (cur s') \<or> (\<forall>q. \<not> ready demo_k q) \<and> cur s' = idle_task demo_k" by blast
  then show ?thesis by (auto simp: ready_def demo_live new_task_def demo_k_def [THEN arg_cong, of idle_task])
qed

section \<open>Timers\<close>

lemma timer_insert_sorted: "sorted (map timer_key ts) \<Longrightarrow> sorted (map timer_key (timer_insert t ts))"
proof (induction ts)
  case (Cons u us)
  then show ?case by (cases "timer_key u > timer_key t") auto
qed simp

lemma drop_expired:
  assumes "sorted (map timer_key ts)" and "\<forall>tm\<in>set ts. expires tm < 2147483648"
  shows "dropWhile (\<lambda>tm. expires tm \<le> j) ts = filter (\<lambda>tm. \<not> expires tm \<le> j) ts"
    and "set (takeWhile (\<lambda>tm. expires tm \<le> j) ts) = {tm \<in> set ts. expires tm \<le> j}"
proof -
  have "dropWhile (\<lambda>tm. expires tm \<le> j) ts = filter (\<lambda>tm. \<not> expires tm \<le> j) ts \<and>
    set (takeWhile (\<lambda>tm. expires tm \<le> j) ts) = {tm \<in> set ts. expires tm \<le> j}"
    using assms
  proof (induction ts)
    case (Cons t ts)
    show ?case
    proof (cases "expires t \<le> j")
      case False
      have "\<not> expires u \<le> j" if "u \<in> set ts" for u
        using Cons.prems that False by (auto simp: timer_key_def)
      with False show ?thesis by (auto simp: filter_id_conv)
    qed (use Cons in auto)
  qed simp
  then show "dropWhile (\<lambda>tm. expires tm \<le> j) ts = filter (\<lambda>tm. \<not> expires tm \<le> j) ts"
    "set (takeWhile (\<lambda>tm. expires tm \<le> j) ts) = {tm \<in> set ts. expires tm \<le> j}" by auto
qed

lemma take_expired:
  assumes "sorted (map timer_key ts)" and "\<forall>tm\<in>set ts. expires tm < 2147483648"
  shows "takeWhile (\<lambda>tm. expires tm \<le> j) ts = filter (\<lambda>tm. expires tm \<le> j) ts"
proof -
  have "filter (\<lambda>tm. expires tm \<le> j) (dropWhile (\<lambda>tm. expires tm \<le> j) ts) = []"
    unfolding drop_expired(1) [OF assms] by (auto simp: filter_empty_conv)
  moreover have "filter (\<lambda>tm. expires tm \<le> j) (takeWhile (\<lambda>tm. expires tm \<le> j) ts) = takeWhile (\<lambda>tm. expires tm \<le> j) ts"
    by (auto simp: filter_id_conv dest: set_takeWhileD)
  moreover have "filter (\<lambda>tm. expires tm \<le> j) ts = filter (\<lambda>tm. expires tm \<le> j) (takeWhile (\<lambda>tm. expires tm \<le> j) ts @ dropWhile (\<lambda>tm. expires tm \<le> j) ts)"
    by (simp only: takeWhile_dropWhile_id)
  ultimately show ?thesis by (simp only: filter_append append_Nil2)
qed

text \<open>C16. The timers: \<open>timer_wakeup\<close> returns; of a sorted list, as \<open>timer_add\<close> keeps it, exactly the
  timers that have expired fire and are removed, the others stay in their order. Each task is as its own expired timers
  have left it, in the order of the list: a time-out ends its wait with \<open>ETIME\<close> as the reason, an alarm is taken off and
  sends \<open>SIGALRM\<close> (to a task that may be killed), which wakes a sleeper; a task with no expired timer has not
  changed.\<close>

theorem timers_fire:
  assumes "kinv s" and "jiffies s < 2147483648" and "sorted (map timer_key (timer_list s))"
    and "\<forall>tm\<in>set (timer_list s). expires tm < 2147483648"
  shows "\<exists>s'. timer_wakeup s = Some s' \<and> kinv s' \<and>
    timer_list s' = filter (\<lambda>tm. jiffies s < expires tm) (timer_list s) \<and>
    (\<forall>q t. task_at s q = Some t \<longrightarrow>
      task_at s' q = Some (fold fired (filter (\<lambda>tm. expires tm \<le> jiffies s \<and> ttask tm = q) (timer_list s)) t)) \<and>
    (\<forall>ms h. sorted (map timer_key (timer_list (snd (timer_add ms h s')))))"
proof -
  let ?old = "\<lambda>tm. expires tm \<le> jiffies s"
  from timer_wakeup_ok [OF assms(1)] assms(2) obtain s' where s': "timer_wakeup s = Some s'" "kinv s'"
    "timer_list s' = dropWhile ?old (timer_list s)"
    "\<forall>q t. task_at s q = Some t \<longrightarrow> task_at s' q = Some (fold fired (filter (\<lambda>tm. ttask tm = q) (takeWhile ?old (timer_list s))) t)" by auto
  note d = drop_expired [OF assms(3,4)]
  have "sorted (map timer_key (timer_list s'))" unfolding s'(3) d(1) by (rule sorted_filter [OF assms(3)])
  then have "sorted (map timer_key (timer_list (snd (timer_add ms h s'))))" for ms h
    by (simp add: timer_add_def Let_def timer_insert_sorted)
  moreover have "filter (\<lambda>tm. ttask tm = q) (takeWhile ?old (timer_list s)) = filter (\<lambda>tm. ?old tm \<and> ttask tm = q) (timer_list s)" for q
    unfolding take_expired [OF assms(3,4)] by (simp add: conj_commute)
  ultimately show ?thesis using s' d(1) by (auto simp: not_le)
qed

definition demo_waiter :: task_t where
  "demo_waiter = new_task 2 TASK_SLEEPING (Some 1) 1000"

lemma timers_fire_witness:
  "\<exists>s'. timer_wakeup (demo_k\<lparr>jiffies := 5\<rparr>) = Some s' \<and> timer_list s' = [] \<and>
    task_at s' 0x112000 = Some (demo_waiter\<lparr>node := None, status := - ETIME, state := TASK_READY\<rparr>)"
proof -
  let ?s = "demo_k\<lparr>jiffies := 5\<rparr>"
  have "task_ok ?s = task_ok demo_k" by (rule ext)+ (simp add: task_ok_def)
  then have "kinv ?s" using demo_ok by (simp add: kinv_def kstate_ok_def)
  moreover have tl: "timer_list ?s = [\<lparr>tid = 0, ttask = 0x112000, expires = 5, thandler = No_handler\<rparr>]"
    by (simp add: demo_k_def)
  moreover have "task_at ?s 0x112000 = Some demo_waiter" using demo_live by (auto simp: demo_waiter_def live_def)
  ultimately show ?thesis using timers_fire [of ?s] by (fastforce simp: fired_def)
qed

section \<open>A timer that outlives its sleep\<close>

text \<open>C40. A signal that ends a sleep leaves the sleep's timer in the list. When this timer expires
  it takes the task out of whatever it waits for by then, with a time-out as the reason, and a task
  that runs by then loses the state \<open>TASK_RUNNING\<close> that \<open>task_fork\<close> and \<open>task_exit\<close> assert.\<close>

theorem stale_timer_wakes:
  assumes "kinv s" and "live s p t" and "state t = TASK_SLEEPING" and "kill_ok sig t"
    and "tm \<in> set (timer_list s)" and "ttask tm = p" and "thandler tm = No_handler"
  shows "\<exists>s'. sys_kill (pid t) sig s = Some (0, s') \<and> kinv s' \<and> tm \<in> set (timer_list s') \<and>
    (\<exists>u. live s' p u \<and> state u = TASK_READY) \<and>
    (\<forall>s2 u. kinv s2 \<longrightarrow> tm \<in> set (timer_list s2) \<longrightarrow> live s2 p u \<longrightarrow>
      (\<exists>s3. run_handler tm s2 = Some s3 \<and>
        task_at s3 p = Some (u\<lparr>node := None, status := - ETIME, state := TASK_READY\<rparr>)))"
proof -
  let ?s = "put_task p (signalled sig t) (s\<lparr>wlists := unlink p (node t) (wlists s)\<rparr>)"
  have "sys_kill (pid t) sig s = Some (0, ?s)" using sys_kill_eq [OF assms(1,2,4)] assms(3) by simp
  moreover have "kinv ?s" using kinv_signalled [OF assms(1,2), of sig] assms(3) by simp
  moreover have "live ?s p (signalled sig t)" "state (signalled sig t) = TASK_READY"
    using assms(2,3) by (simp_all add: live_def signalled_def)
  moreover have "\<exists>s3. run_handler tm s2 = Some s3 \<and>
      task_at s3 p = Some (u\<lparr>node := None, status := - ETIME, state := TASK_READY\<rparr>)"
    if "kinv s2" "live s2 p u" for s2 u
    using kinvD(1) [OF that(1)] that(2) assms(6,7)
    by (simp add: run_handler_def default_timeout_def task_unblock_eq live_def)
  moreover have "tm \<in> set (timer_list ?s)" using assms(5) by simp
  ultimately show ?thesis by blast
qed

lemma stale_timer_wakes_witness:
  "\<exists>s'. sys_kill 2 15 demo_k = Some (0, s') \<and> (\<exists>u. live s' 0x112000 u \<and> state u = TASK_READY) \<and> timer_list s' \<noteq> []"
proof -
  let ?tm = "\<lparr>tid = 0, ttask = 0x112000, expires = 5, thandler = No_handler\<rparr>"
  let ?t = "new_task 2 TASK_SLEEPING (Some 1) 1000"
  have "live demo_k 0x112000 ?t" "?tm \<in> set (timer_list demo_k)" by (simp_all add: demo_live demo_k_def [THEN arg_cong, of timer_list])
  moreover have "state ?t = TASK_SLEEPING" "kill_ok 15 ?t" "pid ?t = 2"
    by (simp_all add: new_task_def kill_ok_def MINSIG_def MAXSIG_def KERNEL_USER_def)
  ultimately show ?thesis
    using stale_timer_wakes [of demo_k "0x112000" ?t 15 ?tm] demo_ok by (fastforce simp: kstate_ok_def)
qed

end
