(* ===== verification/Signal.thy ===== *)
theory Signal
  imports Task
begin

text \<open>
  \<open>src/src/kernel/signal.c\<close>: masks, actions and the delivery of a signal at the return to user
  mode, with \<open>src/src/lib/restorer.asm\<close>, to which the handler returns; and
  \<open>src/src/kernel/system.c\<close>. What works on the running task alone takes and returns the task. The
  user's stack is a memory of words by address; the registers are those the interrupt has saved.
\<close>

section \<open>Masks and actions\<close>

definition EPERM :: int where "EPERM = 1"
definition ESRCH :: int where "ESRCH = 3"
definition SIGKILL :: int where "SIGKILL = 9"
definition SIGCHLD :: int where "SIGCHLD = 17"
definition SIGHUP :: int where "SIGHUP = 1"
definition SIG_NOMASK :: u32 where "SIG_NOMASK = 0x40000000"
definition SIG_ONESHOT :: u32 where "SIG_ONESHOT = 0x80000000"
definition SIG_DFL :: nat where "SIG_DFL = 0"
definition SIG_IGN :: nat where "SIG_IGN = 1"

definition sys_sgetmask :: "task_t \<Rightarrow> int" where
  "sys_sgetmask t = sint (blocked t)"

definition sys_ssetmask :: "int \<Rightarrow> task_t \<Rightarrow> int \<times> task_t" where
  "sys_ssetmask newmask t =
     (if newmask = EOF then (- EPERM, t)
      else (sint (blocked t), t\<lparr>blocked := word_of_int newmask AND NOT (SIGMASK SIGKILL)\<rparr>))"

definition bad_signal :: "int \<Rightarrow> bool" where
  "bad_signal sig \<longleftrightarrow> sig < MINSIG \<or> sig > MAXSIG \<or> sig = SIGKILL"

definition sys_signal :: "int \<Rightarrow> nat \<Rightarrow> nat \<Rightarrow> task_t \<Rightarrow> (int \<times> task_t) option" where
  "sys_signal sig hnd rest t =
     (if bad_signal sig then Some (EOF, t)
      else do {
        as \<leftarrow> aset (actions t) (nat (sig - 1))
          \<lparr>handler = hnd, mask = 0, sflags = SIG_ONESHOT OR SIG_NOMASK, restorer = rest\<rparr>;
        Some (s32 (int hnd), t\<lparr>actions := as\<rparr>) })"

text \<open>\<open>sys_sigaction\<close>; the old action is stored if the caller asks for it.\<close>

definition sys_sigaction ::
  "int \<Rightarrow> sigaction_t \<Rightarrow> bool \<Rightarrow> task_t \<Rightarrow> (int \<times> sigaction_t option \<times> task_t) option" where
  "sys_sigaction sig action old t =
     (if bad_signal sig then Some (EOF, None, t)
      else do {
        a \<leftarrow> aget (actions t) (nat (sig - 1));
        let a' = (if sflags action AND SIG_NOMASK \<noteq> 0 then action\<lparr>mask := 0\<rparr>
                  else action\<lparr>mask := mask action OR SIGMASK sig\<rparr>);
        Some (0, if old then Some a else None, t\<lparr>actions := (actions t)[nat (sig - 1) := a']\<rparr>) })"

section \<open>Delivery\<close>

type_synonym umem = "nat \<Rightarrow> u32"

datatype sig_out = No_signal | Ignored | Exit int | Handler

text \<open>The loop over the signals; behind the last one, \<open>sig\<close> is 32.\<close>

fun first_signal :: "u32 \<Rightarrow> int list \<Rightarrow> int" where
  "first_signal m [] = MAXSIG + 1"
| "first_signal m (s # ss) = (if m AND SIGMASK s \<noteq> 0 then s else first_signal m ss)"

text \<open>The frame of the handler, from its lowest address: the address of the restorer, the signal,
  the mask to set at the end, \<open>eax\<close>, \<open>ecx\<close>, \<open>edx\<close>, \<open>eflags\<close>, \<open>eip\<close>.\<close>

definition signal_frame :: "nat \<Rightarrow> u32 \<Rightarrow> int \<Rightarrow> u32 \<Rightarrow> intr_frame \<Rightarrow> umem \<Rightarrow> umem" where
  "signal_frame a rest sig msk r m =
     m(a := rest, a + 4 := word_of_int sig, a + 8 := msk, a + 12 := r_eax r, a + 16 := r_ecx r,
       a + 20 := r_edx r, a + 24 := r_eflags r, a + 28 := r_eip r)"

definition task_signal :: "umem \<Rightarrow> task_t \<Rightarrow> (sig_out \<times> umem \<times> task_t) option" where
  "task_signal m t =
     (let pending = signal t AND NOT (blocked t)
      in if pending = 0 then Some (No_signal, m, t)
         else do {
           cassert (uid t \<noteq> 0);
           let sig = first_signal pending [1..MAXSIG];
           let t = (if sig \<le> MAXSIG then t\<lparr>signal := signal t AND NOT (SIGMASK sig)\<rparr> else t);
           a \<leftarrow> aget (actions t) (nat (sig - 1));
           if handler a = SIG_IGN then Some (Ignored, m, t)
           else if handler a = SIG_DFL \<and> sig = SIGCHLD then Some (Ignored, m, t)
           else if handler a = SIG_DFL then Some (Exit (sint (SIGMASK sig)), m, t)
           else do {
             let r = iframe t;
             let frame = r_esp r - 32;
             let msk = (if sflags a AND SIG_NOMASK \<noteq> 0 then blocked t else word_of_int EOF);
             let m = signal_frame (unat frame) (of_nat (restorer a)) sig msk r m;
             let t = t\<lparr>iframe := r\<lparr>r_esp := frame, r_eip := of_nat (handler a)\<rparr>\<rparr>;
             let t = (if sflags a AND SIG_ONESHOT \<noteq> 0
                      then t\<lparr>actions := (actions t)[nat (sig - 1) := a\<lparr>handler := SIG_DFL\<rparr>]\<rparr> else t);
             Some (Handler, m, t\<lparr>blocked := blocked t OR mask a\<rparr>) } })"

text \<open>\<open>restorer\<close>: the handler has returned to it, with \<open>esp\<close> behind its address. It drops the
  signal, calls \<open>ssetmask\<close> on the mask of the frame and restores the registers.\<close>

definition restore :: "umem \<Rightarrow> task_t \<Rightarrow> task_t" where
  "restore m t =
     (let sp = unat (r_esp (iframe t)) + 4;
          t = snd (sys_ssetmask (sint (m sp)) t);
          sp = sp + 4
      in t\<lparr>iframe := (iframe t)\<lparr>r_eax := m sp, r_ecx := m (sp + 4), r_edx := m (sp + 8),
           r_eflags := m (sp + 12), r_eip := m (sp + 16), r_esp := of_nat (sp + 20)\<rparr>\<rparr>)"

section \<open>Process groups and sessions\<close>

definition sys_umask :: "nat \<Rightarrow> task_t \<Rightarrow> nat \<times> task_t" where
  "sys_umask m t = (umask t, t\<lparr>umask := m mod 512\<rparr>)"

fun setpgid_loop :: "kstate \<Rightarrow> int \<Rightarrow> int \<Rightarrow> task_t \<Rightarrow> tptr list \<Rightarrow> (int \<times> kstate) option" where
  "setpgid_loop s want pg c [] = Some (- ESRCH, s)"
| "setpgid_loop s want pg c (p # ps) =
     (if p = NULL then setpgid_loop s want pg c ps
      else do {
        t \<leftarrow> task_at s p;
        if pid t \<noteq> want then setpgid_loop s want pg c ps
        else if task_leader t then Some (- EPERM, s)
        else if sid t \<noteq> sid c then Some (- EPERM, s)
        else do { s \<leftarrow> modify p (\<lambda>t. t\<lparr>pgid := pg\<rparr>) s; Some (0, s) } })"

definition sys_setpgid :: "int \<Rightarrow> int \<Rightarrow> kstate \<Rightarrow> (int \<times> kstate) option" where
  "sys_setpgid want pg s = do {
     c \<leftarrow> task_at s (cur s);
     setpgid_loop s (if want = 0 then pid c else want) (if pg = 0 then pid c else pg) c (task_table s) }"

definition sys_getpgrp :: "task_t \<Rightarrow> int" where
  "sys_getpgrp t = pgid t"

definition sys_setsid :: "task_t \<Rightarrow> int \<times> task_t" where
  "sys_setsid t =
     (if task_leader t then (- EPERM, t)
      else (let t = t\<lparr>pgid := pid t, sid := pid t\<rparr> in (sid t, t)))"

section \<open>Which signal is delivered\<close>

definition sig_inv :: "task_t \<Rightarrow> bool" where
  "sig_inv t \<longleftrightarrow> length (actions t) = 31 \<and> \<not> bit (signal t) 31 \<and> uid t \<noteq> 0 \<and>
     handler (actions t ! 8) = SIG_DFL"

text \<open>\<open>sig\<close> is pending and not blocked.\<close>

definition due :: "task_t \<Rightarrow> int \<Rightarrow> bool" where
  "due t sig \<longleftrightarrow> MINSIG \<le> sig \<and> sig \<le> MAXSIG \<and> bit (signal t) (nat (sig - 1)) \<and> \<not> bit (blocked t) (nat (sig - 1))"

lemma SIGMASK_bit: "bit (SIGMASK sig) n \<longleftrightarrow> n = nat (sig - 1) \<and> n < 32"
  by (auto simp: SIGMASK_def bit_simps bit_1_iff)

lemma and_SIGMASK: "0 < sig \<Longrightarrow> sig \<le> 32 \<Longrightarrow> (m AND SIGMASK sig \<noteq> 0) \<longleftrightarrow> bit m (nat (sig - 1))"
proof -
  assume "0 < sig" "sig \<le> 32"
  then have b: "bit (m AND SIGMASK sig) n \<longleftrightarrow> n = nat (sig - 1) \<and> bit m (nat (sig - 1))" for n
    by (auto simp: bit_and_iff SIGMASK_bit)
  show ?thesis
  proof
    assume "bit m (nat (sig - 1))"
    with b have "bit (m AND SIGMASK sig) (nat (sig - 1))" by simp
    then show "m AND SIGMASK sig \<noteq> 0" by (metis bit_0_eq bot_apply bot_bool_def)
  next
    assume "m AND SIGMASK sig \<noteq> 0"
    then obtain n where "bit (m AND SIGMASK sig) n" by (metis bit_eqI bit_0_eq bot_apply bot_bool_def)
    with b show "bit m (nat (sig - 1))" by simp
  qed
qed

lemma first_signal_upto:
  assumes "1 \<le> a" and "a \<le> 32"
  shows "(\<exists>s. a \<le> s \<and> s \<le> 31 \<and> first_signal m [a..31] = s \<and> bit m (nat (s - 1)) \<and> (\<forall>k. a \<le> k \<longrightarrow> k < s \<longrightarrow> \<not> bit m (nat (k - 1)))) \<or>
    first_signal m [a..31] = 32 \<and> (\<forall>k. a \<le> k \<longrightarrow> k \<le> 31 \<longrightarrow> \<not> bit m (nat (k - 1)))"
  using assms
proof (induction "nat (32 - a)" arbitrary: a)
  case 0
  then show ?case by (simp add: MAXSIG_def)
next
  case (Suc n)
  then have a: "1 \<le> a" "a \<le> 31" by simp_all
  show ?case
  proof (cases "bit m (nat (a - 1))")
    case True
    then show ?thesis using a and_SIGMASK [of a m] by (intro disjI1 exI [of _ a]) (auto simp: upto_rec1)
  next
    case False
    then have e: "first_signal m [a..31] = first_signal m [a + 1..31]"
      using a and_SIGMASK [of a m] by (simp add: upto_rec1)
    have IH: "(\<exists>s. a + 1 \<le> s \<and> s \<le> 31 \<and> first_signal m [a + 1..31] = s \<and> bit m (nat (s - 1)) \<and>
        (\<forall>k. a + 1 \<le> k \<longrightarrow> k < s \<longrightarrow> \<not> bit m (nat (k - 1)))) \<or>
      first_signal m [a + 1..31] = 32 \<and> (\<forall>k. a + 1 \<le> k \<longrightarrow> k \<le> 31 \<longrightarrow> \<not> bit m (nat (k - 1)))"
      by (rule Suc.hyps(1)) (use Suc.hyps(2) a in simp_all)
    have split: "a \<le> k \<longleftrightarrow> k = a \<or> a + 1 \<le> k" for k by auto
    show ?thesis
      using IH
    proof (elim disjE exE conjE)
      fix s
      assume "a + 1 \<le> s" "s \<le> 31" "first_signal m [a + 1..31] = s" "bit m (nat (s - 1))"
        "\<forall>k. a + 1 \<le> k \<longrightarrow> k < s \<longrightarrow> \<not> bit m (nat (k - 1))"
      then show ?thesis using False unfolding e split by (intro disjI1 exI [of _ s]) auto
    next
      assume "first_signal m [a + 1..31] = 32" "\<forall>k. a + 1 \<le> k \<longrightarrow> k \<le> 31 \<longrightarrow> \<not> bit m (nat (k - 1))"
      then show ?thesis using False unfolding e split by (intro disjI2) auto
    qed
  qed
qed

lemma first_signal_due:
  assumes "\<not> bit (signal t) 31"
  defines "m \<equiv> signal t AND NOT (blocked t)"
  shows "m = 0 \<longleftrightarrow> (\<forall>s. \<not> due t s)"
    and "due t s \<Longrightarrow> (\<And>k. k < s \<Longrightarrow> \<not> due t k) \<Longrightarrow> first_signal m [1..MAXSIG] = s"
proof -
  have b: "bit m (nat (s - 1)) \<longleftrightarrow> due t s" if "1 \<le> s" "s \<le> 31" for s
    using that by (auto simp: m_def due_def bit_simps MINSIG_def MAXSIG_def)
  show "m = 0 \<longleftrightarrow> (\<forall>s. \<not> due t s)"
  proof
    assume "m = 0"
    then show "\<forall>s. \<not> due t s" using b by (auto simp: due_def MINSIG_def MAXSIG_def)
  next
    assume nd: "\<forall>s. \<not> due t s"
    show "m = 0"
    proof (rule bit_word_eqI)
      fix n assume n: "n < LENGTH(32)"
      show "bit m n \<longleftrightarrow> bit 0 n"
      proof (cases "n = 31")
        case True
        then show ?thesis using assms(1) by (simp add: m_def bit_and_iff)
      next
        case False
        with n b [of "int n + 1"] nd show ?thesis by simp
      qed
    qed
  qed
  show "first_signal m [1..MAXSIG] = s" if "due t s" "\<And>k. k < s \<Longrightarrow> \<not> due t k"
  proof -
    have s: "1 \<le> s" "s \<le> 31" using that(1) by (simp_all add: due_def MINSIG_def MAXSIG_def)
    have "(\<exists>s. 1 \<le> s \<and> s \<le> 31 \<and> first_signal m [1..31] = s \<and> bit m (nat (s - 1)) \<and>
        (\<forall>k. 1 \<le> k \<longrightarrow> k < s \<longrightarrow> \<not> bit m (nat (k - 1)))) \<or>
      first_signal m [1..31] = 32 \<and> (\<forall>k. 1 \<le> k \<longrightarrow> k \<le> 31 \<longrightarrow> \<not> bit m (nat (k - 1)))"
      by (rule first_signal_upto) simp_all
    with b [OF s] that s obtain r where r: "1 \<le> r" "r \<le> 31" "first_signal m [1..31] = r" "bit m (nat (r - 1))"
      "\<forall>k. 1 \<le> k \<longrightarrow> k < r \<longrightarrow> \<not> bit m (nat (k - 1))" by blast
    have "due t r" using b [OF r(1,2)] r(4) by simp
    with that(2) [of r] have "\<not> r < s" by blast
    moreover have "\<not> s < r" using r(5) s(1) b [OF s] that(1) by blast
    ultimately show ?thesis using r(3) by (simp add: MAXSIG_def)
  qed
qed

text \<open>The least signal that is due.\<close>

definition next_sig :: "task_t \<Rightarrow> int \<Rightarrow> bool" where
  "next_sig t sig \<longleftrightarrow> due t sig \<and> (\<forall>k. k < sig \<longrightarrow> \<not> due t k)"

lemma task_signal_next:
  assumes "sig_inv t" and "next_sig t sig"
  defines "t1 \<equiv> t\<lparr>signal := signal t AND NOT (SIGMASK sig)\<rparr>" and "a \<equiv> actions t ! nat (sig - 1)"
  shows "task_signal m t =
    (if handler a = SIG_IGN \<or> handler a = SIG_DFL \<and> sig = SIGCHLD then Some (Ignored, m, t1)
     else if handler a = SIG_DFL then Some (Exit (sint (SIGMASK sig)), m, t1)
     else (let r = iframe t; frame = r_esp r - 32;
         msk = (if sflags a AND SIG_NOMASK \<noteq> 0 then blocked t else word_of_int EOF);
         t2 = t1\<lparr>iframe := r\<lparr>r_esp := frame, r_eip := of_nat (handler a)\<rparr>\<rparr>;
         t3 = (if sflags a AND SIG_ONESHOT \<noteq> 0
               then t2\<lparr>actions := (actions t)[nat (sig - 1) := a\<lparr>handler := SIG_DFL\<rparr>]\<rparr> else t2)
       in Some (Handler, signal_frame (unat frame) (of_nat (restorer a)) sig msk r m,
         t3\<lparr>blocked := blocked t OR mask a\<rparr>)))"
proof -
  have s: "1 \<le> sig" "sig \<le> MAXSIG" "due t sig" using assms(2) by (simp_all add: next_sig_def due_def MINSIG_def)
  have i: "\<not> bit (signal t) 31" "length (actions t) = 31" "uid t \<noteq> 0" using assms(1) by (simp_all add: sig_inv_def)
  have "signal t AND NOT (blocked t) \<noteq> 0" using first_signal_due(1) [OF i(1)] s(3) by blast
  moreover have "first_signal (signal t AND NOT (blocked t)) [1..MAXSIG] = sig"
    using first_signal_due(2) [OF i(1)] assms(2) by (simp add: next_sig_def)
  moreover have "nat (sig - 1) < 31" using s(1,2) by (simp add: MAXSIG_def)
  ultimately show ?thesis
    using i s(2) by (simp add: task_signal_def Let_def t1_def a_def SIG_IGN_def SIG_DFL_def) auto
qed

section \<open>Properties\<close>

lemma signal_frame_first [simp]: "signal_frame a rest sig msk r m a = rest"
  by (simp add: signal_frame_def)

lemma SIGMASK_not_0: "1 \<le> sig \<Longrightarrow> sig \<le> MAXSIG \<Longrightarrow> bit (v AND NOT (SIGMASK sig)) n \<longleftrightarrow> n < 32 \<and> bit v n \<and> n \<noteq> nat (sig - 1)"
  by (auto simp: bit_and_iff bit_not_iff SIGMASK_bit dest: bit_imp_le_length)

lemma frame_words:
  "map (\<lambda>i. signal_frame f rest sig msk r m (f + 4 * i)) [0..<8] =
    [rest, word_of_int sig, msk, r_eax r, r_ecx r, r_edx r, r_eflags r, r_eip r]"
  "x \<notin> (\<lambda>i. f + 4 * i) ` {0..<8} \<Longrightarrow> signal_frame f rest sig msk r m x = m x"
proof -
  show "map (\<lambda>i. signal_frame f rest sig msk r m (f + 4 * i)) [0..<8] =
    [rest, word_of_int sig, msk, r_eax r, r_ecx r, r_edx r, r_eflags r, r_eip r]"
    by (simp add: signal_frame_def upt_rec)
  assume x: "x \<notin> (\<lambda>i. f + 4 * i) ` {0..<8}"
  have "x \<noteq> f + 4 * i" if "i < 8" for i using x that by auto
  from this [of 0] this [of 1] this [of 2] this [of 3] this [of 4] this [of 5] this [of 6] this [of 7]
  show "signal_frame f rest sig msk r m x = m x" by (simp add: signal_frame_def)
qed

text \<open>The effect that the action asks for.\<close>

definition delivered :: "int \<Rightarrow> umem \<Rightarrow> task_t \<Rightarrow> sig_out \<Rightarrow> umem \<Rightarrow> task_t \<Rightarrow> bool" where
  "delivered sig m t out m' t' \<longleftrightarrow>
      (let a = actions t ! nat (sig - 1); f = unat (r_esp (iframe t) - 32) in
        (handler a = SIG_IGN \<or> handler a = SIG_DFL \<and> sig = SIGCHLD \<longrightarrow> out = Ignored) \<and>
        (handler a = SIG_DFL \<and> sig \<noteq> SIGCHLD \<longrightarrow> out = Exit (sint (SIGMASK sig))) \<and>
        (out \<noteq> Handler \<longrightarrow> m' = m \<and> blocked t' = blocked t \<and> actions t' = actions t \<and> iframe t' = iframe t) \<and>
        (handler a \<noteq> SIG_IGN \<and> handler a \<noteq> SIG_DFL \<longrightarrow> out = Handler \<and>
          iframe t' = (iframe t)\<lparr>r_eip := of_nat (handler a), r_esp := r_esp (iframe t) - 32\<rparr> \<and>
          map (\<lambda>i. m' (f + 4 * i)) [0..<8] = [of_nat (restorer a), word_of_int sig,
            if sflags a AND SIG_NOMASK \<noteq> 0 then blocked t else word_of_int EOF, r_eax (iframe t), r_ecx (iframe t),
            r_edx (iframe t), r_eflags (iframe t), r_eip (iframe t)] \<and>
          (\<forall>x. x \<notin> (\<lambda>i. f + 4 * i) ` {0..<8} \<longrightarrow> m' x = m x) \<and>
          (\<forall>n < 32. bit (blocked t') n \<longleftrightarrow> bit (blocked t) n \<or> bit (mask a) n) \<and>
          actions t' ! nat (sig - 1) = (if sflags a AND SIG_ONESHOT \<noteq> 0 then a\<lparr>handler := SIG_DFL\<rparr> else a) \<and>
          (\<forall>i. i \<noteq> nat (sig - 1) \<longrightarrow> actions t' ! i = actions t ! i))) \<and>
      (sig = SIGKILL \<longrightarrow> out = Exit 256)"

lemma signal_delivered:
  assumes "sig_inv t" and "next_sig t sig"
  shows "\<exists>out m' t'. task_signal m t = Some (out, m', t') \<and>
    (\<forall>k. MINSIG \<le> k \<longrightarrow> k \<le> MAXSIG \<longrightarrow>
      (bit (signal t') (nat (k - 1)) \<longleftrightarrow> bit (signal t) (nat (k - 1)) \<and> k \<noteq> sig)) \<and>
    delivered sig m t out m' t'"
proof -
  have i: "handler (actions t ! 8) = SIG_DFL" "length (actions t) = 31" using assms(1) by (simp_all add: sig_inv_def)
  have s: "1 \<le> sig" "sig \<le> MAXSIG" using assms(2) by (simp_all add: next_sig_def due_def MINSIG_def)
  let ?t1 = "t\<lparr>signal := signal t AND NOT (SIGMASK sig)\<rparr>" and ?a = "actions t ! nat (sig - 1)"
  have b: "bit (signal ?t1) (nat (k - 1)) \<longleftrightarrow> bit (signal t) (nat (k - 1)) \<and> k \<noteq> sig"
    if "MINSIG \<le> k" "k \<le> MAXSIG" for k
    using that s by (auto simp: SIGMASK_not_0 MINSIG_def MAXSIG_def)
  have k: "sint (SIGMASK SIGKILL) = 256" "nat (SIGKILL - 1) = 8" "SIGKILL \<noteq> SIGCHLD"
    by (simp_all add: SIGMASK_def SIGKILL_def SIGCHLD_def)
  note e = task_signal_next [OF assms, of m]
  consider "handler ?a = SIG_IGN \<or> handler ?a = SIG_DFL \<and> sig = SIGCHLD"
    | "handler ?a = SIG_DFL" "sig \<noteq> SIGCHLD" | "handler ?a \<noteq> SIG_IGN" "handler ?a \<noteq> SIG_DFL" by blast
  then show ?thesis
  proof cases
    case 1
    have "sig \<noteq> SIGKILL" using 1 i(1) k by (auto simp: SIG_IGN_def SIG_DFL_def)
    with 1 e b show ?thesis
      by (intro exI [of _ Ignored] exI [of _ m] exI [of _ ?t1]) (auto simp: delivered_def SIG_IGN_def SIG_DFL_def Let_def)
  next
    case 2
    with e b k show ?thesis
      by (intro exI [of _ "Exit (sint (SIGMASK sig))"] exI [of _ m] exI [of _ ?t1])
        (auto simp: delivered_def SIG_IGN_def SIG_DFL_def Let_def)
  next
    case 3
    have "sig \<noteq> SIGKILL" using 3 i(1) k by auto
    let ?r = "iframe t"
    let ?m = "signal_frame (unat (r_esp ?r - 32)) (of_nat (restorer ?a)) sig
      (if sflags ?a AND SIG_NOMASK \<noteq> 0 then blocked t else word_of_int EOF) ?r m"
    let ?t2 = "?t1\<lparr>iframe := ?r\<lparr>r_esp := r_esp ?r - 32, r_eip := of_nat (handler ?a)\<rparr>\<rparr>"
    let ?t3 = "(if sflags ?a AND SIG_ONESHOT \<noteq> 0
      then ?t2\<lparr>actions := (actions t)[nat (sig - 1) := ?a\<lparr>handler := SIG_DFL\<rparr>]\<rparr> else ?t2)\<lparr>blocked := blocked t OR mask ?a\<rparr>"
    have ts: "task_signal m t = Some (Handler, ?m, ?t3)" using 3 e by (simp add: Let_def)
    moreover have "signal ?t3 = signal ?t1" by simp
    moreover have "nat (sig - 1) < 31" using s by (simp add: MAXSIG_def)
    then have "delivered sig m t Handler ?m ?t3"
      using 3 \<open>sig \<noteq> SIGKILL\<close> i(2) by (auto simp: delivered_def Let_def frame_words bit_or_iff)
    ultimately show ?thesis using b
      by (intro exI [of _ Handler] exI [of _ ?m] exI [of _ ?t3]) simp
  qed
qed

text \<open>C18. Delivery: of the signals that are pending and not blocked, the one with the least number is
  taken and only its pending bit is cleared; an ignored one, and \<open>SIGCHLD\<close> by default, has no
  further effect; the default of the others, and \<open>SIGKILL\<close> in any case, ends the task; otherwise
  the task goes on in its handler, with a frame of eight words below its stack pointer (the restorer, the number, the
  mask to go back to, or \<open>EOF\<close> without \<open>SIG_NOMASK\<close>, and the registers that were saved) and nothing else written, the mask of
  the action is blocked as well, and a one-shot action is back at its default. With no such signal nothing happens.\<close>

theorem signal_delivery:
  assumes "sig_inv t"
  shows "((\<forall>s. \<not> due t s) \<longrightarrow> task_signal m t = Some (No_signal, m, t)) \<and>
    (\<forall>sig. next_sig t sig \<longrightarrow> (\<exists>out m' t'. task_signal m t = Some (out, m', t') \<and>
      (\<forall>k. MINSIG \<le> k \<longrightarrow> k \<le> MAXSIG \<longrightarrow>
        (bit (signal t') (nat (k - 1)) \<longleftrightarrow> bit (signal t) (nat (k - 1)) \<and> k \<noteq> sig)) \<and>
      (let a = actions t ! nat (sig - 1); f = unat (r_esp (iframe t) - 32) in
        (handler a = SIG_IGN \<or> handler a = SIG_DFL \<and> sig = SIGCHLD \<longrightarrow> out = Ignored) \<and>
        (handler a = SIG_DFL \<and> sig \<noteq> SIGCHLD \<longrightarrow> out = Exit (sint (SIGMASK sig))) \<and>
        (out \<noteq> Handler \<longrightarrow> m' = m \<and> blocked t' = blocked t \<and> actions t' = actions t \<and> iframe t' = iframe t) \<and>
        (handler a \<noteq> SIG_IGN \<and> handler a \<noteq> SIG_DFL \<longrightarrow> out = Handler \<and>
          iframe t' = (iframe t)\<lparr>r_eip := of_nat (handler a), r_esp := r_esp (iframe t) - 32\<rparr> \<and>
          map (\<lambda>i. m' (f + 4 * i)) [0..<8] = [of_nat (restorer a), word_of_int sig,
            if sflags a AND SIG_NOMASK \<noteq> 0 then blocked t else word_of_int EOF, r_eax (iframe t), r_ecx (iframe t),
            r_edx (iframe t), r_eflags (iframe t), r_eip (iframe t)] \<and>
          (\<forall>x. x \<notin> (\<lambda>i. f + 4 * i) ` {0..<8} \<longrightarrow> m' x = m x) \<and>
          (\<forall>n < 32. bit (blocked t') n \<longleftrightarrow> bit (blocked t) n \<or> bit (mask a) n) \<and>
          actions t' ! nat (sig - 1) = (if sflags a AND SIG_ONESHOT \<noteq> 0 then a\<lparr>handler := SIG_DFL\<rparr> else a) \<and>
          (\<forall>i. i \<noteq> nat (sig - 1) \<longrightarrow> actions t' ! i = actions t ! i))) \<and>
      (sig = SIGKILL \<longrightarrow> out = Exit 256)))"
proof -
  have i: "\<not> bit (signal t) 31" using assms by (simp add: sig_inv_def)
  have "task_signal m t = Some (No_signal, m, t)" if "\<forall>s. \<not> due t s"
    using first_signal_due(1) [OF i] that by (simp add: task_signal_def)
  with signal_delivered [OF assms, of _ m] show ?thesis unfolding delivered_def Let_def by blast
qed

definition demo_user :: task_t where
  "demo_user = (new_task 2 TASK_RUNNING None 1000)
     \<lparr>signal := SIGMASK SIGALRM OR SIGMASK SIGCHLD,
      actions := (replicate 31 \<lparr>handler = 0, mask = 0, sflags = 0, restorer = 0\<rparr>)
        [13 := \<lparr>handler = 0x1000200, mask = SIGMASK SIGKILL OR SIGMASK SIGALRM, sflags = 0, restorer = 0x1000100\<rparr>]\<rparr>"

lemma demo_user_inv: "sig_inv demo_user"
  by (simp add: sig_inv_def demo_user_def new_task_def SIGMASK_def SIGALRM_def SIGCHLD_def SIG_DFL_def bit_simps)

lemma demo_user_next: "next_sig demo_user 14"
proof -
  have "bit (signal demo_user) n \<longleftrightarrow> n = 13 \<or> n = 16" for n
    by (auto simp: demo_user_def bit_or_iff SIGMASK_bit SIGALRM_def SIGCHLD_def)
  moreover have "blocked demo_user = 0" by (simp add: demo_user_def new_task_def)
  ultimately show ?thesis by (auto simp: next_sig_def due_def MINSIG_def MAXSIG_def)
qed

lemma signal_delivery_witness:
  "\<exists>m' t'. task_signal (\<lambda>_. 0) demo_user = Some (Handler, m', t') \<and> r_eip (iframe t') = 0x1000200 \<and> bit (blocked t') 13"
proof -
  let ?a = "\<lparr>handler = 0x1000200, mask = SIGMASK SIGKILL OR SIGMASK SIGALRM, sflags = 0, restorer = 0x1000100\<rparr>"
  have a: "actions demo_user ! nat (14 - 1) = ?a" by (simp add: demo_user_def)
  have b: "bit (mask ?a) 13" by (simp add: bit_or_iff SIGMASK_bit SIGALRM_def)
  obtain out m' t' where "task_signal (\<lambda>_. 0) demo_user = Some (out, m', t')" "out = Handler"
    "r_eip (iframe t') = 0x1000200" "\<forall>n < 32. bit (blocked t') n \<longleftrightarrow> bit (blocked demo_user) n \<or> bit (mask ?a) n"
    using signal_delivery [OF demo_user_inv, of "\<lambda>_. 0", THEN conjunct2, THEN spec, THEN mp, OF demo_user_next]
    unfolding a Let_def by (auto simp: SIG_IGN_def SIG_DFL_def)
  with b show ?thesis by auto
qed

text \<open>C21. The way back: when a handler has returned to the restorer and has left the frame above the
  restorer's address alone, the registers the interrupt had saved are all restored, whatever the
  handler did to them, and with them the stack pointer.\<close>

theorem signal_roundtrip:
  assumes "sig_inv t" and "next_sig t sig" and "32 \<le> unat (r_esp (iframe t))"
    and "task_signal m t = Some (Handler, m1, t1)"
    and "\<forall>i. 4 \<le> i \<longrightarrow> i < 32 \<longrightarrow> m2 (unat (r_esp (iframe t1)) + i) = m1 (unat (r_esp (iframe t1)) + i)"
    and "r_esp r = r_esp (iframe t1) + 4"
  shows "iframe (restore m2 (t2\<lparr>iframe := r\<rparr>)) = iframe t"
proof -
  let ?a = "actions t ! nat (sig - 1)" and ?f = "r_esp (iframe t) - 32"
  have h: "handler ?a \<noteq> SIG_IGN" "handler ?a \<noteq> SIG_DFL"
    using task_signal_next [OF assms(1,2), of m] assms(4) by (auto split: if_splits)
  then have m1: "m1 = signal_frame (unat ?f) (of_nat (restorer ?a)) sig
      (if sflags ?a AND SIG_NOMASK \<noteq> 0 then blocked t else word_of_int EOF) (iframe t) m"
    and f: "r_esp (iframe t1) = ?f"
    using task_signal_next [OF assms(1,2), of m] assms(4) by (auto simp: Let_def)
  have u: "unat ?f = unat (r_esp (iframe t)) - 32" using assms(3) by (simp add: unat_sub word_le_nat_alt)
  have u4: "unat (r_esp r) = unat ?f + 4"
    using assms(3) u by (simp add: assms(6) f unat_sub word_le_nat_alt)
  have m2: "m2 (unat ?f + 12) = r_eax (iframe t)" "m2 (unat ?f + 16) = r_ecx (iframe t)"
    "m2 (unat ?f + 20) = r_edx (iframe t)" "m2 (unat ?f + 24) = r_eflags (iframe t)" "m2 (unat ?f + 28) = r_eip (iframe t)"
    using assms(5) [rule_format, of 12] assms(5) [rule_format, of 16] assms(5) [rule_format, of 20]
      assms(5) [rule_format, of 24] assms(5) [rule_format, of 28]
    by (simp_all add: f m1 signal_frame_def)
  have "(of_nat (unat ?f + 32) :: u32) = r_esp (iframe t)" using assms(3) by (simp add: u)
  then have "iframe (restore m2 (t2\<lparr>iframe := r\<rparr>)) = r\<lparr>r_eax := r_eax (iframe t), r_ecx := r_ecx (iframe t),
      r_edx := r_edx (iframe t), r_eflags := r_eflags (iframe t), r_eip := r_eip (iframe t), r_esp := r_esp (iframe t)\<rparr>"
    using m2 by (simp add: restore_def Let_def u4 add.assoc sys_ssetmask_def)
  then show ?thesis by simp
qed

lemma signal_roundtrip_witness:
  "\<exists>m1 t1. task_signal (\<lambda>_. 0) demo_user = Some (Handler, m1, t1) \<and>
    iframe (restore m1 (t1\<lparr>iframe := (iframe t1)\<lparr>r_eax := 7, r_esp := r_esp (iframe t1) + 4\<rparr>\<rparr>)) = iframe demo_user"
proof -
  obtain m1 t1 where "task_signal (\<lambda>_. 0) demo_user = Some (Handler, m1, t1)"
  proof -
    have "handler (actions demo_user ! nat (14 - 1)) = 0x1000200" by (simp add: demo_user_def)
    with that task_signal_next [OF demo_user_inv demo_user_next, of "\<lambda>_. 0"] show thesis
      by (simp add: SIG_IGN_def SIG_DFL_def Let_def)
  qed
  moreover have "32 \<le> unat (r_esp (iframe demo_user))" by (simp add: demo_user_def new_task_def)
  ultimately show ?thesis
    using signal_roundtrip [OF demo_user_inv demo_user_next, of "\<lambda>_. 0" m1 t1 m1
        "(iframe t1)\<lparr>r_eax := 7, r_esp := r_esp (iframe t1) + 4\<rparr>" t1] by auto
qed

text \<open>C39. The mask of a handler outlives it: \<open>sys_sigaction\<close> takes any mask, \<open>SIGKILL\<close> included, and adds the signal itself;
  delivery blocks the mask; and since without \<open>SIG_NOMASK\<close> the frame has \<open>EOF\<close> as the mask to go back to, which \<open>ssetmask\<close>
  refuses, the mask is still blocked when the handler has returned through the restorer. None of its signals is taken
  from then on, whatever is sent, until the task itself sets another mask.\<close>

theorem handler_mask_stays:
  assumes "sys_sigaction sig act old t0 = Some (0, oact, ti)" and "sflags act AND SIG_NOMASK = 0" and "t = ti\<lparr>signal := sg\<rparr>"
    and "sig_inv t" and "next_sig t sig" and "32 \<le> unat (r_esp (iframe t))"
    and "task_signal m t = Some (Handler, m1, t1)"
    and "\<forall>i. 4 \<le> i \<longrightarrow> i < 32 \<longrightarrow> m2 (unat (r_esp (iframe t1)) + i) = m1 (unat (r_esp (iframe t1)) + i)"
    and "r_esp r = r_esp (iframe t1) + 4" and "blocked t2 = blocked t1"
  shows "blocked (restore m2 (t2\<lparr>iframe := r\<rparr>)) = blocked t0 OR mask act OR SIGMASK sig \<and>
    (\<forall>k p. bit (mask act) (nat (k - 1)) \<or> k = sig \<longrightarrow> \<not> due ((restore m2 (t2\<lparr>iframe := r\<rparr>))\<lparr>signal := p\<rparr>) k)"
proof -
  let ?a = "actions t ! nat (sig - 1)" and ?f = "r_esp (iframe t) - 32"
  have s: "1 \<le> sig" "sig \<le> 31" using assms(5) by (simp_all add: next_sig_def due_def MINSIG_def MAXSIG_def)
  have L: "nat (sig - 1) < length (actions t)" using assms(4) s by (simp add: sig_inv_def)
  have ti: "blocked t = blocked t0" "length (actions t) = length (actions t0)" "?a = act\<lparr>mask := mask act OR SIGMASK sig\<rparr>"
    using assms(1-3) L by (auto simp: sys_sigaction_def EOF_def aget_def Let_def split: if_splits)
  have h: "handler ?a \<noteq> SIG_IGN" "handler ?a \<noteq> SIG_DFL"
    using task_signal_next [OF assms(4,5), of m] assms(7) by (auto split: if_splits)
  have m1: "m1 = signal_frame (unat ?f) (of_nat (restorer ?a)) sig (word_of_int EOF) (iframe t) m"
    and f: "r_esp (iframe t1) = ?f" and bl: "blocked t1 = blocked t0 OR mask act OR SIGMASK sig"
    using task_signal_next [OF assms(4,5), of m] assms(2,7) h by (auto simp: Let_def ti or.assoc)
  have u: "unat ?f = unat (r_esp (iframe t)) - 32" using assms(6) by (simp add: unat_sub word_le_nat_alt)
  have u4: "unat (r_esp r) = unat ?f + 4"
    using assms(6) u by (simp add: assms(9) f unat_sub word_le_nat_alt)
  have "m2 (unat ?f + 8) = word_of_int EOF" using assms(8) [rule_format, of 8] by (simp add: f m1 signal_frame_def)
  then have "m2 (unat (r_esp r) + 4) = word_of_int EOF" by (simp add: u4 add.assoc)
  moreover have "sint (word_of_int EOF :: u32) = EOF" by (simp add: EOF_def)
  ultimately have b: "blocked (restore m2 (t2\<lparr>iframe := r\<rparr>)) = blocked t0 OR mask act OR SIGMASK sig"
    using bl assms(10) by (simp add: restore_def Let_def sys_ssetmask_def)
  have "\<not> due ((restore m2 (t2\<lparr>iframe := r\<rparr>))\<lparr>signal := p\<rparr>) k" if "bit (mask act) (nat (k - 1)) \<or> k = sig" for k p
    using that s by (auto simp: due_def b bit_or_iff SIGMASK_bit)
  with b show ?thesis by blast
qed

lemma handler_mask_stays_witness:
  "\<exists>ti m1 t1. sys_sigaction 14 \<lparr>handler = 0x1000200, mask = SIGMASK SIGKILL, sflags = 0, restorer = 0x1000100\<rparr> False (demo_user\<lparr>signal := 0\<rparr>) = Some (0, None, ti) \<and>
    task_signal (\<lambda>_. 0) (ti\<lparr>signal := SIGMASK SIGALRM OR SIGMASK SIGCHLD\<rparr>) = Some (Handler, m1, t1) \<and>
    \<not> due ((restore m1 (t1\<lparr>iframe := (iframe t1)\<lparr>r_esp := r_esp (iframe t1) + 4\<rparr>\<rparr>))\<lparr>signal := SIGMASK SIGKILL\<rparr>) SIGKILL"
proof -
  let ?a = "\<lparr>handler = 0x1000200, mask = SIGMASK SIGKILL, sflags = 0, restorer = 0x1000100\<rparr>"
  have i: "sys_sigaction 14 ?a False (demo_user\<lparr>signal := 0\<rparr>) = Some (0, None, demo_user\<lparr>signal := 0\<rparr>)"
    by (simp add: sys_sigaction_def bad_signal_def MINSIG_def MAXSIG_def SIGKILL_def SIGALRM_def aget_def demo_user_def)
  have t: "demo_user = demo_user\<lparr>signal := 0\<rparr>\<lparr>signal := SIGMASK SIGALRM OR SIGMASK SIGCHLD\<rparr>" by (simp add: demo_user_def)
  have h: "handler (actions demo_user ! nat (14 - 1)) = 0x1000200" by (simp add: demo_user_def)
  obtain m1 t1 where d: "task_signal (\<lambda>_. 0) demo_user = Some (Handler, m1, t1)"
    using task_signal_next [OF demo_user_inv demo_user_next, of "\<lambda>_. 0"] h by (auto simp: SIG_IGN_def SIG_DFL_def Let_def)
  have "32 \<le> unat (r_esp (iframe demo_user))" by (simp add: demo_user_def new_task_def)
  then have "\<not> due ((restore m1 (t1\<lparr>iframe := (iframe t1)\<lparr>r_esp := r_esp (iframe t1) + 4\<rparr>\<rparr>))\<lparr>signal := SIGMASK SIGKILL\<rparr>) SIGKILL"
    using handler_mask_stays [OF i _ t demo_user_inv demo_user_next _ d, of m1 "(iframe t1)\<lparr>r_esp := r_esp (iframe t1) + 4\<rparr>" t1]
    by (simp add: SIGMASK_bit SIGKILL_def)
  with i d t show ?thesis by (intro exI [of _ "demo_user\<lparr>signal := 0\<rparr>"] exI [of _ m1] exI [of _ t1]) simp
qed

end
