(* ===== verification/Vsprintf.thy ===== *)
theory Vsprintf
  imports Stdlib
begin

text \<open>
  \<open>src/src/lib/vsprintf.c\<close>: formatted output. The format is the list of its bytes without the
  terminator; the arguments are the words of the \<open>va_list\<close>, and reading one that is not there has
  no meaning in C. What is written through \<open>str\<close> is the list \<open>out\<close>; \<open>%n\<close> adds a store to the
  list of stores. A flag word is the set of its flags.
\<close>

section \<open>The code\<close>

datatype flag = ZEROPAD | SIGN | PLUS | SPACE | LEFT | SPECIAL | SMALL

definition is_digit :: "u8 \<Rightarrow> bool" where
  "is_digit c \<longleftrightarrow> 48 \<le> unat c \<and> unat c \<le> 57"

fun skip_atoi :: "u8 list \<Rightarrow> int \<Rightarrow> int \<times> u8 list" where
  "skip_atoi (c # s) i = (if is_digit c then skip_atoi s (s32 (i * 10 + int (unat c) - 48)) else (i, c # s))"
| "skip_atoi [] i = (i, [])"

definition upper_digits :: "u8 list" where
  "upper_digits = map chr8 ''0123456789ABCDEFGHIJKLMNOPQRSTUVWXYZ''"

definition lower_digits :: "u8 list" where
  "lower_digits = map chr8 ''0123456789abcdefghijklmnopqrstuvwxyz''"

text \<open>The digits of a number, the least one first, as they are put into \<open>tmp\<close>.\<close>

fun num_loop :: "u8 list \<Rightarrow> nat \<Rightarrow> nat \<Rightarrow> u8 list" where
  "num_loop digits base n =
     (if n = 0 \<or> base < 2 then [] else digits ! (n mod base) # num_loop digits base (n div base))"

declare num_loop.simps [simp del]

text \<open>\<open>while (size-- > 0) *str++ = c\<close>, and the value of \<open>size\<close> behind the loop.\<close>

definition pad :: "u8 \<Rightarrow> int \<Rightarrow> u8 list" where
  "pad c sz = replicate (nat sz) c"

definition padded :: "int \<Rightarrow> int" where
  "padded sz = min sz 0 - 1"

text \<open>\<open>number\<close>: what it writes; \<open>None\<close> is the null pointer for a base it cannot do.\<close>

definition number :: "u32 \<Rightarrow> nat \<Rightarrow> int \<Rightarrow> int \<Rightarrow> flag set \<Rightarrow> u8 list option" where
  "number num base sz precision flags =
     (let digits = (if SMALL \<in> flags then lower_digits else upper_digits);
          flags = (if LEFT \<in> flags then flags - {ZEROPAD} else flags)
      in if base < 2 \<or> base > 36 then None
         else let
           c = (if ZEROPAD \<in> flags then 48 else 32);
           neg = (SIGN \<in> flags \<and> sint num < 0);
           sign = (if neg then [45] else if PLUS \<in> flags then [43] else if SPACE \<in> flags then [32] else []);
           num = (if neg then - num else num);
           sz = sz - int (length sign);
           sz = (if SPECIAL \<in> flags then (if base = 16 then sz - 2 else if base = 8 then sz - 1 else sz)
                   else sz);
           tmp = (if num = 0 then [48] else num_loop digits base (unat num));
           precision = max (int (length tmp)) precision;
           sz = sz - precision;
           pad1 = (if ZEROPAD \<notin> flags \<and> LEFT \<notin> flags then pad 32 sz else []);
           sz = (if ZEROPAD \<notin> flags \<and> LEFT \<notin> flags then padded sz else sz);
           prefix = (if SPECIAL \<in> flags then (if base = 8 then [48] else if base = 16 then [48, digits ! 33] else [])
                     else []);
           pad2 = (if LEFT \<notin> flags then pad c sz else []);
           sz = (if LEFT \<notin> flags then padded sz else sz);
           zeros = pad 48 (precision - int (length tmp))
         in Some (pad1 @ sign @ prefix @ pad2 @ zeros @ rev tmp @ pad 32 sz))"

text \<open>The flags behind a percent sign.\<close>

fun scan_flags :: "u8 list \<Rightarrow> flag set \<Rightarrow> flag set \<times> u8 list" where
  "scan_flags (c # fmt) flags =
     (if c = 45 then scan_flags fmt (insert LEFT flags)
      else if c = 43 then scan_flags fmt (insert PLUS flags)
      else if c = 32 then scan_flags fmt (insert SPACE flags)
      else if c = 35 then scan_flags fmt (insert SPECIAL flags)
      else if c = 48 then scan_flags fmt (insert ZEROPAD flags)
      else (flags, c # fmt))"
| "scan_flags [] flags = (flags, [])"

text \<open>\<open>va_arg\<close> of a word.\<close>

fun va_arg :: "u32 list \<Rightarrow> (u32 \<times> u32 list) option" where
  "va_arg (a # args) = Some (a, args)"
| "va_arg [] = None"

definition scan_width :: "u8 list \<Rightarrow> flag set \<Rightarrow> u32 list \<Rightarrow> (int \<times> flag set \<times> u8 list \<times> u32 list) option" where
  "scan_width fmt flags args =
     (case fmt of
        c # fmt' \<Rightarrow>
          if is_digit c then (let (w, fmt) = skip_atoi fmt 0 in Some (w, flags, fmt, args))
          else if c = 42 then do {
            (a, args) \<leftarrow> va_arg args;
            let w = sint a;
            Some (if w < 0 then (s32 (- w), insert LEFT flags, fmt', args) else (w, flags, fmt', args)) }
          else Some (- 1, flags, fmt, args)
      | [] \<Rightarrow> Some (- 1, flags, fmt, args))"

definition scan_precision :: "u8 list \<Rightarrow> u32 list \<Rightarrow> (int \<times> u8 list \<times> u32 list) option" where
  "scan_precision fmt args =
     (case fmt of
        c # fmt' \<Rightarrow>
          if c = 46 then do {
            (p, fmt, args) \<leftarrow>
              (case fmt' of
                 d # fmt'' \<Rightarrow>
                   if is_digit d then (let (p, fmt) = skip_atoi fmt' 0 in Some (p, fmt, args))
                   else if d = 42 then do { (a, args) \<leftarrow> va_arg args; Some (sint a, fmt', args) }
                   else Some (- 1, fmt', args)
               | [] \<Rightarrow> Some (- 1, fmt', args));
            Some (if p < 0 then 0 else p, fmt, args) }
          else Some (- 1, fmt, args)
      | [] \<Rightarrow> Some (- 1, fmt, args))"

definition skip_qualifier :: "u8 list \<Rightarrow> u8 list" where
  "skip_qualifier fmt = (case fmt of c # fmt' \<Rightarrow> if c = 104 \<or> c = 108 \<or> c = 76 then fmt' else fmt | [] \<Rightarrow> [])"

text \<open>One conversion: the output, the arguments left and the stores of \<open>%n\<close>.\<close>

definition convert :: "mem \<Rightarrow> u8 \<Rightarrow> flag set \<Rightarrow> int \<Rightarrow> int \<Rightarrow> u8 list \<Rightarrow> u32 list \<Rightarrow> (nat \<times> nat) list \<Rightarrow>
    (u8 list \<times> u32 list \<times> (nat \<times> nat) list) option" where
  "convert m c flags width precision out args w =
     (let num = (\<lambda>base width flags. do {
          (a, args) \<leftarrow> va_arg args;
          s \<leftarrow> number a base width precision flags;
          Some (out @ s, args, w) })
      in if c = 99 then do {
           (a, args) \<leftarrow> va_arg args;
           let sp = pad 32 (width - 1);
           Some (out @ (if LEFT \<notin> flags then sp else []) @ [ucast a] @ (if LEFT \<notin> flags then [] else sp), args, w) }
         else if c = 115 then do {
           (a, args) \<leftarrow> va_arg args;
           n \<leftarrow> strlen m (unat a);
           let len = (if precision \<ge> 0 \<and> int n > precision then precision else int n);
           let sp = pad 32 (width - len);
           Some (out @ (if LEFT \<notin> flags then sp else []) @ mread m (unat a) (nat len) @ (if LEFT \<notin> flags then [] else sp),
             args, w) }
         else if c = 111 then num 8 width flags
         else if c = 112 then (if width = - 1 then num 16 8 (insert ZEROPAD flags) else num 16 width flags)
         else if c = 120 then num 16 width (insert SMALL flags)
         else if c = 88 then num 16 width flags
         else if c = 100 \<or> c = 105 then num 10 width (insert SIGN flags)
         else if c = 117 then num 10 width flags
         else if c = 110 then do {
           (a, args) \<leftarrow> va_arg args;
           Some (out, args, w @ [(unat a, length out)]) }
         else Some (out @ (if c \<noteq> 37 then [37] else []) @ [c], args, w))"

text \<open>The loop over the format. Behind a directive that ends the format, a percent sign is written
  and the loop ends.\<close>

partial_function (option) vloop ::
  "mem \<Rightarrow> u8 list \<Rightarrow> u8 list \<Rightarrow> u32 list \<Rightarrow> (nat \<times> nat) list \<Rightarrow> (u8 list \<times> (nat \<times> nat) list) option" where
  "vloop m fmt out args w =
     (case fmt of
        [] \<Rightarrow> Some (out, w)
      | c # fmt \<Rightarrow>
          if c \<noteq> 37 then vloop m fmt (out @ [c]) args w
          else do {
            let (flags, fmt) = scan_flags fmt {};
            (width, flags, fmt, args) \<leftarrow> scan_width fmt flags args;
            (precision, fmt, args) \<leftarrow> scan_precision fmt args;
            (case skip_qualifier fmt of
               [] \<Rightarrow> Some (out @ [37], w)
             | d # fmt \<Rightarrow> do {
                 (out, args, w) \<leftarrow> convert m d flags width precision out args w;
                 vloop m fmt out args w }) })"

definition vsprintf :: "mem \<Rightarrow> u8 list \<Rightarrow> u32 list \<Rightarrow> (nat \<times> u8 list \<times> (nat \<times> nat) list) option" where
  "vsprintf m fmt args = do {
     (out, w) \<leftarrow> vloop m fmt [] args [];
     cassert (length out < 1024);
     Some (length out, out @ [EOS], w) }"

definition sprintf :: "mem \<Rightarrow> u8 list \<Rightarrow> u32 list \<Rightarrow> (nat \<times> u8 list \<times> (nat \<times> nat) list) option" where
  "sprintf m fmt args = vsprintf m fmt args"

section \<open>Numbers\<close>

lemma num_loop_0 [simp]: "num_loop ds b 0 = []"
  by (simp add: num_loop.simps)

lemma num_loop_pos: "0 < n \<Longrightarrow> 2 \<le> b \<Longrightarrow> num_loop ds b n = ds ! (n mod b) # num_loop ds b (n div b)"
  by (subst num_loop.simps) simp

lemma num_loop_Nil: "2 \<le> b \<Longrightarrow> num_loop ds b n = [] \<longleftrightarrow> n = 0"
  by (cases "n = 0") (simp_all add: num_loop_pos)

lemma length_digits [simp]: "length upper_digits = 36" "length lower_digits = 36"
  by (simp_all add: upper_digits_def lower_digits_def)

text \<open>The value of a list of digits, the greatest one first.\<close>

definition digit_val :: "u8 \<Rightarrow> nat" where
  "digit_val c = (if unat c \<le> 57 then unat c - 48 else if unat c \<le> 90 then unat c - 55 else unat c - 87)"

fun num_value :: "nat \<Rightarrow> nat \<Rightarrow> u8 list \<Rightarrow> nat" where
  "num_value b acc [] = acc"
| "num_value b acc (c # s) = num_value b (acc * b + digit_val c) s"

lemma num_value_append: "num_value b acc (s @ t) = num_value b (num_value b acc s) t"
  by (induction s arbitrary: acc) simp_all

lemma digits_eq:
  "upper_digits = map of_nat ([48..<58] @ [65..<91])" "lower_digits = map of_nat ([48..<58] @ [97..<123])"
  by (simp_all add: upper_digits_def lower_digits_def chr8_def upt_rec)

lemma digit_val_nth: "list_all (\<lambda>i. digit_val (upper_digits ! i) = i \<and> digit_val (lower_digits ! i) = i) [0..<36]"
  unfolding digits_eq by code_simp

lemma digit_val_digit:
  "i < 36 \<Longrightarrow> digit_val (upper_digits ! i) = i" "i < 36 \<Longrightarrow> digit_val (lower_digits ! i) = i"
  using digit_val_nth unfolding list_all_iff by simp_all

lemma num_value_loop:
  assumes "2 \<le> b" and "b \<le> 36"
  shows "num_value b 0 (rev (num_loop (if small then lower_digits else upper_digits) b n)) = n"
proof (induction n rule: less_induct)
  case (less n)
  show ?case
  proof (cases "n = 0")
    case False
    have "n mod b < b" using assms(1) by simp
    then have d: "n mod b < 36" using assms(2) by linarith
    have "n div b < n" using False assms by simp
    from less.IH [OF this] show ?thesis
      using False assms d by (simp add: num_loop_pos num_value_append digit_val_digit)
  qed simp
qed

text \<open>The digits of a number, greatest first; zero has one digit.\<close>

definition shown :: "nat \<Rightarrow> bool \<Rightarrow> nat \<Rightarrow> u8 list" where
  "shown b small n = (if n = 0 then [48] else rev (num_loop (if small then lower_digits else upper_digits) b n))"

lemma shown_value: "2 \<le> b \<Longrightarrow> b \<le> 36 \<Longrightarrow> num_value b 0 (shown b small n) = n"
  using num_value_loop [of b small n] by (simp add: shown_def digit_val_def)

lemma shown_Nil [simp]: "2 \<le> b \<Longrightarrow> shown b small n \<noteq> []"
  by (simp add: shown_def num_loop_Nil)

text \<open>The sign and the prefix that go before the digits.\<close>

definition neg_num :: "u32 \<Rightarrow> flag set \<Rightarrow> bool" where
  "neg_num num flags \<longleftrightarrow> SIGN \<in> flags \<and> sint num < 0"

definition sign_of :: "u32 \<Rightarrow> flag set \<Rightarrow> u8 list" where
  "sign_of num flags = (if neg_num num flags then [45] else if PLUS \<in> flags then [43] else if SPACE \<in> flags then [32] else [])"

definition prefix_of :: "nat \<Rightarrow> flag set \<Rightarrow> u8 list" where
  "prefix_of base flags = (if SPECIAL \<in> flags
     then (if base = 8 then [48] else if base = 16 then [48, if SMALL \<in> flags then 120 else 88] else []) else [])"

lemma digit_33: "upper_digits ! 33 = 88" "lower_digits ! 33 = 120"
  by (simp_all add: digits_eq nth_append)

lemma shown_loop:
  "shown base (SMALL \<in> flags) (unat v) = rev (if v = 0 then [48] else num_loop (if SMALL \<in> flags then lower_digits else upper_digits) base (unat v))"
  by (simp add: shown_def unat_eq_zero)

text \<open>What \<open>number\<close> writes: the sign, the prefix and at least \<open>precision\<close> digits, filled up to the
  width with blanks before or behind them, or with zeros between the prefix and the digits.\<close>

lemma number_eq:
  fixes num :: u32 and flags :: "flag set" and precision width :: int
  assumes "2 \<le> base" and "base \<le> 36"
  defines "v \<equiv> (if neg_num num flags then - num else num)"
  defines "body \<equiv> shown base (SMALL \<in> flags) (unat v)"
  defines "digs \<equiv> pad 48 (precision - int (length body)) @ body"
  defines "gap \<equiv> width - int (length (sign_of num flags)) - int (length (prefix_of base flags)) - int (length digs)"
  shows "number num base width precision flags = Some
    (if LEFT \<in> flags then sign_of num flags @ prefix_of base flags @ digs @ pad 32 gap
     else if ZEROPAD \<in> flags then sign_of num flags @ prefix_of base flags @ pad 48 gap @ digs
     else pad 32 gap @ sign_of num flags @ prefix_of base flags @ digs)"
proof -
  define fl where "fl = (if LEFT \<in> flags then flags - {ZEROPAD} else flags)"
  have fl: "x \<in> fl \<longleftrightarrow> x \<in> flags" if "x \<noteq> ZEROPAD" for x using that by (simp add: fl_def)
  have zp: "ZEROPAD \<in> fl \<longleftrightarrow> ZEROPAD \<in> flags \<and> LEFT \<notin> flags" by (simp add: fl_def)
  define tmp where "tmp = (if v = 0 then [48] else num_loop (if SMALL \<in> flags then lower_digits else upper_digits) base (unat v))"
  have b: "rev tmp = body" by (simp add: body_def shown_loop tmp_def)
  have len: "length tmp = length body" by (simp flip: b)
  have dl: "int (length digs) = max (int (length body)) precision" by (simp add: digs_def pad_def)
  have np: "pad c (padded w) = []" for c w by (simp add: pad_def padded_def)
  have z: "pad 48 (max (int (length body)) precision - int (length body)) = pad 48 (precision - int (length body))"
    by (simp add: pad_def max_def)
  have gap: "(if SPECIAL \<in> flags then if base = 16 then width - int (length (sign_of num flags)) - 2
        else if base = 8 then width - int (length (sign_of num flags)) - 1 else width - int (length (sign_of num flags))
      else width - int (length (sign_of num flags))) - max (int (length body)) precision = gap"
    by (simp add: gap_def dl prefix_of_def)
  have pf: "(if SPECIAL \<in> flags then if base = 8 then [48] else if base = 16
      then [48, (if SMALL \<in> flags then lower_digits else upper_digits) ! 33] else [] else []) = prefix_of base flags"
    by (simp add: prefix_of_def digit_33)
  have "number num base width precision flags = Some
    ((if ZEROPAD \<notin> fl \<and> LEFT \<notin> fl then pad 32 gap else []) @ sign_of num flags @ prefix_of base flags @
     (if LEFT \<notin> fl then pad (if ZEROPAD \<in> fl then 48 else 32) (if ZEROPAD \<notin> fl \<and> LEFT \<notin> fl then padded gap else gap) else []) @
     pad 48 (precision - int (length body)) @ body @
     pad 32 (if LEFT \<notin> fl then padded (if ZEROPAD \<notin> fl \<and> LEFT \<notin> fl then padded gap else gap)
       else (if ZEROPAD \<notin> fl \<and> LEFT \<notin> fl then padded gap else gap)))"
    using assms(1,2)
    unfolding number_def Let_def fl_def [symmetric]
    unfolding fl [of SIGN, simplified] fl [of PLUS, simplified] fl [of SPACE, simplified] fl [of SPECIAL, simplified]
    unfolding neg_num_def [symmetric] sign_of_def [symmetric] v_def [symmetric] tmp_def [symmetric] b len gap pf z
    by (simp cong: if_cong)
  then show ?thesis by (simp add: fl zp np digs_def)
qed

section \<open>What a format means\<close>

text \<open>The layout of a number with flags, width and precision (\<open>number_eq\<close>).\<close>

definition layout :: "u32 \<Rightarrow> nat \<Rightarrow> int \<Rightarrow> int \<Rightarrow> flag set \<Rightarrow> u8 list" where
  "layout num base width precision flags =
     (let body = shown base (SMALL \<in> flags) (unat (if neg_num num flags then - num else num));
          digs = pad 48 (precision - int (length body)) @ body;
          front = sign_of num flags @ prefix_of base flags;
          gap = width - int (length front) - int (length digs)
      in if LEFT \<in> flags then front @ digs @ pad 32 gap
         else if ZEROPAD \<in> flags then front @ pad 48 gap @ digs
         else pad 32 gap @ front @ digs)"

lemma number_layout: "2 \<le> base \<Longrightarrow> base \<le> 36 \<Longrightarrow> number num base width precision flags = Some (layout num base width precision flags)"
  by (simp add: number_eq layout_def Let_def algebra_simps)

text \<open>A format is built of pieces: plain text, a plain \<open>%d\<close>, a number with flags whose width is
  an argument (\<open>%-*d\<close>, \<open>%#0*x\<close> and the like), a string and a character.\<close>

datatype conversion = Conv_d | Conv_u | Conv_o | Conv_x | Conv_X

datatype piece = Lit "u8 list" | Dec u32 | Num "flag list" u32 conversion u32 | Str u32 | Chr u32

fun flag_char :: "flag \<Rightarrow> u8" where
  "flag_char LEFT = 45" | "flag_char PLUS = 43" | "flag_char SPACE = 32" | "flag_char SPECIAL = 35"
| "flag_char ZEROPAD = 48" | "flag_char _ = 0"

fun conv_char :: "conversion \<Rightarrow> u8" where
  "conv_char Conv_d = 100" | "conv_char Conv_u = 117" | "conv_char Conv_o = 111" | "conv_char Conv_x = 120"
| "conv_char Conv_X = 88"

fun conv_base :: "conversion \<Rightarrow> nat" where
  "conv_base Conv_d = 10" | "conv_base Conv_u = 10" | "conv_base Conv_o = 8" | "conv_base _ = 16"

fun conv_flags :: "conversion \<Rightarrow> flag set" where
  "conv_flags Conv_d = {SIGN}" | "conv_flags Conv_x = {SMALL}" | "conv_flags _ = {}"

fun fmt_of :: "piece \<Rightarrow> u8 list" where
  "fmt_of (Lit s) = s"
| "fmt_of (Dec a) = [37, 100]"
| "fmt_of (Num fs w c a) = 37 # map flag_char fs @ [42, conv_char c]"
| "fmt_of (Str a) = [37, 115]"
| "fmt_of (Chr a) = [37, 99]"

fun args_of :: "piece \<Rightarrow> u32 list" where
  "args_of (Lit s) = []" | "args_of (Dec a) = [a]" | "args_of (Num fs w c a) = [w, a]"
| "args_of (Str a) = [a]" | "args_of (Chr a) = [a]"

fun show_of :: "mem \<Rightarrow> piece \<Rightarrow> u8 list" where
  "show_of m (Lit s) = s"
| "show_of m (Dec a) = layout a 10 (- 1) (- 1) {SIGN}"
| "show_of m (Num fs w c a) = layout a (conv_base c) (sint w) (- 1) (set fs \<union> conv_flags c)"
| "show_of m (Str a) = mread m (unat a) (the (strlen m (unat a)))"
| "show_of m (Chr a) = [ucast a]"

fun piece_ok :: "mem \<Rightarrow> piece \<Rightarrow> bool" where
  "piece_ok m (Lit s) \<longleftrightarrow> 37 \<notin> set s"
| "piece_ok m (Num fs w c a) \<longleftrightarrow> 0 \<le> sint w \<and> set fs \<subseteq> {LEFT, PLUS, SPACE, SPECIAL, ZEROPAD}"
| "piece_ok m (Str a) \<longleftrightarrow> strlen m (unat a) \<noteq> None"
| "piece_ok m _ \<longleftrightarrow> True"

lemma scan_flags_map:
  "set fs \<subseteq> {LEFT, PLUS, SPACE, SPECIAL, ZEROPAD} \<Longrightarrow>
   scan_flags (map flag_char fs @ 42 # rest) F = (F \<union> set fs, 42 # rest)"
proof (induction fs arbitrary: F)
  case (Cons f fs)
  then show ?case by (cases f) auto
qed simp

lemma vloop_step:
  assumes "scan_flags fmt {} = (F, fmt1)" and "scan_width fmt1 F args = Some (width, F', fmt2, args1)"
    and "scan_precision fmt2 args1 = Some (precision, fmt3, args2)" and "skip_qualifier fmt3 = d # fmt4"
    and "convert m d F' width precision out args2 w = Some (out', args3, w')"
  shows "vloop m (37 # fmt) out args w = vloop m fmt4 out' args3 w'"
  using assms by (simp add: vloop.simps [of m "37 # fmt"])

lemma vloop_piece:
  assumes "piece_ok m p"
  shows "vloop m (fmt_of p @ fmt) out (args_of p @ args) w = vloop m fmt (out @ show_of m p) args w"
proof (cases p)
  case (Lit s)
  have "37 \<notin> set s \<Longrightarrow> vloop m (s @ fmt) out args w = vloop m fmt (out @ s) args w"
    by (induction s arbitrary: out) (simp_all add: vloop.simps [of m "_ # _"])
  with Lit assms show ?thesis by simp
next
  case (Dec a)
  have "number a 10 (- 1) (- 1) {SIGN} = Some (layout a 10 (- 1) (- 1) {SIGN})" by (simp add: number_layout)
  then show ?thesis unfolding Dec fmt_of.simps append_Cons append_Nil
    by (subst vloop_step [of _ "{}" "100 # fmt" _ "- 1" "{}" "100 # fmt" "a # args" "- 1" "100 # fmt" "a # args" 100 fmt
          m out w "out @ layout a 10 (- 1) (- 1) {SIGN}" args w])
      (simp_all add: scan_width_def scan_precision_def skip_qualifier_def convert_def is_digit_def)
next
  case (Num fs wd c a)
  have F: "scan_flags (map flag_char fs @ 42 # conv_char c # fmt) {} = (set fs, 42 # conv_char c # fmt)"
    using assms Num scan_flags_map [of fs] by simp
  have W: "scan_width (42 # conv_char c # fmt) (set fs) (wd # a # args) = Some (sint wd, set fs, conv_char c # fmt, a # args)"
    using assms Num by (simp add: scan_width_def is_digit_def)
  have P: "scan_precision (conv_char c # fmt) (a # args) = Some (- 1, conv_char c # fmt, a # args)"
    by (cases c) (simp_all add: scan_precision_def)
  have Q: "skip_qualifier (conv_char c # fmt) = conv_char c # fmt" by (cases c) (simp_all add: skip_qualifier_def)
  have C: "convert m (conv_char c) (set fs) (sint wd) (- 1) out (a # args) w
      = Some (out @ layout a (conv_base c) (sint wd) (- 1) (set fs \<union> conv_flags c), args, w)"
    by (cases c) (simp_all add: convert_def number_layout)
  from vloop_step [OF F W P Q C] show ?thesis by (simp add: Num)
next
  case (Str a)
  then obtain n where n: "strlen m (unat a) = Some n" using assms by auto
  then show ?thesis unfolding Str fmt_of.simps append_Cons append_Nil
    by (subst vloop_step [of _ "{}" "115 # fmt" _ "- 1" "{}" "115 # fmt" "a # args" "- 1" "115 # fmt" "a # args" 115 fmt
          m out w "out @ mread m (unat a) n" args w])
      (simp_all add: scan_width_def scan_precision_def skip_qualifier_def convert_def is_digit_def pad_def)
next
  case (Chr a)
  then show ?thesis unfolding Chr fmt_of.simps append_Cons append_Nil
    by (subst vloop_step [of _ "{}" "99 # fmt" _ "- 1" "{}" "99 # fmt" "a # args" "- 1" "99 # fmt" "a # args" 99 fmt
          m out w "out @ [ucast a]" args w])
      (simp_all add: scan_width_def scan_precision_def skip_qualifier_def convert_def is_digit_def pad_def)
qed

lemma vloop_pieces:
  "\<forall>p\<in>set ps. piece_ok m p \<Longrightarrow>
   vloop m (concat (map fmt_of ps)) out (concat (map args_of ps)) w = Some (out @ concat (map (show_of m) ps), w)"
proof (induction ps arbitrary: out)
  case Nil
  then show ?case by (simp add: vloop.simps)
next
  case (Cons p ps)
  then show ?case by (simp add: vloop_piece)
qed

section \<open>Properties\<close>

text \<open>C35. Formatted output is what the format says: the plain text, the numbers in their base with
  sign, prefix, width and flags, the strings and the characters, one after the other, with the
  terminator behind and its length as the result.\<close>

theorem vsprintf_formats:
  assumes "\<forall>p\<in>set ps. piece_ok m p" and "length (concat (map (show_of m) ps)) < 1024"
  shows "vsprintf m (concat (map fmt_of ps)) (concat (map args_of ps)) =
    Some (length (concat (map (show_of m) ps)), concat (map (show_of m) ps) @ [EOS], [])"
  using assms vloop_pieces [of ps m "[]" "[]"] by (simp add: vsprintf_def)

lemma vsprintf_formats_witness:
  "vsprintf (\<lambda>_. 0) [120, 61, 37, 35, 48, 42, 120, 37, 100] [8, 255, - 5] =
    Some (12, map chr8 ''x=0x0000ff-5'' @ [0], [])"
proof -
  let ?ps = "[Lit [120, 61], Num [SPECIAL, ZEROPAD] 8 Conv_x 255, Dec (- 5)]"
  have d: "shown 16 True 255 = [102, 102]" "shown 10 False 5 = [53]"
    by (simp_all add: shown_def num_loop_pos digits_eq nth_append)
  have n: "sint (- 5 :: u32) = - 5" by simp
  have p: "replicate 4 48 = [48, 48, 48, 48 :: u8]" by code_simp
  have l: "layout 255 16 8 (- 1) {SPECIAL, ZEROPAD, SMALL} = [48, 120, 48, 48, 48, 48, 102, 102]"
    by (simp add: layout_def Let_def neg_num_def sign_of_def prefix_of_def d pad_def p)
  have m: "layout (- 5) 10 (- 1) (- 1) {SIGN} = [45, 53]"
    by (simp add: layout_def Let_def neg_num_def sign_of_def prefix_of_def d pad_def n)
  have s: "concat (map (show_of (\<lambda>_. 0)) ?ps) = map chr8 ''x=0x0000ff-5''"
    using l m by (simp add: chr8_def insert_commute)
  have "\<forall>p\<in>set ?ps. piece_ok (\<lambda>_. 0) p" by simp
  note f = vsprintf_formats [OF this, unfolded s]
  have "concat (map fmt_of ?ps) = [120, 61, 37, 35, 48, 42, 120, 37, 100]"
    "concat (map args_of ?ps) = [8, 255, - 5]" "length (map chr8 ''x=0x0000ff-5'') = 12" by simp_all
  with f show ?thesis by (simp only:)
qed

text \<open>The digits of a decimal number, and their value as \<open>atoi\<close> reads them.\<close>

lemma decimal_digit: "k < 10 \<Longrightarrow> is_digit8 (upper_digits ! k)"
proof -
  have "list_all (\<lambda>k. 48 \<le> unat (upper_digits ! k) \<and> unat (upper_digits ! k) \<le> 57) [0..<10]"
    unfolding digits_eq by code_simp
  then show "k < 10 \<Longrightarrow> is_digit8 (upper_digits ! k)" unfolding list_all_iff is_digit8_def by simp
qed

lemma num_loop_digit:
  "c \<in> set (num_loop upper_digits 10 n) \<Longrightarrow> is_digit8 c"
proof (induction n rule: less_induct)
  case (less n)
  show ?case
  proof (cases "n = 0")
    case False
    have "is_digit8 (upper_digits ! (n mod 10))" by (simp add: decimal_digit)
    moreover have "n div 10 < n" using False by simp
    note less.IH [OF this]
    ultimately show ?thesis using less.prems False by (auto simp: num_loop_pos)
  qed (use less in simp)
qed

lemma shown_digits: "\<forall>c\<in>set (shown 10 False n). is_digit8 c"
  using num_loop_digit by (auto simp: shown_def is_digit8_def)

lemma dec_value_num: "\<forall>c\<in>set s. is_digit8 c \<Longrightarrow> dec_value acc s = num_value 10 acc s"
  by (induction s arbitrary: acc) (auto simp: digit_val_def is_digit8_def)

lemma dec_value_shown: "dec_value 0 (shown 10 False n) = n"
  using shown_value [of 10 False n] dec_value_num [OF shown_digits] by simp

lemma sint_unat: "0 \<le> sint n \<Longrightarrow> int (unat n) = sint n" for n :: u32
proof -
  assume "0 \<le> sint n"
  moreover have "sint n < 2147483648" using sint_range_size [of n] by (simp add: size_word_def)
  ultimately have "uint n = sint n" by (simp add: uint_sint take_bit_int_eq_self)
  then show ?thesis by simp
qed

text \<open>C36. Printing and reading are inverse: \<open>atoi\<close> reads back the number that \<open>%d\<close> has written, for
  every \<open>int\<close> but the least one.\<close>

theorem print_read_roundtrip:
  assumes "sint n \<noteq> - 2147483648"
    and "vsprintf m (fmt_of (Dec n)) [n] = Some (k, s @ [EOS], w)" and "cstr m' p s" and "p \<noteq> NULL"
  shows "atoi m' p = Some (sint n)"
proof -
  have r: "- 2147483648 \<le> sint n" "sint n < 2147483648" using sint_range_size [of n] by (simp_all add: size_word_def)
  have s: "s = layout n 10 (- 1) (- 1) {SIGN}"
    using assms(2) vloop_pieces [of "[Dec n]" m "[]" "[]"] by (simp add: vsprintf_def)
  show ?thesis
  proof (cases "sint n < 0")
    case True
    have u: "int (unat (- n)) = - sint n"
    proof -
      have "sint (- n) = - sint n"
        using True r assms(1) by (simp add: sint_word_ariths signed_take_bit_int_eq_self)
      then show ?thesis using True sint_unat [of "- n"] by simp
    qed
    have "s = 45 # shown 10 False (unat (- n))"
      using True by (simp add: s layout_def Let_def neg_num_def sign_of_def prefix_of_def pad_def)
    moreover have "dec_value 0 (shown 10 False (unat (- n))) < 2147483648"
      unfolding dec_value_shown using u r(1) assms(1) by linarith
    ultimately have "atoi m' p = Some (- int (dec_value 0 (shown 10 False (unat (- n)))))"
      using assms(3,4) shown_digits by (intro atoi_neg_digits) simp_all
    then show ?thesis unfolding dec_value_shown u by simp
  next
    case False
    then have u: "int (unat n) = sint n" using sint_unat [of n] by linarith
    have "s = shown 10 False (unat n)"
      using False by (simp add: s layout_def Let_def neg_num_def sign_of_def prefix_of_def pad_def)
    moreover have "dec_value 0 (shown 10 False (unat n)) < 2147483648"
      unfolding dec_value_shown using u r(2) by linarith
    ultimately have "atoi m' p = Some (int (dec_value 0 (shown 10 False (unat n))))"
      using assms(3,4) shown_digits by (intro atoi_digits) simp_all
    then show ?thesis unfolding dec_value_shown u by simp
  qed
qed

lemma print_read_roundtrip_witness:
  "atoi (mwrite (\<lambda>_. 0) 100 [45, 53, 0]) 100 = Some (- 5)"
proof -
  have d: "shown 10 False 5 = [53]" by (simp add: shown_def num_loop_pos digits_eq nth_append)
  have n: "sint (- 5 :: u32) = - 5" by simp
  have "layout (- 5) 10 (- 1) (- 1) {SIGN} = [45, 53]"
    by (simp add: layout_def Let_def neg_num_def sign_of_def prefix_of_def d pad_def n)
  then have "vsprintf (\<lambda>_. 0) (fmt_of (Dec (- 5))) [- 5] = Some (2, [45, 53] @ [EOS], [])"
    using vloop_pieces [of "[Dec (- 5)]" "\<lambda>_. 0" "[]" "[]"] by (simp add: vsprintf_def)
  from print_read_roundtrip [OF _ this, of "mwrite (\<lambda>_. 0) 100 [45, 53, 0]" 100] show ?thesis by (simp add: n)
qed

text \<open>A precision that is an argument, as in \<open>%.*d\<close>, is not understood: the asterisk is not
  skipped and taken for the conversion, and the number is never printed.\<close>

theorem precision_argument_lost:
  "vsprintf m [37, 46, 42, 100] [p, a] = Some (3, [37, 42, 100] @ [EOS], [])"
  by (simp add: vsprintf_def vloop.simps [of m "37 # _"] vloop.simps [of m "100 # _"] vloop.simps [of m "[]"]
      scan_width_def scan_precision_def skip_qualifier_def convert_def is_digit_def)

end
