(* ===== verification/Buffer.thy ===== *)
theory Buffer
  imports Prelude
begin

text \<open>
  \<open>src/src/kernel/buffer.c\<close>: the cache of disk blocks. A buffer is known by its number in the area
  of buffers, the hash table is a list of 31 lists of them, and the data is a list of 1024 bytes. The
  disk holds, for every device and start sector, the 1024 bytes of the two sectors there; that
  \<open>device_request\<close> transfers them is the subject of \<open>Device\<close>. The functions run for one task at a
  time; where the code waits for a buffer to be released, the model does not return.
\<close>

section \<open>The code\<close>

record buffer_t =
  bdata :: "u8 list"
  bdev :: int
  bblock :: nat
  bcount :: int
  dirty :: bool
  valid :: bool

record bcache =
  bufs :: "buffer_t list"
  htable :: "nat list list"
  free_list :: "nat list"
  disk :: "int \<Rightarrow> nat \<Rightarrow> u8 list"

definition HASH_COUNT :: nat where "HASH_COUNT = 31"
definition BLOCK_SIZE :: nat where "BLOCK_SIZE = 1024"
definition BLOCK_SECS :: nat where "BLOCK_SECS = 2"
definition KERNEL_BUFFER_MEM :: nat where "KERNEL_BUFFER_MEM = 0x800000"
definition KERNEL_BUFFER_SIZE :: nat where "KERNEL_BUFFER_SIZE = 0x400000"
definition BUFFER_T_SIZE :: nat where "BUFFER_T_SIZE = 64"

definition hash :: "int \<Rightarrow> nat \<Rightarrow> nat" where
  "hash dev block = unat (word_of_int dev XOR of_nat block :: u32) mod HASH_COUNT"

definition buf_set :: "nat \<Rightarrow> (buffer_t \<Rightarrow> buffer_t) \<Rightarrow> bcache \<Rightarrow> bcache" where
  "buf_set p f s = s\<lparr>bufs := (bufs s)[p := f (bufs s ! p)]\<rparr>"

fun find_buf :: "buffer_t list \<Rightarrow> int \<Rightarrow> nat \<Rightarrow> nat list \<Rightarrow> nat option" where
  "find_buf bs dev block [] = None"
| "find_buf bs dev block (p # ps) =
     (if bdev (bs ! p) = dev \<and> bblock (bs ! p) = block then Some p else find_buf bs dev block ps)"

definition get_from_hash_table :: "int \<Rightarrow> nat \<Rightarrow> bcache \<Rightarrow> nat option \<times> bcache" where
  "get_from_hash_table dev block s =
     (case find_buf (bufs s) dev block (htable s ! hash dev block) of
        None \<Rightarrow> (None, s)
      | Some p \<Rightarrow> (Some p, if p \<in> set (free_list s) then s\<lparr>free_list := remove1 p (free_list s)\<rparr> else s))"

definition hash_locate :: "nat \<Rightarrow> bcache \<Rightarrow> bcache option" where
  "hash_locate p s = do {
     let i = hash (bdev (bufs s ! p)) (bblock (bufs s ! p));
     cassert (p \<notin> set (htable s ! i));
     Some (s\<lparr>htable := (htable s)[i := p # htable s ! i]\<rparr>) }"

definition hash_remove :: "nat \<Rightarrow> bcache \<Rightarrow> bcache option" where
  "hash_remove p s = do {
     let i = hash (bdev (bufs s ! p)) (bblock (bufs s ! p));
     cassert (p \<in> set (htable s ! i));
     Some (s\<lparr>htable := (htable s)[i := remove1 p (htable s ! i)]\<rparr>) }"

text \<open>The records grow from the start of the area, the data blocks from its end.\<close>

definition has_room :: "bcache \<Rightarrow> bool" where
  "has_room s \<longleftrightarrow> KERNEL_BUFFER_MEM + length (bufs s) * BUFFER_T_SIZE + BUFFER_T_SIZE
     < KERNEL_BUFFER_MEM + KERNEL_BUFFER_SIZE - BLOCK_SIZE - length (bufs s) * BLOCK_SIZE"

definition get_new_buffer :: "bcache \<Rightarrow> nat option \<times> bcache" where
  "get_new_buffer s =
     (if has_room s
      then (Some (length (bufs s)), s\<lparr>bufs := bufs s @ [\<lparr>bdata = replicate BLOCK_SIZE 0, bdev = - 1, bblock = 0,
        bcount = 0, dirty = False, valid = False\<rparr>]\<rparr>)
      else (None, s))"

definition get_free_buffer :: "bcache \<Rightarrow> (nat \<times> bcache) option" where
  "get_free_buffer s =
     (case get_new_buffer s of
        (Some p, s) \<Rightarrow> Some (p, s)
      | (None, s) \<Rightarrow>
          if free_list s \<noteq> []
          then do {
            let p = last (free_list s);
            let s = s\<lparr>free_list := butlast (free_list s)\<rparr>;
            s \<leftarrow> hash_remove p s;
            Some (p, buf_set p (\<lambda>b. b\<lparr>valid := False\<rparr>) s) }
          else None)"

definition getblk :: "int \<Rightarrow> nat \<Rightarrow> bcache \<Rightarrow> (nat \<times> bcache) option" where
  "getblk dev block s =
     (case get_from_hash_table dev block s of
        (Some p, s) \<Rightarrow> Some (p, buf_set p (\<lambda>b. b\<lparr>bcount := bcount b + 1\<rparr>) s)
      | (None, s) \<Rightarrow> do {
          (p, s) \<leftarrow> get_free_buffer s;
          cassert (bcount (bufs s ! p) = 0);
          cassert (\<not> dirty (bufs s ! p));
          let s = buf_set p (\<lambda>b. b\<lparr>bcount := 1, bdev := dev, bblock := block\<rparr>) s;
          s \<leftarrow> hash_locate p s;
          Some (p, s) })"

definition sector :: "nat \<Rightarrow> nat" where
  "sector block = w32 (block * BLOCK_SECS)"

definition bread :: "int \<Rightarrow> nat \<Rightarrow> bcache \<Rightarrow> (nat \<times> bcache) option" where
  "bread dev block s = do {
     (p, s) \<leftarrow> getblk dev block s;
     if valid (bufs s ! p) then Some (p, s)
     else Some (p, buf_set p (\<lambda>b. b\<lparr>bdata := disk s (bdev b) (sector (bblock b)), dirty := False, valid := True\<rparr>) s) }"

definition bwrite :: "nat \<Rightarrow> bcache \<Rightarrow> bcache" where
  "bwrite p s =
     (let b = bufs s ! p
      in if \<not> dirty b then s
         else buf_set p (\<lambda>b. b\<lparr>dirty := False, valid := True\<rparr>)
           (s\<lparr>disk := (disk s)(bdev b := (disk s (bdev b))(sector (bblock b) := bdata b))\<rparr>))"

definition brelse :: "nat option \<Rightarrow> bcache \<Rightarrow> bcache option" where
  "brelse bf s =
     (case bf of
        None \<Rightarrow> Some s
      | Some p \<Rightarrow> do {
          let s = bwrite p s;
          let s = buf_set p (\<lambda>b. b\<lparr>bcount := bcount b - 1\<rparr>) s;
          cassert (bcount (bufs s ! p) \<ge> 0);
          if bcount (bufs s ! p) \<noteq> 0 then Some s
          else do {
            cassert (p \<notin> set (free_list s));
            Some (s\<lparr>free_list := p # free_list s\<rparr>) } })"

definition buffer_init :: "bcache \<Rightarrow> bcache" where
  "buffer_init s = s\<lparr>free_list := [], htable := replicate HASH_COUNT []\<rparr>"

text \<open>A change of the data of a buffer, as the file system makes it.\<close>

definition bmodify :: "nat \<Rightarrow> (u8 list \<Rightarrow> u8 list) \<Rightarrow> bcache \<Rightarrow> bcache" where
  "bmodify p f s = buf_set p (\<lambda>b. b\<lparr>bdata := f (bdata b), dirty := True\<rparr>) s"

section \<open>The invariant\<close>

definition buf_ok :: "bcache \<Rightarrow> buffer_t \<Rightarrow> bool" where
  "buf_ok s b \<longleftrightarrow> valid b \<and> 0 \<le> bcount b \<and> bblock b < 2147483648 \<and>
     (bcount b = 0 \<longrightarrow> \<not> dirty b \<and> bdata b = disk s (bdev b) (sector (bblock b)))"

text \<open>A buffer is loose when its data have changed and it is not marked: releasing it would lose the
  change.\<close>

definition loose :: "bcache \<Rightarrow> nat \<Rightarrow> bool" where
  "loose s p \<longleftrightarrow> \<not> dirty (bufs s ! p) \<and>
     bdata (bufs s ! p) \<noteq> disk s (bdev (bufs s ! p)) (sector (bblock (bufs s ! p)))"

text \<open>\<open>at s p dev block\<close>: buffer \<open>p\<close> is that of the block.\<close>

definition at :: "bcache \<Rightarrow> nat \<Rightarrow> int \<Rightarrow> nat \<Rightarrow> bool" where
  "at s p dev block \<longleftrightarrow> p < length (bufs s) \<and> bdev (bufs s ! p) = dev \<and> bblock (bufs s ! p) = block"

text \<open>The hash table with the exception of the buffers \<open>X\<close>.\<close>

definition htab_ok :: "nat set \<Rightarrow> bcache \<Rightarrow> bool" where
  "htab_ok X s \<longleftrightarrow> length (htable s) = HASH_COUNT \<and> (\<forall>i<HASH_COUNT. distinct (htable s ! i)) \<and>
     (\<forall>i<HASH_COUNT. \<forall>p. p \<in> set (htable s ! i) \<longleftrightarrow>
        p < length (bufs s) \<and> p \<notin> X \<and> hash (bdev (bufs s ! p)) (bblock (bufs s ! p)) = i)"

definition binv :: "bcache \<Rightarrow> bool" where
  "binv s \<longleftrightarrow> htab_ok {} s \<and> (\<forall>p<length (bufs s). buf_ok s (bufs s ! p)) \<and>
     (\<forall>p q dev block. at s p dev block \<longrightarrow> at s q dev block \<longrightarrow> p = q) \<and>
     distinct (free_list s) \<and> set (free_list s) = {p. p < length (bufs s) \<and> bcount (bufs s ! p) = 0}"

text \<open>The blocks as the users of the cache see them.\<close>

definition view :: "bcache \<Rightarrow> int \<Rightarrow> nat \<Rightarrow> u8 list" where
  "view s dev block =
     (case find (\<lambda>p. bdev (bufs s ! p) = dev \<and> bblock (bufs s ! p) = block) [0..<length (bufs s)] of
        Some p \<Rightarrow> bdata (bufs s ! p) | None \<Rightarrow> disk s dev (sector block))"

lemma view_at:
  assumes "binv s" and "at s p dev block"
  shows "view s dev block = bdata (bufs s ! p)"
proof -
  let ?P = "\<lambda>p. bdev (bufs s ! p) = dev \<and> bblock (bufs s ! p) = block"
  have "p \<in> set [0..<length (bufs s)]" "?P p" using assms(2) by (auto simp: at_def)
  then obtain q where q: "find ?P [0..<length (bufs s)] = Some q" by (metis (mono_tags, lifting) find_None_iff option.exhaust)
  then have "at s q dev block" by (auto simp: find_Some_iff at_def)
  then have "q = p" using assms unfolding binv_def by blast
  with q show ?thesis by (simp add: view_def)
qed

lemma view_not_at: "(\<And>p. \<not> at s p dev block) \<Longrightarrow> view s dev block = disk s dev (sector block)"
proof -
  assume a: "\<And>p. \<not> at s p dev block"
  have "find (\<lambda>p. bdev (bufs s ! p) = dev \<and> bblock (bufs s ! p) = block) [0..<length (bufs s)] = None"
    using a by (auto simp: find_None_iff at_def)
  then show ?thesis by (simp add: view_def)
qed

section \<open>The invariant is kept\<close>

lemma hash_less: "hash dev block < HASH_COUNT"
  by (simp add: hash_def HASH_COUNT_def)

lemma find_buf_Some: "find_buf bs dev block ps = Some p \<Longrightarrow> p \<in> set ps \<and> bdev (bs ! p) = dev \<and> bblock (bs ! p) = block"
  by (induction ps) (auto split: if_splits)

lemma find_buf_None: "find_buf bs dev block ps = None \<Longrightarrow> p \<in> set ps \<Longrightarrow> \<not> (bdev (bs ! p) = dev \<and> bblock (bs ! p) = block)"
  by (induction ps) (auto split: if_splits)

lemma binvD:
  assumes "binv s"
  shows "htab_ok {} s" "p < length (bufs s) \<Longrightarrow> buf_ok s (bufs s ! p)" "at s p dev block \<Longrightarrow> at s q dev block \<Longrightarrow> p = q"
    "distinct (free_list s)" "p \<in> set (free_list s) \<longleftrightarrow> p < length (bufs s) \<and> bcount (bufs s ! p) = 0"
  using assms unfolding binv_def by blast+

lemma htabD:
  assumes "htab_ok X s"
  shows "length (htable s) = HASH_COUNT" "i < HASH_COUNT \<Longrightarrow> distinct (htable s ! i)"
    "i < HASH_COUNT \<Longrightarrow> p \<in> set (htable s ! i) \<longleftrightarrow>
      p < length (bufs s) \<and> p \<notin> X \<and> hash (bdev (bufs s ! p)) (bblock (bufs s ! p)) = i"
  using assms unfolding htab_ok_def by blast+

lemma find_buf_at:
  assumes "binv s"
  shows "find_buf (bufs s) dev block (htable s ! hash dev block) = Some p \<longleftrightarrow> at s p dev block"
    and "find_buf (bufs s) dev block (htable s ! hash dev block) = None \<longleftrightarrow> (\<forall>p. \<not> at s p dev block)"
proof -
  note h = htabD(3) [OF binvD(1) [OF assms] hash_less [of dev block]]
  have in_at: "find_buf (bufs s) dev block (htable s ! hash dev block) = Some q \<Longrightarrow> at s q dev block" for q
    using find_buf_Some [of "bufs s" dev block _ q] h [of q] by (auto simp: at_def)
  have none: "\<not> at s q dev block" if "find_buf (bufs s) dev block (htable s ! hash dev block) = None" for q
    using find_buf_None [OF that, of q] h [of q] by (auto simp: at_def)
  show "find_buf (bufs s) dev block (htable s ! hash dev block) = Some p \<longleftrightarrow> at s p dev block"
    using in_at none binvD(3) [OF assms] by (cases "find_buf (bufs s) dev block (htable s ! hash dev block)") auto
  show "find_buf (bufs s) dev block (htable s ! hash dev block) = None \<longleftrightarrow> (\<forall>p. \<not> at s p dev block)"
    using in_at none by (cases "find_buf (bufs s) dev block (htable s ! hash dev block)") auto
qed

lemma bufs_buf_set [simp]:
  "length (bufs (buf_set p f s)) = length (bufs s)" "htable (buf_set p f s) = htable s"
  "free_list (buf_set p f s) = free_list s" "disk (buf_set p f s) = disk s"
  "p < length (bufs s) \<Longrightarrow> bufs (buf_set p f s) ! p = f (bufs s ! p)"
  "q \<noteq> p \<Longrightarrow> bufs (buf_set p f s) ! q = bufs s ! q"
  by (simp_all add: buf_set_def)

lemma at_buf_set:
  "(\<And>b. bdev (f b) = bdev b \<and> bblock (f b) = bblock b) \<Longrightarrow> at (buf_set p f s) q dev block \<longleftrightarrow> at s q dev block"
  by (cases "q = p"; cases "q < length (bufs s)") (simp_all add: at_def)

lemma htab_buf_set:
  assumes "\<And>b. bdev (f b) = bdev b \<and> bblock (f b) = bblock b"
  shows "htab_ok X (buf_set p f s) \<longleftrightarrow> htab_ok X s"
proof -
  have "bdev (bufs (buf_set p f s) ! q) = bdev (bufs s ! q) \<and> bblock (bufs (buf_set p f s) ! q) = bblock (bufs s ! q)"
    if "q < length (bufs s)" for q
    using that assms by (cases "q = p") simp_all
  then show ?thesis unfolding htab_ok_def by (simp cong: conj_cong)
qed

text \<open>One buffer changes, but not its block.\<close>

lemma binv_buf_set:
  assumes "binv s" and "p < length (bufs s)" and "\<And>b. bdev (f b) = bdev b \<and> bblock (f b) = bblock b"
    and "buf_ok (s\<lparr>disk := D\<rparr>) (f (bufs s ! p))"
    and "\<And>q. q < length (bufs s) \<Longrightarrow> q \<noteq> p \<Longrightarrow>
      D (bdev (bufs s ! q)) (sector (bblock (bufs s ! q))) = disk s (bdev (bufs s ! q)) (sector (bblock (bufs s ! q)))"
    and "distinct F" and "\<And>q. q \<noteq> p \<Longrightarrow> q \<in> set F \<longleftrightarrow> q \<in> set (free_list s)"
    and "p \<in> set F \<longleftrightarrow> bcount (f (bufs s ! p)) = 0"
  shows "binv (buf_set p f (s\<lparr>disk := D, free_list := F\<rparr>))"
proof -
  let ?s = "buf_set p f (s\<lparr>disk := D, free_list := F\<rparr>)"
  have b: "bufs ?s ! q = (if q = p then f (bufs s ! p) else bufs s ! q)" if "q < length (bufs s)" for q
    using that by simp
  have "htab_ok {} ?s" using binvD(1) [OF assms(1)] assms(3) by (subst htab_buf_set) (simp_all add: htab_ok_def)
  moreover have at: "at ?s q dev block \<longleftrightarrow> at s q dev block" for q dev block
    using assms(3) by (subst at_buf_set) (simp_all add: at_def)
  moreover have "buf_ok ?s (bufs ?s ! q)" if q: "q < length (bufs ?s)" for q
    using binvD(2) [OF assms(1), of q] assms(4) assms(5) [of q] q by (simp add: b buf_ok_def)
  moreover have "set F = {q. q < length (bufs ?s) \<and> bcount (bufs ?s ! q) = 0}"
  proof (rule set_eqI)
    fix q
    show "q \<in> set F \<longleftrightarrow> q \<in> {q. q < length (bufs ?s) \<and> bcount (bufs ?s ! q) = 0}"
      using assms(2,7,8) binvD(5) [OF assms(1), of q] by (cases "q = p") auto
  qed
  ultimately show ?thesis
    using assms(6) binvD(3) [OF assms(1)] unfolding binv_def at by simp
qed

lemma sector_inj: "a < 2147483648 \<Longrightarrow> b < 2147483648 \<Longrightarrow> sector a = sector b \<longleftrightarrow> a = b"
  by (simp add: sector_def BLOCK_SECS_def)

lemma view_buf_set:
  assumes "\<And>b. bdev (f b) = bdev b \<and> bblock (f b) = bblock b \<and> bdata (f b) = bdata b"
  shows "view (buf_set p f s) = view s"
proof (intro ext)
  fix dev block
  have "bdev (bufs (buf_set p f s) ! q) = bdev (bufs s ! q) \<and> bblock (bufs (buf_set p f s) ! q) = bblock (bufs s ! q) \<and>
    bdata (bufs (buf_set p f s) ! q) = bdata (bufs s ! q)" for q
    using assms by (cases "q = p"; cases "q < length (bufs s)") (simp_all add: buf_set_def list_update_beyond)
  then show "view (buf_set p f s) dev block = view s dev block" by (simp add: view_def cong: option.case_cong)
qed

lemma view_upd [simp]: "view (s\<lparr>free_list := F\<rparr>) = view s" "view (s\<lparr>htable := H\<rparr>) = view s"
  by (intro ext; simp add: view_def cong: option.case_cong)+

definition same_view :: "bcache \<Rightarrow> bcache \<Rightarrow> bool" where
  "same_view s s' \<longleftrightarrow> (\<forall>dev block. block < 2147483648 \<longrightarrow> view s' dev block = view s dev block)"

lemma bwrite_ok:
  assumes "binv s" and "p < length (bufs s)"
  shows "binv (bwrite p s) \<and> same_view s (bwrite p s) \<and> length (bufs (bwrite p s)) = length (bufs s) \<and>
    free_list (bwrite p s) = free_list s \<and> bufs (bwrite p s) ! p = (bufs s ! p)\<lparr>dirty := False\<rparr> \<and>
    (\<forall>q. q \<noteq> p \<longrightarrow> bufs (bwrite p s) ! q = bufs s ! q) \<and>
    (\<forall>q<length (bufs s). loose (bwrite p s) q = loose s q) \<and>
    (\<not> loose s p \<longrightarrow> disk (bwrite p s) (bdev (bufs s ! p)) (sector (bblock (bufs s ! p))) = bdata (bufs s ! p))"
proof (cases "dirty (bufs s ! p)")
  case False
  then have "(bufs s ! p)\<lparr>dirty := False\<rparr> = bufs s ! p" by simp
  with assms False show ?thesis by (simp add: bwrite_def same_view_def loose_def)
next
  case True
  let ?b = "bufs s ! p"
  let ?D = "(disk s)(bdev ?b := (disk s (bdev ?b))(sector (bblock ?b) := bdata ?b))"
  let ?f = "\<lambda>b. b\<lparr>dirty := False, valid := True\<rparr>"
  have ok: "buf_ok s ?b" by (rule binvD(2) [OF assms])
  have e: "bwrite p s = buf_set p ?f (s\<lparr>disk := ?D, free_list := free_list s\<rparr>)" using True by (simp add: bwrite_def Let_def)
  have D: "?D (bdev (bufs s ! q)) (sector (bblock (bufs s ! q))) = disk s (bdev (bufs s ! q)) (sector (bblock (bufs s ! q)))"
    if "q < length (bufs s)" "q \<noteq> p" for q
  proof -
    have "\<not> (bdev (bufs s ! q) = bdev ?b \<and> bblock (bufs s ! q) = bblock ?b)"
      using binvD(3) [OF assms(1), of q _ _ p] that assms(2) by (auto simp: at_def)
    with ok binvD(2) [OF assms(1) that(1)] show ?thesis by (auto simp: buf_ok_def sector_inj)
  qed
  have "binv (bwrite p s)"
    unfolding e
    by (rule binv_buf_set [OF assms _ _ D]) (use ok binvD(4,5) [OF assms(1)] assms(2) in \<open>simp_all add: buf_ok_def\<close>)
  moreover have "view (bwrite p s) dev block = view s dev block" if b: "block < 2147483648" for dev block
  proof (cases "\<exists>q. at s q dev block")
    case True
    then obtain q where q: "at s q dev block" by blast
    then have "at (bwrite p s) q dev block" unfolding e by (subst at_buf_set) (simp_all add: at_def)
    moreover have "bdata (bufs (bwrite p s) ! q) = bdata (bufs s ! q)"
      using q unfolding e by (cases "q = p") (simp_all add: at_def)
    ultimately show ?thesis using view_at [OF assms(1) q] view_at [OF \<open>binv (bwrite p s)\<close>] by simp
  next
    case False
    then have n: "\<not> at (bwrite p s) q dev block" for q unfolding e by (subst at_buf_set) (simp_all add: at_def)
    have "\<not> (dev = bdev ?b \<and> block = bblock ?b)" using False assms(2) by (auto simp: at_def)
    then have "disk (bwrite p s) dev (sector block) = disk s dev (sector block)"
      using ok b unfolding e by (auto simp: buf_ok_def sector_inj)
    with n False show ?thesis by (simp add: view_not_at)
  qed
  moreover have "loose (bwrite p s) q = loose s q" if "q < length (bufs s)" for q
    using D [OF that] assms(2) True unfolding e loose_def by (cases "q = p") simp_all
  moreover have "length (bufs (bwrite p s)) = length (bufs s)" "free_list (bwrite p s) = free_list s"
    "bufs (bwrite p s) ! p = ?b\<lparr>dirty := False\<rparr>" "\<forall>q. q \<noteq> p \<longrightarrow> bufs (bwrite p s) ! q = bufs s ! q"
    "disk (bwrite p s) (bdev ?b) (sector (bblock ?b)) = bdata ?b"
    unfolding e using assms(2) ok by (simp_all add: buf_ok_def)
  ultimately show ?thesis by (simp add: same_view_def)
qed

lemma brelse_ok:
  assumes "binv s" and "p < length (bufs s)" and "0 < bcount (bufs s ! p)" and "loose s p \<Longrightarrow> 1 < bcount (bufs s ! p)"
  shows "\<exists>s'. brelse (Some p) s = Some s' \<and> binv s' \<and> same_view s s' \<and> length (bufs s') = length (bufs s) \<and>
    bufs s' ! p = (bufs s ! p)\<lparr>dirty := False, bcount := bcount (bufs s ! p) - 1\<rparr> \<and>
    (\<forall>q. q \<noteq> p \<longrightarrow> bufs s' ! q = bufs s ! q) \<and> (\<forall>q<length (bufs s). loose s' q = loose s q) \<and>
    (\<not> loose s p \<longrightarrow> disk s' (bdev (bufs s ! p)) (sector (bblock (bufs s ! p))) = bdata (bufs s ! p))"
proof -
  let ?s = "bwrite p s"
  let ?f = "\<lambda>b. b\<lparr>bcount := bcount b - 1\<rparr>"
  note w = bwrite_ok [OF assms(1,2)]
  have w': "binv ?s" "p < length (bufs ?s)" "bufs ?s ! p = (bufs s ! p)\<lparr>dirty := False\<rparr>" using w assms(2) by simp_all
  have ok: "buf_ok ?s (bufs ?s ! p)" by (rule binvD(2) [OF w'(1,2)])
  have st: "bcount (bufs s ! p) = 1 \<Longrightarrow> disk ?s (bdev (bufs s ! p)) (sector (bblock (bufs s ! p))) = bdata (bufs s ! p)"
    using w assms(4) by auto
  have nf: "p \<notin> set (free_list ?s)" using binvD(5) [OF w'(1)] assms(3) w'(3) by simp
  define F where "F = (if bcount (bufs s ! p) - 1 = 0 then p # free_list ?s else free_list ?s)"
  let ?s' = "buf_set p ?f (?s\<lparr>disk := disk ?s, free_list := F\<rparr>)"
  have "brelse (Some p) s = Some ?s'"
    using assms(3) w'(2,3) nf by (simp add: brelse_def Let_def F_def) (simp add: buf_set_def)
  moreover have "binv ?s'"
    by (rule binv_buf_set [OF w'(1,2)]) (use ok w'(3) st assms(3) nf binvD(4) [OF w'(1)] in \<open>simp_all add: buf_ok_def F_def\<close>)
  moreover have "view ?s' = view (?s\<lparr>disk := disk ?s, free_list := F\<rparr>)" by (rule view_buf_set) simp
  then have "view ?s' = view ?s" by simp
  then have "same_view s ?s'" using w by (simp add: same_view_def)
  moreover have "loose ?s' q = loose ?s q" if "q < length (bufs s)" for q
    using w'(2) by (cases "q = p") (simp_all add: loose_def)
  ultimately show ?thesis using w w'(2,3) by (intro exI [of _ ?s']) simp
qed

text \<open>A store to the data, with (\<open>k\<close>) or without marking the buffer.\<close>

definition bstore :: "bool \<Rightarrow> nat \<Rightarrow> (u8 list \<Rightarrow> u8 list) \<Rightarrow> bcache \<Rightarrow> bcache" where
  "bstore k p f s = buf_set p (\<lambda>b. b\<lparr>bdata := f (bdata b), dirty := k \<or> dirty b\<rparr>) s"

lemma bmodify_bstore: "bmodify p f s = bstore True p f s"
  by (simp add: bmodify_def bstore_def)

lemma bstore_ok:
  assumes "binv s" and "at s p dev block" and "0 < bcount (bufs s ! p)"
  shows "binv (bstore k p f s) \<and> view (bstore k p f s) dev block = f (view s dev block) \<and>
    (\<forall>d b. (d, b) \<noteq> (dev, block) \<longrightarrow> view (bstore k p f s) d b = view s d b) \<and>
    bufs (bstore k p f s) ! p = (bufs s ! p)\<lparr>bdata := f (bdata (bufs s ! p)), dirty := k \<or> dirty (bufs s ! p)\<rparr> \<and>
    (\<forall>q. q \<noteq> p \<longrightarrow> bufs (bstore k p f s) ! q = bufs s ! q) \<and> length (bufs (bstore k p f s)) = length (bufs s) \<and>
    (\<forall>q. q \<noteq> p \<longrightarrow> loose (bstore k p f s) q = loose s q) \<and>
    (k \<or> dirty (bufs s ! p) \<longrightarrow> \<not> loose (bstore k p f s) p)"
proof -
  let ?s = "bstore k p f s"
  let ?f = "\<lambda>b. b\<lparr>bdata := f (bdata b), dirty := k \<or> dirty b\<rparr>"
  have p: "p < length (bufs s)" using assms(2) by (simp add: at_def)
  have e: "?s = buf_set p ?f (s\<lparr>disk := disk s, free_list := free_list s\<rparr>)" by (simp add: bstore_def)
  have b: "binv ?s"
    unfolding e
    by (rule binv_buf_set [OF assms(1) p])
      (use binvD(2) [OF assms(1) p] binvD(4,5) [OF assms(1)] assms(3) in \<open>simp_all add: buf_ok_def\<close>)
  have at: "at ?s q d c \<longleftrightarrow> at s q d c" for q d c unfolding e by (subst at_buf_set) (simp_all add: at_def)
  have v: "view ?s d c = view s d c" if "(d, c) \<noteq> (dev, block)" for d c
  proof (cases "\<exists>q. at s q d c")
    case True
    then obtain q where q: "at s q d c" by blast
    with that assms(2) have "q \<noteq> p" by (auto simp: at_def)
    then have "bufs ?s ! q = bufs s ! q" by (simp add: bstore_def)
    with view_at [OF assms(1) q] view_at [OF b, of q d c] q at show ?thesis by simp
  next
    case False
    with at show ?thesis by (simp add: view_not_at bstore_def)
  qed
  have "view ?s dev block = f (view s dev block)"
    using view_at [OF assms(1,2)] view_at [OF b, of p dev block] assms(2) at p by (simp add: bstore_def)
  with b v p show ?thesis by (simp add: bstore_def loose_def)
qed

lemma bmodify_ok:
  assumes "binv s" and "at s p dev block" and "0 < bcount (bufs s ! p)"
  shows "binv (bmodify p f s) \<and> view (bmodify p f s) dev block = f (view s dev block) \<and>
    (\<forall>d b. (d, b) \<noteq> (dev, block) \<longrightarrow> view (bmodify p f s) d b = view s d b) \<and>
    bufs (bmodify p f s) ! p = (bufs s ! p)\<lparr>bdata := f (bdata (bufs s ! p)), dirty := True\<rparr> \<and>
    (\<forall>q. q \<noteq> p \<longrightarrow> bufs (bmodify p f s) ! q = bufs s ! q) \<and> length (bufs (bmodify p f s)) = length (bufs s) \<and>
    (\<forall>q. loose (bmodify p f s) q \<longleftrightarrow> q \<noteq> p \<and> loose s q)"
proof -
  have "loose (bstore True p f s) q \<longleftrightarrow> q \<noteq> p \<and> loose s q" for q
    using bstore_ok [OF assms, of True f] by (cases "q = p") simp_all
  then show ?thesis using bstore_ok [OF assms, of True f] unfolding bmodify_bstore by simp
qed

section \<open>Fetching a block\<close>

text \<open>The state while buffer \<open>p\<close> is taken from its old block and not yet in the table.\<close>

definition bloose :: "nat \<Rightarrow> bcache \<Rightarrow> bool" where
  "bloose p s \<longleftrightarrow> htab_ok {p} s \<and> p < length (bufs s) \<and>
     (\<forall>q<length (bufs s). q \<noteq> p \<longrightarrow> buf_ok s (bufs s ! q)) \<and>
     (\<forall>q r dev block. q \<noteq> p \<longrightarrow> r \<noteq> p \<longrightarrow> at s q dev block \<longrightarrow> at s r dev block \<longrightarrow> q = r) \<and>
     distinct (free_list s) \<and> set (free_list s) = {q. q < length (bufs s) \<and> q \<noteq> p \<and> bcount (bufs s ! q) = 0} \<and>
     bcount (bufs s ! p) = 0 \<and> \<not> dirty (bufs s ! p) \<and> \<not> valid (bufs s ! p)"

definition room :: "bcache \<Rightarrow> bool" where
  "room s \<longleftrightarrow> has_room s \<or> free_list s \<noteq> []"

lemma get_free_buffer_ok:
  assumes "binv s" and "room s"
  shows "\<exists>p s'. get_free_buffer s = Some (p, s') \<and> bloose p s' \<and> disk s' = disk s \<and>
    (\<forall>q. q \<noteq> p \<longrightarrow> (q < length (bufs s') \<longleftrightarrow> q < length (bufs s)) \<and> (q < length (bufs s) \<longrightarrow> bufs s' ! q = bufs s ! q)) \<and>
    (p < length (bufs s) \<longrightarrow> bcount (bufs s ! p) = 0)"
proof (cases "has_room s")
  case True
  let ?p = "length (bufs s)"
  let ?b = "\<lparr>bdata = replicate BLOCK_SIZE 0, bdev = - 1, bblock = 0, bcount = 0, dirty = False, valid = False\<rparr>"
  let ?s = "s\<lparr>bufs := bufs s @ [?b]\<rparr>"
  have nth: "bufs ?s ! q = bufs s ! q" if "q < length (bufs s)" for q using that by (simp add: nth_append)
  have "htab_ok {?p} ?s"
    using binvD(1) [OF assms(1)] unfolding htab_ok_def by (auto simp: nth_append)
  moreover have at: "at ?s q dev block \<longleftrightarrow> at s q dev block" if "q \<noteq> ?p" for q dev block
    using that by (auto simp: at_def nth_append)
  have "\<forall>q r dev block. q \<noteq> ?p \<longrightarrow> r \<noteq> ?p \<longrightarrow> at ?s q dev block \<longrightarrow> at ?s r dev block \<longrightarrow> q = r"
  proof (intro allI impI)
    fix q r dev block
    assume a: "q \<noteq> ?p" "r \<noteq> ?p" "at ?s q dev block" "at ?s r dev block"
    show "q = r"
    proof (rule binvD(3) [OF assms(1)])
      show "at s q dev block" using a(3) unfolding at [OF a(1)] .
      show "at s r dev block" using a(4) unfolding at [OF a(2)] .
    qed
  qed
  moreover have "set (free_list ?s) = {q. q < length (bufs ?s) \<and> q \<noteq> ?p \<and> bcount (bufs ?s ! q) = 0}"
  proof (rule set_eqI)
    fix q
    show "q \<in> set (free_list ?s) \<longleftrightarrow> q \<in> {q. q < length (bufs ?s) \<and> q \<noteq> ?p \<and> bcount (bufs ?s ! q) = 0}"
      using binvD(5) [OF assms(1), of q] by (cases "q = ?p") (auto simp: nth_append)
  qed
  ultimately have "bloose ?p ?s"
    using binvD(2,4) [OF assms(1)] by (simp add: bloose_def nth_append buf_ok_def)
  then show ?thesis using True nth by (auto simp: get_free_buffer_def get_new_buffer_def less_Suc_eq)
next
  case False
  with assms(2) have ne: "free_list s \<noteq> []" by (simp add: room_def)
  let ?p = "last (free_list s)"
  let ?i = "hash (bdev (bufs s ! ?p)) (bblock (bufs s ! ?p))"
  let ?s1 = "s\<lparr>free_list := butlast (free_list s), htable := (htable s)[?i := remove1 ?p (htable s ! ?i)]\<rparr>"
  let ?f = "\<lambda>b. b\<lparr>valid := False\<rparr>"
  have p: "?p < length (bufs s)" "bcount (bufs s ! ?p) = 0" using binvD(5) [OF assms(1), of ?p] ne by simp_all
  note H = htabD [OF binvD(1) [OF assms(1)]]
  have in_h: "?p \<in> set (htable s ! ?i)" using H(3) [OF hash_less] p(1) by simp
  have g: "get_free_buffer s = Some (?p, buf_set ?p ?f ?s1)"
    using False ne in_h by (simp add: get_free_buffer_def get_new_buffer_def hash_remove_def Let_def)
  have fl: "free_list s = butlast (free_list s) @ [?p]" using ne by simp
  have d: "distinct (butlast (free_list s) @ [?p])" using binvD(4) [OF assms(1)] fl by simp
  have hs: "(htable s)[?i := remove1 ?p (htable s ! ?i)] ! j = (if j = ?i then remove1 ?p (htable s ! ?i) else htable s ! j)" if "j < HASH_COUNT" for j
    using that H(1) by simp
  have "htab_ok {?p} ?s1"
    unfolding htab_ok_def
  proof (intro conjI allI impI)
    show "length (htable ?s1) = HASH_COUNT" using H(1) by simp
    fix j assume j: "j < HASH_COUNT"
    show "distinct (htable ?s1 ! j)" using H(2) [OF j] H(2) [OF hash_less] by (simp add: hs [OF j])
    fix q
    show "q \<in> set (htable ?s1 ! j) \<longleftrightarrow> q < length (bufs ?s1) \<and> q \<notin> {?p} \<and> hash (bdev (bufs ?s1 ! q)) (bblock (bufs ?s1 ! q)) = j"
      using H(3) [OF j, of q] H(2) [OF hash_less] H(3) [OF hash_less, of q] by (auto simp: hs [OF j])
  qed
  then have h: "htab_ok {?p} (buf_set ?p ?f ?s1)" by (subst htab_buf_set) simp_all
  have at: "at (buf_set ?p ?f ?s1) q dev block \<longleftrightarrow> at s q dev block" for q dev block
    by (subst at_buf_set) (simp_all add: at_def)
  have bn: "bufs (buf_set ?p ?f ?s1) ! q = (if q = ?p then ?f (bufs s ! ?p) else bufs s ! q)" if "q < length (bufs s)" for q
    using that by simp
  have "bloose ?p (buf_set ?p ?f ?s1)"
    unfolding bloose_def at
  proof (intro conjI allI impI)
    show "set (free_list (buf_set ?p ?f ?s1)) = {q. q < length (bufs (buf_set ?p ?f ?s1)) \<and> q \<noteq> ?p \<and> bcount (bufs (buf_set ?p ?f ?s1) ! q) = 0}"
    proof (rule set_eqI)
      fix q
      have "q \<in> set (free_list s) \<longleftrightarrow> q \<in> set (butlast (free_list s)) \<or> q = ?p" using fl by (metis Un_iff empty_set list.simps(15) set_append singleton_iff)
      then show "q \<in> set (free_list (buf_set ?p ?f ?s1)) \<longleftrightarrow> q \<in> {q. q < length (bufs (buf_set ?p ?f ?s1)) \<and> q \<noteq> ?p \<and> bcount (bufs (buf_set ?p ?f ?s1) ! q) = 0}"
        using binvD(5) [OF assms(1), of q] d by (cases "q = ?p") auto
    qed
  qed (use h p binvD(2,3) [OF assms(1)] d in \<open>auto simp: bn buf_ok_def\<close>)
  then show ?thesis using g p
    by (intro exI [of _ ?p] exI [of _ "buf_set ?p ?f ?s1"]) simp
qed

text \<open>The rest of a miss: the buffer gets its block, a place in the table and the data.\<close>

definition settle :: "int \<Rightarrow> nat \<Rightarrow> nat \<Rightarrow> bcache \<Rightarrow> bcache option" where
  "settle dev block p s = do {
     s \<leftarrow> hash_locate p (buf_set p (\<lambda>b. b\<lparr>bcount := 1, bdev := dev, bblock := block\<rparr>) s);
     Some (buf_set p (\<lambda>b. b\<lparr>bdata := disk s (bdev b) (sector (bblock b)), dirty := False, valid := True\<rparr>) s) }"

lemma settle_ok:
  assumes "bloose p s" and "block < 2147483648" and "\<And>q. q \<noteq> p \<Longrightarrow> \<not> at s q dev block"
  defines "b \<equiv> \<lparr>bdata = disk s dev (sector block), bdev = dev, bblock = block, bcount = 1, dirty = False, valid = True\<rparr>"
  shows "\<exists>s'. settle dev block p s = Some s' \<and> binv s' \<and> bufs s' = (bufs s)[p := b] \<and> disk s' = disk s"
proof -
  note L = assms(1) [unfolded bloose_def]
  have p: "p < length (bufs s)" using L by blast
  note H = htabD [OF conjunct1 [OF L]]
  let ?i = "hash dev block"
  have notin: "p \<notin> set (htable s ! ?i)" using H(3) [OF hash_less, of p] by simp
  let ?s = "s\<lparr>htable := (htable s)[?i := p # htable s ! ?i], bufs := (bufs s)[p := b]\<rparr>"
  have full: "x\<lparr>bcount := 1, bdev := dev, bblock := block, bdata := disk s dev (sector block), dirty := False, valid := True\<rparr> = b"
    for x by (cases x) (simp add: b_def)
  have st: "settle dev block p s = Some ?s"
    using p notin by (simp add: settle_def hash_locate_def buf_set_def Let_def full)
  have bn: "bufs ?s ! q = (if q = p then b else bufs s ! q)" if "q < length (bufs s)" for q using that by simp
  have at: "at ?s q d c \<longleftrightarrow> (if q = p then d = dev \<and> c = block else at s q d c)" for q d c
    using p by (auto simp: at_def b_def)
  have "htab_ok {} ?s"
    unfolding htab_ok_def
  proof (intro conjI allI impI)
    show "length (htable ?s) = HASH_COUNT" using H(1) by simp
    fix j assume j: "j < HASH_COUNT"
    have hs: "(htable s)[?i := p # htable s ! ?i] ! j = (if j = ?i then p # htable s ! ?i else htable s ! j)" using j H(1) by simp
    show "distinct (htable ?s ! j)" using H(2) [OF j] H(2) [OF hash_less] notin by (simp add: hs)
    fix q
    show "q \<in> set (htable ?s ! j) \<longleftrightarrow> q < length (bufs ?s) \<and> q \<notin> {} \<and> hash (bdev (bufs ?s ! q)) (bblock (bufs ?s ! q)) = j"
      using H(3) [OF j, of q] p by (cases "q = p") (auto simp: hs b_def)
  qed
  moreover have "buf_ok ?s (bufs ?s ! q)" if "q < length (bufs ?s)" for q
    using L that assms(2) by (cases "q = p") (simp_all add: buf_ok_def b_def)
  moreover have "q = r" if "at ?s q d c" "at ?s r d c" for q r d c
    using that L assms(3) unfolding at by (metis (full_types))
  moreover have "set (free_list ?s) = {q. q < length (bufs ?s) \<and> bcount (bufs ?s ! q) = 0}"
    using L p by (auto simp: b_def nth_list_update)
  ultimately have "binv ?s" using L by (simp add: binv_def)
  with st show ?thesis by (intro exI [of _ ?s]) simp
qed

text \<open>\<open>bread\<close> returns the buffer of the block, with its contents; what the users of the cache see
  does not change, nor does any buffer in use.\<close>

lemma bread_ok:
  assumes "binv s" and "room s \<or> (\<exists>p. at s p dev block)" and "block < 2147483648"
  shows "\<exists>p s'. bread dev block s = Some (p, s') \<and> binv s' \<and> same_view s s' \<and> at s' p dev block \<and>
    bdata (bufs s' ! p) = view s dev block \<and>
    bcount (bufs s' ! p) = (if at s p dev block then bcount (bufs s ! p) + 1 else 1) \<and>
    length (bufs s) \<le> length (bufs s') \<and> disk s' = disk s \<and>
    (\<forall>q<length (bufs s). q \<noteq> p \<longrightarrow> bufs s' ! q = bufs s ! q) \<and>
    (\<forall>q. q \<noteq> p \<longrightarrow> (q < length (bufs s') \<longleftrightarrow> q < length (bufs s))) \<and>
    (loose s' p \<longleftrightarrow> at s p dev block \<and> loose s p) \<and>
    (p < length (bufs s) \<longrightarrow> 0 < bcount (bufs s ! p) \<longrightarrow> at s p dev block)"
proof (cases "\<exists>p. at s p dev block")
  case True
  then obtain p where p: "at s p dev block" by blast
  then have pl: "p < length (bufs s)" by (simp add: at_def)
  let ?f = "\<lambda>b. b\<lparr>bcount := bcount b + 1\<rparr>"
  define F where "F = (if p \<in> set (free_list s) then remove1 p (free_list s) else free_list s)"
  let ?s = "buf_set p ?f (s\<lparr>disk := disk s, free_list := F\<rparr>)"
  have ok: "buf_ok s (bufs s ! p)" by (rule binvD(2) [OF assms(1) pl])
  have "find_buf (bufs s) dev block (htable s ! hash dev block) = Some p" using find_buf_at(1) [OF assms(1)] p by simp
  then have "bread dev block s = Some (p, ?s)"
    using pl ok by (simp add: bread_def getblk_def get_from_hash_table_def F_def buf_ok_def)
  moreover have b: "binv ?s"
    by (rule binv_buf_set [OF assms(1) pl])
      (use ok binvD(4) [OF assms(1)] in \<open>auto simp: buf_ok_def F_def\<close>)
  moreover have "view ?s = view (s\<lparr>disk := disk s, free_list := F\<rparr>)" by (rule view_buf_set) simp
  then have "view ?s = view s" by simp
  moreover have "at ?s p dev block" using p by (subst at_buf_set) (simp_all add: at_def)
  moreover have "loose ?s p \<longleftrightarrow> loose s p" using pl by (simp add: loose_def)
  ultimately show ?thesis using p pl view_at [OF assms(1) p]
    by (intro exI [of _ p] exI [of _ ?s]) (simp add: same_view_def)
next
  case False
  with assms(2) have "room s" by blast
  from get_free_buffer_ok [OF assms(1) this] obtain p s1 where s1: "get_free_buffer s = Some (p, s1)" "bloose p s1"
    "disk s1 = disk s" "\<And>q. q \<noteq> p \<Longrightarrow> q < length (bufs s1) \<longleftrightarrow> q < length (bufs s)"
    "\<And>q. q \<noteq> p \<Longrightarrow> q < length (bufs s) \<Longrightarrow> bufs s1 ! q = bufs s ! q"
    "p < length (bufs s) \<Longrightarrow> bcount (bufs s ! p) = 0" by blast
  note L = s1(2) [unfolded bloose_def]
  have p: "p < length (bufs s1)" using L by blast
  have at1: "at s1 q d c \<longleftrightarrow> at s q d c" if "q \<noteq> p" for q d c
    using s1(4,5) [OF that] by (auto simp: at_def)
  from settle_ok [OF s1(2) assms(3), of dev] False at1 obtain s' where s': "settle dev block p s1 = Some s'" "binv s'"
    "bufs s' = (bufs s1)[p := \<lparr>bdata = disk s1 dev (sector block), bdev = dev, bblock = block, bcount = 1, dirty = False, valid = True\<rparr>]"
    "disk s' = disk s1" by blast
  have "get_from_hash_table dev block s = (None, s)"
    using find_buf_at(2) [OF assms(1), of dev block] False by (simp add: get_from_hash_table_def)
  then have br: "bread dev block s = Some (p, s')"
    using s1(1) L s'(1) p
    by (auto simp: bread_def getblk_def settle_def hash_locate_def Let_def split: Option.bind_splits)
  have at': "at s' q d c \<longleftrightarrow> (if q = p then d = dev \<and> c = block else at s q d c)" for q d c
    using p s'(3) at1 [of q d c] by (auto simp: at_def)
  have len: "length (bufs s) \<le> length (bufs s')"
  proof (rule ccontr)
    assume "\<not> length (bufs s) \<le> length (bufs s')"
    then have "length (bufs s1) < length (bufs s)" "length (bufs s1) \<noteq> p" using s'(3) p by simp_all
    with s1(4) [of "length (bufs s1)"] show False by simp
  qed
  have v: "view s' d c = view s d c" if c: "c < 2147483648" for d c
  proof (cases "\<exists>q. at s' q d c")
    case True
    then obtain q where q: "at s' q d c" by blast
    show ?thesis
    proof (cases "q = p")
      case True
      with q at' have "d = dev" "c = block" by simp_all
      with True q view_at [OF s'(2) q] view_not_at [of s dev block] False p show ?thesis by (simp add: s'(3) s1(3))
    next
      case ne: False
      with q at' have qs: "at s q d c" by simp
      with view_at [OF assms(1) qs] view_at [OF s'(2) q] ne s1(5) [OF ne] show ?thesis by (simp add: s'(3) at_def)
    qed
  next
    case no: False
    then have nb: "\<not> (d = dev \<and> c = block)" using at' by metis
    show ?thesis
    proof (cases "\<exists>q. at s q d c")
      case True
      then obtain q where q: "at s q d c" by blast
      with no at' have "q = p" by metis
      with q binvD(2) [OF assms(1), of p] s1(6) have "bdata (bufs s ! p) = disk s d (sector c)"
        by (auto simp: at_def buf_ok_def)
      with view_at [OF assms(1) q] view_not_at [of s' d c] no \<open>q = p\<close> show ?thesis by (simp add: s'(4) s1(3))
    next
      case False
      with no show ?thesis by (simp add: view_not_at s'(4) s1(3))
    qed
  qed
  have "bdata (bufs s' ! p) = view s dev block"
    using view_not_at [of s dev block] False p by (simp add: s'(3) s1(3))
  moreover have "bufs s' ! q = bufs s ! q" if "q < length (bufs s)" "q \<noteq> p" for q
    using that s1(5) [of q] by (simp add: s'(3))
  moreover have "bcount (bufs s' ! p) = 1" "\<not> loose s' p" using p by (simp_all add: s'(3,4) loose_def)
  moreover have "q < length (bufs s') \<longleftrightarrow> q < length (bufs s)" if "q \<noteq> p" for q
    using s1(4) [OF that] by (simp add: s'(3))
  ultimately show ?thesis
    using br s'(2,4) v at' [of p dev block] len False s1(3,6)
    by (intro exI [of _ p] exI [of _ s']) (simp add: same_view_def)
qed

section \<open>Properties\<close>

text \<open>C24. The cache is coherent: reading a block gives a buffer of that block, the only one, with the
  contents the block has for all its users; a change made there is what every later reader sees, and no
  other block changes; and releasing the buffer writes the change to the disk.\<close>

theorem buffer_cache_coherent:
  assumes "binv s" and "room s \<or> (\<exists>p. at s p dev block)" and "block < 2147483648"
  shows "\<exists>p s1 s3. bread dev block s = Some (p, s1) \<and> binv s1 \<and> same_view s s1 \<and> at s1 p dev block \<and>
    (\<forall>q. at s1 q dev block \<longrightarrow> q = p) \<and> bdata (bufs s1 ! p) = view s dev block \<and>
    (let s2 = bmodify p f s1 in
       brelse (Some p) s2 = Some s3 \<and> binv s3 \<and> view s3 dev block = f (view s dev block) \<and>
       disk s3 dev (sector block) = f (view s dev block) \<and>
       (\<forall>d b. (d, b) \<noteq> (dev, block) \<longrightarrow> b < 2147483648 \<longrightarrow> view s3 d b = view s d b))"
proof -
  from bread_ok [OF assms] obtain p s1 where s1: "bread dev block s = Some (p, s1)" "binv s1" "same_view s s1"
    "at s1 p dev block" "bdata (bufs s1 ! p) = view s dev block"
    "bcount (bufs s1 ! p) = (if at s p dev block then bcount (bufs s ! p) + 1 else 1)" by blast
  have "0 \<le> bcount (bufs s ! p)" if "at s p dev block"
    using binvD(2) [OF assms(1), of p] that by (auto simp: at_def buf_ok_def)
  then have c: "0 < bcount (bufs s1 ! p)" using s1(6) by (cases "at s p dev block") fastforce+
  let ?s2 = "bmodify p f s1"
  note m = bmodify_ok [OF s1(2,4) c, of f]
  have p1: "p < length (bufs s1)" using s1(4) by (simp add: at_def)
  have p2: "p < length (bufs ?s2)" "0 < bcount (bufs ?s2 ! p)" using m p1 c by simp_all
  have nl: "\<not> loose ?s2 p" using m by blast
  from brelse_ok [OF conjunct1 [OF m] p2] nl obtain s3 where s3: "brelse (Some p) ?s2 = Some s3" "binv s3" "same_view ?s2 s3"
    "length (bufs s3) = length (bufs ?s2)" "bufs s3 ! p = (bufs ?s2 ! p)\<lparr>dirty := False, bcount := bcount (bufs ?s2 ! p) - 1\<rparr>"
    "disk s3 (bdev (bufs ?s2 ! p)) (sector (bblock (bufs ?s2 ! p))) = bdata (bufs ?s2 ! p)"
    by blast
  have v: "view s3 dev block = f (view s dev block)"
    using s3(3) s1(3) assms(3) m by (simp add: same_view_def)
  have at3: "at s3 p dev block" using s3(4,5) m s1(4) by (simp add: at_def)
  then have "disk s3 dev (sector block) = f (view s dev block)"
    using s3(5,6) view_at [OF s3(2) at3] v by (simp add: at_def)
  moreover have "view s3 d b = view s d b" if "(d, b) \<noteq> (dev, block)" "b < 2147483648" for d b
  proof -
    have "view s3 d b = view ?s2 d b" using s3(3) that(2) by (simp add: same_view_def)
    also have "\<dots> = view s1 d b" using m that(1) by blast
    also have "\<dots> = view s d b" using s1(3) that(2) by (simp add: same_view_def)
    finally show ?thesis .
  qed
  moreover have "q = p" if "at s1 q dev block" for q by (rule binvD(3) [OF s1(2), of q dev block p, OF that s1(4)])
  ultimately show ?thesis
    unfolding Let_def
    by (intro exI [of _ p] exI [of _ s1] exI [of _ s3] conjI s1(1-5) s3(1,2) v) blast+
qed

definition demo_disk :: bcache where
  "demo_disk = buffer_init \<lparr>bufs = [], htable = [], free_list = [], disk = (\<lambda>_ k. replicate 1024 (of_nat k))\<rparr>"

lemma demo_binv: "binv demo_disk"
  by (simp add: binv_def htab_ok_def demo_disk_def buffer_init_def at_def)

lemma buffer_cache_coherent_witness:
  "\<exists>s'. binv s' \<and> view s' 1 5 = replicate 1024 7 \<and> disk s' 1 10 = replicate 1024 7"
proof -
  have "room demo_disk"
    by (simp add: room_def has_room_def demo_disk_def buffer_init_def KERNEL_BUFFER_MEM_def BUFFER_T_SIZE_def
        KERNEL_BUFFER_SIZE_def BLOCK_SIZE_def)
  from buffer_cache_coherent [OF demo_binv disjI1 [OF this], of 5 1 "\<lambda>_. replicate 1024 7"]
  obtain s3 where "binv s3" "view s3 1 5 = replicate 1024 7" "disk s3 1 (sector 5) = replicate 1024 7"
    by (auto simp: Let_def)
  then show ?thesis by (intro exI [of _ s3]) (simp add: sector_def BLOCK_SECS_def)
qed

end
