(* ===== verification/Device.thy ===== *)
theory Device
  imports Prelude
begin

text \<open>
  \<open>src/src/kernel/device.c\<close>: the table of devices with their drivers, and the queue of requests of a
  block device, which is served in the order of the elevator. A driver is a function on the state of
  the machine (of any type), found in the device's record. The queue is the list of its requests
  (\<open>ListC\<close>); the request at work is the first one that came to an empty queue, and then the one that
  its predecessor has woken; the others wait in \<open>task_block\<close>.
\<close>

section \<open>The table\<close>

definition DEVICE_NR :: nat where "DEVICE_NR = 64"
definition NAMELEN :: nat where "NAMELEN = 16"
definition DEV_NULL :: int where "DEV_NULL = 0"
definition DEV_CHAR :: int where "DEV_CHAR = 1"
definition DEV_BLOCK :: int where "DEV_BLOCK = 2"
definition DEV_CMD_SECTOR_START :: int where "DEV_CMD_SECTOR_START = 1"
definition DEV_CMD_SECTOR_COUNT :: int where "DEV_CMD_SECTOR_COUNT = 2"

datatype dir = DIRECT_UP | DIRECT_DOWN

datatype req_type = REQ_READ | REQ_WRITE

record request_t =
  rid :: nat
  rdev :: int
  rtype :: req_type
  ridx :: nat
  rcount :: nat
  rflags :: int
  rbuf :: nat

type_synonym 's transfer = "nat \<Rightarrow> nat \<Rightarrow> nat \<Rightarrow> nat \<Rightarrow> int \<Rightarrow> 's \<Rightarrow> (int \<times> 's) option"
type_synonym 's control = "nat \<Rightarrow> int \<Rightarrow> nat \<Rightarrow> int \<Rightarrow> 's \<Rightarrow> (int \<times> 's) option"

record 's device_t =
  dname :: string
  dtype :: int
  subtype :: int
  dev :: nat
  parent :: nat
  ptr :: nat
  request_list :: "request_t list"
  direct :: dir
  ioctl :: "'s control option"
  reads :: "'s transfer option"
  writes :: "'s transfer option"

definition device_get :: "int \<Rightarrow> 's device_t list \<Rightarrow> nat option" where
  "device_get d devices = do {
     cassert (d < int DEVICE_NR);
     cassert (0 \<le> d);
     v \<leftarrow> aget devices (nat d);
     cassert (dtype v \<noteq> DEV_NULL);
     Some (nat d) }"

definition device_ioctl :: "int \<Rightarrow> int \<Rightarrow> nat \<Rightarrow> int \<Rightarrow> 's device_t list \<Rightarrow> 's \<Rightarrow> (int \<times> 's) option" where
  "device_ioctl d cmd args flags devices s = do {
     i \<leftarrow> device_get d devices;
     (case ioctl (devices ! i) of None \<Rightarrow> Some (- 1, s) | Some f \<Rightarrow> f (ptr (devices ! i)) cmd args flags s) }"

definition device_read :: "int \<Rightarrow> nat \<Rightarrow> nat \<Rightarrow> nat \<Rightarrow> int \<Rightarrow> 's device_t list \<Rightarrow> 's \<Rightarrow> (int \<times> 's) option" where
  "device_read d buf count idx flags devices s = do {
     i \<leftarrow> device_get d devices;
     (case reads (devices ! i) of None \<Rightarrow> Some (- 1, s) | Some f \<Rightarrow> f (ptr (devices ! i)) buf count idx flags s) }"

definition device_write :: "int \<Rightarrow> nat \<Rightarrow> nat \<Rightarrow> nat \<Rightarrow> int \<Rightarrow> 's device_t list \<Rightarrow> 's \<Rightarrow> (int \<times> 's) option" where
  "device_write d buf count idx flags devices s = do {
     i \<leftarrow> device_get d devices;
     (case writes (devices ! i) of None \<Rightarrow> Some (- 1, s) | Some f \<Rightarrow> f (ptr (devices ! i)) buf count idx flags s) }"

definition null_device :: "nat \<Rightarrow> 's device_t \<Rightarrow> 's device_t" where
  "null_device i d = d\<lparr>dname := ''null'', dtype := DEV_NULL, subtype := DEV_NULL, dev := i, parent := 0,
     ioctl := None, reads := None, writes := None, request_list := [], direct := DIRECT_UP\<rparr>"

definition device_init :: "'s device_t list \<Rightarrow> 's device_t list" where
  "device_init devices = map (\<lambda>i. null_device i (devices ! i)) [0..<DEVICE_NR]"

text \<open>The first free device from 1 on; with none left the code panics.\<close>

definition get_null_device :: "'s device_t list \<Rightarrow> nat option" where
  "get_null_device devices = find (\<lambda>i. dtype (devices ! i) = DEV_NULL) [1..<DEVICE_NR]"

definition device_install :: "int \<Rightarrow> int \<Rightarrow> nat \<Rightarrow> string \<Rightarrow> nat \<Rightarrow> 's control option \<Rightarrow> 's transfer option \<Rightarrow>
    's transfer option \<Rightarrow> 's device_t list \<Rightarrow> (nat \<times> 's device_t list) option" where
  "device_install ty sub p nm par ioc rd wr devices = do {
     i \<leftarrow> get_null_device devices;
     let d = (devices ! i)\<lparr>ptr := p, parent := par, dtype := ty, subtype := sub, dname := take (NAMELEN - 1) nm,
       ioctl := ioc, reads := rd, writes := wr\<rparr>;
     Some (dev d, devices[i := d]) }"

fun find_loop :: "int \<Rightarrow> nat \<Rightarrow> nat \<Rightarrow> 's device_t list \<Rightarrow> nat list \<Rightarrow> nat option" where
  "find_loop sub idx nr devices [] = None"
| "find_loop sub idx nr devices (i # is) =
     (if subtype (devices ! i) \<noteq> sub then find_loop sub idx nr devices is
      else if nr = idx then Some i else find_loop sub idx (nr + 1) devices is)"

definition device_find :: "int \<Rightarrow> nat \<Rightarrow> 's device_t list \<Rightarrow> nat option" where
  "device_find sub idx devices = find_loop sub idx 0 devices [0..<DEVICE_NR]"

section \<open>Requests\<close>

definition do_request :: "request_t \<Rightarrow> 's device_t list \<Rightarrow> 's \<Rightarrow> (int \<times> 's) option" where
  "do_request r devices s =
     (case rtype r of
        REQ_READ \<Rightarrow> device_read (rdev r) (rbuf r) (rcount r) (ridx r) (rflags r) devices s
      | REQ_WRITE \<Rightarrow> device_write (rdev r) (rbuf r) (rcount r) (ridx r) (rflags r) devices s)"

text \<open>The key of the sorted insertion is the index, read as an \<open>int\<close>.\<close>

definition req_key :: "request_t \<Rightarrow> int" where
  "req_key r = s32 (int (ridx r))"

fun request_insert :: "request_t \<Rightarrow> request_t list \<Rightarrow> request_t list" where
  "request_insert r [] = [r]"
| "request_insert r (q # qs) = (if req_key q > req_key r then r # q # qs else q # request_insert r qs)"

text \<open>The neighbours of a request of the queue.\<close>

definition before :: "request_t \<Rightarrow> request_t list \<Rightarrow> request_t list" where
  "before r qs = takeWhile (\<lambda>q. q \<noteq> r) qs"

definition behind :: "request_t \<Rightarrow> request_t list \<Rightarrow> request_t list" where
  "behind r qs = tl (dropWhile (\<lambda>q. q \<noteq> r) qs)"

definition request_nextreq :: "dir \<Rightarrow> request_t list \<Rightarrow> request_t \<Rightarrow> dir \<times> request_t option" where
  "request_nextreq d qs r =
     (let d = (if d = DIRECT_UP \<and> behind r qs = [] then DIRECT_DOWN
               else if d = DIRECT_DOWN \<and> before r qs = [] then DIRECT_UP else d)
      in (d, if d = DIRECT_UP then (case behind r qs of [] \<Rightarrow> None | q # _ \<Rightarrow> Some q)
             else if before r qs = [] then None else Some (last (before r qs))))"

text \<open>The queue of a device: the waiting and the working requests, and which one works.\<close>

record queue_t =
  pending :: "request_t list"
  direction :: dir
  working :: "request_t option"

text \<open>\<open>device_request\<close> up to the point where the task blocks or the transfer starts.\<close>

definition submit :: "request_t \<Rightarrow> queue_t \<Rightarrow> queue_t" where
  "submit r q =
     (let q' = q\<lparr>pending := request_insert r (pending q)\<rparr>
      in if pending q = [] then q'\<lparr>working := Some r\<rparr> else q')"

text \<open>The rest of \<open>device_request\<close>, behind \<open>do_request\<close>: the next request is chosen, this one leaves
  the queue, and the task of the next one is woken and goes on to its transfer.\<close>

definition complete :: "queue_t \<Rightarrow> queue_t option" where
  "complete q = do {
     r \<leftarrow> working q;
     let (d, nr) = request_nextreq (direction q) (pending q) r;
     Some (q\<lparr>pending := remove1 r (pending q), direction := d, working := nr\<rparr>) }"

text \<open>\<open>device_request\<close> for a task that finds the queue empty: the request goes to the device or to
  its parent, at the place its partition starts.\<close>

definition make_request :: "int \<Rightarrow> nat \<Rightarrow> nat \<Rightarrow> nat \<Rightarrow> int \<Rightarrow> req_type \<Rightarrow> nat \<Rightarrow> 's device_t list \<Rightarrow> 's \<Rightarrow>
    (request_t \<times> 's device_t list \<times> 's) option" where
  "make_request d buf count idx flags ty fresh devices s = do {
     i \<leftarrow> device_get d devices;
     let devices = devices[i := (devices ! i)\<lparr>dtype := DEV_BLOCK\<rparr>];
     (start, s) \<leftarrow> device_ioctl (int (dev (devices ! i))) DEV_CMD_SECTOR_START 0 0 devices s;
     i \<leftarrow> if parent (devices ! i) \<noteq> 0 then device_get (int (parent (devices ! i))) devices else Some i;
     Some (\<lparr>rid = fresh, rdev = int (dev (devices ! i)), rtype = ty, ridx = nat ((int idx + start) mod 4294967296),
       rcount = count mod 256, rflags = flags, rbuf = buf\<rparr>, devices, s) }"

definition device_request :: "int \<Rightarrow> nat \<Rightarrow> nat \<Rightarrow> nat \<Rightarrow> int \<Rightarrow> req_type \<Rightarrow> nat \<Rightarrow> 's device_t list \<Rightarrow> 's \<Rightarrow>
    ('s device_t list \<times> 's) option" where
  "device_request d buf count idx flags ty fresh devices s = do {
     (r, devices, s) \<leftarrow> make_request d buf count idx flags ty fresh devices s;
     (res, s) \<leftarrow> do_request r devices s;
     Some (devices, s) }"

section \<open>The elevator\<close>

lemma set_request_insert [simp]: "set (request_insert r qs) = insert r (set qs)"
  by (induction qs) auto

lemma sorted_request_insert: "sorted (map req_key qs) \<Longrightarrow> sorted (map req_key (request_insert r qs))"
proof (induction qs)
  case (Cons q qs)
  then show ?case by (cases "req_key q > req_key r") auto
qed simp

lemma distinct_request_insert: "distinct (request_insert r qs) \<longleftrightarrow> r \<notin> set qs \<and> distinct qs"
  by (induction qs) auto

lemma split_at: "r \<in> set qs \<Longrightarrow> qs = before r qs @ r # behind r qs"
proof -
  assume "r \<in> set qs"
  then obtain xs ys where "qs = xs @ r # ys" "r \<notin> set xs" using split_list_first by metis
  then have "takeWhile (\<lambda>q. q \<noteq> r) qs = xs" "dropWhile (\<lambda>q. q \<noteq> r) qs = r # ys"
    by (auto simp: takeWhile_append dropWhile_append)
  with \<open>qs = xs @ r # ys\<close> show ?thesis by (simp add: before_def behind_def)
qed

definition queue_inv :: "queue_t \<Rightarrow> bool" where
  "queue_inv q \<longleftrightarrow> sorted (map req_key (pending q)) \<and> distinct (pending q) \<and>
     (case working q of None \<Rightarrow> pending q = [] | Some r \<Rightarrow> r \<in> set (pending q))"

lemma submit_inv: "queue_inv q \<Longrightarrow> r \<notin> set (pending q) \<Longrightarrow> queue_inv (submit r q)"
  by (auto simp: queue_inv_def submit_def Let_def sorted_request_insert distinct_request_insert split: option.splits)

inductive qstep :: "queue_t \<Rightarrow> queue_t option \<Rightarrow> bool" where
  new: "r \<notin> set (pending q) \<Longrightarrow> qstep q (Some (submit r q))"
| finished: "working q \<noteq> None \<Longrightarrow> qstep q (complete q)"

inductive qreach :: "queue_t \<Rightarrow> bool" where
  start: "qreach \<lparr>pending = [], direction = DIRECT_UP, working = None\<rparr>"
| step: "qreach q \<Longrightarrow> qstep q (Some q') \<Longrightarrow> qreach q'"

text \<open>Behind \<open>r\<close>, the request \<open>n\<close> comes next: the nearest one in the direction of the movement, which
  turns only where no request lies further on.\<close>

definition scan_next :: "queue_t \<Rightarrow> request_t \<Rightarrow> queue_t \<Rightarrow> request_t \<Rightarrow> bool" where
  "scan_next q r q' n \<longleftrightarrow>
     (if direction q' = DIRECT_UP
       then req_key r \<le> req_key n \<and> (\<forall>p\<in>set (pending q) - {r}. req_key p \<le> req_key r \<or> req_key n \<le> req_key p)
       else req_key n \<le> req_key r \<and> (\<forall>p\<in>set (pending q) - {r}. req_key r \<le> req_key p \<or> req_key p \<le> req_key n)) \<and>
      (direction q = DIRECT_UP \<and> direction q' = DIRECT_DOWN \<longrightarrow> (\<forall>p\<in>set (pending q). req_key p \<le> req_key r)) \<and>
      (direction q = DIRECT_DOWN \<and> direction q' = DIRECT_UP \<longrightarrow> (\<forall>p\<in>set (pending q). req_key r \<le> req_key p))"

lemma complete_next:
  assumes "queue_inv q" and "working q = Some r"
  shows "\<exists>q'. complete q = Some q' \<and> queue_inv q' \<and> set (pending q') = set (pending q) - {r} \<and>
    (working q' = None \<longleftrightarrow> pending q = [r]) \<and>
    (\<forall>n. working q' = Some n \<longrightarrow> n \<noteq> r \<and> scan_next q r q' n)"
proof -
  have r: "r \<in> set (pending q)" and so: "sorted (map req_key (pending q))" and di: "distinct (pending q)"
    using assms by (simp_all add: queue_inv_def)
  define xs ys where "xs = before r (pending q)" and "ys = behind r (pending q)"
  have sp: "pending q = xs @ r # ys" unfolding xs_def ys_def by (rule split_at [OF r])
  have rem: "remove1 r (pending q) = xs @ ys" using di by (simp add: sp remove1_append)
  have x: "\<forall>p\<in>set xs. req_key p \<le> req_key r" and y: "\<forall>p\<in>set ys. req_key r \<le> req_key p"
    and so': "sorted (map req_key (xs @ ys))" and di': "distinct (xs @ ys)" "r \<notin> set xs" "r \<notin> set ys"
    using so di by (auto simp: sp sorted_append)
  have hd_least: "\<forall>p\<in>set ys. req_key (hd ys) \<le> req_key p" if "ys \<noteq> []"
    using so that by (cases ys) (auto simp: sp sorted_append)
  have last_greatest: "\<forall>p\<in>set xs. req_key p \<le> req_key (last xs)" if "xs \<noteq> []"
    using so that by (cases xs rule: rev_cases) (auto simp: sp sorted_append)
  obtain d n where dn: "request_nextreq (direction q) (pending q) r = (d, n)" by fastforce
  then have dn': "d = (if direction q = DIRECT_UP \<and> ys = [] then DIRECT_DOWN
      else if direction q = DIRECT_DOWN \<and> xs = [] then DIRECT_UP else direction q)"
    "n = (if d = DIRECT_UP then (case ys of [] \<Rightarrow> None | q # _ \<Rightarrow> Some q) else if xs = [] then None else Some (last xs))"
    by (auto simp: request_nextreq_def Let_def xs_def ys_def)
  have c: "complete q = Some (q\<lparr>pending := xs @ ys, direction := d, working := n\<rparr>)"
    using assms(2) dn rem by (simp add: complete_def)
  have n_in: "n = Some m \<Longrightarrow> m \<in> set (xs @ ys)" for m
    using dn'(2) by (auto split: if_splits list.splits)
  have none: "n = None \<longleftrightarrow> xs = [] \<and> ys = []"
    using dn' by (cases "direction q") (auto split: if_splits list.splits)
  have "queue_inv (q\<lparr>pending := xs @ ys, direction := d, working := n\<rparr>)"
    using so' di'(1) n_in none by (auto simp: queue_inv_def split: option.splits)
  moreover have "(if d = DIRECT_UP
       then req_key r \<le> req_key m \<and> (\<forall>p\<in>set (pending q) - {r}. req_key p \<le> req_key r \<or> req_key m \<le> req_key p)
       else req_key m \<le> req_key r \<and> (\<forall>p\<in>set (pending q) - {r}. req_key r \<le> req_key p \<or> req_key p \<le> req_key m))"
    if m: "n = Some m" for m
  proof (cases "d = DIRECT_UP")
    case True
    then have "ys \<noteq> []" "m = hd ys" using dn'(2) m by (auto split: list.splits)
    with True hd_least x y show ?thesis by (auto simp: sp)
  next
    case False
    then have "xs \<noteq> []" "m = last xs" using dn'(2) m by (auto split: if_splits)
    with False last_greatest x y show ?thesis by (auto simp: sp)
  qed
  moreover have "direction q = DIRECT_UP \<Longrightarrow> d = DIRECT_DOWN \<Longrightarrow> \<forall>p\<in>set (pending q). req_key p \<le> req_key r"
    "direction q = DIRECT_DOWN \<Longrightarrow> d = DIRECT_UP \<Longrightarrow> \<forall>p\<in>set (pending q). req_key r \<le> req_key p"
    using dn'(1) x y by (auto simp: sp split: if_splits)
  moreover have "n = Some m \<Longrightarrow> m \<noteq> r" for m using n_in di'(2,3) by fastforce
  ultimately have all: "\<forall>m. n = Some m \<longrightarrow> m \<noteq> r \<and>
      (if d = DIRECT_UP
       then req_key r \<le> req_key m \<and> (\<forall>p\<in>set (pending q) - {r}. req_key p \<le> req_key r \<or> req_key m \<le> req_key p)
       else req_key m \<le> req_key r \<and> (\<forall>p\<in>set (pending q) - {r}. req_key r \<le> req_key p \<or> req_key p \<le> req_key m)) \<and>
      (direction q = DIRECT_UP \<and> d = DIRECT_DOWN \<longrightarrow> (\<forall>p\<in>set (pending q). req_key p \<le> req_key r)) \<and>
      (direction q = DIRECT_DOWN \<and> d = DIRECT_UP \<longrightarrow> (\<forall>p\<in>set (pending q). req_key r \<le> req_key p))"
    and inv: "queue_inv (q\<lparr>pending := xs @ ys, direction := d, working := n\<rparr>)" by blast+
  have one: "pending q = [r] \<longleftrightarrow> xs = [] \<and> ys = []" by (cases xs) (auto simp: sp)
  have rest: "set (xs @ ys) = set (pending q) - {r}" using di'(2,3) by (auto simp: sp)
  show ?thesis
  proof (intro exI conjI)
    show "complete q = Some (q\<lparr>pending := xs @ ys, direction := d, working := n\<rparr>)" by (rule c)
  qed (use inv rest all none one in \<open>simp_all add: scan_next_def\<close>)
qed

lemma qreach_inv: "qreach q \<Longrightarrow> queue_inv q"
proof (induction rule: qreach.induct)
  case start
  show ?case by (simp add: queue_inv_def)
next
  case (step q q')
  from step(2) show ?case
  proof cases
    case (new r)
    then show ?thesis using submit_inv [OF step(3)] by simp
  next
    case finished
    then obtain r where "working q = Some r" by blast
    with complete_next [OF step(3)] finished show ?thesis by fastforce
  qed
qed

text \<open>C28. The elevator: as long as requests are pending, one of them is at work, so that none is
  left waiting for ever; when it is done, the next one is the nearest one in the direction of the
  movement, and the direction turns only where nothing lies further on.\<close>

theorem elevator:
  assumes "qreach q"
  shows "(pending q \<noteq> [] \<longleftrightarrow> (\<exists>r\<in>set (pending q). working q = Some r)) \<and>
    (\<forall>r. working q = Some r \<longrightarrow> (\<exists>q'. complete q = Some q' \<and> set (pending q') = set (pending q) - {r} \<and>
      (\<forall>n. working q' = Some n \<longrightarrow> n \<noteq> r \<and> scan_next q r q' n)))"
proof -
  have i: "queue_inv q" by (rule qreach_inv [OF assms])
  have "pending q \<noteq> [] \<longleftrightarrow> (\<exists>r\<in>set (pending q). working q = Some r)"
    using i by (auto simp: queue_inv_def split: option.splits)
  with complete_next [OF i] show ?thesis by blast
qed

definition demo_req :: "nat \<Rightarrow> request_t" where
  "demo_req k = \<lparr>rid = k, rdev = 1, rtype = REQ_READ, ridx = 10 * k, rcount = 2, rflags = 0, rbuf = 0\<rparr>"

lemma elevator_witness:
  "\<exists>q q'. qreach q \<and> working q = Some (demo_req 5) \<and> complete q = Some q' \<and> set (pending q') = {demo_req 2, demo_req 8}"
proof -
  let ?q0 = "\<lparr>pending = [], direction = DIRECT_UP, working = None\<rparr>"
  let ?q1 = "submit (demo_req 5) ?q0" let ?q2 = "submit (demo_req 2) ?q1" let ?q = "submit (demo_req 8) ?q2"
  have d: "demo_req 5 \<noteq> demo_req 2" "demo_req 5 \<noteq> demo_req 8" "demo_req 2 \<noteq> demo_req 8" by (simp_all add: demo_req_def)
  have "qreach ?q1" by (rule qreach.step [OF qreach.start qstep.new]) simp
  then have "qreach ?q2" by (rule qreach.step [OF _ qstep.new]) (use d in \<open>auto simp: submit_def Let_def\<close>)
  then have r: "qreach ?q" by (rule qreach.step [OF _ qstep.new]) (use d in \<open>auto simp: submit_def Let_def\<close>)
  have w: "working ?q = Some (demo_req 5)" "set (pending ?q) = {demo_req 2, demo_req 5, demo_req 8}"
    by (auto simp: submit_def Let_def demo_req_def req_key_def)
  from elevator [OF r, THEN conjunct2, THEN spec, THEN mp, OF w(1)]
  obtain q' where q': "complete ?q = Some q'" "set (pending q') = set (pending ?q) - {demo_req 5}" by (elim exE conjE)
  have "set (pending q') = {demo_req 2, demo_req 8}" unfolding q'(2) w(2) using d by auto
  with r w(1) q'(1) show ?thesis by (intro exI conjI)
qed

end
