(* ===== verification/Arena.thy ===== *)
theory Arena
  imports Memory Stdlib
begin

text \<open>
  \<open>src/src/kernel/arena.c\<close>: the kernel's heap. An arena is one page cut into blocks of one size, or the
  pages of one large block; its header is at its start. A descriptor has a block size and the list of free
  blocks of that size. The list is the list of its elements (\<open>ListC\<close> shows that the code's lists are that),
  and \<open>arenas\<close> gives the header at the start of a page; a page that has been given back has none, and what
  is stored in a block is up to its owner.

  The properties: the blocks in use never overlap, a block is as long as was asked for, \<open>kfree\<close> of
  a block in use returns and takes just that block out of use.
\<close>

section \<open>State\<close>

record arena_descriptor_t =
  total_block :: nat
  block_size :: nat
  page_count :: int
  blocks :: "nat list"

record arena_t =
  desc :: "nat option"
  acount :: nat
  large :: bool
  amagic :: nat

record heap_t =
  hmem :: mstate
  descs :: "arena_descriptor_t list"
  arenas :: "nat \<Rightarrow> arena_t option"

definition BUF_COUNT :: int where "BUF_COUNT = 4"
definition DESC_COUNT :: nat where "DESC_COUNT = 7"
definition ARENA_T_SIZE :: nat where "ARENA_T_SIZE = 16"

definition arena_init :: "arena_descriptor_t list" where
  "arena_init = map (\<lambda>i. \<lparr>total_block = (PAGE_SIZE - ARENA_T_SIZE) div (16 * 2 ^ i), block_size = 16 * 2 ^ i,
     page_count = 0, blocks = []\<rparr>) [0..<DESC_COUNT]"

definition upd_desc :: "nat \<Rightarrow> (arena_descriptor_t \<Rightarrow> arena_descriptor_t) \<Rightarrow> heap_t \<Rightarrow> heap_t" where
  "upd_desc i f h = h\<lparr>descs := (descs h)[i := f (descs h ! i)]\<rparr>"

section \<open>Operations\<close>

definition get_arena_block :: "arena_descriptor_t \<Rightarrow> nat \<Rightarrow> nat \<Rightarrow> nat option" where
  "get_arena_block d arena idx = do {
     cassert (total_block d > idx);
     Some (arena + ARENA_T_SIZE + idx * block_size d) }"

definition get_block_arena :: "nat \<Rightarrow> nat" where
  "get_block_arena block = block div 4096 * 4096"

text \<open>The loop over the descriptors: it leaves \<open>desc\<close> at the first that is large enough, or at the last.\<close>

definition desc_for :: "nat \<Rightarrow> heap_t \<Rightarrow> nat" where
  "desc_for sz h = (case find (\<lambda>i. block_size (descs h ! i) \<ge> sz) [0..<DESC_COUNT] of
     Some i \<Rightarrow> i | None \<Rightarrow> DESC_COUNT - 1)"

definition push_block :: "nat \<Rightarrow> nat \<Rightarrow> nat \<Rightarrow> heap_t \<Rightarrow> heap_t option" where
  "push_block i arena k h = do {
     block \<leftarrow> get_arena_block (descs h ! i) arena k;
     cassert (block \<notin> set (blocks (descs h ! i)));
     Some (upd_desc i (\<lambda>d. d\<lparr>blocks := block # blocks d\<rparr>) h) }"

definition new_arena :: "nat \<Rightarrow> heap_t \<Rightarrow> heap_t option" where
  "new_arena i h = do {
     (arena, m) \<leftarrow> alloc_kpage 1 (hmem h);
     let h = upd_desc i (\<lambda>d. d\<lparr>page_count := page_count d + 1\<rparr>) (h\<lparr>hmem := m\<rparr>);
     let a = \<lparr>desc = Some i, acount = total_block (descs h ! i), large = False, amagic = NEONIX_MAGIC\<rparr>;
     for_each (push_block i arena) [0..<total_block (descs h ! i)] (h\<lparr>arenas := (arenas h)(arena := Some a)\<rparr>) }"

definition pop_block :: "nat \<Rightarrow> heap_t \<Rightarrow> (nat \<times> heap_t) option" where
  "pop_block i h = do {
     cassert (blocks (descs h ! i) \<noteq> []);
     let block = hd (blocks (descs h ! i));
     let h = upd_desc i (\<lambda>d. d\<lparr>blocks := tl (blocks d)\<rparr>) h;
     let arena = get_block_arena block;
     a \<leftarrow> arenas h arena;
     cassert (amagic a = NEONIX_MAGIC \<and> \<not> large a);
     Some (block, h\<lparr>arenas := (arenas h)(arena := Some (a\<lparr>acount := w32_sub (acount a) 1\<rparr>))\<rparr>) }"

definition kmalloc :: "nat \<Rightarrow> heap_t \<Rightarrow> (nat \<times> heap_t) option" where
  "kmalloc sz h =
     (if sz > 1024
      then do {
        count \<leftarrow> div_round_up (w32 (sz + ARENA_T_SIZE)) PAGE_SIZE;
        (arena, m) \<leftarrow> alloc_kpage count (hmem h);
        let a = \<lparr>desc = None, acount = count, large = True, amagic = NEONIX_MAGIC\<rparr>;
        Some (arena + ARENA_T_SIZE, h\<lparr>hmem := m, arenas := (arenas h)(arena := Some a)\<rparr>) }
      else do {
        let i = desc_for sz h;
        h \<leftarrow> if blocks (descs h ! i) = [] then new_arena i h else Some h;
        pop_block i h })"

definition drop_block :: "nat \<Rightarrow> nat \<Rightarrow> nat \<Rightarrow> heap_t \<Rightarrow> heap_t option" where
  "drop_block i arena k h = do {
     block \<leftarrow> get_arena_block (descs h ! i) arena k;
     cassert (block \<in> set (blocks (descs h ! i)));
     let h = upd_desc i (\<lambda>d. d\<lparr>blocks := remove1 block (blocks d)\<rparr>) h;
     cassert (block \<notin> set (blocks (descs h ! i)));
     Some h }"

definition free_arena :: "nat \<Rightarrow> nat \<Rightarrow> heap_t \<Rightarrow> heap_t option" where
  "free_arena i arena h = do {
     h \<leftarrow> for_each (drop_block i arena) [0..<total_block (descs h ! i)] h;
     m \<leftarrow> free_kpage arena 1 (hmem h);
     let h = upd_desc i (\<lambda>d. d\<lparr>page_count := page_count d - 1\<rparr>) (h\<lparr>hmem := m, arenas := (arenas h)(arena := None)\<rparr>);
     cassert (page_count (descs h ! i) \<ge> BUF_COUNT);
     Some h }"

definition kfree :: "nat \<Rightarrow> heap_t \<Rightarrow> heap_t option" where
  "kfree ptr h = do {
     cassert (ptr \<noteq> NULL);
     let arena = get_block_arena ptr;
     a \<leftarrow> arenas h arena;
     cassert (amagic a = NEONIX_MAGIC);
     if large a
     then do { m \<leftarrow> free_kpage arena (acount a) (hmem h); Some (h\<lparr>hmem := m, arenas := (arenas h)(arena := None)\<rparr>) }
     else do {
       i \<leftarrow> desc a;
       cassert (ptr \<notin> set (blocks (descs h ! i)));
       let h = upd_desc i (\<lambda>d. d\<lparr>blocks := ptr # blocks d\<rparr>) h;
       let n = w32 (acount a + 1);
       let h = h\<lparr>arenas := (arenas h)(arena := Some (a\<lparr>acount := n\<rparr>))\<rparr>;
       if n = total_block (descs h ! i) \<and> page_count (descs h ! i) > BUF_COUNT then free_arena i arena h else Some h } }"

section \<open>Kernel pages\<close>

definition map_ok :: "mstate \<Rightarrow> bool" where
  "map_ok m \<longleftrightarrow> bm_inv (kernel_map m) \<and> 0 < boffset (kernel_map m) \<and>
     boffset (kernel_map m) + blength (kernel_map m) * 8 \<le> 2 ^ 20"

abbreviation ktaken :: "mstate \<Rightarrow> nat set" where
  "ktaken m \<equiv> bm_taken (kernel_map m)"

lemma range_bounds: "bm_range m' = bm_range m \<Longrightarrow> {k..<k + n} \<subseteq> bm_range m \<Longrightarrow> 0 < n \<Longrightarrow>
  boffset m \<le> k \<and> k + n \<le> boffset m + blength m * 8"
proof -
  assume r: "{k..<k + n} \<subseteq> bm_range m" "0 < n"
  then have "k \<in> bm_range m" "k + n - 1 \<in> bm_range m" by (auto simp: subset_iff)
  with r(2) show ?thesis by (auto simp: bm_range_def)
qed

lemma taken_range: "bm_taken m \<subseteq> bm_range m"
  by (auto simp: bm_taken_def bm_range_def)

text \<open>Maps of the same range.\<close>

lemma range_same:
  assumes "bm_range m' = bm_range m" and "k \<in> bm_range m"
  shows "boffset m' = boffset m" and "blength m' = blength m"
proof -
  have "boffset m < boffset m + blength m * 8" using assms(2) by (simp add: bm_range_def)
  then have "boffset m' = boffset m \<and> boffset m' + blength m' * 8 = boffset m + blength m * 8"
    using assms(1) by (simp only: bm_range_def atLeastLessThan_inj) (metis atLeastLessThan_inj(1) atLeastLessThan_inj(2) atLeastLessThan_empty_iff2 le_less_linear not_le)
  then show "boffset m' = boffset m" "blength m' = blength m" by simp_all
qed

lemma alloc_kpage_ok:
  assumes "map_ok ms" and "0 < n" and "alloc_kpage n ms = Some (a, ms1)"
  shows "map_ok ms1" and "a mod 4096 = 0" and "0 < IDX a" and "a + n * 4096 \<le> 4294967296"
    and "{IDX a..<IDX a + n} \<inter> ktaken ms = {}" and "ktaken ms1 = ktaken ms \<union> {IDX a..<IDX a + n}"
proof -
  have inv: "bm_inv (kernel_map ms)" using assms(1) by (simp add: map_ok_def)
  obtain i m where i: "bm_alloc (kernel_map ms) n = Some (Some i, m)" "a = PAGE i" "ms1 = ms\<lparr>kernel_map := m\<rparr>"
    using assms(2,3) by (auto simp: alloc_kpage_def scan_page_alloc split: Option.bind_splits)
  note f = bm.alloc_found [OF inv assms(2) i(1)]
  have sub: "{i..<i + n} \<subseteq> bm_range (kernel_map ms)" using f by blast
  note rb = range_bounds [OF refl sub assms(2)]
  have le: "i + n \<le> 2 ^ 20" using rb assms(1) by (simp add: map_ok_def)
  then have i20: "i < 2 ^ 20" using assms(2) by linarith
  then have idx: "IDX a = i" using IDX_PAGE [of i] by (simp add: i(2))
  have a: "a = i * 4096" using i20 by (simp add: i(2) PAGE_eq)
  show "a mod 4096 = 0" by (simp add: a)
  show "0 < IDX a" using rb assms(1) by (simp add: idx map_ok_def)
  show "a + n * 4096 \<le> 4294967296" using le by (simp add: a)
  show "{IDX a..<IDX a + n} \<inter> ktaken ms = {}" "ktaken ms1 = ktaken ms \<union> {IDX a..<IDX a + n}"
    using f by (auto simp: idx i(3))
  have "i \<in> bm_range (kernel_map ms)" using sub assms(2) by auto
  with f range_same [of m "kernel_map ms" i] show "map_ok ms1" using assms(1) by (simp add: map_ok_def i(3))
qed

lemma free_kpage_ok:
  assumes "map_ok ms" and "0 < n" and "a mod 4096 = 0" and "{IDX a..<IDX a + n} \<subseteq> ktaken ms"
  shows "\<exists>ms1. free_kpage a n ms = Some ms1 \<and> map_ok ms1 \<and> ktaken ms1 = ktaken ms - {IDX a..<IDX a + n}"
proof -
  have inv: "bm_inv (kernel_map ms)" using assms(1) by (simp add: map_ok_def)
  have sub: "{IDX a..<IDX a + n} \<subseteq> bm_range (kernel_map ms)" using assms(4) taken_range by blast
  note rb = range_bounds [OF refl sub assms(2)]
  then have "IDX a + n < 4294967296" using assms(1) by (simp add: map_ok_def)
  note rel = reset_page_release [OF assms(3,2) this, of "kernel_map ms"]
  from bm.release_from_taken [OF inv assms(4)] obtain m where m: "release_from bm_release (kernel_map ms) (IDX a) n = Some m"
    "bm_inv m" "bm_range m = bm_range (kernel_map ms)" "bm_taken m = ktaken ms - {IDX a..<IDX a + n}" by blast
  have "IDX a \<in> bm_range (kernel_map ms)" using sub assms(2) by auto
  with m range_same [of m "kernel_map ms"] assms rel show ?thesis
    by (simp add: free_kpage_def ASSERT_PAGE_def map_ok_def)
qed

section \<open>The invariant\<close>

definition bs :: "nat \<Rightarrow> nat" where "bs i = 16 * 2 ^ i"
definition tb :: "nat \<Rightarrow> nat" where "tb i = 4080 div bs i"

text \<open>The \<open>k\<close>-th block of an arena, and all of them.\<close>

definition slot :: "nat \<Rightarrow> nat \<Rightarrow> nat \<Rightarrow> nat" where
  "slot i p k = p + 16 + k * bs i"

definition slots :: "nat \<Rightarrow> nat \<Rightarrow> nat set" where
  "slots i p = slot i p ` {..<tb i}"

definition small :: "heap_t \<Rightarrow> nat \<Rightarrow> nat \<Rightarrow> bool" where
  "small h i p \<longleftrightarrow> (\<exists>a. arenas h p = Some a \<and> \<not> large a \<and> desc a = Some i)"

definition free_of :: "heap_t \<Rightarrow> nat \<Rightarrow> nat set" where
  "free_of h i = set (blocks (descs h ! i))"

definition apages :: "nat \<Rightarrow> arena_t \<Rightarrow> nat set" where
  "apages p a = {IDX p..<IDX p + (if large a then acount a else 1)}"

text \<open>What holds of a descriptor and of an arena.\<close>

definition desc_ok :: "heap_t \<Rightarrow> nat \<Rightarrow> bool" where
  "desc_ok h i \<longleftrightarrow> total_block (descs h ! i) = tb i \<and> block_size (descs h ! i) = bs i \<and>
     distinct (blocks (descs h ! i)) \<and> (\<forall>b\<in>free_of h i. \<exists>p. small h i p \<and> b \<in> slots i p) \<and>
     page_count (descs h ! i) = int (card {p. small h i p})"

definition arena_ok :: "heap_t \<Rightarrow> nat \<Rightarrow> arena_t \<Rightarrow> bool" where
  "arena_ok h p a \<longleftrightarrow> p mod 4096 = 0 \<and> 0 < IDX p \<and> amagic a = NEONIX_MAGIC \<and> apages p a \<subseteq> ktaken (hmem h) \<and>
     (if large a then 0 < acount a
      else \<exists>i<DESC_COUNT. desc a = Some i \<and> acount a = card (slots i p \<inter> free_of h i))"

definition hinv :: "heap_t \<Rightarrow> bool" where
  "hinv h \<longleftrightarrow> map_ok (hmem h) \<and> length (descs h) = DESC_COUNT \<and> (\<forall>i<DESC_COUNT. desc_ok h i) \<and>
     (\<forall>p a. arenas h p = Some a \<longrightarrow> arena_ok h p a) \<and>
     (\<forall>p q a b. arenas h p = Some a \<longrightarrow> arenas h q = Some b \<longrightarrow> p \<noteq> q \<longrightarrow> apages p a \<inter> apages q b = {})"

text \<open>The blocks in use, with their lengths.\<close>

definition in_use :: "heap_t \<Rightarrow> (nat \<times> nat) set" where
  "in_use h = {(p + 16, acount a * 4096 - 16) | p a. arenas h p = Some a \<and> large a} \<union>
     {(b, bs i) | b i p. small h i p \<and> b \<in> slots i p \<and> b \<notin> free_of h i}"

lemma in_use_small: "small h i p \<Longrightarrow> b \<in> slots i p \<Longrightarrow> b \<notin> free_of h i \<Longrightarrow> (b, bs i) \<in> in_use h"
  by (auto simp: in_use_def)

lemma in_use_large: "arenas h p = Some a \<Longrightarrow> large a \<Longrightarrow> (p + 16, acount a * 4096 - 16) \<in> in_use h"
  by (auto simp: in_use_def)

lemma in_useE:
  assumes "x \<in> in_use h"
  obtains p a where "x = (p + 16, acount a * 4096 - 16)" "arenas h p = Some a" "large a"
  | b i p where "x = (b, bs i)" "small h i p" "b \<in> slots i p" "b \<notin> free_of h i"
  using assms by (auto simp: in_use_def)

subsection \<open>Blocks of an arena\<close>

lemma bs_pos [simp]: "0 < bs i" "bs i \<noteq> 0"
  by (simp_all add: bs_def)

lemma bs_ge: "16 \<le> bs i"
  by (simp add: bs_def)

lemma tb_bs: "tb i * bs i \<le> 4080"
  by (simp add: tb_def)

lemma slot_bounds:
  assumes "b \<in> slots i p"
  shows "p + 16 \<le> b" and "b + bs i \<le> p + 4096"
proof -
  obtain k where k: "k < tb i" "b = p + 16 + k * bs i" using assms by (auto simp: slots_def slot_def)
  show "p + 16 \<le> b" by (simp add: k(2))
  have "(k + 1) * bs i \<le> tb i * bs i" using k(1) by (intro mult_right_mono) simp_all
  with tb_bs [of i] k(2) show "b + bs i \<le> p + 4096" by simp
qed

lemma slot_page:
  assumes "b \<in> slots i p" and "p mod 4096 = 0"
  shows "get_block_arena b = p"
proof -
  note sb = slot_bounds [OF assms(1)]
  have "b < p + 4096" using sb(2) bs_ge [of i] by linarith
  moreover obtain q where q: "p = 4096 * q" using assms(2) by (auto elim: dvdE)
  ultimately have "b div 4096 = q" using sb(1) by (simp add: div_nat_eqI)
  then show ?thesis by (simp add: get_block_arena_def q)
qed

lemma large_page: "p mod 4096 = 0 \<Longrightarrow> get_block_arena (p + 16) = p"
proof -
  assume "p mod 4096 = 0"
  then obtain q where "p = 4096 * q" by (auto elim: dvdE)
  moreover have "(4096 * q + 16) div 4096 = q" by (rule div_nat_eqI) simp_all
  ultimately show ?thesis by (simp add: get_block_arena_def)
qed

lemma slot_inj: "inj_on (slot i p) A"
  by (auto simp: inj_on_def slot_def)

lemma card_slots: "card (slots i p) = tb i"
  by (simp add: slots_def card_image slot_inj)

lemma finite_slots [simp]: "finite (slots i p)"
  by (simp add: slots_def)

lemma slots_apart:
  assumes "b \<in> slots i p" and "c \<in> slots i p" and "b < c"
  shows "b + bs i \<le> c"
proof -
  obtain k l where k: "b = p + 16 + k * bs i" "c = p + 16 + l * bs i" using assms by (auto simp: slots_def slot_def)
  then have "k < l" using assms(3) by simp
  then have "(k + 1) * bs i \<le> l * bs i" by (intro mult_right_mono) simp_all
  with k show ?thesis by simp
qed

subsection \<open>Arenas\<close>

lemma hinvD:
  assumes "hinv h"
  shows "map_ok (hmem h)" and "length (descs h) = DESC_COUNT" and "i < DESC_COUNT \<Longrightarrow> desc_ok h i"
    and "arenas h p = Some a \<Longrightarrow> arena_ok h p a"
    and "arenas h p = Some a \<Longrightarrow> arenas h q = Some b \<Longrightarrow> p \<noteq> q \<Longrightarrow> apages p a \<inter> apages q b = {}"
  using assms unfolding hinv_def by blast+

lemma small_arena:
  assumes "hinv h" and "small h i p"
  obtains a where "arenas h p = Some a" "\<not> large a" "desc a = Some i" "i < DESC_COUNT" "p mod 4096 = 0"
    "0 < IDX p" "amagic a = NEONIX_MAGIC" "IDX p \<in> ktaken (hmem h)" "acount a = card (slots i p \<inter> free_of h i)"
proof -
  obtain a where a: "arenas h p = Some a" "\<not> large a" "desc a = Some i" using assms(2) by (auto simp: small_def)
  from hinvD(4) [OF assms(1) a(1)] a that show thesis by (auto simp: arena_ok_def apages_def)
qed

lemma page_inj: "p mod 4096 = 0 \<Longrightarrow> q mod 4096 = 0 \<Longrightarrow> IDX p = IDX q \<Longrightarrow> p = q"
  by (auto simp: IDX_def)

text \<open>The blocks of different arenas are different.\<close>

lemma slots_other:
  assumes "hinv h" and "small h i p" and "small h j q" and "p \<noteq> q"
  shows "slots i p \<inter> slots j q = {}"
proof -
  have "p mod 4096 = 0" "q mod 4096 = 0" using small_arena [OF assms(1,2)] small_arena [OF assms(1,3)] by blast+
  with slot_page assms(4) show ?thesis by (metis disjoint_iff)
qed

lemma small_desc: "small h i p \<Longrightarrow> small h j p \<Longrightarrow> i = j"
  by (auto simp: small_def)

lemma finite_arenas: "hinv h \<Longrightarrow> finite {p. small h i p}"
proof -
  assume h: "hinv h"
  have "finite (IDX ` {p. small h i p})"
  proof (rule finite_subset)
    show "IDX ` {p. small h i p} \<subseteq> ktaken (hmem h)" using small_arena [OF h] by blast
    show "finite (ktaken (hmem h))" by (rule finite_subset [OF taken_range]) (simp add: bm_range_def)
  qed
  moreover have "inj_on IDX {p. small h i p}"
    using small_arena [OF h] page_inj by (intro inj_onI) (metis (mono_tags, lifting) mem_Collect_eq)
  ultimately show ?thesis using finite_image_iff by blast
qed

subsection \<open>Changing the free blocks of one arena\<close>

definition set_blocks :: "nat \<Rightarrow> nat \<Rightarrow> arena_t \<Rightarrow> nat list \<Rightarrow> heap_t \<Rightarrow> heap_t" where
  "set_blocks i p a bl h = (upd_desc i (\<lambda>d. d\<lparr>blocks := bl\<rparr>) h)
     \<lparr>arenas := (arenas h)(p := Some (a\<lparr>acount := card (slots i p \<inter> set bl)\<rparr>))\<rparr>"

lemma set_blocks_fields:
  assumes "arenas h p = Some a" and "\<not> large a" and "i < length (descs h)"
  shows "small (set_blocks i p a bl h) j q \<longleftrightarrow> small h j q"
    and "free_of (set_blocks i p a bl h) j = (if j = i then set bl else free_of h j)"
    and "hmem (set_blocks i p a bl h) = hmem h" and "length (descs (set_blocks i p a bl h)) = length (descs h)"
  using assms by (auto simp: set_blocks_def upd_desc_def small_def free_of_def)

lemma set_blocks_hinv:
  assumes "hinv h" and "arenas h p = Some a" and "\<not> large a" and "desc a = Some i" and "distinct bl"
    and "set bl - slots i p = free_of h i - slots i p"
  shows "hinv (set_blocks i p a bl h)"
proof -
  let ?h = "set_blocks i p a bl h"
  have small_p: "small h i p" using assms(2-4) by (simp add: small_def)
  then have i: "i < DESC_COUNT" using small_arena [OF assms(1)] by blast
  then have il: "i < length (descs h)" using hinvD(2) [OF assms(1)] by simp
  note F = set_blocks_fields [OF assms(2,3) il]
  have "desc_ok ?h j" if j: "j < DESC_COUNT" for j
  proof (cases "j = i")
    case False
    then have "descs ?h ! j = descs h ! j" by (simp add: set_blocks_def upd_desc_def)
    then show ?thesis using hinvD(3) [OF assms(1) j] False by (simp add: desc_ok_def F)
  next
    case True
    have d: "descs ?h ! i = (descs h ! i)\<lparr>blocks := bl\<rparr>" using il by (simp add: set_blocks_def upd_desc_def)
    have "\<exists>q. small h i q \<and> b \<in> slots i q" if "b \<in> set bl" for b
    proof (cases "b \<in> slots i p")
      case False
      with that assms(6) have "b \<in> free_of h i" by blast
      then show ?thesis using hinvD(3) [OF assms(1) i] by (simp add: desc_ok_def)
    qed (use small_p in blast)
    then show ?thesis using hinvD(3) [OF assms(1) i] assms(5) by (simp add: True desc_ok_def F d)
  qed
  moreover have "arena_ok ?h q b" if q: "arenas ?h q = Some b" for q b
  proof (cases "q = p")
    case True
    then have "b = a\<lparr>acount := card (slots i p \<inter> set bl)\<rparr>" using q by (simp add: set_blocks_def upd_desc_def)
    then show ?thesis using hinvD(4) [OF assms(1,2)] assms(3,4) by (simp add: True arena_ok_def F apages_def)
  next
    case False
    then have q: "arenas h q = Some b" using q by (simp add: set_blocks_def upd_desc_def)
    note ok = hinvD(4) [OF assms(1) q]
    have "slots i q \<inter> set bl = slots i q \<inter> free_of h i" if "\<not> large b" "desc b = Some i"
    proof -
      have "small h i q" using q that by (simp add: small_def)
      from slots_other [OF assms(1) this small_p False] assms(6) show ?thesis by blast
    qed
    then show ?thesis using ok by (cases "desc b = Some i") (auto simp: arena_ok_def F)
  qed
  moreover have "apages q b \<inter> apages r c = {}" if "arenas ?h q = Some b" "arenas ?h r = Some c" "q \<noteq> r" for q r b c
  proof -
    have "\<exists>b'. arenas h q = Some b' \<and> apages q b' = apages q b" if "arenas ?h q = Some b" for q b
      using that assms(2,3) by (cases "q = p") (auto simp: set_blocks_def upd_desc_def apages_def)
    then show ?thesis using that hinvD(5) [OF assms(1)] by metis
  qed
  ultimately show ?thesis using hinvD(1,2) [OF assms(1)] unfolding hinv_def F by blast
qed

lemma set_blocks_use:
  assumes "hinv h" and "arenas h p = Some a" and "\<not> large a" and "desc a = Some i"
    and "set bl - slots i p = free_of h i - slots i p"
  shows "in_use (set_blocks i p a bl h) = in_use h - slots i p \<times> {bs i} \<union> (slots i p - set bl) \<times> {bs i}"
proof -
  let ?h = "set_blocks i p a bl h"
  have small_p: "small h i p" using assms(2-4) by (simp add: small_def)
  then have i: "i < DESC_COUNT" using small_arena [OF assms(1)] by blast
  then have il: "i < length (descs h)" using hinvD(2) [OF assms(1)] by simp
  note F = set_blocks_fields [OF assms(2,3) il]
  have big: "arenas ?h q = Some b \<and> large b \<longleftrightarrow> arenas h q = Some b \<and> large b" for q b
    using assms(2,3) by (auto simp: set_blocks_def upd_desc_def)
  have not_slot: "(q + 16, acount b * 4096 - 16) \<notin> slots i p \<times> {bs i}" if q: "arenas h q = Some b" "large b" for q b
  proof
    assume "(q + 16, acount b * 4096 - 16) \<in> slots i p \<times> {bs i}"
    then have s: "q + 16 \<in> slots i p" by simp
    have al: "q mod 4096 = 0" "p mod 4096 = 0" using hinvD(4) [OF assms(1)] q(1) assms(2) by (auto simp: arena_ok_def)
    from slot_page [OF s al(2)] large_page [OF al(1)] have "q = p" by simp
    with q assms(2,3) show False by simp
  qed
  have other: "b \<notin> slots i p" if "small h j q" "b \<in> slots j q" "(j, q) \<noteq> (i, p)" for j q b
    using slots_other [OF assms(1) that(1) small_p] that small_desc [OF small_p] by (cases "q = p") auto
  show ?thesis
  proof (intro set_eqI iffI)
    fix x assume "x \<in> in_use ?h"
    then consider q b where "x = (q + 16, acount b * 4096 - 16)" "arenas h q = Some b" "large b"
      | b j q where "x = (b, bs j)" "small h j q" "b \<in> slots j q" "b \<notin> free_of ?h j"
      using big F(1) by (auto simp: in_use_def)
    then show "x \<in> in_use h - slots i p \<times> {bs i} \<union> (slots i p - set bl) \<times> {bs i}"
    proof cases
      case 1
      then show ?thesis using not_slot [OF 1(2,3)] by (auto simp: in_use_def)
    next
      case 2
      show ?thesis
      proof (cases "(j, q) = (i, p)")
        case True
        then show ?thesis using 2 by (simp add: F)
      next
        case False
        have "b \<notin> free_of h j"
          using 2(4) other [OF 2(2,3) False] assms(5) by (auto simp: F split: if_splits)
        then have "x \<in> in_use h" using 2 by (auto simp: in_use_def)
        then show ?thesis using other [OF 2(2,3) False] 2(1) by blast
      qed
    qed
  next
    fix x assume x: "x \<in> in_use h - slots i p \<times> {bs i} \<union> (slots i p - set bl) \<times> {bs i}"
    show "x \<in> in_use ?h"
    proof (cases "x \<in> (slots i p - set bl) \<times> {bs i}")
      case True
      then obtain b where "x = (b, bs i)" "b \<in> slots i p" "b \<notin> set bl" by blast
      then show ?thesis using small_p in_use_small [of ?h i p b] by (simp add: F)
    next
      case False
      with x have x: "x \<in> in_use h" "x \<notin> slots i p \<times> {bs i}" by blast+
      from x(1) consider q b where "x = (q + 16, acount b * 4096 - 16)" "arenas h q = Some b" "large b"
        | b j q where "x = (b, bs j)" "small h j q" "b \<in> slots j q" "b \<notin> free_of h j"
        by (auto simp: in_use_def)
      then show ?thesis
      proof cases
        case 1
        then show ?thesis using big by (auto simp: in_use_def)
      next
        case 2
        then have "b \<notin> free_of ?h j" using x(2) assms(5) by (auto simp: F)
        then show ?thesis using 2(2,3) in_use_small [of ?h j q b] by (simp add: 2(1) F)
      qed
    qed
  qed
qed

subsection \<open>Taking and giving back a block\<close>

lemma desc_blocks:
  assumes "hinv h" and "small h i p"
  shows "i < length (descs h)" and "distinct (blocks (descs h ! i))" and "total_block (descs h ! i) = tb i"
    and "block_size (descs h ! i) = bs i" and "i < DESC_COUNT"
proof -
  obtain a where i: "i < DESC_COUNT" using small_arena [OF assms] by blast
  then show "i < length (descs h)" "i < DESC_COUNT" using hinvD(2) [OF assms(1)] by simp_all
  show "distinct (blocks (descs h ! i))" "total_block (descs h ! i) = tb i" "block_size (descs h ! i) = bs i"
    using hinvD(3) [OF assms(1) i] by (simp_all add: desc_ok_def)
qed

lemma tb_le: "tb i \<le> 255"
proof -
  have "tb i * 16 \<le> tb i * bs i" using bs_ge [of i] by (intro mult_left_mono) simp_all
  with tb_bs [of i] show ?thesis by linarith
qed

text \<open>A block of an arena is in use when it is not free.\<close>

lemma in_use_slot:
  assumes "hinv h" and "small h i p" and "b \<in> slots i p"
  shows "(b, bs i) \<in> in_use h \<longleftrightarrow> b \<notin> free_of h i"
proof
  obtain a where a: "arenas h p = Some a" "\<not> large a" "p mod 4096 = 0"
    by (rule small_arena [OF assms(1,2)]) (rule that; assumption)
  assume "(b, bs i) \<in> in_use h"
  then show "b \<notin> free_of h i"
  proof (cases rule: in_useE)
    case (1 q c)
    then have "q mod 4096 = 0" using hinvD(4) [OF assms(1)] by (auto simp: arena_ok_def)
    from slot_page [OF assms(3) a(3)] large_page [OF this] 1 have "q = p" by simp
    then show ?thesis using 1 a by simp
  next
    case (2 c j q)
    then have "q = p" using slots_other [OF assms(1) 2(2) assms(2)] assms(3) by auto
    then show ?thesis using 2 small_desc [OF assms(2)] by auto
  qed
qed (rule in_use_small [OF assms(2,3)])

lemma pop_block_ok:
  assumes "hinv h" and "i < DESC_COUNT" and "blocks (descs h ! i) \<noteq> []"
  shows "\<exists>b h'. pop_block i h = Some (b, h') \<and> hinv h' \<and> b \<noteq> 0 \<and> (b, bs i) \<notin> in_use h \<and> in_use h' = insert (b, bs i) (in_use h)"
proof -
  let ?d = "descs h ! i"
  obtain b bl where b: "blocks ?d = b # bl" using assms(3) by (cases "blocks ?d") auto
  then have bf: "b \<in> free_of h i" by (simp add: free_of_def)
  then obtain p where p: "small h i p" "b \<in> slots i p" using hinvD(3) [OF assms(1,2)] by (auto simp: desc_ok_def)
  obtain a where a: "arenas h p = Some a" "\<not> large a" "desc a = Some i"
    "p mod 4096 = 0" "amagic a = NEONIX_MAGIC" "acount a = card (slots i p \<inter> free_of h i)"
    by (rule small_arena [OF assms(1) p(1)]) (rule that; assumption)
  note db = desc_blocks [OF assms(1) p(1)]
  have nb: "b \<notin> set bl" using db(2) by (simp add: b)
  have fb: "free_of h i = insert b (set bl)" by (simp add: free_of_def b)
  have "card (slots i p \<inter> free_of h i) = Suc (card (slots i p \<inter> set bl))" using p(2) nb by (simp add: fb)
  moreover have "card (slots i p \<inter> free_of h i) \<le> tb i"
    using card_mono [of "slots i p" "slots i p \<inter> free_of h i"] card_slots [of i p] by simp
  ultimately have c: "w32_sub (acount a) 1 = card (slots i p \<inter> set bl)"
    using tb_le [of i] a(6) w32_sub_le [of 1 "acount a"] by simp
  let ?h = "set_blocks i p a bl h"
  have "pop_block i h = Some (b, ?h)"
    using a(1,2,5) by (simp add: pop_block_def b slot_page [OF p(2) a(4)] upd_desc_def set_blocks_def c [simplified])
  moreover have "hinv ?h" by (rule set_blocks_hinv [OF assms(1) a(1-3)]) (use db(2) p(2) in \<open>auto simp: b fb\<close>)
  moreover have "in_use ?h = in_use h - slots i p \<times> {bs i} \<union> (slots i p - set bl) \<times> {bs i}"
    by (rule set_blocks_use [OF assms(1) a(1-3)]) (use p(2) in \<open>auto simp: fb\<close>)
  moreover have "(c, bs i) \<in> in_use h \<longleftrightarrow> c \<notin> insert b (set bl)" if "c \<in> slots i p" for c
    using in_use_slot [OF assms(1) p(1) that] by (simp add: fb)
  moreover have "b \<noteq> 0" using slot_bounds(1) [OF p(2)] by simp
  ultimately show ?thesis using p(2) nb by (intro exI [of _ b] exI [of _ ?h]) auto
qed

text \<open>The first half of \<open>kfree\<close>.\<close>

lemma push_free_ok:
  assumes "hinv h" and "small h i p" and "b \<in> slots i p" and "b \<notin> free_of h i" and "arenas h p = Some a"
  defines "h' \<equiv> set_blocks i p a (b # blocks (descs h ! i)) h"
  shows "hinv h'" and "in_use h' = in_use h - {(b, bs i)}" and "acount a < tb i"
    and "card (slots i p \<inter> set (b # blocks (descs h ! i))) = acount a + 1"
proof -
  obtain a' where a': "arenas h p = Some a'" "\<not> large a'" "desc a' = Some i" "acount a' = card (slots i p \<inter> free_of h i)"
    by (rule small_arena [OF assms(1,2)]) (rule that; assumption)
  then have a: "\<not> large a" "desc a = Some i" "acount a = card (slots i p \<inter> free_of h i)" using assms(5) by simp_all
  note db = desc_blocks [OF assms(1,2)]
  have fb: "free_of h i = set (blocks (descs h ! i))" by (simp add: free_of_def)
  show "card (slots i p \<inter> set (b # blocks (descs h ! i))) = acount a + 1" using assms(3,4) a(3) by (simp add: fb)
  have "slots i p \<inter> free_of h i \<subset> slots i p" using assms(3,4) by blast
  from psubset_card_mono [OF _ this] show "acount a < tb i" by (simp add: a(3) card_slots)
  show "hinv h'" unfolding h'_def
    by (rule set_blocks_hinv [OF assms(1,5) a(1,2)]) (use db(2) assms(3,4) in \<open>auto simp: fb\<close>)
  have "in_use h' = in_use h - slots i p \<times> {bs i} \<union> (slots i p - set (b # blocks (descs h ! i))) \<times> {bs i}" unfolding h'_def
    by (rule set_blocks_use [OF assms(1,5) a(1,2)]) (use assms(3) in \<open>auto simp: fb\<close>)
  moreover have "(c, bs i) \<in> in_use h \<longleftrightarrow> c \<notin> set (blocks (descs h ! i))" if "c \<in> slots i p" for c
    using in_use_slot [OF assms(1,2) that] by (simp add: fb)
  ultimately show "in_use h' = in_use h - {(b, bs i)}" using assms(3) by auto
qed

subsection \<open>Whole arenas\<close>

text \<open>A new arena of fresh pages.\<close>

lemma put_arena_hinv:
  assumes "hinv h" and "map_ok m" and "arenas h p = None" and "ktaken m = ktaken (hmem h) \<union> apages p a"
    and "apages p a \<inter> ktaken (hmem h) = {}" and "p mod 4096 = 0" "0 < IDX p" "amagic a = NEONIX_MAGIC" "large a" "0 < acount a"
  shows "hinv (h\<lparr>hmem := m, arenas := (arenas h)(p := Some a)\<rparr>)"
    and "in_use (h\<lparr>hmem := m, arenas := (arenas h)(p := Some a)\<rparr>) = insert (p + 16, acount a * 4096 - 16) (in_use h)"
proof -
  let ?h = "h\<lparr>hmem := m, arenas := (arenas h)(p := Some a)\<rparr>"
  have F: "small ?h j q \<longleftrightarrow> small h j q" "free_of ?h j = free_of h j" "hmem ?h = m" "descs ?h = descs h" for j q
    using assms(3,9) by (auto simp: small_def free_of_def)
  have "desc_ok ?h j" if "j < DESC_COUNT" for j using hinvD(3) [OF assms(1) that] by (simp add: desc_ok_def F)
  moreover have "arena_ok ?h q b" if "arenas ?h q = Some b" for q b
  proof (cases "q = p")
    case True
    then show ?thesis using that assms by (simp add: arena_ok_def F)
  next
    case False
    then have "arena_ok h q b" using that by (intro hinvD(4) [OF assms(1)]) simp
    then show ?thesis using assms(4) by (auto simp: arena_ok_def F)
  qed
  moreover have "apages q b \<inter> apages r c = {}" if q: "arenas ?h q = Some b" "arenas ?h r = Some c" "q \<noteq> r" for q r b c
  proof -
    have "apages q b \<subseteq> ktaken (hmem h)" if "arenas h q = Some b" for q b
      using hinvD(4) [OF assms(1) that] by (simp add: arena_ok_def)
    then show ?thesis using q assms(5) hinvD(5) [OF assms(1)] by (auto split: if_splits) blast+
  qed
  ultimately show "hinv ?h" using assms(2) hinvD(2) [OF assms(1)] unfolding hinv_def F by blast
  show "in_use ?h = insert (p + 16, acount a * 4096 - 16) (in_use h)"
    using assms(3,9) unfolding in_use_def F by (auto split: if_splits)
qed

lemma put_small_hinv:
  assumes "hinv h" and "map_ok m" and "arenas h p = None" and "ktaken m = ktaken (hmem h) \<union> {IDX p}"
    and "IDX p \<notin> ktaken (hmem h)" and "p mod 4096 = 0" "0 < IDX p" and "i < DESC_COUNT"
  defines "h' \<equiv> upd_desc i (\<lambda>d. d\<lparr>page_count := page_count d + 1, blocks := rev (map (slot i p) [0..<tb i]) @ blocks d\<rparr>)
     (h\<lparr>hmem := m, arenas := (arenas h)(p := Some \<lparr>desc = Some i, acount = tb i, large = False, amagic = NEONIX_MAGIC\<rparr>)\<rparr>)"
  shows "hinv h'" and "in_use h' = in_use h"
proof -
  have il: "i < length (descs h)" using hinvD(2) [OF assms(1)] assms(8) by simp
  have F: "small h' j q \<longleftrightarrow> small h j q \<or> j = i \<and> q = p" "hmem h' = m" "length (descs h') = length (descs h)"
    "free_of h' j = (if j = i then slots i p \<union> free_of h i else free_of h j)" for j q
    using assms(3) il by (auto simp: h'_def small_def upd_desc_def free_of_def slots_def atLeast0LessThan)
  have fresh: "slots i p \<inter> free_of h i = {}"
  proof -
    have "q \<noteq> p" if "small h i q" for q using that assms(3) by (auto simp: small_def)
    moreover have "q mod 4096 = 0" if "small h i q" for q using that hinvD(4) [OF assms(1)] by (auto simp: small_def arena_ok_def)
    moreover have "\<exists>q. small h i q \<and> b \<in> slots i q" if "b \<in> free_of h i" for b
      using hinvD(3) [OF assms(1,8)] that by (simp add: desc_ok_def)
    ultimately show ?thesis using slot_page assms(6) by (metis disjoint_iff)
  qed
  have "desc_ok h' j" if j: "j < DESC_COUNT" for j
  proof (cases "j = i")
    case False
    then have "descs h' ! j = descs h ! j" by (simp add: h'_def upd_desc_def)
    then show ?thesis using hinvD(3) [OF assms(1) j] False by (auto simp: desc_ok_def F)
  next
    case True
    have d: "descs h' ! i = (descs h ! i)\<lparr>page_count := page_count (descs h ! i) + 1,
        blocks := rev (map (slot i p) [0..<tb i]) @ blocks (descs h ! i)\<rparr>"
      using il by (simp add: h'_def upd_desc_def)
    have "distinct (blocks (descs h' ! i))"
      using hinvD(3) [OF assms(1,8)] fresh slot_inj [of i p]
      by (simp add: d desc_ok_def distinct_map free_of_def slots_def atLeast0LessThan)
    moreover have "card {q. small h' i q} = card {q. small h i q} + 1"
    proof -
      have "p \<notin> {q. small h i q}" using assms(3) by (auto simp: small_def)
      moreover have "{q. small h' i q} = insert p {q. small h i q}" by (auto simp: F)
      ultimately show ?thesis using finite_arenas [OF assms(1)] by simp
    qed
    ultimately show ?thesis using hinvD(3) [OF assms(1,8)] by (auto simp: True desc_ok_def F d)
  qed
  moreover have "arena_ok h' q b" if "arenas h' q = Some b" for q b
  proof (cases "q = p")
    case True
    have "slots i p \<inter> (slots i p \<union> free_of h i) = slots i p" by blast
    moreover have "b = \<lparr>desc = Some i, acount = tb i, large = False, amagic = NEONIX_MAGIC\<rparr>"
      using that by (simp add: True h'_def upd_desc_def)
    ultimately show ?thesis using assms(4,6-8) by (simp add: True arena_ok_def F apages_def card_slots)
  next
    case False
    then have q: "arenas h q = Some b" using that by (simp add: h'_def upd_desc_def)
    have "slots i q \<inter> slots i p = {}" if "q mod 4096 = 0" using False slot_page that assms(6) by (metis disjoint_iff)
    then have "slots i q \<inter> (slots i p \<union> free_of h i) = slots i q \<inter> free_of h i" if "q mod 4096 = 0" using that by blast
    then show ?thesis using hinvD(4) [OF assms(1) q] assms(4) by (cases "desc b = Some i") (auto simp: arena_ok_def F)
  qed
  moreover have "apages q b \<inter> apages r c = {}" if q: "arenas h' q = Some b" "arenas h' r = Some c" "q \<noteq> r" for q r b c
  proof -
    have "apages q b \<subseteq> ktaken (hmem h)" if "arenas h q = Some b" for q b
      using hinvD(4) [OF assms(1) that] by (simp add: arena_ok_def)
    then show ?thesis using q assms(5) hinvD(5) [OF assms(1)]
      by (auto simp: h'_def upd_desc_def apages_def [of p] split: if_splits) blast+
  qed
  ultimately show "hinv h'" using assms(2) hinvD(2) [OF assms(1)] unfolding hinv_def F by blast
  have big: "arenas h' q = Some b \<and> large b \<longleftrightarrow> arenas h q = Some b \<and> large b" for q b
    using assms(3) by (auto simp: h'_def upd_desc_def)
  have other: "b \<notin> slots i p" if "small h i q" "b \<in> slots i q" for b q
  proof -
    have "q mod 4096 = 0" "q \<noteq> p" using that(1) assms(3) hinvD(4) [OF assms(1)] by (auto simp: small_def arena_ok_def)
    then show ?thesis using slot_page that(2) assms(6) by metis
  qed
  show "in_use h' = in_use h"
  proof (intro set_eqI iffI)
    fix x assume "x \<in> in_use h'"
    then show "x \<in> in_use h"
    proof (cases rule: in_useE)
      case (1 q b)
      then show ?thesis using big [of q b] in_use_large [of h q b] by simp
    next
      case (2 b j q)
      then have "small h j q" "b \<notin> free_of h j" by (auto simp: F split: if_splits)
      then show ?thesis using 2 by (simp add: in_use_small)
    qed
  next
    fix x assume "x \<in> in_use h"
    then show "x \<in> in_use h'"
    proof (cases rule: in_useE)
      case (1 q b)
      then show ?thesis using big [of q b] in_use_large [of h' q b] by simp
    next
      case (2 b j q)
      then have "small h' j q" "b \<notin> free_of h' j" using other [of q b] by (auto simp: F)
      then show ?thesis using 2 by (simp add: in_use_small)
    qed
  qed
qed

text \<open>An arena that goes.\<close>

lemma arena_apart: "hinv h \<Longrightarrow> arenas h p = Some a \<Longrightarrow> arenas h q = Some b \<Longrightarrow> p \<noteq> q \<Longrightarrow>
  apages q b \<subseteq> ktaken (hmem h) - apages p a"
  using hinvD(4) [of h q b] hinvD(5) [of h p a q b] unfolding arena_ok_def by blast

lemma drop_large_hinv:
  assumes "hinv h" and "arenas h p = Some a" and "large a" and "map_ok m" and "ktaken m = ktaken (hmem h) - apages p a"
  shows "hinv (h\<lparr>hmem := m, arenas := (arenas h)(p := None)\<rparr>)"
    and "in_use (h\<lparr>hmem := m, arenas := (arenas h)(p := None)\<rparr>) = in_use h - {(p + 16, acount a * 4096 - 16)}"
proof -
  let ?h = "h\<lparr>hmem := m, arenas := (arenas h)(p := None)\<rparr>"
  have F: "small ?h j q \<longleftrightarrow> small h j q" "free_of ?h j = free_of h j" "hmem ?h = m" "descs ?h = descs h" for j q
    using assms(2,3) by (auto simp: small_def free_of_def)
  have "desc_ok ?h j" if "j < DESC_COUNT" for j using hinvD(3) [OF assms(1) that] by (simp add: desc_ok_def F)
  moreover have "arena_ok ?h q b" if "arenas ?h q = Some b" for q b
  proof -
    have q: "q \<noteq> p" "arenas h q = Some b" using that by (auto split: if_splits)
    from hinvD(4) [OF assms(1) q(2)] arena_apart [OF assms(1,2) q(2)] q(1) show ?thesis by (auto simp: arena_ok_def F assms(5))
  qed
  moreover have "apages q b \<inter> apages r c = {}" if "arenas ?h q = Some b" "arenas ?h r = Some c" "q \<noteq> r" for q r b c
    using that by (intro hinvD(5) [OF assms(1)]) (auto split: if_splits)
  ultimately show "hinv ?h" using assms(4) hinvD(2) [OF assms(1)] unfolding hinv_def F by blast
  show "in_use ?h = in_use h - {(p + 16, acount a * 4096 - 16)}"
  proof (intro set_eqI iffI)
    fix x assume "x \<in> in_use ?h"
    then show "x \<in> in_use h - {(p + 16, acount a * 4096 - 16)}"
    proof (cases rule: in_useE)
      case (1 q b)
      then show ?thesis using in_use_large [of h q b] by (auto split: if_splits)
    next
      case (2 b j q)
      then have s: "small h j q" "b \<in> slots j q" "b \<notin> free_of h j" by (simp_all add: F)
      have "b \<noteq> p + 16"
      proof
        assume b: "b = p + 16"
        have al: "p mod 4096 = 0" "q mod 4096 = 0"
          using hinvD(4) [OF assms(1)] assms(2) s(1) by (auto simp: small_def arena_ok_def)
        then have "q = p" using slot_page [OF s(2) al(2)] large_page [OF al(1)] by (simp add: b)
        then show False using s(1) assms(2,3) by (simp add: small_def)
      qed
      then show ?thesis using in_use_small [OF s] 2(1) by simp
    qed
  next
    fix x assume x: "x \<in> in_use h - {(p + 16, acount a * 4096 - 16)}"
    then have "x \<in> in_use h" by simp
    then show "x \<in> in_use ?h"
    proof (cases rule: in_useE)
      case (1 q b)
      then have "q \<noteq> p" using x assms(2) by auto
      then show ?thesis using 1 in_use_large [of ?h q b] by simp
    next
      case (2 b j q)
      then show ?thesis using in_use_small [of ?h j q b] by (simp add: F)
    qed
  qed
qed

lemma drop_small_hinv:
  assumes "hinv h" and "small h i p" and "slots i p \<subseteq> free_of h i" and "map_ok m" and "ktaken m = ktaken (hmem h) - {IDX p}"
  defines "h' \<equiv> upd_desc i (\<lambda>d. d\<lparr>blocks := filter (\<lambda>b. b \<notin> slots i p) (blocks d), page_count := page_count d - 1\<rparr>)
     (h\<lparr>hmem := m, arenas := (arenas h)(p := None)\<rparr>)"
  shows "hinv h'" and "in_use h' = in_use h"
proof -
  obtain a where a: "arenas h p = Some a" "\<not> large a" "desc a = Some i" "p mod 4096 = 0"
    by (rule small_arena [OF assms(1,2)]) (rule that; assumption)
  note db = desc_blocks [OF assms(1,2)]
  have F: "small h' j q \<longleftrightarrow> small h j q \<and> q \<noteq> p" "hmem h' = m" "length (descs h') = length (descs h)"
    "free_of h' j = (if j = i then free_of h i - slots i p else free_of h j)" for j q
    using db(1) by (auto simp: h'_def small_def upd_desc_def free_of_def)
  have other: "slots j q \<inter> slots i p = {}" if "small h j q" "q \<noteq> p" for j q
    using slots_other [OF assms(1) that(1) assms(2) that(2)] .
  have "desc_ok h' j" if j: "j < DESC_COUNT" for j
  proof (cases "j = i")
    case False
    then have "descs h' ! j = descs h ! j" by (simp add: h'_def upd_desc_def)
    moreover have "small h' j q \<longleftrightarrow> small h j q" for q using False small_desc [OF assms(2)] by (auto simp: F)
    ultimately show ?thesis using hinvD(3) [OF assms(1) j] False by (simp add: desc_ok_def F(4))
  next
    case True
    have d: "descs h' ! i = (descs h ! i)\<lparr>blocks := filter (\<lambda>b. b \<notin> slots i p) (blocks (descs h ! i)),
        page_count := page_count (descs h ! i) - 1\<rparr>"
      using db(1) by (simp add: h'_def upd_desc_def)
    have "card {q. small h i q} = card {q. small h' i q} + 1"
    proof -
      have "{q. small h i q} = insert p {q. small h' i q}" "p \<notin> {q. small h' i q}" using assms(2) by (auto simp: F)
      moreover have "finite {q. small h' i q}" using finite_arenas [OF assms(1), of i] by (rule rev_finite_subset) (auto simp: F)
      ultimately show ?thesis by simp
    qed
    moreover have "\<exists>q. small h' i q \<and> b \<in> slots i q" if "b \<in> free_of h' i" for b
    proof -
      have "b \<in> free_of h i" "b \<notin> slots i p" using that by (simp_all add: F)
      then show ?thesis using hinvD(3) [OF assms(1) db(5)] by (auto simp: desc_ok_def F)
    qed
    ultimately show ?thesis using hinvD(3) [OF assms(1) db(5)] by (simp add: True desc_ok_def d)
  qed
  moreover have "arena_ok h' q b" if "arenas h' q = Some b" for q b
  proof -
    have q: "q \<noteq> p" "arenas h q = Some b" using that by (auto simp: h'_def upd_desc_def split: if_splits)
    have "apages p a = {IDX p}" using a(2) by (simp add: apages_def)
    then have t: "apages q b \<subseteq> ktaken m" using arena_apart [OF assms(1) a(1) q(2)] q(1) by (simp add: assms(5))
    have "slots i q \<inter> (free_of h i - slots i p) = slots i q \<inter> free_of h i" if "\<not> large b" "desc b = Some i"
    proof -
      have "small h i q" using that q(2) by (simp add: small_def)
      from other [OF this q(1)] show ?thesis by blast
    qed
    then show ?thesis using hinvD(4) [OF assms(1) q(2)] t by (cases "desc b = Some i") (auto simp: arena_ok_def F)
  qed
  moreover have "apages q b \<inter> apages r c = {}" if "arenas h' q = Some b" "arenas h' r = Some c" "q \<noteq> r" for q r b c
    using that by (intro hinvD(5) [OF assms(1)]) (auto simp: h'_def upd_desc_def split: if_splits)
  ultimately show "hinv h'" using assms(4) hinvD(2) [OF assms(1)] unfolding hinv_def F by blast
  have big: "arenas h' q = Some b \<and> large b \<longleftrightarrow> arenas h q = Some b \<and> large b" for q b
    using a by (auto simp: h'_def upd_desc_def)
  show "in_use h' = in_use h"
  proof (intro set_eqI iffI)
    fix x assume "x \<in> in_use h'"
    then show "x \<in> in_use h"
    proof (cases rule: in_useE)
      case (1 q b)
      then show ?thesis using big [of q b] in_use_large [of h q b] by simp
    next
      case (2 b j q)
      then have "small h j q" "b \<notin> free_of h j" using other [of j q] by (auto simp: F split: if_splits)
      then show ?thesis using 2 by (simp add: in_use_small)
    qed
  next
    fix x assume "x \<in> in_use h"
    then show "x \<in> in_use h'"
    proof (cases rule: in_useE)
      case (1 q b)
      then show ?thesis using big [of q b] in_use_large [of h' q b] by simp
    next
      case (2 b j q)
      then have "q \<noteq> p" using assms(3) small_desc [OF assms(2)] by auto
      with 2 have "small h' j q" "b \<notin> free_of h' j" by (auto simp: F)
      then show ?thesis using 2 by (simp add: in_use_small)
    qed
  qed
qed

subsection \<open>The loops\<close>

lemma upd_desc_upd_desc: "i < length (descs h) \<Longrightarrow> upd_desc i f (upd_desc i g h) = upd_desc i (\<lambda>d. f (g d)) h"
  by (simp add: upd_desc_def)

lemma upd_desc_nth [simp]: "i < length (descs h) \<Longrightarrow> descs (upd_desc i f h) ! i = f (descs h ! i)"
  by (simp add: upd_desc_def)

lemma upd_desc_length [simp]: "length (descs (upd_desc i f h)) = length (descs h)"
  by (simp add: upd_desc_def)

lemma upd_desc_id: "upd_desc i (\<lambda>d. d) h = h"
  by (simp add: upd_desc_def)

lemma upd_desc_cong: "f (descs h ! i) = g (descs h ! i) \<Longrightarrow> upd_desc i f h = upd_desc i g h"
  by (simp add: upd_desc_def)

lemma push_all:
  assumes "i < length (descs h)" and "total_block (descs h ! i) = tb i" and "block_size (descs h ! i) = bs i"
    and "slots i p \<inter> free_of h i = {}"
  shows "for_each (push_block i p) [0..<tb i] h =
    Some (upd_desc i (\<lambda>d. d\<lparr>blocks := rev (map (slot i p) [0..<tb i]) @ blocks d\<rparr>) h)"
proof -
  let ?f = "\<lambda>k d. d\<lparr>blocks := rev (map (slot i p) [0..<k]) @ blocks d\<rparr>"
  have "\<exists>s'. for_each (push_block i p) [0..<tb i] h = Some s' \<and> s' = upd_desc i (?f (tb i)) h"
  proof (rule for_each_rule)
    show "h = upd_desc i (?f 0) h" by (simp add: upd_desc_def)
    fix k s assume k: "0 \<le> k" "k < tb i" and s: "s = upd_desc i (?f k) h"
    have d: "descs s ! i = ?f k (descs h ! i)" using assms(1) by (simp add: s)
    have "slot i p k \<in> slots i p" using k by (simp add: slots_def)
    moreover have "slot i p k \<notin> slot i p ` {0..<k}" by (auto simp: slot_def)
    ultimately have fresh: "slot i p k \<notin> set (blocks (descs s ! i))" using assms(4) by (auto simp: d free_of_def)
    have "get_arena_block (descs s ! i) p k = Some (slot i p k)"
      using k assms(2,3) by (simp add: get_arena_block_def d slot_def ARENA_T_SIZE_def)
    with fresh have "push_block i p k s = Some (upd_desc i (\<lambda>d. d\<lparr>blocks := slot i p k # blocks d\<rparr>) s)"
      by (simp add: push_block_def)
    moreover have "upd_desc i (\<lambda>d. d\<lparr>blocks := slot i p k # blocks d\<rparr>) s = upd_desc i (?f (Suc k)) h"
      using assms(1) by (simp add: s upd_desc_upd_desc)
    ultimately show "\<exists>s'. push_block i p k s = Some s' \<and> s' = upd_desc i (?f (Suc k)) h" by blast
  qed simp
  then show ?thesis by simp
qed

lemma drop_all:
  assumes "i < length (descs h)" and "total_block (descs h ! i) = tb i" and "block_size (descs h ! i) = bs i"
    and "slots i p \<subseteq> free_of h i" and "distinct (blocks (descs h ! i))"
  shows "for_each (drop_block i p) [0..<tb i] h =
    Some (upd_desc i (\<lambda>d. d\<lparr>blocks := filter (\<lambda>b. b \<notin> slots i p) (blocks d)\<rparr>) h)"
proof -
  let ?f = "\<lambda>k d. d\<lparr>blocks := filter (\<lambda>b. b \<notin> slot i p ` {..<k}) (blocks d)\<rparr>"
  have "\<exists>s'. for_each (drop_block i p) [0..<tb i] h = Some s' \<and> s' = upd_desc i (?f (tb i)) h"
  proof (rule for_each_rule)
    show "h = upd_desc i (?f 0) h" by (simp add: upd_desc_def)
    fix k s assume k: "0 \<le> k" "k < tb i" and s: "s = upd_desc i (?f k) h"
    have d: "descs s ! i = ?f k (descs h ! i)" using assms(1) by (simp add: s)
    have "slot i p k \<in> slots i p" using k by (simp add: slots_def)
    moreover have "slot i p k \<notin> slot i p ` {..<k}" by (auto simp: slot_def)
    ultimately have there: "slot i p k \<in> set (blocks (descs s ! i))" using assms(4) by (auto simp: d free_of_def)
    have dist: "distinct (blocks (descs s ! i))" using assms(5) by (simp add: d)
    have il: "i < length (descs s)" using assms(1) by (simp add: s)
    have "get_arena_block (descs s ! i) p k = Some (slot i p k)"
      using k assms(2,3) by (simp add: get_arena_block_def d slot_def ARENA_T_SIZE_def)
    with there dist il have "drop_block i p k s = Some (upd_desc i (\<lambda>d. d\<lparr>blocks := remove1 (slot i p k) (blocks d)\<rparr>) s)"
      by (simp add: drop_block_def Let_def)
    moreover have "upd_desc i (\<lambda>d. d\<lparr>blocks := remove1 (slot i p k) (blocks d)\<rparr>) s = upd_desc i (?f (Suc k)) h"
    proof -
      have "remove1 (slot i p k) (filter (\<lambda>b. b \<notin> slot i p ` {..<k}) bl) = filter (\<lambda>b. b \<notin> slot i p ` {..<Suc k}) bl"
        if "distinct bl" for bl
        using that by (simp add: distinct_remove1_removeAll removeAll_filter_not_eq lessThan_Suc) (rule filter_cong, auto)
      with assms(5) show ?thesis unfolding s upd_desc_upd_desc [OF assms(1)] by (intro upd_desc_cong) simp
    qed
    ultimately show "\<exists>s'. drop_block i p k s = Some s' \<and> s' = upd_desc i (?f (Suc k)) h" by blast
  qed simp
  then show ?thesis by (simp add: slots_def)
qed

section \<open>Allocating and freeing\<close>

lemma tb_pos: "i < DESC_COUNT \<Longrightarrow> 0 < tb i"
proof -
  assume "i < DESC_COUNT"
  then have "i \<in> {0, 1, 2, 3, 4, 5, 6}" by (auto simp: DESC_COUNT_def)
  then show ?thesis by (auto simp: tb_def bs_def)
qed

lemma fresh_page: "hinv h \<Longrightarrow> IDX p \<notin> ktaken (hmem h) \<Longrightarrow> arenas h p = None"
proof (rule ccontr)
  assume "hinv h" "IDX p \<notin> ktaken (hmem h)" "arenas h p \<noteq> None"
  then obtain a where a: "arena_ok h p a" using hinvD(4) by blast
  then have "IDX p \<in> apages p a" by (auto simp: arena_ok_def apages_def)
  with a \<open>IDX p \<notin> ktaken (hmem h)\<close> show False unfolding arena_ok_def by blast
qed

lemma new_arena_ok:
  assumes "hinv h" and "i < DESC_COUNT" and "alloc_kpage 1 (hmem h) = Some (p, m)"
  shows "\<exists>h'. new_arena i h = Some h' \<and> hinv h' \<and> in_use h' = in_use h \<and> blocks (descs h' ! i) \<noteq> []"
proof -
  note al = alloc_kpage_ok [OF hinvD(1) [OF assms(1)] _ assms(3), simplified]
  have il: "i < length (descs h)" using hinvD(2) [OF assms(1)] assms(2) by simp
  have fr: "arenas h p = None" by (rule fresh_page [OF assms(1)]) (use al(5) in simp)
  let ?a = "\<lparr>desc = Some i, acount = tb i, large = False, amagic = NEONIX_MAGIC\<rparr>"
  let ?h1 = "upd_desc i (\<lambda>d. d\<lparr>page_count := page_count d + 1\<rparr>) (h\<lparr>hmem := m\<rparr>)"
  let ?h2 = "?h1\<lparr>arenas := (arenas ?h1)(p := Some ?a)\<rparr>"
  let ?h3 = "upd_desc i (\<lambda>d. d\<lparr>page_count := page_count d + 1, blocks := rev (map (slot i p) [0..<tb i]) @ blocks d\<rparr>)
     (h\<lparr>hmem := m, arenas := (arenas h)(p := Some ?a)\<rparr>)"
  have ok: "total_block (descs h ! i) = tb i" "block_size (descs h ! i) = bs i"
    using hinvD(3) [OF assms(1,2)] by (simp_all add: desc_ok_def)
  have "slots i p \<inter> free_of h i = {}"
  proof -
    have "q \<noteq> p" "q mod 4096 = 0" if "small h i q" for q
      using that fr hinvD(4) [OF assms(1)] by (auto simp: small_def arena_ok_def)
    moreover have "\<exists>q. small h i q \<and> b \<in> slots i q" if "b \<in> free_of h i" for b
      using hinvD(3) [OF assms(1,2)] that by (simp add: desc_ok_def)
    ultimately show ?thesis using slot_page al(2) by (metis disjoint_iff)
  qed
  then have "slots i p \<inter> free_of ?h2 i = {}" using il by (simp add: free_of_def upd_desc_def)
  from push_all [of i ?h2, OF _ _ _ this] il ok
  have "for_each (push_block i p) [0..<tb i] ?h2 =
      Some (upd_desc i (\<lambda>d. d\<lparr>blocks := rev (map (slot i p) [0..<tb i]) @ blocks d\<rparr>) ?h2)"
    by (simp add: upd_desc_def)
  moreover have "upd_desc i (\<lambda>d. d\<lparr>blocks := rev (map (slot i p) [0..<tb i]) @ blocks d\<rparr>) ?h2 = ?h3"
    using il by (simp add: upd_desc_def)
  ultimately have "new_arena i h = Some ?h3"
    using il ok assms(3) by (simp add: new_arena_def Let_def)
  moreover have "hinv ?h3" "in_use ?h3 = in_use h"
    by (rule put_small_hinv [OF assms(1) al(1) fr _ _ al(2,3) assms(2)]; use al(5,6) in simp)+
  moreover have "blocks (descs ?h3 ! i) \<noteq> []" using il tb_pos [OF assms(2)] by (simp add: upd_desc_def)
  ultimately show ?thesis by blast
qed

text \<open>How many pages a request takes, and how many bytes it gets.\<close>

definition pages_for :: "nat \<Rightarrow> nat" where
  "pages_for sz = (if sz \<le> 1024 then 1 else (sz + 16 + 4095) div 4096)"

lemma desc_for_ok:
  assumes "hinv h" and "sz \<le> 1024"
  shows "desc_for sz h < DESC_COUNT" and "sz \<le> bs (desc_for sz h)"
proof -
  let ?P = "\<lambda>i. sz \<le> block_size (descs h ! i)"
  have b: "block_size (descs h ! i) = bs i" if "i < DESC_COUNT" for i using hinvD(3) [OF assms(1) that] by (simp add: desc_ok_def)
  have "?P 6" using assms(2) by (simp add: b DESC_COUNT_def bs_def)
  moreover have "6 \<in> set [0..<DESC_COUNT]" by (simp add: DESC_COUNT_def)
  ultimately have "find ?P [0..<DESC_COUNT] \<noteq> None" unfolding find_None_iff by blast
  then obtain i where i: "find ?P [0..<DESC_COUNT] = Some i" by blast
  then have "i < DESC_COUNT" "?P i" by (auto simp: find_Some_iff)
  with i b show "desc_for sz h < DESC_COUNT" "sz \<le> bs (desc_for sz h)" by (simp_all add: desc_for_def)
qed

lemma kmalloc_ok:
  assumes "hinv h" and "sz < 4294963184" and "alloc_kpage (pages_for sz) (hmem h) \<noteq> None"
  shows "\<exists>b n h'. kmalloc sz h = Some (b, h') \<and> hinv h' \<and> sz \<le> n \<and> b \<noteq> 0 \<and> (b, n) \<notin> in_use h \<and> in_use h' = insert (b, n) (in_use h)"
proof (cases "sz \<le> 1024")
  case True
  let ?i = "desc_for sz h"
  note d = desc_for_ok [OF assms(1) True]
  obtain p m where al: "alloc_kpage 1 (hmem h) = Some (p, m)" using assms(3) True by (auto simp: pages_for_def)
  have "\<exists>h1. (if blocks (descs h ! ?i) = [] then new_arena ?i h else Some h) = Some h1 \<and> hinv h1 \<and>
      in_use h1 = in_use h \<and> blocks (descs h1 ! ?i) \<noteq> []"
    using new_arena_ok [OF assms(1) d(1) al] assms(1) by (cases "blocks (descs h ! ?i) = []") simp_all
  then obtain h1 where h1: "(if blocks (descs h ! ?i) = [] then new_arena ?i h else Some h) = Some h1" "hinv h1"
    "in_use h1 = in_use h" "blocks (descs h1 ! ?i) \<noteq> []" by blast
  from pop_block_ok [OF h1(2) d(1) h1(4)] obtain b h' where "pop_block ?i h1 = Some (b, h')" "hinv h'" "b \<noteq> 0"
    "(b, bs ?i) \<notin> in_use h" "in_use h' = insert (b, bs ?i) (in_use h)" unfolding h1(3) by blast
  then show ?thesis using True d(2) h1(1) by (intro exI [of _ b] exI [of _ "bs ?i"] exI [of _ h']) (simp add: kmalloc_def Let_def)
next
  case False
  let ?n = "(sz + 16 + 4095) div 4096"
  obtain p m where al: "alloc_kpage ?n (hmem h) = Some (p, m)" using assms(3) False by (auto simp: pages_for_def)
  have n: "0 < ?n" using False by (simp add: div_greater_zero_iff)
  have dr: "div_round_up (w32 (sz + ARENA_T_SIZE)) PAGE_SIZE = Some ?n"
  proof -
    have "w32 (sz + ARENA_T_SIZE) = sz + 16" using assms(2) by (simp add: w32_small ARENA_T_SIZE_def)
    moreover have "div_round_up (sz + 16) 4096 = Some ((sz + 16 + 4096 - 1) div 4096)"
      using assms(2) by (intro div_round_up_pos) simp_all
    ultimately show ?thesis by (simp add: PAGE_SIZE_def)
  qed
  let ?a = "\<lparr>desc = None, acount = ?n, large = True, amagic = NEONIX_MAGIC\<rparr>"
  note ok = alloc_kpage_ok [OF hinvD(1) [OF assms(1)] n al]
  have "IDX p \<in> {IDX p..<IDX p + ?n}" using n by (simp del: div_greater_zero_iff)
  then have "IDX p \<notin> ktaken (hmem h)" using ok(5) by blast
  note fr = fresh_page [OF assms(1) this]
  have ap: "apages p ?a = {IDX p..<IDX p + ?n}" by (simp add: apages_def)
  note put = put_arena_hinv [OF assms(1) ok(1) fr, of ?a]
  have "hinv (h\<lparr>hmem := m, arenas := (arenas h)(p := Some ?a)\<rparr>)"
    "in_use (h\<lparr>hmem := m, arenas := (arenas h)(p := Some ?a)\<rparr>) = insert (p + 16, ?n * 4096 - 16) (in_use h)"
    using put [unfolded ap, OF ok(6) _ ok(2,3)] ok(5) n by (simp_all add: Int_commute)
  moreover have "kmalloc sz h = Some (p + 16, h\<lparr>hmem := m, arenas := (arenas h)(p := Some ?a)\<rparr>)"
    using False dr al by (simp add: kmalloc_def ARENA_T_SIZE_def)
  moreover have "sz \<le> ?n * 4096 - 16"
  proof -
    have "(sz + 16 + 4095) div 4096 * 4096 + (sz + 16 + 4095) mod 4096 = sz + 16 + 4095" by simp
    moreover have "(sz + 16 + 4095) mod 4096 < 4096" by simp
    ultimately show ?thesis by linarith
  qed
  moreover have "(p + 16, ?n * 4096 - 16) \<notin> in_use h"
  proof
    assume "(p + 16, ?n * 4096 - 16) \<in> in_use h"
    then show False
    proof (cases rule: in_useE)
      case (1 q b)
      then show ?thesis using fr by simp
    next
      case (2 b i q)
      then have "q mod 4096 = 0" "arenas h q \<noteq> None" using hinvD(4) [OF assms(1)] by (auto simp: small_def arena_ok_def)
      with slot_page [OF 2(3)] large_page [OF ok(2)] 2(1) fr show ?thesis by auto
    qed
  qed
  ultimately show ?thesis by (intro exI [of _ "p + 16"] exI [of _ "?n * 4096 - 16"] exI) simp
qed

lemma free_arena_ok:
  assumes "hinv h" and "small h i p" and "slots i p \<subseteq> free_of h i" and "BUF_COUNT < page_count (descs h ! i)"
  shows "\<exists>h'. free_arena i p h = Some h' \<and> hinv h' \<and> in_use h' = in_use h"
proof -
  obtain a where a: "arenas h p = Some a" "p mod 4096 = 0" "IDX p \<in> ktaken (hmem h)"
    by (rule small_arena [OF assms(1,2)]) (rule that; assumption)
  note db = desc_blocks [OF assms(1,2)]
  have "{IDX p..<IDX p + 1} \<subseteq> ktaken (hmem h)" using a(3) by simp
  from free_kpage_ok [OF hinvD(1) [OF assms(1)] _ a(2) this] obtain m where
    m: "free_kpage p 1 (hmem h) = Some m" "map_ok m" "ktaken m = ktaken (hmem h) - {IDX p}" by auto
  let ?h1 = "upd_desc i (\<lambda>d. d\<lparr>blocks := filter (\<lambda>b. b \<notin> slots i p) (blocks d)\<rparr>) h"
  let ?h2 = "upd_desc i (\<lambda>d. d\<lparr>page_count := page_count d - 1\<rparr>) (?h1\<lparr>hmem := m, arenas := (arenas ?h1)(p := None)\<rparr>)"
  let ?h' = "upd_desc i (\<lambda>d. d\<lparr>blocks := filter (\<lambda>b. b \<notin> slots i p) (blocks d), page_count := page_count d - 1\<rparr>)
     (h\<lparr>hmem := m, arenas := (arenas h)(p := None)\<rparr>)"
  have e: "?h2 = ?h'" using db(1) by (simp add: upd_desc_def)
  have "for_each (drop_block i p) [0..<total_block (descs h ! i)] h = Some ?h1"
    using drop_all [OF db(1,3,4) assms(3) db(2)] by (simp add: db(3))
  moreover have "page_count (descs ?h2 ! i) = page_count (descs h ! i) - 1" using db(1) by (simp add: upd_desc_def)
  moreover have "hmem ?h1 = hmem h" by (simp add: upd_desc_def)
  ultimately have "free_arena i p h = Some ?h2" using m(1) assms(4) by (simp add: free_arena_def Let_def)
  then have "free_arena i p h = Some ?h'" unfolding e .
  then show ?thesis using drop_small_hinv [OF assms(1-3) m(2,3)] by blast
qed

lemma kfree_ok:
  assumes "hinv h" and "(b, n) \<in> in_use h"
  shows "\<exists>h'. kfree b h = Some h' \<and> hinv h' \<and> in_use h' = in_use h - {(b, n)}"
  using assms(2)
proof (cases rule: in_useE)
  case (1 p a)
  note ok = hinvD(4) [OF assms(1) 1(2)]
  then have al: "p mod 4096 = 0" and am: "amagic a = NEONIX_MAGIC" and ac: "0 < acount a"
    and sub: "{IDX p..<IDX p + acount a} \<subseteq> ktaken (hmem h)" using 1(3) by (simp_all add: arena_ok_def apages_def)
  from free_kpage_ok [OF hinvD(1) [OF assms(1)] ac al sub] obtain m where
    m: "free_kpage p (acount a) (hmem h) = Some m" "map_ok m" "ktaken m = ktaken (hmem h) - apages p a"
    using 1(3) by (auto simp: apages_def)
  have "kfree b h = Some (h\<lparr>hmem := m, arenas := (arenas h)(p := None)\<rparr>)"
    using 1 large_page [OF al] am m(1) by (simp add: kfree_def Let_def)
  then show ?thesis using drop_large_hinv [OF assms(1) 1(2,3) m(2,3)] 1(1) by simp
next
  case (2 c i p)
  obtain a where a: "arenas h p = Some a" "\<not> large a" "desc a = Some i" "p mod 4096 = 0" "amagic a = NEONIX_MAGIC"
    by (rule small_arena [OF assms(1) 2(2)]) (rule that; assumption)
  have b: "b = c" "n = bs i" using 2(1) by simp_all
  let ?bl = "c # blocks (descs h ! i)"
  let ?h1 = "set_blocks i p a ?bl h"
  note db = desc_blocks [OF assms(1) 2(2)]
  note push = push_free_ok [OF assms(1) 2(2-4) a(1)]
  have nb: "c \<noteq> 0" "c \<notin> set (blocks (descs h ! i))" using slot_bounds(1) [OF 2(3)] 2(4) by (simp_all add: free_of_def)
  have w: "w32 (acount a + 1) = card (slots i p \<inter> set ?bl)" using push(3,4) tb_le [of i] by (simp add: w32_small)
  have d: "descs ?h1 ! i = (descs h ! i)\<lparr>blocks := ?bl\<rparr>" using db(1) by (simp add: set_blocks_def)
  have "upd_desc i (\<lambda>d. d\<lparr>blocks := c # blocks d\<rparr>) h = upd_desc i (\<lambda>d. d\<lparr>blocks := ?bl\<rparr>) h" by (rule upd_desc_cong) simp
  then have h1: "(upd_desc i (\<lambda>d. d\<lparr>blocks := c # blocks d\<rparr>) h)\<lparr>arenas := (arenas (upd_desc i (\<lambda>d. d\<lparr>blocks := c # blocks d\<rparr>) h))
      (p := Some (a\<lparr>acount := w32 (acount a + 1)\<rparr>))\<rparr> = ?h1"
    unfolding w by (simp add: set_blocks_def upd_desc_def)
  let ?full = "w32 (acount a + 1) = tb i \<and> page_count (descs h ! i) > BUF_COUNT"
  have k: "kfree b h = (if ?full then free_arena i p ?h1 else Some ?h1)"
    using a nb by (simp add: kfree_def b slot_page [OF 2(3) a(4)] Let_def del: One_nat_def split del: if_split)
      (simp only: h1 upd_desc_nth [OF db(1)], simp add: db(3))
  show ?thesis
  proof (cases ?full)
    case False
    then show ?thesis using k push(1,2) by (simp only: b if_False) blast
  next
    case True
    have sm: "small ?h1 i p" using 2(2) set_blocks_fields(1) [OF a(1,2) db(1)] by simp
    have "card (slots i p \<inter> set ?bl) = card (slots i p)" using True w by (simp add: card_slots)
    then have "slots i p \<inter> set ?bl = slots i p" by (intro card_subset_eq) auto
    then have "slots i p \<subseteq> free_of ?h1 i" unfolding set_blocks_fields(2) [OF a(1,2) db(1)] by auto
    from free_arena_ok [OF push(1) sm this] True obtain h' where "free_arena i p ?h1 = Some h'" "hinv h'" "in_use h' = in_use ?h1"
      by (auto simp: d)
    then show ?thesis using k True push(2) by (simp add: b)
  qed
qed

section \<open>Blocks in use never overlap\<close>

definition apart :: "nat \<times> nat \<Rightarrow> nat \<times> nat \<Rightarrow> bool" where
  "apart x y \<longleftrightarrow> fst x + snd x \<le> fst y \<or> fst y + snd y \<le> fst x"

text \<open>A block lies in the pages of its arena, behind the header.\<close>

lemma in_use_arena:
  assumes "hinv h" and "x \<in> in_use h"
  obtains p a where "arenas h p = Some a" "p mod 4096 = 0" "p + 16 \<le> fst x"
    "fst x + snd x \<le> p + (if large a then acount a else 1) * 4096"
    "large a \<and> x = (p + 16, acount a * 4096 - 16) \<or> (\<exists>i. small h i p \<and> fst x \<in> slots i p \<and> snd x = bs i)"
  using assms(2)
proof (cases rule: in_useE)
  case (1 p a)
  then have "p mod 4096 = 0" "0 < acount a" using hinvD(4) [OF assms(1)] by (auto simp: arena_ok_def)
  with 1 show ?thesis by (intro that [of p a]) auto
next
  case (2 b i p)
  obtain a where a: "arenas h p = Some a" "\<not> large a" "p mod 4096 = 0"
    by (rule small_arena [OF assms(1) 2(2)]) (rule that; assumption)
  with 2 slot_bounds [OF 2(3)] show ?thesis by (intro that [of p a]) auto
qed

lemma apages_apart:
  assumes "p mod 4096 = 0" and "q mod 4096 = 0" and "IDX p < IDX q" and "{IDX p..<IDX p + n} \<inter> {IDX q..<IDX q + m} = {}" and "0 < m"
  shows "p + n * 4096 \<le> q"
proof -
  have "IDX q \<notin> {IDX p..<IDX p + n}" using assms(4,5) by auto
  then have "IDX p + n \<le> IDX q" using assms(3) by auto
  then have "(IDX p + n) * 4096 \<le> IDX q * 4096" by (intro mult_right_mono) simp_all
  moreover have "IDX p * 4096 = p" "IDX q * 4096 = q" using assms(1,2) by (auto simp: IDX_def elim: dvdE)
  ultimately show ?thesis by (simp add: distrib_right)
qed

lemma in_use_apart:
  assumes "hinv h" and "x \<in> in_use h" and "y \<in> in_use h" and "x \<noteq> y"
  shows "apart x y"
proof -
  obtain p a where x: "arenas h p = Some a" "p mod 4096 = 0" "p + 16 \<le> fst x" "fst x + snd x \<le> p + (if large a then acount a else 1) * 4096"
    "large a \<and> x = (p + 16, acount a * 4096 - 16) \<or> (\<exists>i. small h i p \<and> fst x \<in> slots i p \<and> snd x = bs i)"
    by (rule in_use_arena [OF assms(1,2)]) (rule that; assumption)
  obtain q b where y: "arenas h q = Some b" "q mod 4096 = 0" "q + 16 \<le> fst y" "fst y + snd y \<le> q + (if large b then acount b else 1) * 4096"
    "large b \<and> y = (q + 16, acount b * 4096 - 16) \<or> (\<exists>i. small h i q \<and> fst y \<in> slots i q \<and> snd y = bs i)"
    by (rule in_use_arena [OF assms(1,3)]) (rule that; assumption)
  show ?thesis
  proof (cases "p = q")
    case False
    have pos: "0 < (if large a then acount a else 1)" "0 < (if large b then acount b else 1)"
      using hinvD(4) [OF assms(1)] x(1) y(1) by (auto simp: arena_ok_def)
    have dis: "apages p a \<inter> apages q b = {}" by (rule hinvD(5) [OF assms(1) x(1) y(1) False])
    consider "IDX p < IDX q" | "IDX q < IDX p" using page_inj [OF x(2) y(2)] False by linarith
    then show ?thesis
    proof cases
      case 1
      from apages_apart [OF x(2) y(2) 1 dis [unfolded apages_def] pos(2)] x(4) y(3) show ?thesis unfolding apart_def by linarith
    next
      case 2
      have "apages q b \<inter> apages p a = {}" using dis by blast
      from apages_apart [OF y(2) x(2) 2 this [unfolded apages_def] pos(1)] y(4) x(3) show ?thesis unfolding apart_def by linarith
    qed
  next
    case True
    then have ab: "a = b" using x(1) y(1) by simp
    have "\<not> large a"
    proof
      assume "large a"
      then have "\<not> small h i p" for i using x(1) by (simp add: small_def)
      then have "x = (p + 16, acount a * 4096 - 16)" "y = (p + 16, acount a * 4096 - 16)" using x(5) y(5) True ab by blast+
      with assms(4) show False by simp
    qed
    then obtain i j where i: "small h i p" "fst x \<in> slots i p" "snd x = bs i" and j: "small h j p" "fst y \<in> slots j p" "snd y = bs j"
      using x(5) y(5) True ab by blast
    have ji: "j = i" using small_desc [OF i(1) j(1)] ..
    then have "fst x \<noteq> fst y" using assms(4) i(3) j(3) by (simp add: prod_eq_iff)
    then consider "fst x < fst y" | "fst y < fst x" by linarith
    then show ?thesis
      using slots_apart [OF i(2), of "fst y"] slots_apart [OF j(2), of "fst x"] i j ji by cases (simp_all add: apart_def)
  qed
qed

section \<open>Properties\<close>

text \<open>C12. \<open>kmalloc\<close> returns, as long as the pages it needs can be had: a block that is at least as long as was
  asked for and does not overlap any block in use. Then \<open>kfree\<close> of any block in use, this one or another,
  returns, no assertion of the free lists and of the page counts fails, and that block alone goes out of use.
  Both keep the invariant of the heap, so this goes on for any sequence of calls.\<close>

theorem heap_blocks_apart:
  assumes "hinv h" and "sz < 4294963184" and "alloc_kpage (pages_for sz) (hmem h) \<noteq> None"
  shows "\<exists>b n h1. kmalloc sz h = Some (b, h1) \<and> hinv h1 \<and> sz \<le> n \<and> in_use h1 = insert (b, n) (in_use h) \<and>
    (\<forall>x\<in>in_use h. apart x (b, n)) \<and>
    (\<forall>(c, k)\<in>in_use h1. \<exists>h2. kfree c h1 = Some h2 \<and> hinv h2 \<and> in_use h2 = in_use h1 - {(c, k)})"
proof -
  from kmalloc_ok [OF assms] obtain b n h1 where h1: "kmalloc sz h = Some (b, h1)" "hinv h1" "sz \<le> n" "(b, n) \<notin> in_use h"
    "in_use h1 = insert (b, n) (in_use h)" by blast
  have "apart x (b, n)" if "x \<in> in_use h" for x
    using in_use_apart [OF h1(2), of x "(b, n)"] that h1(4,5) by auto
  then show ?thesis using h1 kfree_ok [OF h1(2)] by blast
qed

text \<open>A heap that has just been initialised, over sixteen pages.\<close>

definition demo_heap :: heap_t where
  "demo_heap = \<lparr>hmem = demo_mem, descs = arena_init, arenas = (\<lambda>_. None)\<rparr>"

lemma demo_heap_inv: "hinv demo_heap"
proof -
  have "map_ok demo_mem" by (simp add: map_ok_def demo_mem_def bm_inv_def bitmap_make_def)
  moreover have "desc_ok demo_heap i" if "i < DESC_COUNT" for i
    using that by (simp add: desc_ok_def demo_heap_def arena_init_def small_def free_of_def tb_def bs_def PAGE_SIZE_def ARENA_T_SIZE_def)
  ultimately show ?thesis by (simp add: hinv_def demo_heap_def arena_init_def)
qed

theorem heap_blocks_apart_witness:
  "\<exists>b n h1 h2. kmalloc 100 demo_heap = Some (b, h1) \<and> 100 \<le> n \<and> in_use h1 = {(b, n)} \<and> kfree b h1 = Some h2 \<and> in_use h2 = {}"
proof -
  have "map_option fst (scan_page (bitmap_make [0, 0] 2 256) 1) = Some 0x100000" by code_simp
  then have "alloc_kpage (pages_for 100) (hmem demo_heap) \<noteq> None"
    by (auto simp: pages_for_def demo_heap_def alloc_kpage_def demo_mem_def)
  moreover have "in_use demo_heap = {}" by (simp add: in_use_def demo_heap_def small_def)
  ultimately show ?thesis using heap_blocks_apart [OF demo_heap_inv, of 100] by fastforce
qed

end
