(* ===== verification/BlockStore.thy ===== *)
theory BlockStore
  imports Buffer
begin

text \<open>
  The cache as its clients see it: blocks with their contents, and references to them. \<open>blk\<close> gives the
  contents, \<open>refs\<close> counts the references to each block, \<open>pinned\<close> says which buffer holds a block that is
  referenced, and \<open>lost\<close> are the blocks that were changed and not marked. The locale \<open>block_store\<close> is
  the contract of \<open>bread\<close>, \<open>brelse\<close> and the stores to buffers; the cache provides it (interpretation
  \<open>bs\<close>).
\<close>

section \<open>The contract\<close>

definition add_ref :: "int \<Rightarrow> nat \<Rightarrow> int \<Rightarrow> (int \<Rightarrow> nat \<Rightarrow> int) \<Rightarrow> int \<Rightarrow> nat \<Rightarrow> int" where
  "add_ref d b k R = R(d := (R d)(b := R d b + k))"

definition put_block :: "int \<Rightarrow> nat \<Rightarrow> (u8 list \<Rightarrow> u8 list) \<Rightarrow> (int \<Rightarrow> nat \<Rightarrow> u8 list) \<Rightarrow> int \<Rightarrow> nat \<Rightarrow> u8 list" where
  "put_block d b f B = B(d := (B d)(b := f (B d b)))"

lemma add_ref_add_ref [simp]: "add_ref d b k (add_ref d b l R) = add_ref d b (l + k) R"
  by (simp add: add_ref_def add.assoc)

lemma add_ref_0 [simp]: "add_ref d b 0 R = R"
  by (simp add: add_ref_def)

lemma add_ref_at [simp]: "add_ref d b k R d b = R d b + k"
  by (simp add: add_ref_def)

lemma add_ref_other: "(d', b') \<noteq> (d, b) \<Longrightarrow> add_ref d b k R d' b' = R d' b'"
  by (auto simp: add_ref_def)

lemma put_block_at [simp]: "put_block d b f B d b = f (B d b)"
  by (simp add: put_block_def)

lemma put_block_other: "(d', b') \<noteq> (d, b) \<Longrightarrow> put_block d b f B d' b' = B d' b'"
  by (auto simp: put_block_def)

locale block_store =
  fixes fetch :: "int \<Rightarrow> nat \<Rightarrow> 's \<Rightarrow> (nat \<times> 's) option"
    and release :: "nat \<Rightarrow> 's \<Rightarrow> 's option"
    and hold :: "nat \<Rightarrow> 's \<Rightarrow> 's"
    and store :: "bool \<Rightarrow> nat \<Rightarrow> (u8 list \<Rightarrow> u8 list) \<Rightarrow> 's \<Rightarrow> 's"
    and flush :: "nat \<Rightarrow> 's \<Rightarrow> 's"
    and blocks :: "'s \<Rightarrow> int \<Rightarrow> nat \<Rightarrow> u8 list"
    and refs :: "'s \<Rightarrow> int \<Rightarrow> nat \<Rightarrow> int"
    and pin :: "'s \<Rightarrow> nat \<Rightarrow> int \<Rightarrow> nat \<Rightarrow> bool"
    and marked :: "'s \<Rightarrow> nat \<Rightarrow> bool"
    and lost :: "'s \<Rightarrow> (int \<times> nat) set"
    and rest :: "'s \<Rightarrow> 'r"
    and sinv :: "'s \<Rightarrow> bool"
    and ready :: "(int \<Rightarrow> nat \<Rightarrow> int) \<Rightarrow> bool"
  assumes fetch_law: "sinv s \<Longrightarrow> ready (refs s) \<Longrightarrow> b < 2147483648 \<Longrightarrow>
      \<exists>p s'. fetch d b s = Some (p, s') \<and> sinv s' \<and> blocks s' = blocks s \<and> refs s' = add_ref d b 1 (refs s) \<and>
        pin s' p d b \<and> (\<forall>q e c. pin s q e c \<longrightarrow> pin s' q e c) \<and> lost s' = lost s \<and> rest s' = rest s"
    and release_law: "sinv s \<Longrightarrow> pin s p d b \<Longrightarrow> (d, b) \<notin> lost s \<or> 1 < refs s d b \<Longrightarrow>
      \<exists>s'. release p s = Some s' \<and> sinv s' \<and> blocks s' = blocks s \<and> refs s' = add_ref d b (- 1) (refs s) \<and>
        (\<forall>q e c. pin s q e c \<longrightarrow> 0 < refs s' e c \<longrightarrow> pin s' q e c) \<and> lost s' = lost s \<and> rest s' = rest s"
    and hold_law: "sinv s \<Longrightarrow> pin s p d b \<Longrightarrow>
      sinv (hold p s) \<and> blocks (hold p s) = blocks s \<and> refs (hold p s) = add_ref d b 1 (refs s) \<and>
        pin (hold p s) = pin s \<and> lost (hold p s) = lost s \<and> rest (hold p s) = rest s"
    and store_law: "sinv s \<Longrightarrow> pin s p d b \<Longrightarrow> b < 2147483648 \<Longrightarrow>
      sinv (store k p f s) \<and> blocks (store k p f s) = put_block d b f (blocks s) \<and> refs (store k p f s) = refs s \<and>
        pin (store k p f s) = pin s \<and> (\<forall>q. marked (store k p f s) q \<longleftrightarrow> marked s q \<or> k \<and> q = p) \<and>
        lost (store k p f s) \<subseteq> (if k \<or> marked s p then lost s - {(d, b)} else insert (d, b) (lost s)) \<and>
        rest (store k p f s) = rest s"
    and flush_law: "sinv s \<Longrightarrow> pin s p d b \<Longrightarrow>
      sinv (flush p s) \<and> blocks (flush p s) = blocks s \<and> refs (flush p s) = refs s \<and>
        pin (flush p s) = pin s \<and> lost (flush p s) = lost s \<and> rest (flush p s) = rest s"
    and pin_refs: "sinv s \<Longrightarrow> pin s p d b \<Longrightarrow> 0 < refs s d b"
    and refs_pos: "sinv s \<Longrightarrow> 0 \<le> refs s d b"
    and lost_refs: "sinv s \<Longrightarrow> (d, b) \<in> lost s \<Longrightarrow> 0 < refs s d b"
begin

text \<open>Reading a block and releasing it changes nothing; with a store in between, one block changes.\<close>

lemma fetch_release:
  assumes "sinv s" and "ready (refs s)" and "b < 2147483648"
  shows "\<exists>p s1 s'. fetch d b s = Some (p, s1) \<and> sinv s1 \<and> pin s1 p d b \<and> blocks s1 = blocks s \<and> release p s1 = Some s' \<and> sinv s' \<and>
    blocks s' = blocks s \<and> refs s' = refs s \<and> (\<forall>q e c. pin s q e c \<longrightarrow> pin s' q e c) \<and> lost s' = lost s \<and> rest s' = rest s"
proof -
  from fetch_law [OF assms, of d] obtain p s1 where s1: "fetch d b s = Some (p, s1)" "sinv s1" "blocks s1 = blocks s"
    "refs s1 = add_ref d b 1 (refs s)" "pin s1 p d b" "\<And>q e c. pin s q e c \<Longrightarrow> pin s1 q e c" "lost s1 = lost s" "rest s1 = rest s"
    by blast
  have "(d, b) \<notin> lost s1 \<or> 1 < refs s1 d b" using lost_refs [OF assms(1)] by (auto simp: s1(4,7))
  from release_law [OF s1(2,5) this] obtain s' where s': "release p s1 = Some s'" "sinv s'" "blocks s' = blocks s1"
    "refs s' = add_ref d b (- 1) (refs s1)" "\<And>q e c. pin s1 q e c \<Longrightarrow> 0 < refs s' e c \<Longrightarrow> pin s' q e c"
    "lost s' = lost s1" "rest s' = rest s1" by blast
  have "refs s' = refs s" by (simp add: s'(4) s1(4))
  moreover have "pin s' q e c" if "pin s q e c" for q e c
    using s'(5) [OF s1(6) [OF that]] pin_refs [OF assms(1) that] \<open>refs s' = refs s\<close> by simp
  ultimately show ?thesis using s1 s' by (intro exI [of _ p] exI [of _ s1] exI [of _ s']) simp
qed

lemma fetch_store_release:
  assumes "sinv s" and "ready (refs s)" and "b < 2147483648"
  shows "\<exists>p s1 s'. fetch d b s = Some (p, s1) \<and> pin s1 p d b \<and> release p (store True p f s1) = Some s' \<and> sinv s' \<and>
    blocks s' = put_block d b f (blocks s) \<and> refs s' = refs s \<and> (\<forall>q e c. pin s q e c \<longrightarrow> pin s' q e c) \<and>
    lost s' \<subseteq> lost s - {(d, b)} \<and> rest s' = rest s"
proof -
  from fetch_law [OF assms, of d] obtain p s1 where s1: "fetch d b s = Some (p, s1)" "sinv s1" "blocks s1 = blocks s"
    "refs s1 = add_ref d b 1 (refs s)" "pin s1 p d b" "\<And>q e c. pin s q e c \<Longrightarrow> pin s1 q e c" "lost s1 = lost s" "rest s1 = rest s"
    by blast
  note m = store_law [OF s1(2,5) assms(3), of True f]
  let ?s2 = "store True p f s1"
  have "pin ?s2 p d b" "(d, b) \<notin> lost ?s2 \<or> 1 < refs ?s2 d b" using m s1(5) by auto
  with release_law [of ?s2 p d b] m obtain s' where s': "release p ?s2 = Some s'" "sinv s'" "blocks s' = blocks ?s2"
    "refs s' = add_ref d b (- 1) (refs ?s2)" "\<And>q e c. pin ?s2 q e c \<Longrightarrow> 0 < refs s' e c \<Longrightarrow> pin s' q e c"
    "lost s' = lost ?s2" "rest s' = rest ?s2" by blast
  have r: "refs s' = refs s" using m by (simp add: s'(4) s1(4))
  moreover have "pin s' q e c" if "pin s q e c" for q e c
    using s'(5) [of q e c] m s1(6) [OF that] pin_refs [OF assms(1) that] r by simp
  ultimately show ?thesis using s1 s' m by (intro exI [of _ p] exI [of _ s1] exI [of _ s']) simp
qed

end

section \<open>The cache as a block store\<close>

definition blk :: "bcache \<Rightarrow> int \<Rightarrow> nat \<Rightarrow> u8 list" where
  "blk s d b = (if b < 2147483648 then view s d b else [])"

definition refs :: "bcache \<Rightarrow> int \<Rightarrow> nat \<Rightarrow> int" where
  "refs s d b =
     (case find (\<lambda>p. bdev (bufs s ! p) = d \<and> bblock (bufs s ! p) = b) [0..<length (bufs s)] of
        Some p \<Rightarrow> bcount (bufs s ! p) | None \<Rightarrow> 0)"

definition pinned :: "bcache \<Rightarrow> nat \<Rightarrow> int \<Rightarrow> nat \<Rightarrow> bool" where
  "pinned s p d b \<longleftrightarrow> at s p d b \<and> 0 < bcount (bufs s ! p)"

definition lost :: "bcache \<Rightarrow> (int \<times> nat) set" where
  "lost s = {(d, b). \<exists>p. at s p d b \<and> loose s p}"

definition referenced :: "(int \<Rightarrow> nat \<Rightarrow> int) \<Rightarrow> (int \<times> nat) set" where
  "referenced R = {(d, b). 0 < R d b}"

text \<open>There is room for another block as long as less than 3855 blocks are referenced: so many buffers
  fit into the area.\<close>

definition ready :: "(int \<Rightarrow> nat \<Rightarrow> int) \<Rightarrow> bool" where
  "ready R \<longleftrightarrow> card (referenced R) < 3855"

lemma refs_at:
  assumes "binv s" and "at s p d b"
  shows "refs s d b = bcount (bufs s ! p)"
proof -
  let ?P = "\<lambda>p. bdev (bufs s ! p) = d \<and> bblock (bufs s ! p) = b"
  have "p \<in> set [0..<length (bufs s)]" "?P p" using assms(2) by (auto simp: at_def)
  then obtain q where q: "find ?P [0..<length (bufs s)] = Some q" by (metis (mono_tags, lifting) find_None_iff option.exhaust)
  then have "at s q d b" by (auto simp: find_Some_iff at_def)
  then have "q = p" using binvD(3) [OF assms(1) _ assms(2)] by blast
  with q show ?thesis by (simp add: refs_def)
qed

lemma refs_not_at: "(\<And>p. \<not> at s p d b) \<Longrightarrow> refs s d b = 0"
proof -
  assume a: "\<And>p. \<not> at s p d b"
  have "find (\<lambda>p. bdev (bufs s ! p) = d \<and> bblock (bufs s ! p) = b) [0..<length (bufs s)] = None"
    using a by (auto simp: find_None_iff at_def)
  then show ?thesis by (simp add: refs_def)
qed

lemma refs_cases:
  assumes "binv s"
  obtains (held) p where "at s p d b" "refs s d b = bcount (bufs s ! p)"
  | (none) "\<forall>p. \<not> at s p d b" "refs s d b = 0"
  using refs_at [OF assms] refs_not_at by blast

lemma blk_eq: "same_view s s' \<Longrightarrow> blk s' = blk s"
  by (auto simp: blk_def same_view_def fun_eq_iff)

lemma pinned_refs: "binv s \<Longrightarrow> pinned s p d b \<Longrightarrow> 0 < refs s d b"
  by (auto simp: pinned_def refs_at)

lemma refs_nonneg: "binv s \<Longrightarrow> 0 \<le> refs s d b"
  by (rule refs_cases [of s d b]) (auto simp: at_def dest: binvD(2) simp: buf_ok_def)

lemma not_loose_free: "binv s \<Longrightarrow> p < length (bufs s) \<Longrightarrow> bcount (bufs s ! p) = 0 \<Longrightarrow> \<not> loose s p"
  using binvD(2) [of s p] by (simp add: buf_ok_def loose_def)

lemma lost_referenced: "binv s \<Longrightarrow> (d, b) \<in> lost s \<Longrightarrow> 0 < refs s d b"
proof -
  assume b: "binv s" and "(d, b) \<in> lost s"
  then obtain p where p: "at s p d b" "loose s p" by (auto simp: lost_def)
  then have "p < length (bufs s)" by (simp add: at_def)
  with not_loose_free [OF b this] p(2) binvD(2) [OF b this] have "bcount (bufs s ! p) \<noteq> 0 \<and> 0 \<le> bcount (bufs s ! p)"
    by (auto simp: buf_ok_def)
  then have "0 < bcount (bufs s ! p)" by linarith
  with refs_at [OF b p(1)] show ?thesis by simp
qed

lemma referenced_card:
  assumes "binv s"
  shows "card (referenced (refs s)) = card {p. p < length (bufs s) \<and> 0 < bcount (bufs s ! p)}"
proof -
  let ?P = "{p. p < length (bufs s) \<and> 0 < bcount (bufs s ! p)}"
  let ?f = "\<lambda>p. (bdev (bufs s ! p), bblock (bufs s ! p))"
  have inj: "inj_on ?f ?P"
    using binvD(3) [OF assms] by (auto simp: inj_on_def at_def)
  have img: "?f ` ?P = referenced (refs s)"
  proof (rule set_eqI)
    fix x :: "int \<times> nat"
    obtain d b where x: "x = (d, b)" by (cases x)
    show "x \<in> ?f ` ?P \<longleftrightarrow> x \<in> referenced (refs s)"
    proof (rule refs_cases [OF assms, of d b])
      fix p assume held: "at s p d b" "refs s d b = bcount (bufs s ! p)"
      have "x \<in> ?f ` ?P \<longleftrightarrow> 0 < bcount (bufs s ! p)"
      proof
        assume "x \<in> ?f ` ?P"
        then obtain q where q: "q < length (bufs s)" "0 < bcount (bufs s ! q)" "(d, b) = ?f q" unfolding x by blast
        then have "at s q d b" by (simp add: at_def)
        with q(2) binvD(3) [OF assms _ held(1)] show "0 < bcount (bufs s ! p)" by blast
      next
        assume "0 < bcount (bufs s ! p)"
        with held(1) show "x \<in> ?f ` ?P" unfolding x by (intro image_eqI [of _ _ p]) (simp_all add: at_def)
      qed
      with held show ?thesis by (simp add: x referenced_def)
    next
      assume n: "\<forall>p. \<not> at s p d b" "refs s d b = 0"
      have "x \<notin> ?f ` ?P"
      proof
        assume "x \<in> ?f ` ?P"
        then obtain q where "q < length (bufs s)" "(d, b) = ?f q" unfolding x by blast
        then have "at s q d b" by (simp add: at_def)
        with n(1) show False by blast
      qed
      with n(2) show ?thesis by (simp add: x referenced_def)
    qed
  qed
  show ?thesis using card_image [OF inj] by (simp only: img)
qed

lemma room_ready:
  assumes "binv s" and "ready (refs s)"
  shows "room s"
proof (rule ccontr)
  assume "\<not> room s"
  then have r: "\<not> has_room s" "free_list s = []" by (simp_all add: room_def)
  then have "{p. p < length (bufs s) \<and> bcount (bufs s ! p) = 0} = {}"
    using binvD(5) [OF assms(1)] by auto
  then have "{p. p < length (bufs s) \<and> 0 < bcount (bufs s ! p)} = {p. p < length (bufs s)}"
    using binvD(2) [OF assms(1)] by (auto simp: buf_ok_def order_le_less)
  with referenced_card [OF assms(1)] have "card (referenced (refs s)) = length (bufs s)" by simp
  with assms(2) r(1) show False
    by (simp add: ready_def has_room_def KERNEL_BUFFER_MEM_def KERNEL_BUFFER_SIZE_def BUFFER_T_SIZE_def BLOCK_SIZE_def)
qed

text \<open>The laws.\<close>

lemma at_fetch:
  assumes "binv s" and "binv s'" and "at s' p d b"
    and "\<forall>q<length (bufs s). q \<noteq> p \<longrightarrow> bufs s' ! q = bufs s ! q"
    and "\<forall>q. q \<noteq> p \<longrightarrow> (q < length (bufs s') \<longleftrightarrow> q < length (bufs s))"
    and "p < length (bufs s) \<longrightarrow> 0 < bcount (bufs s ! p) \<longrightarrow> at s p d b"
  shows "q \<noteq> p \<Longrightarrow> at s' q e c \<longleftrightarrow> at s q e c" and "pinned s q e c \<Longrightarrow> at s' q e c"
proof -
  show ne: "at s' q e c \<longleftrightarrow> at s q e c" if "q \<noteq> p" for q e c
    using assms(4,5) that by (auto simp: at_def)
  show "at s' q e c" if "pinned s q e c"
  proof (cases "q = p")
    case True
    with that assms(6) have "at s p d b" by (auto simp: pinned_def at_def)
    with that True assms(3) show ?thesis by (auto simp: pinned_def at_def)
  next
    case False
    with ne [OF this] that show ?thesis by (simp add: pinned_def)
  qed
qed

lemma bread_law:
  assumes "binv s" and "ready (refs s)" and "b < 2147483648"
  shows "\<exists>p s'. bread d b s = Some (p, s') \<and> binv s' \<and> blk s' = blk s \<and> refs s' = add_ref d b 1 (refs s) \<and>
    pinned s' p d b \<and> (\<forall>q e c. pinned s q e c \<longrightarrow> pinned s' q e c) \<and> lost s' = lost s"
proof -
  from bread_ok [OF assms(1) disjI1 [OF room_ready [OF assms(1,2)]] assms(3), of d] obtain p s' where
    r: "bread d b s = Some (p, s')" "binv s'" "same_view s s'" "at s' p d b"
      "bcount (bufs s' ! p) = (if at s p d b then bcount (bufs s ! p) + 1 else 1)" "disk s' = disk s"
      "\<forall>q<length (bufs s). q \<noteq> p \<longrightarrow> bufs s' ! q = bufs s ! q"
      "\<forall>q. q \<noteq> p \<longrightarrow> (q < length (bufs s') \<longleftrightarrow> q < length (bufs s))"
      "loose s' p \<longleftrightarrow> at s p d b \<and> loose s p"
      "p < length (bufs s) \<longrightarrow> 0 < bcount (bufs s ! p) \<longrightarrow> at s p d b"
    by blast
  note at' = at_fetch [OF assms(1) r(2,4,7,8,10)]
  have pos: "0 \<le> bcount (bufs s ! q)" if "at s q e c" for q e c
    using binvD(2) [OF assms(1), of q] that by (simp add: at_def buf_ok_def)
  have same: "bufs s' ! q = bufs s ! q" if "q \<noteq> p" "at s q e c" for q e c using r(7) that by (simp add: at_def)
  have pp: "pinned s' p d b" using r(4,5) pos [of p] by (auto simp: pinned_def add_nonneg_pos)
  have pins: "pinned s' q e c" if q: "pinned s q e c" for q e c
  proof (cases "q = p")
    case True
    with at'(2) [OF q] r(4) have "e = d" "c = b" by (auto simp: at_def)
    with True pp show ?thesis by simp
  next
    case False
    with at'(2) [OF q] same [OF False, of e c] q show ?thesis by (simp add: pinned_def)
  qed
  have "refs s' e c = add_ref d b 1 (refs s) e c" for e c
  proof (cases "(e, c) = (d, b)")
    case True
    have "refs s d b = (if at s p d b then bcount (bufs s ! p) else 0)"
    proof (cases "at s p d b")
      case False
      have "refs s d b = 0"
      proof (rule refs_not_at)
        fix q show "\<not> at s q d b"
        proof
          assume q: "at s q d b"
          with False have "q \<noteq> p" by auto
          with at'(1) q have "at s' q d b" by blast
          with binvD(3) [OF r(2) _ r(4)] \<open>q \<noteq> p\<close> show False by blast
        qed
      qed
      with False show ?thesis by simp
    qed (simp add: refs_at [OF assms(1)])
    with True r(5) refs_at [OF r(2,4)] show ?thesis by simp
  next
    case False
    have "refs s' e c = refs s e c"
    proof (rule refs_cases [OF r(2), of e c])
      fix q assume q: "at s' q e c" "refs s' e c = bcount (bufs s' ! q)"
      with False r(4) have "q \<noteq> p" by (auto simp: at_def)
      with q at'(1) have "at s q e c" by blast
      with q(2) refs_at [OF assms(1)] same [OF \<open>q \<noteq> p\<close>] show ?thesis by simp
    next
      assume n: "\<forall>p. \<not> at s' p e c" "refs s' e c = 0"
      show ?thesis
      proof (rule refs_cases [OF assms(1), of e c])
        fix q assume q: "at s q e c" "refs s e c = bcount (bufs s ! q)"
        with n(1) at'(2) [of q e c] have "\<not> 0 < bcount (bufs s ! q)" by (auto simp: pinned_def)
        with pos [OF q(1)] q(2) n(2) show ?thesis by simp
      qed (simp add: n(2))
    qed
    with False show ?thesis by (simp add: add_ref_other)
  qed
  then have "refs s' = add_ref d b 1 (refs s)" by (intro ext)
  moreover have "lost s' = lost s"
  proof (rule set_eqI)
    fix x :: "int \<times> nat"
    obtain e c where x: "x = (e, c)" by (cases x)
    have eq: "at s' q e c \<and> loose s' q \<longleftrightarrow> at s q e c \<and> loose s q" for q
    proof (cases "q = p")
      case True
      have "at s p e c \<and> loose s p \<longrightarrow> 0 < bcount (bufs s ! p)"
        using not_loose_free [OF assms(1), of p] pos [of p e c] by (auto simp: at_def order_le_less)
      then have "at s p e c \<and> loose s p \<longrightarrow> at s p d b" using r(10) by (auto simp: at_def)
      with True r(4,9) show ?thesis by (auto simp: at_def)
    next
      case False
      with at'(1) same [OF False] r(6) show ?thesis by (auto simp: loose_def)
    qed
    show "x \<in> lost s' \<longleftrightarrow> x \<in> lost s" unfolding x lost_def using eq by simp
  qed
  ultimately show ?thesis using r(1,2) blk_eq [OF r(3)] pp pins by blast
qed

lemma brelse_law:
  assumes "binv s" and "pinned s p d b" and "(d, b) \<notin> lost s \<or> 1 < refs s d b"
  shows "\<exists>s'. brelse (Some p) s = Some s' \<and> binv s' \<and> blk s' = blk s \<and> refs s' = add_ref d b (- 1) (refs s) \<and>
    (\<forall>q e c. pinned s q e c \<longrightarrow> 0 < refs s' e c \<longrightarrow> pinned s' q e c) \<and> lost s' = lost s"
proof -
  have p: "at s p d b" "p < length (bufs s)" "0 < bcount (bufs s ! p)" using assms(2) by (auto simp: pinned_def at_def)
  have "loose s p \<Longrightarrow> 1 < bcount (bufs s ! p)"
    using assms(3) p(1) refs_at [OF assms(1) p(1)] by (auto simp: lost_def)
  from brelse_ok [OF assms(1) p(2,3) this] obtain s' where r: "brelse (Some p) s = Some s'" "binv s'" "same_view s s'"
    "length (bufs s') = length (bufs s)" "bufs s' ! p = (bufs s ! p)\<lparr>dirty := False, bcount := bcount (bufs s ! p) - 1\<rparr>"
    "\<And>q. q \<noteq> p \<Longrightarrow> bufs s' ! q = bufs s ! q" "\<And>q. q < length (bufs s) \<Longrightarrow> loose s' q = loose s q" by blast
  have at': "at s' q e c \<longleftrightarrow> at s q e c" for q e c
    using r(4-6) by (cases "q = p") (auto simp: at_def)
  have "refs s' e c = add_ref d b (- 1) (refs s) e c" for e c
  proof (rule refs_cases [OF r(2), of e c])
    fix q assume q: "at s' q e c" "refs s' e c = bcount (bufs s' ! q)"
    then have qs: "at s q e c" by (simp add: at')
    show ?thesis
    proof (cases "q = p")
      case True
      with qs p(1) have "e = d" "c = b" by (auto simp: at_def)
      with True q(2) r(5) refs_at [OF assms(1) p(1)] show ?thesis by simp
    next
      case False
      then have "(e, c) \<noteq> (d, b)" using binvD(3) [OF assms(1) qs, of p] p(1) by auto
      with q(2) r(6) [OF False] refs_at [OF assms(1) qs] show ?thesis by (simp add: add_ref_other)
    qed
  next
    assume n: "\<forall>p. \<not> at s' p e c" "refs s' e c = 0"
    then have "refs s e c = 0" by (intro refs_not_at) (simp add: at')
    moreover have "(e, c) \<noteq> (d, b)" using n(1) p(1) at' by blast
    ultimately show ?thesis using n(2) by (simp add: add_ref_other)
  qed
  then have refs': "refs s' = add_ref d b (- 1) (refs s)" by (intro ext)
  have "pinned s' q e c" if "pinned s q e c" "0 < refs s' e c" for q e c
    using that refs_at [OF r(2), of q e c] by (simp add: pinned_def at')
  moreover have "lost s' = lost s"
    unfolding lost_def at' using r(7) by (auto simp: at_def)
  ultimately show ?thesis using r(1,2) blk_eq [OF r(3)] refs' by blast
qed

text \<open>What leaves every buffer at its block.\<close>

lemma same_places:
  assumes "binv s" and "binv s'" and "\<And>q e c. at s' q e c \<longleftrightarrow> at s q e c"
    and "\<And>q. q < length (bufs s) \<Longrightarrow> bcount (bufs s' ! q) = bcount (bufs s ! q)"
  shows "refs s' = refs s" and "pinned s' = pinned s"
proof (intro ext)
  fix e c
  show "refs s' e c = refs s e c"
  proof (rule refs_cases [OF assms(1), of e c])
    fix q assume q: "at s q e c" "refs s e c = bcount (bufs s ! q)"
    then have "at s' q e c" "q < length (bufs s)" by (simp_all add: assms(3)) (simp add: at_def)
    with q refs_at [OF assms(2), of q e c] assms(4) [of q] show ?thesis by simp
  next
    assume "\<forall>p. \<not> at s p e c" "refs s e c = 0"
    then show ?thesis using refs_not_at [of s' e c] by (simp add: assms(3))
  qed
next
  show "pinned s' = pinned s" using assms(3,4) by (intro ext) (auto simp: pinned_def at_def)
qed

lemma bstore_law:
  assumes "binv s" and "pinned s p d b" and "b < 2147483648"
  shows "binv (bstore k p f s) \<and> blk (bstore k p f s) = put_block d b f (blk s) \<and> refs (bstore k p f s) = refs s \<and>
    pinned (bstore k p f s) = pinned s \<and> (\<forall>q. dirty (bufs (bstore k p f s) ! q) \<longleftrightarrow> dirty (bufs s ! q) \<or> k \<and> q = p) \<and>
    lost (bstore k p f s) \<subseteq> (if k \<or> dirty (bufs s ! p) then lost s - {(d, b)} else insert (d, b) (lost s))"
proof -
  have p: "at s p d b" "0 < bcount (bufs s ! p)" using assms(2) by (auto simp: pinned_def)
  note m = bstore_ok [OF assms(1) p, of k f]
  let ?s = "bstore k p f s"
  have at': "at ?s q e c \<longleftrightarrow> at s q e c" for q e c
    unfolding bstore_def by (rule at_buf_set) simp
  have "bcount (bufs ?s ! q) = bcount (bufs s ! q)" for q using m by (cases "q = p") simp_all
  note same = same_places [OF assms(1) conjunct1 [OF m] at' this]
  have "blk ?s e c = put_block d b f (blk s) e c" for e c
    using m assms(3) by (cases "(e, c) = (d, b)") (auto simp: blk_def put_block_other put_block_def)
  moreover have "dirty (bufs ?s ! q) \<longleftrightarrow> dirty (bufs s ! q) \<or> k \<and> q = p" for q using m by (cases "q = p") auto
  moreover have "lost ?s \<subseteq> (if k \<or> dirty (bufs s ! p) then lost s - {(d, b)} else insert (d, b) (lost s))"
  proof
    fix x :: "int \<times> nat"
    obtain e c where x: "x = (e, c)" by (cases x)
    assume "x \<in> lost ?s"
    then obtain q where q: "at s q e c" "loose ?s q" by (auto simp: lost_def x at')
    show "x \<in> (if k \<or> dirty (bufs s ! p) then lost s - {(d, b)} else insert (d, b) (lost s))"
    proof (cases "q = p")
      case True
      then have "(e, c) = (d, b)" using q(1) p(1) by (simp add: at_def)
      with True q(2) m x show ?thesis by auto
    next
      case False
      then have "(e, c) \<noteq> (d, b)" using binvD(3) [OF assms(1) q(1), of p] p(1) by auto
      with False q m show ?thesis by (auto simp: lost_def x)
    qed
  qed
  ultimately show ?thesis using m same by (auto intro!: ext)
qed

definition bhold :: "nat \<Rightarrow> bcache \<Rightarrow> bcache" where
  "bhold p s = buf_set p (\<lambda>b. b\<lparr>bcount := bcount b + 1\<rparr>) s"

lemma bhold_law:
  assumes "binv s" and "pinned s p d b"
  shows "binv (bhold p s) \<and> blk (bhold p s) = blk s \<and> refs (bhold p s) = add_ref d b 1 (refs s) \<and>
    pinned (bhold p s) = pinned s \<and> lost (bhold p s) = lost s"
proof -
  let ?f = "\<lambda>b. b\<lparr>bcount := bcount b + 1\<rparr>"
  let ?s = "bhold p s"
  have p: "at s p d b" "0 < bcount (bufs s ! p)" "p < length (bufs s)" using assms(2) by (auto simp: pinned_def at_def)
  have e: "?s = buf_set p ?f (s\<lparr>disk := disk s, free_list := free_list s\<rparr>)" by (simp add: bhold_def)
  have b: "binv ?s"
    unfolding e
    by (rule binv_buf_set [OF assms(1) p(3)])
      (use binvD(2) [OF assms(1) p(3)] binvD(4,5) [OF assms(1)] p(2) in \<open>simp_all add: buf_ok_def\<close>)
  have at': "at ?s q e c \<longleftrightarrow> at s q e c" for q e c unfolding bhold_def by (rule at_buf_set) simp
  have cnt: "bcount (bufs ?s ! q) = bcount (bufs s ! q) + (if q = p then 1 else 0)" for q
    using p(3) by (simp add: bhold_def)
  have "refs ?s e c = add_ref d b 1 (refs s) e c" for e c
  proof (rule refs_cases [OF assms(1), of e c])
    fix q assume q: "at s q e c" "refs s e c = bcount (bufs s ! q)"
    have "q = p \<longleftrightarrow> (e, c) = (d, b)" using q(1) p(1) binvD(3) [OF assms(1) q(1), of p] by (auto simp: at_def)
    with q refs_at [OF b, of q e c] show ?thesis by (auto simp: at' cnt add_ref_def)
  next
    assume n: "\<forall>p. \<not> at s p e c" "refs s e c = 0"
    then have "(e, c) \<noteq> (d, b)" using p(1) by blast
    with n refs_not_at [of ?s e c] show ?thesis by (simp add: at' add_ref_other)
  qed
  moreover have "pinned ?s = pinned s" using p(2) by (intro ext) (auto simp: pinned_def at' cnt)
  moreover have "view ?s = view s" unfolding bhold_def by (rule view_buf_set) simp
  then have "blk ?s = blk s" by (simp add: blk_def fun_eq_iff)
  moreover have "loose ?s q = loose s q" for q using p(3) by (cases "q = p") (simp_all add: loose_def bhold_def)
  then have "lost ?s = lost s" by (simp add: lost_def at')
  ultimately show ?thesis using b by (auto intro!: ext)
qed

lemma bwrite_law:
  assumes "binv s" and "pinned s p d b"
  shows "binv (bwrite p s) \<and> blk (bwrite p s) = blk s \<and> refs (bwrite p s) = refs s \<and>
    pinned (bwrite p s) = pinned s \<and> lost (bwrite p s) = lost s"
proof -
  have p: "p < length (bufs s)" using assms(2) by (simp add: pinned_def at_def)
  note w = bwrite_ok [OF assms(1) p]
  have b: "bufs (bwrite p s) ! q = (if q = p then (bufs s ! p)\<lparr>dirty := False\<rparr> else bufs s ! q)" for q using w by simp
  have at': "at (bwrite p s) q e c \<longleftrightarrow> at s q e c" for q e c using w by (simp add: at_def b)
  have "bcount (bufs (bwrite p s) ! q) = bcount (bufs s ! q)" for q by (simp add: b)
  note same = same_places [OF assms(1) conjunct1 [OF w] at' this]
  have "lost (bwrite p s) = lost s"
    unfolding lost_def at' using w by (auto simp: at_def)
  then show ?thesis using w same blk_eq [of s "bwrite p s"] by simp
qed

interpretation bs: block_store bread "\<lambda>p. brelse (Some p)" bhold bstore bwrite blk refs pinned
  "\<lambda>s p. dirty (bufs s ! p)" lost "\<lambda>_. ()" binv ready
proof
  fix s d b p f k
  assume i: "binv s"
  show "\<exists>p s'. bread d b s = Some (p, s') \<and> binv s' \<and> blk s' = blk s \<and> refs s' = add_ref d b 1 (refs s) \<and>
      pinned s' p d b \<and> (\<forall>q e c. pinned s q e c \<longrightarrow> pinned s' q e c) \<and> lost s' = lost s \<and> () = ()"
    if "ready (refs s)" "b < 2147483648"
    using bread_law [OF i that] by simp
  show "\<exists>s'. brelse (Some p) s = Some s' \<and> binv s' \<and> blk s' = blk s \<and> refs s' = add_ref d b (- 1) (refs s) \<and>
      (\<forall>q e c. pinned s q e c \<longrightarrow> 0 < refs s' e c \<longrightarrow> pinned s' q e c) \<and> lost s' = lost s \<and> () = ()"
    if "pinned s p d b" "(d, b) \<notin> lost s \<or> 1 < refs s d b"
    using brelse_law [OF i that] by simp
  show "0 \<le> refs s d b" by (rule refs_nonneg [OF i])
  show "0 < refs s d b" if "(d, b) \<in> lost s" by (rule lost_referenced [OF i that])
next
  fix s d b p f k
  assume i: "binv s" "pinned s p d b"
  show "binv (bhold p s) \<and> blk (bhold p s) = blk s \<and> refs (bhold p s) = add_ref d b 1 (refs s) \<and>
      pinned (bhold p s) = pinned s \<and> lost (bhold p s) = lost s \<and> () = ()"
    using bhold_law [OF i] by simp
  show "binv (bstore k p f s) \<and> blk (bstore k p f s) = put_block d b f (blk s) \<and> refs (bstore k p f s) = refs s \<and>
      pinned (bstore k p f s) = pinned s \<and> (\<forall>q. dirty (bufs (bstore k p f s) ! q) \<longleftrightarrow> dirty (bufs s ! q) \<or> k \<and> q = p) \<and>
      lost (bstore k p f s) \<subseteq> (if k \<or> dirty (bufs s ! p) then lost s - {(d, b)} else insert (d, b) (lost s)) \<and> () = ()"
    if "b < 2147483648"
    using bstore_law [OF i that, of k f] by simp
  show "binv (bwrite p s) \<and> blk (bwrite p s) = blk s \<and> refs (bwrite p s) = refs s \<and>
      pinned (bwrite p s) = pinned s \<and> lost (bwrite p s) = lost s \<and> () = ()"
    using bwrite_law [OF i] by simp
  show "0 < refs s d b" by (rule pinned_refs [OF i])
qed

end
