(* ===== verification/Inode.thy ===== *)
theory Inode
  imports Task Buffer
begin

text \<open>
  \<open>src/src/fs/bmap.c\<close>, \<open>src/src/fs/inode.c\<close> and the table of super blocks of \<open>src/src/fs/super.c\<close>: the
  bit maps of i-nodes and zones, the map from the blocks of a file to zones of the disk, the table of
  i-nodes in memory, and reading and writing files.

  The descriptor of an i-node, the super block and the directories are bytes in buffers of the cache
  (\<open>Buffer\<close>), where the code has pointers into the buffers' data: \<open>idesc\<close> is the offset of \<open>desc\<close> in
  the buffer \<open>ibuf\<close>. An i-node and a super block are their numbers in the tables, \<open>None\<close> is the null
  pointer. The running task is an argument. \<open>clock\<close> is what \<open>time()\<close> answers. A pipe has no descriptor
  on a disk: for it \<open>idesc\<close> and \<open>ibuf\<close> are the addresses of its ring and of its page, and \<open>released\<close>
  collects what is given back to the kernel's memory.
\<close>

section \<open>Bytes in a block\<close>

type_synonym bytes = "u8 list"

definition get16 :: "bytes \<Rightarrow> nat \<Rightarrow> nat" where
  "get16 bs i = unat (bs ! i) + 256 * unat (bs ! (i + 1))"

definition get32 :: "bytes \<Rightarrow> nat \<Rightarrow> nat" where
  "get32 bs i = get16 bs i + 65536 * get16 bs (i + 2)"

definition bytes16 :: "nat \<Rightarrow> bytes" where
  "bytes16 v = [of_nat v, of_nat (v div 256)]"

definition bytes32 :: "nat \<Rightarrow> bytes" where
  "bytes32 v = bytes16 v @ bytes16 (v div 65536)"

definition bput :: "nat \<Rightarrow> bytes \<Rightarrow> bytes \<Rightarrow> bytes" where
  "bput i new bs = take i bs @ new @ drop (i + length new) bs"

text \<open>The value of an \<open>int\<close> as a \<open>u32\<close>.\<close>

definition u32_of :: "int \<Rightarrow> nat" where
  "u32_of i = nat (i mod 4294967296)"

section \<open>State\<close>

record inode_t =
  idesc :: nat
  ibuf :: nat
  idev :: int
  inr :: nat
  icount :: nat
  iatime :: nat
  ictime :: nat
  imnt :: int
  ipipe :: bool

record super_block_t =
  sbuf :: nat
  imaps :: "nat option list"
  zmaps :: "nat option list"
  sdev :: int
  scount :: nat
  inode_list :: "nat list"
  sroot :: "nat option"
  smount :: "nat option"

record fs_t =
  cache :: bcache
  inodes :: "inode_t list"
  supers :: "super_block_t list"
  root :: nat
  clock :: nat
  released :: "(nat \<times> nat) list"

definition INODE_NR :: nat where "INODE_NR = 64"
definition SUPER_NR :: nat where "SUPER_NR = 16"
definition IMAP_NR :: nat where "IMAP_NR = 8"
definition ZMAP_NR :: nat where "ZMAP_NR = 8"
definition BLOCK_BITS :: nat where "BLOCK_BITS = BLOCK_SIZE * 8"
definition BLOCK_INODES :: nat where "BLOCK_INODES = BLOCK_SIZE div 32"
definition BLOCK_DENTRIES :: nat where "BLOCK_DENTRIES = BLOCK_SIZE div 16"
definition BLOCK_INDEXES :: nat where "BLOCK_INDEXES = BLOCK_SIZE div 2"
definition DIRECT_BLOCK :: nat where "DIRECT_BLOCK = 7"
definition INDIRECT1_BLOCK :: nat where "INDIRECT1_BLOCK = BLOCK_INDEXES"
definition INDIRECT2_BLOCK :: nat where "INDIRECT2_BLOCK = INDIRECT1_BLOCK * INDIRECT1_BLOCK"
definition TOTAL_BLOCK :: nat where "TOTAL_BLOCK = DIRECT_BLOCK + INDIRECT1_BLOCK + INDIRECT2_BLOCK"
definition EOF32 :: nat where "EOF32 = u32_of EOF"

text \<open>Buffers, as the file system reaches them.\<close>

definition data :: "nat \<Rightarrow> fs_t \<Rightarrow> bytes" where
  "data p s = bdata (bufs (cache s) ! p)"

definition set_data :: "nat \<Rightarrow> (bytes \<Rightarrow> bytes) \<Rightarrow> fs_t \<Rightarrow> fs_t" where
  "set_data p f s = s\<lparr>cache := buf_set p (\<lambda>b. b\<lparr>bdata := f (bdata b)\<rparr>) (cache s)\<rparr>"

definition set_dirty :: "nat \<Rightarrow> fs_t \<Rightarrow> fs_t" where
  "set_dirty p s = s\<lparr>cache := buf_set p (\<lambda>b. b\<lparr>dirty := True\<rparr>) (cache s)\<rparr>"

definition fs_bread :: "int \<Rightarrow> nat \<Rightarrow> fs_t \<Rightarrow> (nat \<times> fs_t) option" where
  "fs_bread dev block s = do { (p, c) \<leftarrow> bread dev block (cache s); Some (p, s\<lparr>cache := c\<rparr>) }"

definition fs_bwrite :: "nat \<Rightarrow> fs_t \<Rightarrow> fs_t" where
  "fs_bwrite p s = s\<lparr>cache := bwrite p (cache s)\<rparr>"

definition fs_brelse :: "nat option \<Rightarrow> fs_t \<Rightarrow> fs_t option" where
  "fs_brelse p s = do { c \<leftarrow> brelse p (cache s); Some (s\<lparr>cache := c\<rparr>) }"

text \<open>The descriptor of an i-node in memory: its fields and stores to them, by their offset.\<close>

definition upd_inode :: "nat \<Rightarrow> (inode_t \<Rightarrow> inode_t) \<Rightarrow> fs_t \<Rightarrow> fs_t" where
  "upd_inode p f s = s\<lparr>inodes := (inodes s)[p := f (inodes s ! p)]\<rparr>"

definition upd_super :: "nat \<Rightarrow> (super_block_t \<Rightarrow> super_block_t) \<Rightarrow> fs_t \<Rightarrow> fs_t" where
  "upd_super p f s = s\<lparr>supers := (supers s)[p := f (supers s ! p)]\<rparr>"

definition desc_of :: "nat \<Rightarrow> fs_t \<Rightarrow> bytes" where
  "desc_of p s = drop (idesc (inodes s ! p)) (data (ibuf (inodes s ! p)) s)"

definition d_mode :: "nat \<Rightarrow> fs_t \<Rightarrow> u16" where "d_mode p s = of_nat (get16 (desc_of p s) 0)"
definition d_uid :: "nat \<Rightarrow> fs_t \<Rightarrow> nat" where "d_uid p s = get16 (desc_of p s) 2"
definition d_size :: "nat \<Rightarrow> fs_t \<Rightarrow> nat" where "d_size p s = get32 (desc_of p s) 4"
definition d_mtime :: "nat \<Rightarrow> fs_t \<Rightarrow> nat" where "d_mtime p s = get32 (desc_of p s) 8"
definition d_gid :: "nat \<Rightarrow> fs_t \<Rightarrow> nat" where "d_gid p s = unat (desc_of p s ! 12)"
definition d_nlinks :: "nat \<Rightarrow> fs_t \<Rightarrow> nat" where "d_nlinks p s = unat (desc_of p s ! 13)"
definition d_zone :: "nat \<Rightarrow> fs_t \<Rightarrow> nat \<Rightarrow> nat" where "d_zone p s k = get16 (desc_of p s) (14 + 2 * k)"

definition set_desc :: "nat \<Rightarrow> nat \<Rightarrow> bytes \<Rightarrow> fs_t \<Rightarrow> fs_t" where
  "set_desc p off new s = set_data (ibuf (inodes s ! p)) (bput (idesc (inodes s ! p) + off) new) s"

definition set_mode :: "nat \<Rightarrow> u16 \<Rightarrow> fs_t \<Rightarrow> fs_t" where "set_mode p m = set_desc p 0 (bytes16 (unat m))"
definition set_uid :: "nat \<Rightarrow> nat \<Rightarrow> fs_t \<Rightarrow> fs_t" where "set_uid p u = set_desc p 2 (bytes16 u)"
definition set_size :: "nat \<Rightarrow> nat \<Rightarrow> fs_t \<Rightarrow> fs_t" where "set_size p n = set_desc p 4 (bytes32 n)"
definition set_mtime :: "nat \<Rightarrow> nat \<Rightarrow> fs_t \<Rightarrow> fs_t" where "set_mtime p n = set_desc p 8 (bytes32 n)"
definition set_gid :: "nat \<Rightarrow> nat \<Rightarrow> fs_t \<Rightarrow> fs_t" where "set_gid p g = set_desc p 12 [of_nat g]"
definition set_nlinks :: "nat \<Rightarrow> nat \<Rightarrow> fs_t \<Rightarrow> fs_t" where "set_nlinks p n = set_desc p 13 [of_nat n]"
definition set_zone :: "nat \<Rightarrow> nat \<Rightarrow> nat \<Rightarrow> fs_t \<Rightarrow> fs_t" where "set_zone p k z = set_desc p (14 + 2 * k) (bytes16 z)"

definition idirty :: "nat \<Rightarrow> fs_t \<Rightarrow> fs_t" where
  "idirty p s = set_dirty (ibuf (inodes s ! p)) s"

text \<open>Types of files.\<close>

definition IFMT :: u16 where "IFMT = 0xF000"
definition IFREG :: u16 where "IFREG = 0x8000"
definition IFBLK :: u16 where "IFBLK = 0x6000"
definition IFDIR :: u16 where "IFDIR = 0x4000"
definition IFCHR :: u16 where "IFCHR = 0x2000"
definition ISVTX :: u16 where "ISVTX = 0x200"
definition ISFILE :: "u16 \<Rightarrow> bool" where "ISFILE m \<longleftrightarrow> m AND IFMT = IFREG"
definition ISDIR :: "u16 \<Rightarrow> bool" where "ISDIR m \<longleftrightarrow> m AND IFMT = IFDIR"
definition ISCHR :: "u16 \<Rightarrow> bool" where "ISCHR m \<longleftrightarrow> m AND IFMT = IFCHR"
definition ISBLK :: "u16 \<Rightarrow> bool" where "ISBLK m \<longleftrightarrow> m AND IFMT = IFBLK"

text \<open>The fields of the super block.\<close>

definition s_inodes :: "nat \<Rightarrow> fs_t \<Rightarrow> nat" where "s_inodes b s = get16 (data (sbuf (supers s ! b)) s) 0"
definition s_zones :: "nat \<Rightarrow> fs_t \<Rightarrow> nat" where "s_zones b s = get16 (data (sbuf (supers s ! b)) s) 2"
definition s_imap_blocks :: "nat \<Rightarrow> fs_t \<Rightarrow> nat" where "s_imap_blocks b s = get16 (data (sbuf (supers s ! b)) s) 4"
definition s_zmap_blocks :: "nat \<Rightarrow> fs_t \<Rightarrow> nat" where "s_zmap_blocks b s = get16 (data (sbuf (supers s ! b)) s) 6"
definition s_firstdatazone :: "nat \<Rightarrow> fs_t \<Rightarrow> nat" where "s_firstdatazone b s = get16 (data (sbuf (supers s ! b)) s) 8"
definition s_magic :: "nat \<Rightarrow> fs_t \<Rightarrow> nat" where "s_magic b s = get16 (data (sbuf (supers s ! b)) s) 16"

section \<open>The super blocks in memory\<close>

definition get_free_super :: "fs_t \<Rightarrow> nat option" where
  "get_free_super s = find (\<lambda>b. sdev (supers s ! b) = EOF) [0..<SUPER_NR]"

definition get_super :: "int \<Rightarrow> fs_t \<Rightarrow> nat option" where
  "get_super dev s = find (\<lambda>b. sdev (supers s ! b) = dev) [0..<SUPER_NR]"

section \<open>Bit maps\<close>

text \<open>The loops of \<open>balloc\<close> and \<open>ialloc\<close>, which differ in the maps \<open>maps\<close>, the length given to the map,
  the index \<open>off\<close> of its first bit and the limit. The result is the last buffer looked at, and the index.\<close>

fun alloc_loop :: "(nat \<Rightarrow> nat option) \<Rightarrow> nat \<Rightarrow> int \<Rightarrow> nat \<Rightarrow> nat list \<Rightarrow> nat \<Rightarrow> fs_t \<Rightarrow> (nat \<times> nat \<times> fs_t) option" where
  "alloc_loop maps len off limit [] p s = Some (p, EOF32, s)"
| "alloc_loop maps len off limit (i # is) _ s = do {
     p \<leftarrow> maps i;
     (k, m) \<leftarrow> bitmap_scan (bitmap_make (data p s) len (u32_of (int (i * BLOCK_BITS) + off))) 1;
     let s = set_data p (\<lambda>_. bbits m) s;
     if u32_of k \<noteq> EOF32
     then do { cassert (u32_of k < limit); Some (p, u32_of k, set_dirty p s) }
     else alloc_loop maps len off limit is p s }"

definition balloc :: "int \<Rightarrow> fs_t \<Rightarrow> (nat \<times> fs_t) option" where
  "balloc dev s = do {
     sb \<leftarrow> get_super dev s;
     (p, k, s) \<leftarrow> alloc_loop (\<lambda>i. zmaps (supers s ! sb) ! i) BLOCK_SIZE (int (s_firstdatazone sb s) - 1) (s_zones sb s) [0..<ZMAP_NR] 0 s;
     Some (k, fs_bwrite p s) }"

definition ialloc :: "int \<Rightarrow> fs_t \<Rightarrow> (nat \<times> fs_t) option" where
  "ialloc dev s = do {
     sb \<leftarrow> get_super dev s;
     (p, k, s) \<leftarrow> alloc_loop (\<lambda>i. imaps (supers s ! sb) ! i) BLOCK_BITS 0 (s_inodes sb s) [0..<IMAP_NR] 0 s;
     Some (k, fs_bwrite p s) }"

text \<open>The loops of \<open>bfree\<close> and \<open>ifree\<close>; when no map is chosen the buffer that is then written is
  undefined.\<close>

definition free_bit :: "(nat \<Rightarrow> nat option) \<Rightarrow> nat \<Rightarrow> int \<Rightarrow> nat \<Rightarrow> fs_t \<Rightarrow> fs_t option" where
  "free_bit maps len off k s = do {
     i \<leftarrow> find (\<lambda>i. \<not> k > BLOCK_BITS * (i + 1)) [0..<8];
     p \<leftarrow> maps i;
     let m = bitmap_make (data p s) len (u32_of (int (i * BLOCK_BITS) + off));
     t \<leftarrow> bitmap_test m k;
     cassert t;
     m \<leftarrow> bitmap_set m k False;
     Some (fs_bwrite p (set_dirty p (set_data p (\<lambda>_. bbits m) s))) }"

definition bfree :: "int \<Rightarrow> nat \<Rightarrow> fs_t \<Rightarrow> fs_t option" where
  "bfree dev k s = do {
     sb \<leftarrow> get_super dev s;
     cassert (k < s_zones sb s);
     free_bit (\<lambda>i. zmaps (supers s ! sb) ! i) BLOCK_SIZE (int (s_firstdatazone sb s) - 1) k s }"

definition ifree :: "int \<Rightarrow> nat \<Rightarrow> fs_t \<Rightarrow> fs_t option" where
  "ifree dev k s = do {
     sb \<leftarrow> get_super dev s;
     cassert (k < s_inodes sb s);
     free_bit (\<lambda>i. imaps (supers s ! sb) ! i) BLOCK_BITS 0 k s }"

section \<open>The zones of a file\<close>

text \<open>The loop of \<open>bmap\<close>, by \<open>level\<close>: \<open>array\<close> is at \<open>base\<close> in the buffer \<open>buf\<close>.\<close>

fun bmap_loop :: "int \<Rightarrow> bool \<Rightarrow> nat \<Rightarrow> nat \<Rightarrow> nat \<Rightarrow> nat \<Rightarrow> nat \<Rightarrow> nat \<Rightarrow> fs_t \<Rightarrow> (nat \<times> fs_t) option" where
  "bmap_loop dev create level buf base idx block divider s = do {
     let a = base + 2 * idx;
     s \<leftarrow> (if get16 (data buf s) a = 0 \<and> create
          then do {
            (z, s) \<leftarrow> balloc dev s;
            Some (set_dirty buf (set_data buf (bput a (bytes16 z)) s)) }
          else Some s);
     s \<leftarrow> fs_brelse (Some buf) s;
     let e = get16 (data buf s) a;
     (case level of
        0 \<Rightarrow> Some (e, s)
      | Suc level \<Rightarrow>
          if e = 0 then Some (e, s)
          else do {
            (buf, s) \<leftarrow> fs_bread dev e s;
            bmap_loop dev create level buf 0 (block div divider) (block mod divider) (divider div BLOCK_INDEXES) s }) }"

definition bmap :: "nat \<Rightarrow> nat \<Rightarrow> bool \<Rightarrow> fs_t \<Rightarrow> (nat \<times> fs_t) option" where
  "bmap p block create s = do {
     cassert (block < TOTAL_BLOCK);
     let i = inodes s ! p;
     let s = s\<lparr>cache := buf_set (ibuf i) (\<lambda>b. b\<lparr>bcount := bcount b + 1\<rparr>) (cache s)\<rparr>;
     let level = (if block < DIRECT_BLOCK then 0 else if block - DIRECT_BLOCK < INDIRECT1_BLOCK then 1 else 2);
     let idx = (if level = 0 then block else if level = 1 then DIRECT_BLOCK else DIRECT_BLOCK + 1);
     let rest = (if level = 0 then block else if level = 1 then block - DIRECT_BLOCK
       else block - DIRECT_BLOCK - INDIRECT1_BLOCK);
     let divider = (if level = 2 then BLOCK_INDEXES else 1);
     bmap_loop (idev i) create level (ibuf i) (idesc i + 14) idx rest divider s }"

section \<open>The table of i-nodes\<close>

definition get_free_inode :: "fs_t \<Rightarrow> nat option" where
  "get_free_inode s = find (\<lambda>p. idev (inodes s ! p) = EOF) [0..<INODE_NR]"

definition put_free_inode :: "nat \<Rightarrow> fs_t \<Rightarrow> fs_t option" where
  "put_free_inode p s = do {
     cassert (p \<noteq> 0);
     cassert (icount (inodes s ! p) = 0);
     Some (upd_inode p (\<lambda>i. i\<lparr>idev := EOF\<rparr>) s) }"

definition get_root_inode :: nat where
  "get_root_inode = 0"

text \<open>A pipe; \<open>desc\<close> and \<open>page\<close> are what \<open>kmalloc\<close> and \<open>alloc_kpage\<close> answer.\<close>

definition get_pipe_inode :: "nat \<Rightarrow> nat \<Rightarrow> fs_t \<Rightarrow> (nat \<times> fs_t) option" where
  "get_pipe_inode desc page s = do {
     p \<leftarrow> get_free_inode s;
     Some (p, upd_inode p (\<lambda>i. i\<lparr>idev := - 2, idesc := desc, ibuf := page, icount := 2, ipipe := True\<rparr>) s) }"

definition put_pipe_inode :: "nat \<Rightarrow> fs_t \<Rightarrow> fs_t option" where
  "put_pipe_inode p s =
     (let s = upd_inode p (\<lambda>i. i\<lparr>icount := w32_sub (icount i) 1\<rparr>) s
      in if icount (inodes s ! p) \<noteq> 0 then Some s
         else do {
           let i = inodes s ! p;
           let s = (upd_inode p (\<lambda>i. i\<lparr>ipipe := False\<rparr>) s)\<lparr>released := (idesc i, ibuf i) # released s\<rparr>;
           put_free_inode p s })"

definition inode_block :: "nat \<Rightarrow> nat \<Rightarrow> fs_t \<Rightarrow> nat" where
  "inode_block sb nr s = w32 (2 + s_imap_blocks sb s + s_zmap_blocks sb s + w32_sub nr 1 div BLOCK_INODES)"

definition find_inode :: "int \<Rightarrow> nat \<Rightarrow> fs_t \<Rightarrow> nat option option" where
  "find_inode dev nr s = do {
     sb \<leftarrow> get_super dev s;
     Some (find (\<lambda>p. inr (inodes s ! p) = nr) (inode_list (supers s ! sb))) }"

text \<open>\<open>list_remove\<close> takes the node off the list it is in.\<close>

definition unlink_inode :: "nat \<Rightarrow> fs_t \<Rightarrow> fs_t" where
  "unlink_inode p s = s\<lparr>supers := map (\<lambda>b. b\<lparr>inode_list := remove1 p (inode_list b)\<rparr>) (supers s)\<rparr>"

definition iput :: "nat option \<Rightarrow> fs_t \<Rightarrow> fs_t option" where
  "iput q s =
     (case q of
        None \<Rightarrow> Some s
      | Some p \<Rightarrow>
          if ipipe (inodes s ! p) then put_pipe_inode p s
          else do {
            let s = fs_bwrite (ibuf (inodes s ! p)) s;
            let s = upd_inode p (\<lambda>i. i\<lparr>icount := w32_sub (icount i) 1\<rparr>) s;
            if icount (inodes s ! p) \<noteq> 0 then Some s
            else do {
              s \<leftarrow> fs_brelse (Some (ibuf (inodes s ! p))) s;
              put_free_inode p (unlink_inode p s) } })"

definition fit_inode :: "nat \<Rightarrow> fs_t \<Rightarrow> (nat \<times> fs_t) option" where
  "fit_inode p s =
     (if imnt (inodes s ! p) = 0 then Some (p, s)
      else do {
        sb \<leftarrow> get_super (imnt (inodes s ! p)) s;
        s \<leftarrow> iput (Some p) s;
        q \<leftarrow> sroot (supers s ! sb);
        Some (q, upd_inode q (\<lambda>i. i\<lparr>icount := w32 (icount i + 1)\<rparr>) s) })"

definition iget :: "int \<Rightarrow> nat \<Rightarrow> fs_t \<Rightarrow> (nat \<times> fs_t) option" where
  "iget dev nr s = do {
     f \<leftarrow> find_inode dev nr s;
     (case f of
        Some p \<Rightarrow> fit_inode p (upd_inode p (\<lambda>i. i\<lparr>icount := w32 (icount i + 1), iatime := clock s\<rparr>) s)
      | None \<Rightarrow> do {
          sb \<leftarrow> get_super dev s;
          cassert (nr \<le> s_inodes sb s);
          p \<leftarrow> get_free_inode s;
          let s = upd_inode p (\<lambda>i. i\<lparr>idev := dev, inr := nr, icount := w32 (icount i + 1)\<rparr>) s;
          let s = upd_super sb (\<lambda>b. b\<lparr>inode_list := p # inode_list b\<rparr>) s;
          (b, s) \<leftarrow> fs_bread dev (inode_block sb nr s) s;
          let s = upd_inode p (\<lambda>i. i\<lparr>ibuf := b, idesc := 32 * (w32_sub nr 1 mod BLOCK_INODES)\<rparr>) s;
          let s = upd_inode p (\<lambda>i. i\<lparr>ictime := d_mtime p s\<rparr>) s;
          Some (p, upd_inode p (\<lambda>i. i\<lparr>iatime := clock s\<rparr>) s) }) }"

definition new_inode :: "task_t \<Rightarrow> int \<Rightarrow> nat \<Rightarrow> fs_t \<Rightarrow> (nat \<times> fs_t) option" where
  "new_inode t dev nr s = do {
     (p, s) \<leftarrow> iget dev nr s;
     let s = idirty p s;
     let s = set_mode p (0x1FF AND NOT (of_nat (umask t))) s;
     let s = set_uid p (uid t) s;
     let s = set_size p 0 s;
     let s = upd_inode p (\<lambda>i. i\<lparr>iatime := clock s\<rparr>) (set_mtime p (clock s) s);
     let s = set_gid p (gid t) s;
     Some (p, set_nlinks p 1 s) }"

definition inode_init :: "fs_t \<Rightarrow> fs_t" where
  "inode_init s = s\<lparr>inodes := map (\<lambda>i. i\<lparr>idev := EOF, ipipe := False\<rparr>) (inodes s)\<rparr>"

section \<open>Reading and writing files\<close>

text \<open>\<open>offset\<close> is an \<open>int\<close>; the position in the block is its remainder as a \<open>u32\<close>. A pointer that
  leaves the block has no meaning in C.\<close>

definition blk_start :: "int \<Rightarrow> nat" where
  "blk_start offset = u32_of (cmod offset (int BLOCK_SIZE))"

definition blk_chars :: "int \<Rightarrow> nat \<Rightarrow> nat" where
  "blk_chars offset left = min (w32_sub BLOCK_SIZE (blk_start offset)) left"

lemma cmod_block: "\<bar>cmod offset 1024\<bar> < 1024"
proof -
  have "cmod offset 1024 = sgn offset * (\<bar>offset\<bar> mod 1024)"
    by (cases offset "0 :: int" rule: linorder_cases) (simp_all add: cmod_def cdiv_def minus_mult_div_eq_mod [symmetric])
  moreover have "\<bar>offset\<bar> mod 1024 < 1024" "0 \<le> \<bar>offset\<bar> mod 1024" by simp_all
  ultimately show ?thesis by (cases offset "0 :: int" rule: linorder_cases) simp_all
qed

lemma mod_neg_once: "- 4294967296 \<le> a \<Longrightarrow> a < 0 \<Longrightarrow> a mod 4294967296 = a + 4294967296" for a :: int
  by (subst mod_add_self2 [symmetric], rule mod_pos_pos_trivial) simp_all

lemma blk_chars_pos: "left \<noteq> 0 \<Longrightarrow> 0 < blk_chars offset left"
proof -
  let ?c = "cmod offset 1024"
  have "0 < (1024 - ?c mod 4294967296) mod 4294967296"
  proof (cases "0 \<le> ?c")
    case True
    with cmod_block [of offset] show ?thesis by (simp add: mod_pos_pos_trivial)
  next
    case False
    then show ?thesis using cmod_block [of offset] by (simp add: mod_neg_once)
  qed
  then show "left \<noteq> 0 \<Longrightarrow> ?thesis"
    by (simp add: blk_chars_def w32_sub_def blk_start_def u32_of_def BLOCK_SIZE_def)
qed

function read_loop :: "nat \<Rightarrow> int \<Rightarrow> nat \<Rightarrow> bytes \<Rightarrow> fs_t \<Rightarrow> (int \<times> bytes \<times> fs_t) option" where
  "read_loop p offset left out s =
     (if left = 0 then Some (offset, out, s)
      else do {
        (nr, s) \<leftarrow> bmap p (u32_of (cdiv offset (int BLOCK_SIZE))) False s;
        cassert (nr \<noteq> 0);
        (bf, s) \<leftarrow> fs_bread (idev (inodes s ! p)) nr s;
        let start = blk_start offset;
        let chars = blk_chars offset left;
        cassert (start + chars \<le> BLOCK_SIZE);
        let out = out @ take chars (drop start (data bf s));
        s \<leftarrow> fs_brelse (Some bf) s;
        read_loop p (s32 (offset + int chars)) (left - chars) out s })"
  by pat_completeness auto
termination
  by (relation "measure (\<lambda>(p, offset, left, out, s). left)") (use blk_chars_pos in auto)

text \<open>\<open>inode_read\<close>: the result, the bytes stored in the caller's buffer.\<close>

definition inode_read :: "nat \<Rightarrow> nat \<Rightarrow> int \<Rightarrow> fs_t \<Rightarrow> (int \<times> bytes \<times> fs_t) option" where
  "inode_read p len offset s = do {
     cassert (ISFILE (d_mode p s) \<or> ISDIR (d_mode p s));
     if u32_of offset \<ge> d_size p s then Some (EOF, [], s)
     else do {
       let left = min len (w32_sub (d_size p s) (u32_of offset));
       (offset', out, s) \<leftarrow> read_loop p offset left [] s;
       Some (s32 (int (w32_sub (u32_of offset') (u32_of offset))), out, upd_inode p (\<lambda>i. i\<lparr>iatime := clock s\<rparr>) s) } }"

text \<open>\<open>inode_write\<close>: the bytes still to write are \<open>src\<close>. The second half of a round stores \<open>bs\<close> in the block;
  \<open>offset\<close> is the offset behind them.\<close>

definition write_block :: "nat \<Rightarrow> nat \<Rightarrow> int \<Rightarrow> nat \<Rightarrow> bytes \<Rightarrow> fs_t \<Rightarrow> fs_t option" where
  "write_block p nr offset start bs s = do {
     (bf, s) \<leftarrow> fs_bread (idev (inodes s ! p)) nr s;
     let s = set_dirty bf s;
     let s = (if u32_of offset > d_size p s then idirty p (set_size p (u32_of offset) s) else s);
     cassert (start + List.length bs \<le> BLOCK_SIZE);
     let s = set_data bf (bput start bs) s;
     fs_brelse (Some bf) s }"

function write_loop :: "nat \<Rightarrow> int \<Rightarrow> bytes \<Rightarrow> fs_t \<Rightarrow> (int \<times> fs_t) option" where
  "write_loop p offset src s =
     (if src = [] then Some (offset, s)
      else do {
        (nr, s) \<leftarrow> bmap p (u32_of (cdiv offset (int BLOCK_SIZE))) True s;
        cassert (nr \<noteq> 0);
        let chars = blk_chars offset (List.length src);
        let offset' = s32 (offset + int chars);
        s \<leftarrow> write_block p nr offset' (blk_start offset) (take chars src) s;
        write_loop p offset' (drop chars src) s })"
  by pat_completeness auto
termination
  by (relation "measure (\<lambda>(p, offset, src, s). length src)")
    (auto intro!: diff_less blk_chars_pos)

declare read_loop.simps [simp del] write_loop.simps [simp del]

definition inode_write :: "nat \<Rightarrow> bytes \<Rightarrow> int \<Rightarrow> fs_t \<Rightarrow> (int \<times> fs_t) option" where
  "inode_write p src offset s = do {
     cassert (ISFILE (d_mode p s));
     (offset', s) \<leftarrow> write_loop p offset src s;
     let s = upd_inode p (\<lambda>i. i\<lparr>iatime := clock s\<rparr>) (set_mtime p (clock s) s);
     let s = fs_bwrite (ibuf (inodes s ! p)) s;
     Some (s32 (int (w32_sub (u32_of offset') (u32_of offset))), s) }"

text \<open>\<open>inode_bfree\<close>, by the level of the block that entry \<open>idx\<close> of the array names.\<close>

fun inode_bfree :: "int \<Rightarrow> nat \<Rightarrow> nat \<Rightarrow> nat \<Rightarrow> nat \<Rightarrow> fs_t \<Rightarrow> fs_t option" where
  "inode_bfree dev buf base 0 idx s =
     (let e = get16 (data buf s) (base + 2 * idx) in if e = 0 then Some s else bfree dev e s)"
| "inode_bfree dev buf base (Suc level) idx s =
     (let e = get16 (data buf s) (base + 2 * idx)
      in if e = 0 then Some s
         else do {
           (b, s) \<leftarrow> fs_bread dev e s;
           s \<leftarrow> for_each (inode_bfree dev b 0 level) [0..<BLOCK_INDEXES] s;
           s \<leftarrow> fs_brelse (Some b) s;
           bfree dev (get16 (data buf s) (base + 2 * idx)) s })"

definition free_zone :: "nat \<Rightarrow> nat \<Rightarrow> nat \<Rightarrow> fs_t \<Rightarrow> fs_t option" where
  "free_zone p level k s = do {
     let i = inodes s ! p;
     s \<leftarrow> inode_bfree (idev i) (ibuf i) (idesc i + 14) level k s;
     Some (set_zone p k 0 s) }"

definition inode_truncate :: "nat \<Rightarrow> fs_t \<Rightarrow> fs_t option" where
  "inode_truncate p s =
     (if \<not> ISFILE (d_mode p s) \<and> \<not> ISDIR (d_mode p s) then Some s
      else do {
        s \<leftarrow> for_each (free_zone p 0) [0..<DIRECT_BLOCK] s;
        s \<leftarrow> free_zone p 1 DIRECT_BLOCK s;
        s \<leftarrow> free_zone p 2 (DIRECT_BLOCK + 1) s;
        let s = set_mtime p (clock s) (idirty p (set_size p 0 s));
        Some (fs_bwrite (ibuf (inodes s ! p)) s) })"

end
