(* ===== verification/Namei.thy ===== *)
theory Namei
  imports Inode CString
begin

text \<open>
  \<open>src/src/fs/namei.c\<close>: permissions, the lookup of a nm in a directory and of a path, and the system
  calls that make and remove names. A path is the list of its bytes without the terminator, and a
  pointer into it (\<open>next\<close>, \<open>left\<close>, \<open>right\<close>) is the rest of the list from there; two pointers into
  one path are equal when the rests are. An entry of a directory is the number of a buffer and an offset
  in its data. The code leaves a function by \<open>goto rollback\<close> after an error: the
  definitions end in the statements that follow that label, on every path.
\<close>

section \<open>Permissions\<close>

definition P_EXEC :: u16 where "P_EXEC = 1"
definition P_WRITE :: u16 where "P_WRITE = 2"
definition P_READ :: u16 where "P_READ = 4"
definition O_RDONLY :: "32 word" where "O_RDONLY = 0"
definition O_WRONLY :: "32 word" where "O_WRONLY = 1"
definition O_RDWR :: "32 word" where "O_RDWR = 2"
definition O_ACCMODE :: "32 word" where "O_ACCMODE = 3"
definition O_CREAT :: "32 word" where "O_CREAT = 0x40"
definition O_TRUNC :: "32 word" where "O_TRUNC = 0x200"
definition O_APPEND :: "32 word" where "O_APPEND = 0x400"

definition ACC_MODE :: "32 word \<Rightarrow> u16" where
  "ACC_MODE x = [4, 2, 6, 0xFFFF] ! unat (x AND O_ACCMODE)"

definition permission :: "task_t \<Rightarrow> nat \<Rightarrow> u16 \<Rightarrow> fs_t \<Rightarrow> bool" where
  "permission t p msk s =
     (if d_nlinks p s = 0 then False
      else if uid t = KERNEL_USER then True
      else (let mode = (if uid t = d_uid p s then drop_bit 6 (d_mode p s)
                        else if gid t = d_gid p s then drop_bit 3 (d_mode p s) else d_mode p s)
            in mode AND msk AND 7 = msk))"

section \<open>Directories\<close>

definition hd0 :: "bytes \<Rightarrow> u8" where
  "hd0 cs = (case cs of [] \<Rightarrow> EOS | c # _ \<Rightarrow> c)"

text \<open>The name of an entry is compared from its first byte to the end of the block at most.\<close>

fun match_loop :: "bytes \<Rightarrow> bytes \<Rightarrow> (bytes \<times> bytes) option" where
  "match_loop lhs [] = None"
| "match_loop lhs (r # rs) =
     (if hd0 lhs = r \<and> hd0 lhs \<noteq> EOS \<and> r \<noteq> EOS then match_loop (tl lhs) rs else Some (lhs, r # rs))"

text \<open>The answer is the value of \<open>next\<close> for a match.\<close>

definition match_name :: "bytes \<Rightarrow> bytes \<Rightarrow> bytes option option" where
  "match_name nm entry_name = do {
     (lhs, rhs) \<leftarrow> match_loop nm entry_name;
     Some (if hd0 rhs \<noteq> EOS then None
           else if hd0 lhs \<noteq> EOS \<and> \<not> IS_SEPARATOR (hd0 lhs) then None
           else Some (if IS_SEPARATOR (hd0 lhs) then tl lhs else lhs)) }"

definition next_block :: "nat \<Rightarrow> bool \<Rightarrow> nat \<Rightarrow> nat option \<Rightarrow> fs_t \<Rightarrow> (nat \<times> fs_t) option" where
  "next_block dir create i buf s =
     (case buf of
        Some b \<Rightarrow>
          if i mod BLOCK_DENTRIES \<noteq> 0 then Some (b, s)
          else do {
            s \<leftarrow> fs_brelse buf s;
            (block, s) \<leftarrow> bmap dir (i div BLOCK_DENTRIES) create s;
            cassert (block \<noteq> 0);
            fs_bread (idev (inodes s ! dir)) block s }
      | None \<Rightarrow> do {
          (block, s) \<leftarrow> bmap dir (i div BLOCK_DENTRIES) create s;
          cassert (block \<noteq> 0);
          fs_bread (idev (inodes s ! dir)) block s })"

fun find_loop :: "nat \<Rightarrow> bytes \<Rightarrow> nat list \<Rightarrow> nat option \<Rightarrow> fs_t \<Rightarrow> ((nat \<times> nat \<times> bytes) option \<times> fs_t) option" where
  "find_loop dir nm [] buf s = do { s \<leftarrow> fs_brelse buf s; Some (None, s) }"
| "find_loop dir nm (i # is) buf s = do {
     (b, s) \<leftarrow> next_block dir False i buf s;
     let e = 16 * (i mod BLOCK_DENTRIES);
     m \<leftarrow> match_name nm (drop (e + 2) (data b s));
     (case m of
        Some rest \<Rightarrow>
          if get16 (data b s) e \<noteq> 0 then Some (Some (b, e, rest), s) else find_loop dir nm is (Some b) s
      | None \<Rightarrow> find_loop dir nm is (Some b) s) }"

text \<open>\<open>find_entry\<close>: \<open>dir\<close> as it is left, and the entry with its buffer and the rest of the nm.\<close>

definition find_entry :: "nat \<Rightarrow> bytes \<Rightarrow> fs_t \<Rightarrow> (nat \<times> (nat \<times> nat \<times> bytes) option \<times> fs_t) option" where
  "find_entry dir nm s = do {
     cassert (ISDIR (d_mode dir s));
     m \<leftarrow> match_name nm [46, 46, 0];
     (dir, s) \<leftarrow> (if m \<noteq> None \<and> inr (inodes s ! dir) = 1
       then do {
         sb \<leftarrow> get_super (idev (inodes s ! dir)) s;
         up \<leftarrow> smount (supers s ! sb);
         let s = upd_inode up (\<lambda>i. i\<lparr>icount := w32 (icount i + 1)\<rparr>) s;
         s \<leftarrow> iput (Some dir) s;
         Some (up, s) }
       else Some (dir, s));
     (r, s) \<leftarrow> find_loop dir nm [0..<d_size dir s div 16] None s;
     Some (dir, r, s) }"

text \<open>\<open>strncpy\<close> into the 14 bytes of a nm.\<close>

definition name_bytes :: "bytes \<Rightarrow> bytes" where
  "name_bytes nm = (if length nm < 14 then nm @ [EOS] else take 13 nm @ [EOS])"

partial_function (option) add_loop :: "nat \<Rightarrow> bytes \<Rightarrow> nat \<Rightarrow> nat option \<Rightarrow> fs_t \<Rightarrow> (nat \<times> nat \<times> fs_t) option" where
  "add_loop dir nm i buf s = do {
     (b, s) \<leftarrow> next_block dir True i buf s;
     let e = 16 * (i mod BLOCK_DENTRIES);
     let s = (if i * 16 \<ge> d_size dir s
              then idirty dir (set_size dir ((i + 1) * 16) (set_data b (bput e (bytes16 0)) s)) else s);
     if get16 (data b s) e \<noteq> 0 then add_loop dir nm (i + 1) (Some b) s
     else do {
       let s = set_dirty b (set_data b (bput (e + 2) (name_bytes nm)) s);
       Some (b, e, idirty dir (set_mtime dir (clock s) s)) } }"

definition add_entry :: "nat \<Rightarrow> bytes \<Rightarrow> fs_t \<Rightarrow> (nat \<times> nat \<times> fs_t) option" where
  "add_entry dir nm s = do {
     (dir, r, s) \<leftarrow> find_entry dir nm s;
     (case r of
        Some (b, e, _) \<Rightarrow> Some (b, e, s)
      | None \<Rightarrow> do {
          cassert (list_all (\<lambda>c. \<not> IS_SEPARATOR c) (take 14 nm));
          add_loop dir nm 0 None s }) }"

definition entry_nr :: "nat \<Rightarrow> nat \<Rightarrow> fs_t \<Rightarrow> nat" where
  "entry_nr b e s = get16 (data b s) e"

definition set_entry_nr :: "nat \<Rightarrow> nat \<Rightarrow> nat \<Rightarrow> fs_t \<Rightarrow> fs_t" where
  "set_entry_nr b e nr s = set_data b (bput e (bytes16 nr)) s"

section \<open>Paths\<close>

text \<open>\<open>strrsep\<close> on a rest of the path: what follows the last separator, which is there.\<close>

fun after_last_sep :: "bytes \<Rightarrow> bytes option" where
  "after_last_sep [] = None"
| "after_last_sep (c # cs) =
     (case after_last_sep cs of Some r \<Rightarrow> Some r | None \<Rightarrow> if IS_SEPARATOR c then Some cs else None)"

partial_function (option) named_loop ::
  "task_t \<Rightarrow> bytes \<Rightarrow> bytes \<Rightarrow> nat \<Rightarrow> nat option \<Rightarrow> fs_t \<Rightarrow> ((nat \<times> bytes) option \<times> fs_t) option" where
  "named_loop t left right p buf s = do {
     s \<leftarrow> fs_brelse buf s;
     (p, r, s) \<leftarrow> find_entry p left s;
     (case r of
        None \<Rightarrow> do { s \<leftarrow> iput (Some p) s; Some (None, s) }
      | Some (b, e, rest) \<Rightarrow> do {
          let dev = idev (inodes s ! p);
          s \<leftarrow> iput (Some p) s;
          (p, s) \<leftarrow> iget dev (entry_nr b e s) s;
          if \<not> ISDIR (d_mode p s) \<or> \<not> permission t p P_EXEC s
          then do { s \<leftarrow> fs_brelse (Some b) s; s \<leftarrow> iput (Some p) s; Some (None, s) }
          else if right = rest then do { s \<leftarrow> fs_brelse (Some b) s; Some (Some (p, rest), s) }
          else named_loop t rest right p (Some b) s }) }"

text \<open>\<open>named\<close>: the directory that holds the last nm of the path, and that nm.\<close>

definition named :: "task_t \<Rightarrow> bytes \<Rightarrow> fs_t \<Rightarrow> ((nat \<times> bytes) option \<times> fs_t) option" where
  "named t pathname s =
     (if pathname = [] then Some (None, s)
      else (let absolute = IS_SEPARATOR (hd pathname);
                p = (if absolute then iroot t else ipwd t);
                left = (if absolute then tl pathname else pathname);
                s = upd_inode p (\<lambda>i. i\<lparr>icount := w32 (icount i + 1)\<rparr>) s
            in case after_last_sep left of
                 None \<Rightarrow> Some (Some (p, left), s)
               | Some right \<Rightarrow> named_loop t left right p None s))"

definition namei :: "task_t \<Rightarrow> bytes \<Rightarrow> fs_t \<Rightarrow> (nat option \<times> fs_t) option" where
  "namei t pathname s = do {
     (r, s) \<leftarrow> named t pathname s;
     (case r of
        None \<Rightarrow> Some (None, s)
      | Some (dir, rest) \<Rightarrow>
          if rest = [] then Some (Some dir, s)
          else do {
            (dir, r, s) \<leftarrow> find_entry dir rest s;
            (case r of
               None \<Rightarrow> do { s \<leftarrow> iput (Some dir) s; Some (None, s) }
             | Some (b, e, _) \<Rightarrow> do {
                 (p, s) \<leftarrow> iget (idev (inodes s ! dir)) (entry_nr b e s) s;
                 s \<leftarrow> iput (Some dir) s;
                 s \<leftarrow> fs_brelse (Some b) s;
                 Some (Some p, s) }) }) }"

section \<open>Making and removing names\<close>

text \<open>The end of most functions, with what is to be released there.\<close>

definition rollback :: "nat option \<Rightarrow> nat option \<Rightarrow> nat option \<Rightarrow> 'a \<Rightarrow> fs_t \<Rightarrow> ('a \<times> fs_t) option" where
  "rollback buf p q ret s = do {
     s \<leftarrow> fs_brelse buf s;
     s \<leftarrow> iput p s;
     s \<leftarrow> iput q s;
     Some (ret, s) }"

definition u8_pred :: "nat \<Rightarrow> nat" where
  "u8_pred n = unat (of_nat n - 1 :: u8)"

definition sys_mkdir :: "task_t \<Rightarrow> bytes \<Rightarrow> u16 \<Rightarrow> fs_t \<Rightarrow> (int \<times> fs_t) option" where
  "sys_mkdir t pathname mode s = do {
     (r, s) \<leftarrow> named t pathname s;
     (case r of
        None \<Rightarrow> rollback None None None EOF s
      | Some (dir, nm) \<Rightarrow>
          if nm = [] then rollback None (Some dir) None EOF s
          else if \<not> permission t dir P_WRITE s then rollback None (Some dir) None EOF s
          else do {
            (dir, r, s) \<leftarrow> find_entry dir nm s;
            (case r of
               Some (b, _, _) \<Rightarrow> rollback (Some b) (Some dir) None EOF s
             | None \<Rightarrow> do {
                 (b, e, s) \<leftarrow> add_entry dir nm s;
                 let s = set_dirty b s;
                 (nr, s) \<leftarrow> ialloc (idev (inodes s ! dir)) s;
                 let s = set_entry_nr b e nr s;
                 (p, s) \<leftarrow> new_inode t (idev (inodes s ! dir)) (entry_nr b e s) s;
                 let s = set_mode p ((mode AND 0x1FF AND NOT (of_nat (umask t))) OR IFDIR) s;
                 let s = set_size p 32 s;
                 let s = set_nlinks p 2 s;
                 let s = idirty dir s;
                 let s = set_nlinks dir (d_nlinks dir s + 1) s;
                 (z, s) \<leftarrow> bmap p 0 True s;
                 (zb, s) \<leftarrow> fs_bread (idev (inodes s ! p)) z s;
                 let s = set_dirty zb s;
                 let s = set_data zb (bput 2 [46, 0]) s;
                 let s = set_entry_nr zb 0 (inr (inodes s ! p)) s;
                 let s = set_data zb (bput 18 [46, 46, 0]) s;
                 let s = set_entry_nr zb 16 (inr (inodes s ! dir)) s;
                 s \<leftarrow> iput (Some p) s;
                 s \<leftarrow> iput (Some dir) s;
                 s \<leftarrow> fs_brelse (Some b) s;
                 s \<leftarrow> fs_brelse (Some zb) s;
                 Some (0, s) }) }) }"

text \<open>\<open>is_empty\<close>: the number of entries in use.\<close>

fun count_loop :: "nat \<Rightarrow> nat list \<Rightarrow> nat option \<Rightarrow> nat \<Rightarrow> fs_t \<Rightarrow> (nat \<times> fs_t) option" where
  "count_loop p [] buf count s = do { s \<leftarrow> fs_brelse buf s; Some (count, s) }"
| "count_loop p (i # is) buf count s = do {
     (b, s) \<leftarrow> next_block p False i buf s;
     count_loop p is (Some b) (if entry_nr b (16 * (i mod BLOCK_DENTRIES)) s \<noteq> 0 then count + 1 else count) s }"

definition is_empty :: "nat \<Rightarrow> fs_t \<Rightarrow> (bool \<times> fs_t) option" where
  "is_empty p s = do {
     cassert (ISDIR (d_mode p s));
     let entries = d_size p s div 16;
     if entries < 2 \<or> d_zone p s 0 = 0 then Some (False, s)
     else do {
       (count, s) \<leftarrow> count_loop p [0..<entries] None 0 s;
       Some (count = 2, s) } }"

definition sys_rmdir :: "task_t \<Rightarrow> bytes \<Rightarrow> fs_t \<Rightarrow> (int \<times> fs_t) option" where
  "sys_rmdir t pathname s = do {
     (r, s) \<leftarrow> named t pathname s;
     (case r of
        None \<Rightarrow> Some (EOF, s)
      | Some (dir, nm) \<Rightarrow>
          if nm = [] then rollback None None (Some dir) EOF s
          else if \<not> permission t dir P_WRITE s then rollback None None (Some dir) EOF s
          else do {
            (dir, r, s) \<leftarrow> find_entry dir nm s;
            (case r of
               None \<Rightarrow> rollback None None (Some dir) EOF s
             | Some (b, e, _) \<Rightarrow> do {
                 (p, s) \<leftarrow> iget (idev (inodes s ! dir)) (entry_nr b e s) s;
                 (ret, s) \<leftarrow>
                   (if p = dir \<or> \<not> ISDIR (d_mode p s) \<or>
                       d_mode dir s AND ISVTX \<noteq> 0 \<and> uid t \<noteq> d_uid p s \<or>
                       idev (inodes s ! dir) \<noteq> idev (inodes s ! p) \<or> icount (inodes s ! p) > 1
                    then Some (EOF, s)
                    else do {
                      (empty, s) \<leftarrow> is_empty p s;
                      if \<not> empty then Some (EOF, s)
                      else do {
                        cassert (d_nlinks p s = 2);
                        s \<leftarrow> inode_truncate p s;
                        s \<leftarrow> ifree (idev (inodes s ! p)) (inr (inodes s ! p)) s;
                        let s = upd_inode p (\<lambda>i. i\<lparr>inr := 0\<rparr>) (idirty p (set_nlinks p 0 s));
                        let s = set_nlinks dir (u8_pred (d_nlinks dir s)) s;
                        let s = upd_inode dir (\<lambda>i. i\<lparr>iatime := clock s, ictime := clock s\<rparr>) (set_mtime dir (clock s) s);
                        let s = idirty dir s;
                        cassert (d_nlinks dir s > 0);
                        Some (0, set_dirty b (set_entry_nr b e 0 s)) } });
                 s \<leftarrow> iput (Some p) s;
                 s \<leftarrow> iput (Some dir) s;
                 s \<leftarrow> fs_brelse (Some b) s;
                 Some (ret, s) }) }) }"

definition sys_link :: "task_t \<Rightarrow> bytes \<Rightarrow> bytes \<Rightarrow> fs_t \<Rightarrow> (int \<times> fs_t) option" where
  "sys_link t oldname newname s = do {
     (r, s) \<leftarrow> namei t oldname s;
     (case r of
        None \<Rightarrow> Some (EOF, s)
      | Some p \<Rightarrow>
          if ISDIR (d_mode p s) then rollback None (Some p) None EOF s
          else do {
            (r, s) \<leftarrow> named t newname s;
            (case r of
               None \<Rightarrow> rollback None (Some p) None EOF s
             | Some (dir, nm) \<Rightarrow>
                 if nm = [] \<or> idev (inodes s ! dir) \<noteq> idev (inodes s ! p) \<or> \<not> permission t dir P_WRITE s
                 then rollback None (Some p) (Some dir) EOF s
                 else do {
                   (dir, r, s) \<leftarrow> find_entry dir nm s;
                   (case r of
                      Some (b, _, _) \<Rightarrow> rollback (Some b) (Some p) (Some dir) EOF s
                    | None \<Rightarrow> do {
                        (b, e, s) \<leftarrow> add_entry dir nm s;
                        let s = set_dirty b (set_entry_nr b e (inr (inodes s ! p)) s);
                        let s = set_nlinks p (d_nlinks p s + 1) s;
                        let s = idirty p (upd_inode p (\<lambda>i. i\<lparr>ictime := clock s\<rparr>) s);
                        rollback (Some b) (Some p) (Some dir) 0 s }) }) }) }"

definition sys_unlink :: "task_t \<Rightarrow> bytes \<Rightarrow> fs_t \<Rightarrow> (int \<times> fs_t) option" where
  "sys_unlink t filename s = do {
     (r, s) \<leftarrow> named t filename s;
     (case r of
        None \<Rightarrow> Some (EOF, s)
      | Some (dir, nm) \<Rightarrow>
          if nm = [] \<or> \<not> permission t dir P_WRITE s then rollback None None (Some dir) EOF s
          else do {
            (dir, r, s) \<leftarrow> find_entry dir nm s;
            (case r of
               None \<Rightarrow> rollback None None (Some dir) EOF s
             | Some (b, e, _) \<Rightarrow> do {
                 (p, s) \<leftarrow> iget (idev (inodes s ! dir)) (entry_nr b e s) s;
                 if ISDIR (d_mode p s) \<or> d_mode p s AND ISVTX \<noteq> 0 \<and> uid t \<noteq> d_uid p s
                 then rollback (Some b) (Some p) (Some dir) EOF s
                 else do {
                   let s = set_dirty b (set_entry_nr b e 0 s);
                   let s = idirty p (set_nlinks p (u8_pred (d_nlinks p s)) s);
                   s \<leftarrow> (if d_nlinks p s = 0
                        then do { s \<leftarrow> inode_truncate p s; ifree (idev (inodes s ! p)) (inr (inodes s ! p)) s }
                        else Some s);
                   rollback (Some b) (Some p) (Some dir) 0 s } }) }) }"

definition sys_mknod :: "task_t \<Rightarrow> bytes \<Rightarrow> u16 \<Rightarrow> int \<Rightarrow> fs_t \<Rightarrow> (int \<times> fs_t) option" where
  "sys_mknod t filename mode dev s = do {
     (r, s) \<leftarrow> named t filename s;
     (case r of
        None \<Rightarrow> Some (EOF, s)
      | Some (dir, nm) \<Rightarrow>
          if nm = [] \<or> \<not> permission t dir P_WRITE s then rollback None None (Some dir) EOF s
          else do {
            (dir, r, s) \<leftarrow> find_entry dir nm s;
            (case r of
               Some (b, _, _) \<Rightarrow> rollback (Some b) None (Some dir) EOF s
             | None \<Rightarrow> do {
                 (b, e, s) \<leftarrow> add_entry dir nm s;
                 let s = set_dirty b s;
                 (nr, s) \<leftarrow> ialloc (idev (inodes s ! dir)) s;
                 let s = set_entry_nr b e nr s;
                 (p, s) \<leftarrow> new_inode t (idev (inodes s ! dir)) (entry_nr b e s) s;
                 let s = set_mode p mode s;
                 let s = (if ISBLK mode \<or> ISCHR mode then set_zone p 0 (u32_of dev) s else s);
                 rollback (Some b) (Some p) (Some dir) 0 s }) }) }"

text \<open>\<open>inode_open\<close>; the label \<open>makeup\<close> is reached with the i-node that was found or made.\<close>

definition open_makeup :: "task_t \<Rightarrow> 32 word \<Rightarrow> nat \<Rightarrow> nat \<Rightarrow> nat \<Rightarrow> fs_t \<Rightarrow> (nat option \<times> fs_t) option" where
  "open_makeup t flag b dir p s =
     (if \<not> permission t p (ACC_MODE flag) s \<or> ISDIR (d_mode p s) \<and> flag AND O_ACCMODE \<noteq> O_RDONLY
      then rollback (Some b) (Some dir) (Some p) None s
      else do {
        let s = upd_inode p (\<lambda>i. i\<lparr>iatime := clock s\<rparr>) s;
        s \<leftarrow> (if flag AND O_TRUNC \<noteq> 0 then inode_truncate p s else Some s);
        rollback (Some b) (Some dir) None (Some p) s })"

definition inode_open :: "task_t \<Rightarrow> bytes \<Rightarrow> 32 word \<Rightarrow> u16 \<Rightarrow> fs_t \<Rightarrow> (nat option \<times> fs_t) option" where
  "inode_open t pathname flag mode s = do {
     (r, s) \<leftarrow> named t pathname s;
     (case r of
        None \<Rightarrow> Some (None, s)
      | Some (dir, nm) \<Rightarrow>
          if nm = [] then Some (Some dir, s)
          else do {
            let flag = (if flag AND O_TRUNC \<noteq> 0 \<and> flag AND O_ACCMODE = O_RDONLY then flag OR O_RDWR else flag);
            (dir, r, s) \<leftarrow> find_entry dir nm s;
            (case r of
               Some (b, e, _) \<Rightarrow> do {
                 (p, s) \<leftarrow> iget (idev (inodes s ! dir)) (entry_nr b e s) s;
                 open_makeup t flag b dir p s }
             | None \<Rightarrow>
                 if flag AND O_CREAT = 0 \<or> \<not> permission t dir P_WRITE s
                 then rollback None (Some dir) None None s
                 else do {
                   (b, e, s) \<leftarrow> add_entry dir nm s;
                   (nr, s) \<leftarrow> ialloc (idev (inodes s ! dir)) s;
                   let s = set_entry_nr b e nr s;
                   (p, s) \<leftarrow> new_inode t (idev (inodes s ! dir)) (entry_nr b e s) s;
                   let s = set_mode p ((mode AND 0x1FF AND NOT (of_nat (umask t))) OR IFREG) s;
                   open_makeup t flag b dir p s }) }) }"

section \<open>The current directory\<close>

text \<open>\<open>abspath\<close> works in place on the bytes at \<open>pwd\<close> and \<open>pathname\<close>. The loop handles the names that are
  followed by a separator; \<open>bytes_at\<close> is the comparison with a literal.\<close>

definition bytes_at :: "mem \<Rightarrow> addr \<Rightarrow> bytes \<Rightarrow> bool" where
  "bytes_at m a bs \<longleftrightarrow> mread m a (length bs) = bs"

definition cut_last :: "mem \<Rightarrow> addr \<Rightarrow> (mem \<times> addr) option" where
  "cut_last m pw = do {
     r \<leftarrow> strrsep m pw;
     cassert (r \<noteq> NULL);
     Some (m(r + 1 := EOS), r + 1) }"

definition pop_dir :: "addr \<Rightarrow> mem \<Rightarrow> addr \<Rightarrow> (mem \<times> addr) option" where
  "pop_dir pw m cur' = (if cur' - 1 \<noteq> pw then cut_last (m(cur' - 1 := EOS)) pw else Some (m, cur'))"

partial_function (option) abspath_loop :: "addr \<Rightarrow> mem \<Rightarrow> addr \<Rightarrow> addr \<Rightarrow> (mem \<times> addr \<times> addr) option" where
  "abspath_loop pw m cur' p =
     (if m p = EOS then Some (m, cur', p)
      else do {
        q \<leftarrow> strsep m p;
        if q = NULL then Some (m, cur', p)
        else do {
          let len = q - p + 1;
          let m = m(q := 47);
          (m, cur') \<leftarrow>
            (if bytes_at m p [46, 47] then Some (m, cur')
             else if bytes_at m p [46, 46, 47] then pop_dir pw m cur'
             else do { (_, m) \<leftarrow> strncpy m cur' p (len + 1); Some (m, cur' + len) });
          abspath_loop pw m cur' (p + len) } })"

definition abspath :: "mem \<Rightarrow> addr \<Rightarrow> addr \<Rightarrow> mem option" where
  "abspath m pw pathname = do {
     (m, cur', p) \<leftarrow>
       (if IS_SEPARATOR (m pathname) then Some (m(pw + 1 := EOS), pw + 1, pathname + 1)
        else do { (m, cur') \<leftarrow> cut_last m pw; Some (m, cur', pathname) });
     (m, cur', p) \<leftarrow> abspath_loop pw m cur' p;
     if m p = EOS then Some m
     else if bytes_at m p [46, 0] then Some m
     else if \<not> bytes_at m p [46, 46, 0]
     then do {
       (_, m) \<leftarrow> strcpy m cur' p;
       n \<leftarrow> strlen m p;
       let cur' = cur' + n;
       Some (m(cur' := 47, cur' + 1 := EOS)) }
     else do { (m, _) \<leftarrow> pop_dir pw m cur'; Some m } }"

definition path_at :: "mem \<Rightarrow> addr \<Rightarrow> bytes option" where
  "path_at m a = do { n \<leftarrow> strlen m a; Some (mread m a n) }"

definition sys_getcwd :: "task_t \<Rightarrow> addr \<Rightarrow> nat \<Rightarrow> mem \<Rightarrow> (addr \<times> mem) option" where
  "sys_getcwd t buf n m = do { (_, m) \<leftarrow> strncpy m buf (pwd t) n; Some (buf, m) }"

definition sys_chdir :: "task_t \<Rightarrow> addr \<Rightarrow> mem \<Rightarrow> fs_t \<Rightarrow> (int \<times> task_t \<times> mem \<times> fs_t) option" where
  "sys_chdir t pathname m s = do {
     path \<leftarrow> path_at m pathname;
     (r, s) \<leftarrow> namei t path s;
     (case r of
        None \<Rightarrow> Some (EOF, t, m, s)
      | Some p \<Rightarrow>
          if \<not> ISDIR (d_mode p s) \<or> p = ipwd t
          then do { s \<leftarrow> iput (Some p) s; Some (EOF, t, m, s) }
          else do {
            m \<leftarrow> abspath m (pwd t) pathname;
            s \<leftarrow> iput (Some (ipwd t)) s;
            Some (0, t\<lparr>ipwd := p\<rparr>, m, s) }) }"

definition sys_chroot :: "task_t \<Rightarrow> bytes \<Rightarrow> fs_t \<Rightarrow> (int \<times> task_t \<times> fs_t) option" where
  "sys_chroot t pathname s = do {
     (r, s) \<leftarrow> namei t pathname s;
     (case r of
        None \<Rightarrow> Some (EOF, t, s)
      | Some p \<Rightarrow>
          if \<not> ISDIR (d_mode p s) \<or> p = iroot t
          then do { s \<leftarrow> iput (Some p) s; Some (EOF, t, s) }
          else do {
            s \<leftarrow> iput (Some (iroot t)) s;
            Some (0, t\<lparr>iroot := p\<rparr>, s) }) }"

end
