(* ===== verification/Super.thy ===== *)
theory Super
  imports Namei Stdlib
begin

text \<open>
  \<open>src/src/fs/super.c\<close>: reading and releasing super blocks, mounting, and making a file system. The
  size of a device, which \<open>devmkfs\<close> asks its driver for, is the argument \<open>sectors\<close>.
\<close>

definition MINIX1_MAGIC :: nat where "MINIX1_MAGIC = 0x137F"

definition put_super :: "nat option \<Rightarrow> fs_t \<Rightarrow> fs_t option" where
  "put_super q s =
     (case q of
        None \<Rightarrow> Some s
      | Some sb \<Rightarrow> do {
          cassert (scount (supers s ! sb) > 0);
          let s = upd_super sb (\<lambda>b. b\<lparr>scount := scount b - 1\<rparr>) s;
          if scount (supers s ! sb) \<noteq> 0 then Some s
          else do {
            let s = upd_super sb (\<lambda>b. b\<lparr>sdev := EOF\<rparr>) s;
            s \<leftarrow> iput (smount (supers s ! sb)) s;
            s \<leftarrow> iput (sroot (supers s ! sb)) s;
            s \<leftarrow> for_each (\<lambda>i s. do { p \<leftarrow> aget (imaps (supers s ! sb)) i; fs_brelse p s }) [0..<s_imap_blocks sb s] s;
            s \<leftarrow> for_each (\<lambda>i s. do { p \<leftarrow> aget (zmaps (supers s ! sb)) i; fs_brelse p s }) [0..<s_zmap_blocks sb s] s;
            fs_brelse (Some (sbuf (supers s ! sb))) s } })"

text \<open>One round of the loops that read the maps into \<open>imaps\<close> and \<open>zmaps\<close>, from block \<open>first\<close> on;
  \<open>init\<close> is what \<open>devmkfs\<close> does with each buffer.\<close>

definition read_imap :: "int \<Rightarrow> nat \<Rightarrow> nat \<Rightarrow> (nat \<Rightarrow> fs_t \<Rightarrow> fs_t) \<Rightarrow> nat \<Rightarrow> fs_t \<Rightarrow> fs_t option" where
  "read_imap dev sb first init i s = do {
     cassert (i < IMAP_NR);
     (p, s) \<leftarrow> fs_bread dev (first + i) s;
     Some (init p (upd_super sb (\<lambda>b. b\<lparr>imaps := (imaps b)[i := Some p]\<rparr>) s)) }"

definition read_zmap :: "int \<Rightarrow> nat \<Rightarrow> nat \<Rightarrow> (nat \<Rightarrow> fs_t \<Rightarrow> fs_t) \<Rightarrow> nat \<Rightarrow> fs_t \<Rightarrow> fs_t option" where
  "read_zmap dev sb first init i s = do {
     cassert (i < ZMAP_NR);
     (p, s) \<leftarrow> fs_bread dev (first + i) s;
     Some (init p (upd_super sb (\<lambda>b. b\<lparr>zmaps := (zmaps b)[i := Some p]\<rparr>) s)) }"

definition clear_maps :: "super_block_t \<Rightarrow> super_block_t" where
  "clear_maps b = b\<lparr>imaps := replicate IMAP_NR None, zmaps := replicate ZMAP_NR None\<rparr>"

definition read_super :: "int \<Rightarrow> fs_t \<Rightarrow> (nat \<times> fs_t) option" where
  "read_super dev s =
     (case get_super dev s of
        Some sb \<Rightarrow> Some (sb, upd_super sb (\<lambda>b. b\<lparr>scount := w32 (scount b + 1)\<rparr>) s)
      | None \<Rightarrow> do {
          sb \<leftarrow> get_free_super s;
          (p, s) \<leftarrow> fs_bread dev 1 s;
          let s = upd_super sb (\<lambda>b. b\<lparr>sbuf := p, sdev := dev, scount := 1\<rparr>) s;
          cassert (s_magic sb s = MINIX1_MAGIC);
          let s = upd_super sb clear_maps s;
          s \<leftarrow> for_each (read_imap dev sb 2 (\<lambda>_ s. s)) [0..<s_imap_blocks sb s] s;
          s \<leftarrow> for_each (read_zmap dev sb (2 + s_imap_blocks sb s) (\<lambda>_ s. s)) [0..<s_zmap_blocks sb s] s;
          Some (sb, s) })"

text \<open>\<open>dev\<close> is the device that \<open>device_find(DEV_IDE_PART, 0)\<close> finds.\<close>

definition mount_root :: "int \<Rightarrow> fs_t \<Rightarrow> fs_t option" where
  "mount_root dev s = do {
     (sb, s) \<leftarrow> read_super dev s;
     let s = s\<lparr>root := sb\<rparr>;
     (p, s) \<leftarrow> iget dev 1 s;
     let s = upd_super sb (\<lambda>b. b\<lparr>sroot := Some p\<rparr>) s;
     (q, s) \<leftarrow> iget dev 1 s;
     let s = upd_super sb (\<lambda>b. b\<lparr>smount := Some q\<rparr>) s;
     Some (upd_inode p (\<lambda>i. i\<lparr>imnt := dev\<rparr>) s) }"

definition super_init :: "int \<Rightarrow> fs_t \<Rightarrow> fs_t option" where
  "super_init dev s =
     mount_root dev (s\<lparr>supers := map (\<lambda>b. b\<lparr>sdev := EOF, sroot := None, smount := None, inode_list := []\<rparr>) (supers s)\<rparr>)"

section \<open>Mounting\<close>

definition mount_rollback :: "nat option \<Rightarrow> nat option \<Rightarrow> nat option \<Rightarrow> fs_t \<Rightarrow> (int \<times> fs_t) option" where
  "mount_rollback sb devinode dirinode s = do {
     s \<leftarrow> put_super sb s;
     s \<leftarrow> iput devinode s;
     s \<leftarrow> iput dirinode s;
     Some (EOF, s) }"

definition sys_mount :: "task_t \<Rightarrow> bytes \<Rightarrow> bytes \<Rightarrow> fs_t \<Rightarrow> (int \<times> fs_t) option" where
  "sys_mount t devname dirname s = do {
     (r, s) \<leftarrow> namei t devname s;
     (case r of
        None \<Rightarrow> mount_rollback None None None s
      | Some d \<Rightarrow>
          if \<not> ISBLK (d_mode d s) then mount_rollback None (Some d) None s
          else do {
            let dev = int (d_zone d s 0);
            (r, s) \<leftarrow> namei t dirname s;
            (case r of
               None \<Rightarrow> mount_rollback None (Some d) None s
             | Some p \<Rightarrow>
                 if \<not> ISDIR (d_mode p s) \<or> icount (inodes s ! p) \<noteq> 1 \<or> imnt (inodes s ! p) \<noteq> 0
                 then mount_rollback None (Some d) (Some p) s
                 else do {
                   (sb, s) \<leftarrow> read_super dev s;
                   if smount (supers s ! sb) \<noteq> None then mount_rollback (Some sb) (Some d) (Some p) s
                   else do {
                     (q, s) \<leftarrow> iget dev 1 s;
                     let s = upd_super sb (\<lambda>b. b\<lparr>sroot := Some q, smount := Some p\<rparr>) s;
                     let s = upd_inode p (\<lambda>i. i\<lparr>imnt := dev\<rparr>) s;
                     s \<leftarrow> iput (Some d) s;
                     Some (0, s) } }) }) }"

definition umount_rollback :: "nat option \<Rightarrow> nat option \<Rightarrow> int \<Rightarrow> fs_t \<Rightarrow> (int \<times> fs_t) option" where
  "umount_rollback sb p ret s = do {
     s \<leftarrow> put_super sb s;
     s \<leftarrow> iput p s;
     Some (ret, s) }"

definition sys_umount :: "task_t \<Rightarrow> bytes \<Rightarrow> fs_t \<Rightarrow> (int \<times> fs_t) option" where
  "sys_umount t target s = do {
     (r, s) \<leftarrow> namei t target s;
     (case r of
        None \<Rightarrow> umount_rollback None None EOF s
      | Some p \<Rightarrow>
          if \<not> ISBLK (d_mode p s) \<and> inr (inodes s ! p) \<noteq> 1 then umount_rollback None (Some p) EOF s
          else if Some p = smount (supers s ! root s) then umount_rollback None (Some p) EOF s
          else do {
            let dev = (if ISBLK (d_mode p s) then int (d_zone p s 0) else idev (inodes s ! p));
            sb \<leftarrow> get_super dev s;
            (case smount (supers s ! sb) of
               None \<Rightarrow> umount_rollback (Some sb) (Some p) EOF s
             | Some m \<Rightarrow>
                 if List.length (inode_list (supers s ! sb)) > 1 then umount_rollback (Some sb) (Some p) EOF s
                 else do {
                   s \<leftarrow> iput (sroot (supers s ! sb)) s;
                   let s = upd_super sb (\<lambda>b. b\<lparr>sroot := None\<rparr>) s;
                   let s = upd_inode m (\<lambda>i. i\<lparr>imnt := 0\<rparr>) s;
                   s \<leftarrow> iput (Some m) s;
                   let s = upd_super sb (\<lambda>b. b\<lparr>smount := None\<rparr>) s;
                   umount_rollback (Some sb) (Some p) 0 s }) }) }"

section \<open>Making a file system\<close>

definition set_super :: "nat \<Rightarrow> nat \<Rightarrow> bytes \<Rightarrow> fs_t \<Rightarrow> fs_t" where
  "set_super sb off new s = set_data (sbuf (supers s ! sb)) (bput off new) s"

definition zero_block :: "nat \<Rightarrow> fs_t \<Rightarrow> fs_t" where
  "zero_block p s = set_dirty p (set_data p (\<lambda>_. replicate BLOCK_SIZE 0) s)"

text \<open>The bits of a map from \<open>count\<close> on are set; \<open>data\<close> is the byte with \<open>remain\<close> bits from the top.\<close>

fun tail_loop :: "nat \<Rightarrow> u8 \<Rightarrow> u8 \<Rightarrow> u8" where
  "tail_loop 0 bits d = d"
| "tail_loop (Suc remain) bits d = tail_loop remain (drop_bit 1 bits) (d OR bits)"

definition set_tail :: "int \<Rightarrow> nat \<Rightarrow> fs_t \<Rightarrow> fs_t option" where
  "set_tail count p s = do {
     let offset = cmod count (int BLOCK_BITS);
     cassert (0 \<le> offset);
     let begin' = nat offset div 8;
     let d = tail_loop (8 - nat offset mod 8) 0x80 0;
     let s = set_dirty p s;
     let s = set_data p (bput (begin' + 1) (replicate (BLOCK_SIZE - begin' - 1) 0xFF)) s;
     Some (set_data p (bput begin' [d]) s) }"

definition devmkfs :: "task_t \<Rightarrow> int \<Rightarrow> nat \<Rightarrow> int \<Rightarrow> fs_t \<Rightarrow> (int \<times> fs_t) option" where
  "devmkfs t dev icnt sectors s = do {
     let total_block = cdiv sectors (int BLOCK_SECS);
     cassert (total_block \<noteq> 0);
     cassert (icnt < u32_of total_block);
     let icnt = (if icnt = 0 then u32_of (cdiv total_block 3) else icnt);
     sb \<leftarrow> get_free_super s;
     let s = upd_super sb (\<lambda>b. b\<lparr>sdev := dev, scount := 1\<rparr>) s;
     (p, s) \<leftarrow> fs_bread dev 1 s;
     let s = set_dirty p (upd_super sb (\<lambda>b. b\<lparr>sbuf := p\<rparr>) s);
     inode_blocks \<leftarrow> div_round_up (w32 (icnt * 32)) BLOCK_SIZE;
     let s = set_super sb 0 (bytes16 icnt) s;
     let s = set_super sb 2 (bytes16 (u32_of total_block)) s;
     imap_blocks \<leftarrow> div_round_up icnt BLOCK_BITS;
     let s = set_super sb 4 (bytes16 imap_blocks) s;
     let zcount = s32 (total_block - int (s_imap_blocks sb s) - int inode_blocks - 2);
     zmap_blocks \<leftarrow> div_round_up (u32_of zcount) BLOCK_BITS;
     let s = set_super sb 6 (bytes16 zmap_blocks) s;
     let s = set_super sb 8 (bytes16 (2 + s_imap_blocks sb s + s_zmap_blocks sb s + inode_blocks)) s;
     let s = set_super sb 10 (bytes16 0) s;
     let s = set_super sb 12 (bytes32 (w32 (BLOCK_SIZE * TOTAL_BLOCK))) s;
     let s = set_super sb 16 (bytes16 MINIX1_MAGIC) s;
     let s = upd_super sb clear_maps s;
     s \<leftarrow> for_each (read_imap dev sb 2 zero_block) [0..<s_imap_blocks sb s] s;
     s \<leftarrow> for_each (read_zmap dev sb (2 + s_imap_blocks sb s) zero_block) [0..<s_zmap_blocks sb s] s;
     (_, s) \<leftarrow> balloc dev s;
     (_, s) \<leftarrow> ialloc dev s;
     (_, s) \<leftarrow> ialloc dev s;
     ip \<leftarrow> (if s_imap_blocks sb s = 0 then None else aget (imaps (supers s ! sb)) (s_imap_blocks sb s - 1));
     zp \<leftarrow> (if s_zmap_blocks sb s = 0 then None else aget (zmaps (supers s ! sb)) (s_zmap_blocks sb s - 1));
     im \<leftarrow> ip;
     s \<leftarrow> set_tail (s32 (int icnt + 1)) im s;
     zm \<leftarrow> zp;
     s \<leftarrow> set_tail zcount zm s;
     (r, s) \<leftarrow> new_inode t dev 1 s;
     let s = upd_super sb (\<lambda>b. b\<lparr>sroot := Some r\<rparr>) s;
     let s = set_mode r ((0x1FF AND NOT (of_nat (umask t))) OR IFDIR) s;
     let s = set_size r 32 s;
     let s = set_nlinks r 2 s;
     (z, s) \<leftarrow> bmap r 0 True s;
     (b, s) \<leftarrow> fs_bread dev z s;
     let s = set_data b (\<lambda>_. replicate BLOCK_SIZE 0) (set_dirty b s);
     let s = set_data b (bput 2 [46, 0]) s;
     let s = set_entry_nr b 0 (inr (inodes s ! r)) s;
     let s = set_data b (bput 18 [46, 46, 0]) s;
     let s = set_entry_nr b 16 (inr (inodes s ! r)) s;
     s \<leftarrow> fs_brelse (Some b) s;
     s \<leftarrow> put_super (Some sb) s;
     Some (0, s) }"

text \<open>\<open>sectors\<close> is the size of each device.\<close>

definition sys_mkfs :: "task_t \<Rightarrow> bytes \<Rightarrow> int \<Rightarrow> (int \<Rightarrow> int) \<Rightarrow> fs_t \<Rightarrow> (int \<times> fs_t) option" where
  "sys_mkfs t devname icnt sectors s = do {
     (r, s) \<leftarrow> namei t devname s;
     (case r of
        None \<Rightarrow> Some (EOF, s)
      | Some p \<Rightarrow>
          if \<not> ISBLK (d_mode p s) then do { s \<leftarrow> iput (Some p) s; Some (EOF, s) }
          else do {
            let dev = int (d_zone p s 0);
            cassert (dev \<noteq> 0);
            (ret, s) \<leftarrow> devmkfs t dev (u32_of icnt) (sectors dev) s;
            s \<leftarrow> iput (Some p) s;
            Some (ret, s) }) }"

end
