(* ===== verification/FileC.thy ===== *)
theory FileC
  imports Super Device Fifo
begin

text \<open>
  \<open>src/src/fs/file.c\<close>, \<open>stat.c\<close>, \<open>ioctl.c\<close>, \<open>dev.c\<close> and \<open>sys_pipe\<close> of \<open>pipe.c\<close>: the table of open
  files and the system calls on descriptors. A descriptor of a task names an entry of the table; the
  entries 0, 1 and 2 are the standard files. Drivers of devices work on the user's memory and on
  a state of their own (\<open>hw\<close>). The rings of the pipes are found at the addresses that the pipes' i-nodes
  hold; where a pipe would wait, the model does not return (\<open>Pipe\<close> has the waiting).
\<close>

section \<open>State\<close>

record file_t =
  finode :: "nat option"
  fcount :: nat
  foffset :: int
  flags :: "32 word"
  fmode :: u16

record 'd io_t =
  fsys :: fs_t
  file_table :: "file_t list"
  devs :: "(mem \<times> 'd) device_t list"
  umem :: mem
  hw :: 'd
  rings :: "addr \<Rightarrow> fifo"

definition FILE_NR :: nat where "FILE_NR = 128"
definition SEEK_SET :: int where "SEEK_SET = 1"
definition SEEK_CUR :: int where "SEEK_CUR = 2"
definition SEEK_END :: int where "SEEK_END = 3"
definition EBADF :: int where "EBADF = 9"
definition EINVAL :: int where "EINVAL = 22"
definition ENOTTY :: int where "ENOTTY = 25"

definition upd_file :: "nat \<Rightarrow> (file_t \<Rightarrow> file_t) \<Rightarrow> 'd io_t \<Rightarrow> 'd io_t" where
  "upd_file f g s = s\<lparr>file_table := (file_table s)[f := g (file_table s ! f)]\<rparr>"

text \<open>\<open>task->files[fd]\<close>; outside of the array the code reads other fields of the task.\<close>

definition fd_file :: "task_t \<Rightarrow> int \<Rightarrow> nat option option" where
  "fd_file t fd = do { cassert (0 \<le> fd); aget (files t) (nat fd) }"

section \<open>The table of open files\<close>

definition get_file :: "'d io_t \<Rightarrow> (nat \<times> 'd io_t) option" where
  "get_file s = do {
     f \<leftarrow> find (\<lambda>f. fcount (file_table s ! f) = 0) [3..<FILE_NR];
     Some (f, upd_file f (\<lambda>x. x\<lparr>fcount := fcount x + 1\<rparr>) s) }"

definition put_file :: "nat \<Rightarrow> 'd io_t \<Rightarrow> 'd io_t option" where
  "put_file f s = do {
     cassert (fcount (file_table s ! f) > 0);
     let s = upd_file f (\<lambda>x. x\<lparr>fcount := fcount x - 1\<rparr>) s;
     if fcount (file_table s ! f) = 0
     then do { i \<leftarrow> iput (finode (file_table s ! f)) (fsys s); Some (s\<lparr>fsys := i\<rparr>) }
     else Some s }"

definition file_init :: "'d io_t \<Rightarrow> 'd io_t" where
  "file_init s = s\<lparr>file_table := take 3 (file_table s) @
     replicate (FILE_NR - 3) \<lparr>finode = None, fcount = 0, foffset = 0, flags = 0, fmode = 0\<rparr>\<rparr>"

section \<open>Opening and closing\<close>

definition sys_open :: "bytes \<Rightarrow> 32 word \<Rightarrow> u16 \<Rightarrow> task_t \<Rightarrow> 'd io_t \<Rightarrow> (int \<times> task_t \<times> 'd io_t) option" where
  "sys_open filename fl mode t s = do {
     (r, i) \<leftarrow> inode_open t filename fl mode (fsys s);
     let s = s\<lparr>fsys := i\<rparr>;
     (case r of
        None \<Rightarrow> Some (EOF, t, s)
      | Some p \<Rightarrow> do {
          fd \<leftarrow> task_get_fd t;
          (f, s) \<leftarrow> get_file s;
          cassert (files t ! fd = None);
          let t = t\<lparr>files := (files t)[fd := Some f]\<rparr>;
          let s = upd_file f (\<lambda>x. x\<lparr>finode := Some p, flags := fl, fcount := 1, fmode := d_mode p (fsys s), foffset := 0\<rparr>) s;
          let s = (if fl AND O_APPEND \<noteq> 0 then upd_file f (\<lambda>x. x\<lparr>foffset := s32 (int (d_size p (fsys s)))\<rparr>) s else s);
          Some (int fd, t, s) }) }"

definition sys_creat :: "bytes \<Rightarrow> u16 \<Rightarrow> task_t \<Rightarrow> 'd io_t \<Rightarrow> (int \<times> task_t \<times> 'd io_t) option" where
  "sys_creat filename mode t s = sys_open filename (O_CREAT OR O_TRUNC) mode t s"

definition sys_close :: "int \<Rightarrow> task_t \<Rightarrow> 'd io_t \<Rightarrow> (task_t \<times> 'd io_t) option" where
  "sys_close fd t s = do {
     cassert (fd < int TASK_FILE_NR);
     r \<leftarrow> fd_file t fd;
     (case r of
        None \<Rightarrow> Some (t, s)
      | Some f \<Rightarrow> do {
          cassert (finode (file_table s ! f) \<noteq> None);
          s \<leftarrow> put_file f s;
          t \<leftarrow> task_put_fd (nat fd) t;
          Some (t, s) }) }"

section \<open>Reading and writing\<close>

text \<open>A pipe that does not wait.\<close>

fun pipe_put :: "fifo \<Rightarrow> bytes \<Rightarrow> fifo option" where
  "pipe_put f [] = Some f"
| "pipe_put f (b # bs) = do {
     full \<leftarrow> fifo_full f;
     cassert (\<not> full);
     f \<leftarrow> fifo_put f b;
     pipe_put f bs }"

text \<open>A transfer by the driver of device \<open>zone[0]\<close>; a block device counts in blocks.\<close>

definition dev_rw :: "(int \<Rightarrow> nat \<Rightarrow> nat \<Rightarrow> nat \<Rightarrow> int \<Rightarrow> (mem \<times> 'd) device_t list \<Rightarrow> mem \<times> 'd \<Rightarrow> (int \<times> mem \<times> 'd) option) \<Rightarrow>
    nat \<Rightarrow> addr \<Rightarrow> nat \<Rightarrow> nat \<Rightarrow> 'd io_t \<Rightarrow> (int \<times> 'd io_t) option" where
  "dev_rw rw d buf count idx s = do {
     (len, m, h) \<leftarrow> rw (int d) buf count idx 0 (devs s) (umem s, hw s);
     Some (len, s\<lparr>umem := m, hw := h\<rparr>) }"

definition advance :: "nat \<Rightarrow> int \<Rightarrow> 'd io_t \<Rightarrow> 'd io_t" where
  "advance f len s = (if len \<noteq> EOF then upd_file f (\<lambda>x. x\<lparr>foffset := s32 (foffset x + len)\<rparr>) s else s)"

definition sys_read :: "int \<Rightarrow> addr \<Rightarrow> int \<Rightarrow> task_t \<Rightarrow> 'd io_t \<Rightarrow> (int \<times> 'd io_t) option" where
  "sys_read fd buf count t s = do {
     r \<leftarrow> fd_file t fd;
     f \<leftarrow> r;
     cassert (count > 0);
     let file = file_table s ! f;
     if flags file AND O_ACCMODE = O_WRONLY then Some (EOF, s)
     else do {
       p \<leftarrow> finode file;
       let zone0 = d_zone p (fsys s) 0;
       if ipipe (inodes (fsys s) ! p)
       then do {
         let a = idesc (inodes (fsys s) ! p);
         (bs, q) \<leftarrow> get_many fifo_get (nat count) (rings s a);
         Some (count, s\<lparr>umem := mwrite (umem s) buf bs, rings := (rings s)(a := q)\<rparr>) }
       else if ISCHR (d_mode p (fsys s))
       then do { cassert (zone0 \<noteq> 0); dev_rw device_read zone0 buf (nat count) 0 s }
       else if ISBLK (d_mode p (fsys s))
       then do {
         cassert (zone0 \<noteq> 0);
         _ \<leftarrow> device_get (int zone0) (devs s);
         cassert (cmod (foffset file) (int BLOCK_SIZE) = 0);
         cassert (cmod count (int BLOCK_SIZE) = 0);
         dev_rw device_read zone0 buf (nat count div BLOCK_SIZE) (u32_of (cdiv (foffset file) (int BLOCK_SIZE))) s }
       else do {
         (len, bs, i) \<leftarrow> inode_read p (nat count) (foffset file) (fsys s);
         let s = s\<lparr>fsys := i, umem := mwrite (umem s) buf bs\<rparr>;
         Some (len, advance f len s) } } }"

definition sys_write :: "nat \<Rightarrow> addr \<Rightarrow> int \<Rightarrow> task_t \<Rightarrow> 'd io_t \<Rightarrow> (int \<times> 'd io_t) option" where
  "sys_write fd buf count t s = do {
     r \<leftarrow> aget (files t) fd;
     f \<leftarrow> r;
     cassert (count > 0);
     let file = file_table s ! f;
     if flags file AND O_ACCMODE = O_RDONLY then Some (EOF, s)
     else do {
       p \<leftarrow> finode file;
       let zone0 = d_zone p (fsys s) 0;
       if ipipe (inodes (fsys s) ! p)
       then do {
         let a = idesc (inodes (fsys s) ! p);
         q \<leftarrow> pipe_put (rings s a) (mread (umem s) buf (nat count));
         Some (count, s\<lparr>rings := (rings s)(a := q)\<rparr>) }
       else if ISCHR (d_mode p (fsys s))
       then do {
         cassert (zone0 \<noteq> 0);
         _ \<leftarrow> device_get (int zone0) (devs s);
         dev_rw device_write zone0 buf (nat count) 0 s }
       else if ISBLK (d_mode p (fsys s))
       then do {
         cassert (zone0 \<noteq> 0);
         _ \<leftarrow> device_get (int zone0) (devs s);
         cassert (cmod (foffset file) (int BLOCK_SIZE) = 0);
         cassert (cmod count (int BLOCK_SIZE) = 0);
         dev_rw device_write zone0 buf (nat count div BLOCK_SIZE) (u32_of (cdiv (foffset file) (int BLOCK_SIZE))) s }
       else do {
         (len, i) \<leftarrow> inode_write p (mread (umem s) buf (nat count)) (foffset file) (fsys s);
         let s = s\<lparr>fsys := i\<rparr>;
         Some (len, advance f len s) } } }"

text \<open>\<open>sys_lseek\<close>. \<open>file->inode->desc->size + offset >= 0\<close> compares a \<open>u32\<close> and always holds. An \<open>int\<close> sum
  that overflows has no meaning in C.\<close>

definition sys_lseek :: "int \<Rightarrow> int \<Rightarrow> int \<Rightarrow> task_t \<Rightarrow> 'd io_t \<Rightarrow> (int \<times> 'd io_t) option" where
  "sys_lseek fd offset whence t s = do {
     cassert (fd < int TASK_FILE_NR);
     r \<leftarrow> fd_file t fd;
     f \<leftarrow> r;
     p \<leftarrow> finode (file_table s ! f);
     off \<leftarrow> (if whence = SEEK_SET then do { cassert (offset \<ge> 0); Some offset }
           else if whence = SEEK_CUR
           then do {
             let sum = foffset (file_table s ! f) + offset;
             cassert (s32_ok sum \<and> sum \<ge> 0);
             Some sum }
           else if whence = SEEK_END
           then do {
             cassert (\<not> ipipe (inodes (fsys s) ! p));
             Some (s32 (int (w32 (d_size p (fsys s) + u32_of offset)))) }
           else None);
     Some (off, upd_file f (\<lambda>x. x\<lparr>foffset := off\<rparr>) s) }"

definition sys_readdir :: "int \<Rightarrow> addr \<Rightarrow> nat \<Rightarrow> task_t \<Rightarrow> 'd io_t \<Rightarrow> (int \<times> 'd io_t) option" where
  "sys_readdir fd dir' count t s = sys_read fd dir' 16 t s"

section \<open>Copies of a descriptor\<close>

definition dupfd :: "int \<Rightarrow> int \<Rightarrow> task_t \<Rightarrow> 'd io_t \<Rightarrow> (int \<times> task_t \<times> 'd io_t) option" where
  "dupfd fd arg t s =
     (if fd \<ge> int TASK_FILE_NR then Some (EOF, t, s)
      else do {
        r \<leftarrow> fd_file t fd;
        (case r of
           None \<Rightarrow> Some (EOF, t, s)
         | Some f \<Rightarrow> do {
             cassert (arg \<ge> 0);
             (case find (\<lambda>a. files t ! a = None) [nat arg..<TASK_FILE_NR] of
                None \<Rightarrow> Some (EOF, t, s)
              | Some a \<Rightarrow> Some (int a, t\<lparr>files := (files t)[a := Some f]\<rparr>, upd_file f (\<lambda>x. x\<lparr>fcount := fcount x + 1\<rparr>) s)) }) })"

definition sys_dup :: "int \<Rightarrow> task_t \<Rightarrow> 'd io_t \<Rightarrow> (int \<times> task_t \<times> 'd io_t) option" where
  "sys_dup oldfd t s = dupfd oldfd 0 t s"

definition sys_dup2 :: "int \<Rightarrow> int \<Rightarrow> task_t \<Rightarrow> 'd io_t \<Rightarrow> (int \<times> task_t \<times> 'd io_t) option" where
  "sys_dup2 oldfd newfd t s = do {
     (t, s) \<leftarrow> sys_close newfd t s;
     dupfd oldfd newfd t s }"

text \<open>\<open>desc\<close> and \<open>page\<close> are the memory for the pipe; its ring is made by \<open>fifo_init\<close>.\<close>

definition sys_pipe :: "nat \<Rightarrow> nat \<Rightarrow> task_t \<Rightarrow> 'd io_t \<Rightarrow> ((int \<times> int \<times> int) \<times> task_t \<times> 'd io_t) option" where
  "sys_pipe desc page t s = do {
     (p, i) \<leftarrow> get_pipe_inode desc page (fsys s);
     let s = s\<lparr>fsys := i, rings := (rings s)(desc := fifo_init (mread (umem s) page PAGE_SIZE) PAGE_SIZE)\<rparr>;
     fd0 \<leftarrow> task_get_fd t;
     (f0, s) \<leftarrow> get_file s;
     let t = t\<lparr>files := (files t)[fd0 := Some f0]\<rparr>;
     fd1 \<leftarrow> task_get_fd t;
     (f1, s) \<leftarrow> get_file s;
     let t = t\<lparr>files := (files t)[fd1 := Some f1]\<rparr>;
     let s = upd_file f0 (\<lambda>x. x\<lparr>finode := Some p, flags := O_RDONLY\<rparr>) s;
     let s = upd_file f1 (\<lambda>x. x\<lparr>finode := Some p, flags := O_WRONLY\<rparr>) s;
     Some ((0, int fd0, int fd1), t, s) }"

section \<open>Status and control\<close>

record stat_t =
  st_dev :: int
  st_nr :: nat
  st_mode :: u16
  st_nlinks :: nat
  st_uid :: nat
  st_gid :: nat
  st_rdev :: int
  st_size :: nat
  st_atime :: nat
  st_mtime :: nat
  st_ctime :: nat

definition copy_stat :: "nat \<Rightarrow> fs_t \<Rightarrow> stat_t" where
  "copy_stat p s = \<lparr>st_dev = idev (inodes s ! p), st_nr = inr (inodes s ! p), st_mode = d_mode p s,
     st_nlinks = d_nlinks p s, st_uid = d_uid p s, st_gid = d_gid p s, st_rdev = int (d_zone p s 0),
     st_size = d_size p s, st_atime = iatime (inodes s ! p), st_mtime = d_mtime p s, st_ctime = ictime (inodes s ! p)\<rparr>"

definition sys_stat :: "bytes \<Rightarrow> task_t \<Rightarrow> 'd io_t \<Rightarrow> (int \<times> stat_t option \<times> 'd io_t) option" where
  "sys_stat filename t s = do {
     (r, i) \<leftarrow> namei t filename (fsys s);
     (case r of
        None \<Rightarrow> Some (EOF, None, s\<lparr>fsys := i\<rparr>)
      | Some p \<Rightarrow> do {
          i' \<leftarrow> iput (Some p) i;
          Some (0, Some (copy_stat p i), s\<lparr>fsys := i'\<rparr>) }) }"

definition sys_fstat :: "int \<Rightarrow> task_t \<Rightarrow> 'd io_t \<Rightarrow> (int \<times> stat_t option) option" where
  "sys_fstat fd t s =
     (if fd \<ge> int TASK_FILE_NR then Some (EOF, None)
      else do {
        r \<leftarrow> fd_file t fd;
        (case r of
           None \<Rightarrow> Some (EOF, None)
         | Some f \<Rightarrow> do {
             p \<leftarrow> finode (file_table s ! f);
             cassert (\<not> ipipe (inodes (fsys s) ! p));
             Some (0, Some (copy_stat p (fsys s))) }) })"

definition sys_ioctl :: "int \<Rightarrow> int \<Rightarrow> addr \<Rightarrow> task_t \<Rightarrow> 'd io_t \<Rightarrow> (int \<times> 'd io_t) option" where
  "sys_ioctl fd cmd args t s =
     (if fd \<ge> int TASK_FILE_NR then Some (- EBADF, s)
      else do {
        r \<leftarrow> fd_file t fd;
        (case r of
           None \<Rightarrow> Some (- EBADF, s)
         | Some f \<Rightarrow> do {
             p \<leftarrow> finode (file_table s ! f);
             cassert (\<not> ipipe (inodes (fsys s) ! p));
             let mode = d_mode p (fsys s);
             if \<not> ISCHR mode \<and> \<not> ISBLK mode then Some (- EINVAL, s)
             else do {
               let dev = d_zone p (fsys s) 0;
               if dev \<ge> DEVICE_NR then Some (- ENOTTY, s)
               else do {
                 (ret, m, h) \<leftarrow> device_ioctl (int dev) cmd args 0 (devs s) (umem s, hw s);
                 Some (ret, s\<lparr>umem := m, hw := h\<rparr>) } } }) })"

section \<open>The files of the devices\<close>

definition DEV_CONSOLE :: int where "DEV_CONSOLE = 1"
definition DEV_KEYBOARD :: int where "DEV_KEYBOARD = 2"
definition DEV_SERIAL :: int where "DEV_SERIAL = 3"
definition DEV_TTY :: int where "DEV_TTY = 4"
definition DEV_IDE_DISK :: int where "DEV_IDE_DISK = 5"
definition DEV_IDE_PART :: int where "DEV_IDE_PART = 6"
definition DEV_RAMDISK :: int where "DEV_RAMDISK = 7"

definition do_fs :: "(fs_t \<Rightarrow> (int \<times> fs_t) option) \<Rightarrow> 'd io_t \<Rightarrow> 'd io_t option" where
  "do_fs f s = do { (_, i) \<leftarrow> f (fsys s); Some (s\<lparr>fsys := i\<rparr>) }"

definition make_node :: "task_t \<Rightarrow> string \<Rightarrow> u16 \<Rightarrow> int \<Rightarrow> nat \<Rightarrow> 'd io_t \<Rightarrow> 'd io_t option" where
  "make_node t path mode sub k s = do {
     d \<leftarrow> device_find sub k (devs s);
     do_fs (sys_mknod t (str8 path) mode (int (dev (devs s ! d)))) s }"

text \<open>A node for every device of a subtype, from index \<open>k\<close> on; there are no more than \<open>DEVICE_NR\<close>.\<close>

fun make_nodes :: "task_t \<Rightarrow> u16 \<Rightarrow> int \<Rightarrow> nat list \<Rightarrow> 'd io_t \<Rightarrow> 'd io_t option" where
  "make_nodes t mode sub [] s = Some s"
| "make_nodes t mode sub (k # ks) s =
     (case device_find sub k (devs s) of
        None \<Rightarrow> Some s
      | Some d \<Rightarrow> do {
          s \<leftarrow> do_fs (sys_mknod t (str8 (''/dev/'' @ dname (devs s ! d))) mode (int (dev (devs s ! d)))) s;
          make_nodes t mode sub ks s })"

text \<open>The standard files; \<open>count\<close> is not set.\<close>

definition std_file :: "task_t \<Rightarrow> string \<Rightarrow> nat \<Rightarrow> 32 word \<Rightarrow> 'd io_t \<Rightarrow> 'd io_t option" where
  "std_file t path f fl s = do {
     (r, i) \<leftarrow> namei t (str8 path) (fsys s);
     p \<leftarrow> r;
     Some (upd_file f (\<lambda>x. x\<lparr>finode := Some p, fmode := d_mode p i, flags := fl, foffset := 0\<rparr>) (s\<lparr>fsys := i\<rparr>)) }"

text \<open>\<open>sectors\<close> is the size of the RAM disk.\<close>

definition dev_init :: "task_t \<Rightarrow> int \<Rightarrow> 'd io_t \<Rightarrow> 'd io_t option" where
  "dev_init t sectors s = do {
     s \<leftarrow> do_fs (sys_mkdir t (str8 ''/dev'') 0x1ED) s;
     d \<leftarrow> device_find DEV_RAMDISK 0 (devs s);
     let rd = int (dev (devs s ! d));
     s \<leftarrow> do_fs (devmkfs t rd 0 sectors) s;
     (sb, i) \<leftarrow> read_super rd (fsys s);
     (q, i) \<leftarrow> iget rd 1 i;
     let i = upd_super sb (\<lambda>b. b\<lparr>sroot := Some q\<rparr>) i;
     (r, i) \<leftarrow> namei t (str8 ''/dev'') i;
     p \<leftarrow> r;
     let i = upd_inode p (\<lambda>x. x\<lparr>imnt := rd\<rparr>) (upd_super sb (\<lambda>b. b\<lparr>smount := Some p\<rparr>) i);
     let s = s\<lparr>fsys := i\<rparr>;
     s \<leftarrow> make_node t ''/dev/console'' (IFCHR OR 0x80) DEV_CONSOLE 0 s;
     s \<leftarrow> make_node t ''/dev/keyboard'' (IFCHR OR 0x100) DEV_KEYBOARD 0 s;
     s \<leftarrow> make_node t ''/dev/tty'' (IFCHR OR 0x180) DEV_TTY 0 s;
     s \<leftarrow> make_nodes t (IFBLK OR 0x180) DEV_IDE_DISK [0..<DEVICE_NR] s;
     s \<leftarrow> make_nodes t (IFBLK OR 0x180) DEV_IDE_PART [0..<DEVICE_NR] s;
     s \<leftarrow> make_nodes t (IFBLK OR 0x180) DEV_RAMDISK [1..<DEVICE_NR] s;
     s \<leftarrow> make_nodes t (IFCHR OR 0x180) DEV_SERIAL [0..<DEVICE_NR] s;
     s \<leftarrow> do_fs (sys_link t (str8 ''/dev/tty'') (str8 ''/dev/stdout'')) s;
     s \<leftarrow> do_fs (sys_link t (str8 ''/dev/tty'') (str8 ''/dev/stderr'')) s;
     s \<leftarrow> do_fs (sys_link t (str8 ''/dev/tty'') (str8 ''/dev/stdin'')) s;
     s \<leftarrow> std_file t ''/dev/stdin'' 0 O_RDONLY s;
     s \<leftarrow> std_file t ''/dev/stdout'' 1 O_WRONLY s;
     std_file t ''/dev/stderr'' 2 O_WRONLY s }"

end
