(* ===== verification/Process.thy ===== *)
theory Process
  imports Signal FileC Arena
begin

text \<open>
  The life of a process: the rest of \<open>src/src/kernel/task.c\<close>, with creation, \<open>task_fork\<close>, \<open>task_exit\<close> and
  \<open>task_waitpid\<close>. They join what the other theories have: the task table (\<open>Task\<close>), the kernel's pages
  (\<open>Memory\<close>) and heap (\<open>Arena\<close>), the i-nodes and open files (\<open>Inode\<close>, \<open>FileC\<close>) and signals (\<open>Signal\<close>).

  A task owns the page of its record and its kernel stack, its page directory, the page of its working
  directory's path, and the map of its \<open>mmap\<close> area: a \<open>bitmap_t\<close> on the heap and the page of its bits
  (\<open>vm_at\<close> gives the two addresses; the map itself is the field \<open>vmap\<close> of the task). The frames on the kernel
  stack are represented by the registers of the user (\<open>iframe\<close>); a new task goes on at \<open>interrupt_exit\<close> with
  these registers, or in its kernel thread.
\<close>

section \<open>State\<close>

record 'd proc_t =
  kern :: kstate
  hdescs :: "arena_descriptor_t list"
  harenas :: "nat \<Rightarrow> arena_t option"
  io :: "'d io_t"
  vm_at :: "tptr \<Rightarrow> nat \<times> nat"
  tty_pgid :: "addr \<Rightarrow> int"
  ustack :: "nat \<Rightarrow> u32"

definition NORMAL_USER :: nat where "NORMAL_USER = 1000"
definition BITMAP_T_SIZE :: nat where "BITMAP_T_SIZE = 12"
definition USER_MMAP_SIZE :: nat where "USER_MMAP_SIZE = 0x8000000"

text \<open>The parts of the state, for the operations of the other theories.\<close>

definition heap_of :: "'d proc_t \<Rightarrow> heap_t" where
  "heap_of s = \<lparr>hmem = kmem (kern s), descs = hdescs s, arenas = harenas s\<rparr>"

definition put_heap :: "heap_t \<Rightarrow> 'd proc_t \<Rightarrow> 'd proc_t" where
  "put_heap h s = s\<lparr>kern := (kern s)\<lparr>kmem := hmem h\<rparr>, hdescs := descs h, harenas := arenas h\<rparr>"

definition do_kern :: "(kstate \<Rightarrow> kstate option) \<Rightarrow> 'd proc_t \<Rightarrow> 'd proc_t option" where
  "do_kern f s = do { k \<leftarrow> f (kern s); Some (s\<lparr>kern := k\<rparr>) }"

definition do_mem :: "(mstate \<Rightarrow> mstate option) \<Rightarrow> 'd proc_t \<Rightarrow> 'd proc_t option" where
  "do_mem f s = do { m \<leftarrow> f (kmem (kern s)); Some (s\<lparr>kern := (kern s)\<lparr>kmem := m\<rparr>\<rparr>) }"

definition do_inode :: "(fs_t \<Rightarrow> fs_t option) \<Rightarrow> 'd proc_t \<Rightarrow> 'd proc_t option" where
  "do_inode f s = do { i \<leftarrow> f (fsys (io s)); Some (s\<lparr>io := (io s)\<lparr>fsys := i\<rparr>\<rparr>) }"

definition page_alloc :: "'d proc_t \<Rightarrow> (nat \<times> 'd proc_t) option" where
  "page_alloc s = do { (p, m) \<leftarrow> alloc_kpage 1 (kmem (kern s)); Some (p, s\<lparr>kern := (kern s)\<lparr>kmem := m\<rparr>\<rparr>) }"

definition bitmap_alloc :: "'d proc_t \<Rightarrow> (nat \<times> 'd proc_t) option" where
  "bitmap_alloc s = do { (b, h) \<leftarrow> kmalloc BITMAP_T_SIZE (heap_of s); Some (b, put_heap h s) }"

definition bitmap_free :: "nat \<Rightarrow> 'd proc_t \<Rightarrow> 'd proc_t option" where
  "bitmap_free b s = do { h \<leftarrow> kfree b (heap_of s); Some (put_heap h s) }"

section \<open>Creation\<close>

text \<open>A page of zeros, as a task.\<close>

definition zero_task :: task_t where
  "zero_task = \<lparr>uid = 0, pde = 0, vmap = bitmap_make [] 0 0, end_addr = 0, brk = 0, node = None, state = TASK_INIT,
     priority = 0, ticks = 0, tjiffies = 0, name = [], gid = 0, pid = 0, ppid = 0, pgid = 0, sid = 0, tty = 0,
     text_addr = 0, data_addr = 0, status = 0, waitpid = 0, pwd = 0, ipwd = 0, iroot = 0, iexec = None, umask = 0,
     files = replicate TASK_FILE_NR None, signal = 0, blocked = 0, alarm = None,
     actions = replicate (nat MAXSIG) \<lparr>handler = SIG_DFL, mask = 0, sflags = 0, restorer = 0\<rparr>, magic = 0,
     iframe = \<lparr>r_eax = 0, r_ecx = 0, r_edx = 0, r_eip = 0, r_eflags = 0, r_esp = 0\<rparr>\<rparr>"

definition get_free_task :: "'d proc_t \<Rightarrow> (tptr \<times> 'd proc_t) option" where
  "get_free_task s = do {
     i \<leftarrow> find (\<lambda>i. task_table (kern s) ! i = NULL) [0..<TASK_NR];
     (p, s) \<leftarrow> page_alloc s;
     let k = kern s;
     Some (p, s\<lparr>kern := k\<lparr>task_at := (task_at k)(p := Some (zero_task\<lparr>pid := int i\<rparr>)), task_table := (task_table k)[i := p]\<rparr>\<rparr>) }"

definition hold_file :: "nat \<Rightarrow> 'd proc_t \<Rightarrow> 'd proc_t" where
  "hold_file f s = s\<lparr>io := upd_file f (\<lambda>x. x\<lparr>fcount := fcount x + 1\<rparr>) (io s)\<rparr>"

definition hold_inode :: "nat \<Rightarrow> nat \<Rightarrow> 'd proc_t \<Rightarrow> 'd proc_t" where
  "hold_inode p n s = s\<lparr>io := (io s)\<lparr>fsys := upd_inode p (\<lambda>i. i\<lparr>icount := icount i + n\<rparr>) (fsys (io s))\<rparr>\<rparr>"

definition task_create :: "string \<Rightarrow> nat \<Rightarrow> nat \<Rightarrow> 'd proc_t \<Rightarrow> (tptr \<times> 'd proc_t) option" where
  "task_create nm prio u s = do {
     (p, s) \<leftarrow> get_free_task s;
     let root = get_root_inode;
     let s = hold_inode root 2 s;
     (w, s) \<leftarrow> page_alloc s;
     let s = s\<lparr>io := (io s)\<lparr>umem := mwrite (umem (io s)) w [47, EOS]\<rparr>\<rparr>;
     let s = hold_file 2 (hold_file 1 (hold_file 0 s));
     s \<leftarrow> do_kern (modify p (\<lambda>t. t\<lparr>name := nm, priority := prio, ticks := s32 (int prio), tjiffies := 0, state := TASK_READY,
       uid := u, gid := 0, pgid := 0, sid := 0, vmap := kernel_map (kmem (kern s)), pde := KERNEL_PAGE_DIR,
       brk := USER_EXEC_ADDR, text_addr := USER_EXEC_ADDR, data_addr := USER_EXEC_ADDR, end_addr := USER_EXEC_ADDR,
       iexec := None, iroot := root, ipwd := root, pwd := w, umask := 0x12,
       files := (files t)[0 := Some 0, 1 := Some 1, 2 := Some 2], signal := 0, blocked := 0,
       actions := replicate (nat MAXSIG) \<lparr>handler = SIG_DFL, mask = 0, sflags = 0, restorer = 0\<rparr>, magic := NEONIX_MAGIC\<rparr>)) s;
     Some (p, s) }"

text \<open>\<open>task_setup\<close> and \<open>task_init\<close>: the table is cleared, and three kernel threads are made. The boot
  stack is the page at \<open>boot\<close>, and what runs on it is not in the table.\<close>

definition task_init :: "'d proc_t \<Rightarrow> 'd proc_t option" where
  "task_init s = do {
     let k = kern s;
     let s = s\<lparr>kern := k\<lparr>wlists := (wlists k)(block_list := [], sleep_list := [])\<rparr>\<rparr>;
     s \<leftarrow> do_kern (modify (cur k) (\<lambda>t. t\<lparr>magic := NEONIX_MAGIC, ticks := 1\<rparr>)) s;
     let s = s\<lparr>kern := (kern s)\<lparr>task_table := replicate TASK_NR NULL\<rparr>\<rparr>;
     (idle, s) \<leftarrow> task_create ''idle'' 1 KERNEL_USER s;
     let s = s\<lparr>kern := (kern s)\<lparr>idle_task := idle\<rparr>\<rparr>;
     (_, s) \<leftarrow> task_create ''init'' 5 NORMAL_USER s;
     (_, s) \<leftarrow> task_create ''test'' 5 NORMAL_USER s;
     Some s }"

text \<open>\<open>task_to_user_mode\<close> up to \<open>sys_execve\<close>, which the caller appends: the map of the \<open>mmap\<close> area, a page
  directory, and the frame of a first return to user mode at \<open>entry\<close>.\<close>

definition task_to_user_mode :: "nat \<Rightarrow> 'd proc_t \<Rightarrow> 'd proc_t option" where
  "task_to_user_mode entry s = do {
     let p = cur (kern s);
     (b, s) \<leftarrow> bitmap_alloc s;
     (buf, s) \<leftarrow> page_alloc s;
     vm \<leftarrow> bitmap_init (replicate PAGE_SIZE 0) (USER_MMAP_SIZE div PAGE_SIZE div 8) (USER_MMAP_ADDR div PAGE_SIZE);
     let s = s\<lparr>vm_at := (vm_at s)(p := (b, buf))\<rparr>;
     t \<leftarrow> task_at (kern s) p;
     (pd, m) \<leftarrow> copy_pde t (kmem (kern s));
     let s = s\<lparr>kern := (kern s)\<lparr>kmem := m\<rparr>\<rparr>;
     s \<leftarrow> do_kern (set_cr3 pd) s;
     do_kern (modify p (\<lambda>t. t\<lparr>vmap := vm, pde := pd,
       iframe := \<lparr>r_eax = 8, r_ecx = 7, r_edx = 6, r_eip = of_nat entry, r_eflags = 0x202, r_esp = of_nat USER_STACK_TOP\<rparr>\<rparr>)) s }"

section \<open>Fork\<close>

text \<open>The child: the parent's page, with what \<open>task_fork\<close> changes in it.\<close>

definition child_of :: "task_t \<Rightarrow> int \<Rightarrow> nat \<Rightarrow> nat \<Rightarrow> task_t" where
  "child_of t c pd w = t\<lparr>pid := c, ppid := pid t, ticks := s32 (int (priority t)), state := TASK_READY, pde := pd, pwd := w,
     iframe := (iframe t)\<lparr>r_eax := 0\<rparr>\<rparr>"

definition hold_files :: "nat option list \<Rightarrow> 'd proc_t \<Rightarrow> 'd proc_t" where
  "hold_files fs s = fold (\<lambda>f s. case f of None \<Rightarrow> s | Some i \<Rightarrow> hold_file i s) fs s"

definition task_fork :: "'d proc_t \<Rightarrow> (int \<times> 'd proc_t) option" where
  "task_fork s = do {
     t \<leftarrow> task_at (kern s) (cur (kern s));
     cassert (node t = None \<and> state t = TASK_RUNNING);
     (c, s) \<leftarrow> get_free_task s;
     z \<leftarrow> task_at (kern s) c;
     (b, s) \<leftarrow> bitmap_alloc s;
     (buf, s) \<leftarrow> page_alloc s;
     let s = s\<lparr>vm_at := (vm_at s)(c := (b, buf))\<rparr>;
     (pd, m) \<leftarrow> copy_pde t (kmem (kern s));
     let s = s\<lparr>kern := (kern s)\<lparr>kmem := m\<rparr>\<rparr>;
     (w, s) \<leftarrow> page_alloc s;
     (_, um) \<leftarrow> strncpy (umem (io s)) w (pwd t) PAGE_SIZE;
     let s = s\<lparr>io := (io s)\<lparr>umem := um\<rparr>\<rparr>;
     let s = hold_inode (iroot t) 1 (hold_inode (ipwd t) 1 s);
     let s = (case iexec t of None \<Rightarrow> s | Some e \<Rightarrow> hold_inode e 1 s);
     let s = hold_files (files t) s;
     s \<leftarrow> do_kern (modify c (\<lambda>_. child_of t (pid z) pd w)) s;
     Some (pid z, s) }"

section \<open>Exit\<close>

text \<open>A loop over the tasks of the table from slot \<open>a\<close> on.\<close>

definition each_task :: "nat \<Rightarrow> (tptr \<Rightarrow> task_t \<Rightarrow> task_t) \<Rightarrow> kstate \<Rightarrow> kstate option" where
  "each_task a f k = for_each (\<lambda>i k. let p = task_table k ! i in if p = NULL then Some k else modify p (f p) k) [a..<TASK_NR] k"

definition task_kill_session :: "tptr \<Rightarrow> kstate \<Rightarrow> kstate option" where
  "task_kill_session p k = do {
     t \<leftarrow> task_at k p;
     if \<not> task_leader t then Some k
     else each_task 0 (\<lambda>q c. if q = p \<or> sid t \<noteq> sid c then c else c\<lparr>signal := signal c OR SIGMASK SIGHUP\<rparr>) k }"

text \<open>\<open>task_tell_father\<close>: the first task with the parent's pid; without one the code panics.\<close>

definition task_tell_father :: "tptr \<Rightarrow> kstate \<Rightarrow> kstate option" where
  "task_tell_father p k = do {
     t \<leftarrow> task_at k p;
     if ppid t = 0 then Some k
     else do {
       q \<leftarrow> get_task (ppid t) k;
       cassert (q \<noteq> NULL);
       modify q (\<lambda>u. u\<lparr>signal := signal u OR SIGMASK SIGCHLD\<rparr>) k } }"

definition task_free_tty :: "tptr \<Rightarrow> 'd proc_t \<Rightarrow> 'd proc_t option" where
  "task_free_tty p s = do {
     t \<leftarrow> task_at (kern s) p;
     if task_leader t \<and> tty t > 0
     then do {
       d \<leftarrow> device_get (tty t) (devs (io s));
       Some (s\<lparr>tty_pgid := (tty_pgid s)(ptr (devs (io s) ! d) := 0)\<rparr>) }
     else Some s }"

text \<open>\<open>close(i)\<close> is a system call made by the kernel: it comes back through \<open>interrupt_exit\<close>, which
  delivers a signal to the running task. If the signal ends the task, \<open>task_exit\<close> is entered again, and its
  assertion that the task is running fails, as the task has died.\<close>

definition gate_return :: "tptr \<Rightarrow> 'd proc_t \<Rightarrow> 'd proc_t option" where
  "gate_return p s = do {
     t \<leftarrow> task_at (kern s) p;
     (out, u, t) \<leftarrow> task_signal (ustack s) t;
     (case out of
        Exit st \<Rightarrow> None
      | _ \<Rightarrow> do_kern (modify p (\<lambda>_. t)) (s\<lparr>ustack := u\<rparr>)) }"

definition close_file :: "tptr \<Rightarrow> nat \<Rightarrow> 'd proc_t \<Rightarrow> 'd proc_t option" where
  "close_file p fd s = do {
     t \<leftarrow> task_at (kern s) p;
     f \<leftarrow> aget (files t) fd;
     if f = None then Some s
     else do {
       (t, i) \<leftarrow> sys_close (int fd) t (io s);
       s \<leftarrow> do_kern (modify p (\<lambda>_. t)) (s\<lparr>io := i\<rparr>);
       gate_return p s } }"

text \<open>The end of \<open>task_exit\<close>: the children get a new parent, and a parent that waits is woken. The parent is
  found by its pid as the index into the table.\<close>

definition task_leave :: "tptr \<Rightarrow> kstate \<Rightarrow> kstate option" where
  "task_leave p k = do {
     t \<leftarrow> task_at k p;
     k \<leftarrow> each_task 2 (\<lambda>_ c. if ppid c = pid t then c\<lparr>ppid := ppid t\<rparr> else c) k;
     t \<leftarrow> task_at k p;
     cassert (0 \<le> ppid t);
     q \<leftarrow> aget (task_table k) (nat (ppid t));
     u \<leftarrow> task_at k q;
     if state u = TASK_WAITING \<and> (waitpid u = - 1 \<or> waitpid u = pid t) then task_unblock q 0 k else Some k }"

text \<open>\<open>task_exit\<close> in three parts: what the other tasks hear of it, what is given back, and the rest.\<close>

definition exit_begin :: "int \<Rightarrow> 'd proc_t \<Rightarrow> 'd proc_t option" where
  "exit_begin st s = do {
     let p = cur (kern s);
     t \<leftarrow> task_at (kern s) p;
     cassert (node t = None \<and> state t = TASK_RUNNING);
     s \<leftarrow> do_kern (modify p (\<lambda>t. t\<lparr>state := TASK_DIED, status := st\<rparr>)) s;
     s \<leftarrow> do_kern (task_kill_session p) s;
     s \<leftarrow> do_kern (task_tell_father p) s;
     s \<leftarrow> task_free_tty p s;
     do_kern (\<lambda>k. Some (timer_remove p k)) s }"

definition exit_release :: "'d proc_t \<Rightarrow> 'd proc_t option" where
  "exit_release s = do {
     let p = cur (kern s);
     t \<leftarrow> task_at (kern s) p;
     s \<leftarrow> do_mem (free_pde t) s;
     s \<leftarrow> do_mem (free_kpage (snd (vm_at s p)) 1) s;
     s \<leftarrow> bitmap_free (fst (vm_at s p)) s;
     s \<leftarrow> do_mem (free_kpage (pwd t) 1) s;
     s \<leftarrow> do_inode (iput (Some (ipwd t))) s;
     s \<leftarrow> do_inode (iput (Some (iroot t))) s;
     s \<leftarrow> do_inode (iput (iexec t)) s;
     for_each (close_file p) [0..<TASK_FILE_NR] s }"

definition task_exit :: "int \<Rightarrow> 'd proc_t \<Rightarrow> 'd proc_t option" where
  "task_exit st s = do {
     s \<leftarrow> exit_begin st s;
     s \<leftarrow> exit_release s;
     s \<leftarrow> do_kern (task_leave (cur (kern s))) s;
     do_kern schedule s }"

section \<open>Wait\<close>

datatype wait_t = Reaped int int | Waits | No_child

text \<open>The search for a dead child: its slot, or whether there is any child at all.\<close>

fun child_loop :: "kstate \<Rightarrow> int \<Rightarrow> int \<Rightarrow> nat list \<Rightarrow> bool \<Rightarrow> (nat option \<times> bool) option" where
  "child_loop k self want [] has = Some (None, has)"
| "child_loop k self want (i # is) has =
     (if task_table k ! i = NULL then child_loop k self want is has
      else do {
        t \<leftarrow> task_at k (task_table k ! i);
        if ppid t \<noteq> self then child_loop k self want is has
        else if want \<noteq> pid t \<and> want \<noteq> - 1 then child_loop k self want is has
        else if state t = TASK_DIED then Some (Some i, has)
        else child_loop k self want is True })"

text \<open>One round of the loop of \<open>task_waitpid\<close>, up to where the task blocks; when it runs again the next round
  begins.\<close>

definition task_waitpid :: "int \<Rightarrow> kstate \<Rightarrow> (wait_t \<times> kstate) option" where
  "task_waitpid want k = do {
     let p = cur k;
     t \<leftarrow> task_at k p;
     (r, has) \<leftarrow> child_loop k (pid t) want [2..<TASK_NR] False;
     (case r of
        Some i \<Rightarrow> do {
          let c = task_table k ! i;
          u \<leftarrow> task_at k c;
          m \<leftarrow> free_kpage c 1 (kmem k);
          Some (Reaped (pid u) (status u), k\<lparr>task_table := (task_table k)[i := NULL], task_at := (task_at k)(c := None), kmem := m\<rparr>) }
      | None \<Rightarrow>
          if has then do {
            k \<leftarrow> modify p (\<lambda>t. t\<lparr>waitpid := want\<rparr>) k;
            k \<leftarrow> task_block p block_list TASK_WAITING (- 1) k;
            Some (Waits, k) }
          else Some (No_child, k)) }"

end
