(* ===== verification/FileIO.thy ===== *)
theory FileIO
  imports Inode BlockStore
begin

text \<open>
  Reading and writing files (\<open>inode_read\<close>, \<open>inode_write\<close>, \<open>bmap\<close>, \<open>balloc\<close>) against what a file is: a
  sequence of bytes. The file system stands on the block store (interpretation \<open>fs\<close>): what a function
  does is the change it makes to the blocks of the disk, and \<open>geom\<close> names the blocks that matter
  for one open file. The files of this theory lie within their seven direct zones, and their device has one
  block of the zone map in use (8192 zones).
\<close>

section \<open>Bytes\<close>

lemma length_bput: "i + List.length new \<le> List.length bs \<Longrightarrow> List.length (bput i new bs) = List.length bs"
  by (simp add: bput_def)

lemma bput_nth:
  assumes "i + List.length new \<le> List.length bs" and "j < List.length bs"
  shows "bput i new bs ! j = (if i \<le> j \<and> j < i + List.length new then new ! (j - i) else bs ! j)"
  using assms by (auto simp: bput_def nth_append min_def)

lemma get16_drop: "o' + i + 1 < List.length bs \<Longrightarrow> get16 (drop o' bs) i = get16 bs (o' + i)"
  by (simp add: get16_def add.assoc)

lemma get16_bput:
  assumes "i + 1 < List.length bs" and "v < 65536"
  shows "get16 (bput i (bytes16 v) bs) i = v"
proof -
  have "v div 256 < 256" using assms(2) by simp
  then have "unat (of_nat (v div 256) :: u8) = v div 256" "unat (of_nat v :: u8) = v mod 256"
    by (simp_all add: unat_of_nat)
  moreover have "v mod 256 + 256 * (v div 256) = v" by simp
  ultimately show ?thesis using assms(1) by (simp add: get16_def bput_nth bytes16_def)
qed

lemma get16_bput_other:
  assumes "i + List.length new \<le> List.length bs" and "j + 1 < List.length bs" and "j + 2 \<le> i \<or> i + List.length new \<le> j"
  shows "get16 (bput i new bs) j = get16 bs j"
  using assms by (auto simp: get16_def bput_nth)

lemma get32_bput:
  assumes "i + 3 < List.length bs" and "v < 4294967296"
  shows "get32 (bput i (bytes32 v) bs) i = v"
proof -
  define a b c where "a = v div 256" and "b = a div 256" and "c = b div 256"
  have n: "bput i (bytes32 v) bs ! i = of_nat v" "bput i (bytes32 v) bs ! (i + 1) = of_nat a"
    "bput i (bytes32 v) bs ! (i + 2) = of_nat b" "bput i (bytes32 v) bs ! (i + 3) = of_nat c"
    using assms(1) by (simp_all add: bput_nth bytes32_def bytes16_def a_def b_def c_def div_mult2_eq [symmetric])
  define r0 r1 r2 where "r0 = v mod 256" and "r1 = a mod 256" and "r2 = b mod 256"
  have "c < 256" using assms(2) by (simp add: a_def b_def c_def div_mult2_eq [symmetric])
  then have u: "unat (of_nat v :: u8) = r0" "unat (of_nat a :: u8) = r1" "unat (of_nat b :: u8) = r2"
    "unat (of_nat c :: u8) = c"
    by (simp_all add: unat_of_nat r0_def r1_def r2_def)
  have "v = 256 * a + r0" "a = 256 * b + r1" "b = 256 * c + r2"
    by (simp_all add: a_def b_def c_def r0_def r1_def r2_def)
  moreover have "get32 (bput i (bytes32 v) bs) i = r0 + 256 * r1 + 65536 * (r2 + 256 * c)"
    using n u by (simp add: get32_def get16_def numeral_3_eq_3)
  ultimately show ?thesis by (simp only:) simp
qed

section \<open>The block store under the file system\<close>

definition fs_rest :: "fs_t \<Rightarrow> inode_t list \<times> super_block_t list \<times> nat \<times> nat \<times> (nat \<times> nat) list" where
  "fs_rest s = (inodes s, supers s, root s, clock s, released s)"

definition fs_store :: "bool \<Rightarrow> nat \<Rightarrow> (bytes \<Rightarrow> bytes) \<Rightarrow> fs_t \<Rightarrow> fs_t" where
  "fs_store k p f s = s\<lparr>cache := bstore k p f (cache s)\<rparr>"

definition fs_hold :: "nat \<Rightarrow> fs_t \<Rightarrow> fs_t" where
  "fs_hold p s = s\<lparr>cache := bhold p (cache s)\<rparr>"

lemma set_data_store: "set_data p f s = fs_store False p f s"
  by (simp add: set_data_def fs_store_def bstore_def)

lemma set_dirty_store: "set_dirty p s = fs_store True p (\<lambda>x. x) s"
  by (simp add: set_dirty_def fs_store_def bstore_def)

lemma set_both_store: "set_dirty p (fs_store False p f s) = fs_store True p f s"
  by (cases "p < List.length (bufs (cache s))")
    (simp_all add: set_dirty_def fs_store_def bstore_def buf_set_def list_update_beyond)

interpretation fs: block_store fs_bread "\<lambda>p. fs_brelse (Some p)" fs_hold fs_store fs_bwrite "\<lambda>s. blk (cache s)"
  "\<lambda>s. refs (cache s)" "\<lambda>s. pinned (cache s)" "\<lambda>s p. dirty (bufs (cache s) ! p)" "\<lambda>s. lost (cache s)" fs_rest
  "\<lambda>s. binv (cache s)" ready
proof (unfold_locales, goal_cases)
  case (1 s b d)
  from bs.fetch_law [OF this, of d] show ?case by (fastforce simp: fs_bread_def fs_rest_def)
next
  case (2 s p d b)
  from bs.release_law [OF this] show ?case by (fastforce simp: fs_brelse_def fs_rest_def)
next
  case (3 s p d b)
  from bs.hold_law [OF this] show ?case by (simp add: fs_hold_def fs_rest_def)
next
  case (4 s p d b k f)
  from bs.store_law [OF this, of k f] show ?case by (simp add: fs_store_def fs_rest_def)
next
  case (5 s p d b)
  from bs.flush_law [OF this] show ?case by (simp add: fs_bwrite_def fs_rest_def)
next
  case (6 s p d b)
  then show ?case by (rule bs.pin_refs)
next
  case (7 s d b)
  then show ?case by (rule bs.refs_pos)
next
  case (8 s d b)
  then show ?case by (rule bs.lost_refs)
qed

lemma data_pinned: "binv (cache s) \<Longrightarrow> pinned (cache s) p d b \<Longrightarrow> b < 2147483648 \<Longrightarrow> data p s = blk (cache s) d b"
  by (auto simp: data_def blk_def pinned_def view_at)

section \<open>One open file\<close>

text \<open>The blocks that matter: the device, the block with the i-node and its offset there, the block with the
  zone map, the first data zone and the number of zones.\<close>

record geom =
  gdev :: int
  gib :: nat
  goff :: nat
  gzb :: nat
  gfdz :: nat
  gzones :: nat

type_synonym disk = "int \<Rightarrow> nat \<Rightarrow> bytes"

definition gdesc :: "geom \<Rightarrow> disk \<Rightarrow> bytes" where
  "gdesc g B = drop (goff g) (B (gdev g) (gib g))"

definition zn :: "geom \<Rightarrow> disk \<Rightarrow> nat \<Rightarrow> nat" where
  "zn g B k = get16 (gdesc g B) (14 + 2 * k)"

definition fsize :: "geom \<Rightarrow> disk \<Rightarrow> nat" where
  "fsize g B = get32 (gdesc g B) 4"

definition gmode :: "geom \<Rightarrow> disk \<Rightarrow> u16" where
  "gmode g B = of_nat (get16 (gdesc g B) 0)"

definition zmap :: "geom \<Rightarrow> disk \<Rightarrow> bitmap" where
  "zmap g B = bitmap_make (B (gdev g) (gzb g)) BLOCK_SIZE (gfdz g - 1)"

definition zfree :: "geom \<Rightarrow> disk \<Rightarrow> nat set" where
  "zfree g B = bm_range (zmap g B) - bm_taken (zmap g B)"

text \<open>Byte \<open>o'\<close> of the file.\<close>

definition fbyte :: "geom \<Rightarrow> disk \<Rightarrow> nat \<Rightarrow> u8" where
  "fbyte g B o' = B (gdev g) (zn g B (o' div BLOCK_SIZE)) ! (o' mod BLOCK_SIZE)"

definition gok :: "geom \<Rightarrow> bool" where
  "gok g \<longleftrightarrow> goff g \<le> 992 \<and> 1 < gib g \<and> 1 < gzb g \<and> gib g \<noteq> gzb g \<and> gib g < gfdz g \<and> gzb g < gfdz g \<and>
     gfdz g \<le> gzones g \<and> gzones g < 65536"

definition cont :: "geom \<Rightarrow> disk \<Rightarrow> bool" where
  "cont g B \<longleftrightarrow> (\<forall>d b. b < 2147483648 \<longrightarrow> List.length (B d b) = BLOCK_SIZE) \<and>
     (\<forall>k<7. zn g B k \<noteq> 0 \<longrightarrow> gfdz g \<le> zn g B k \<and> zn g B k < gzones g \<and> zn g B k \<notin> zfree g B) \<and>
     (\<forall>j<7. \<forall>k<7. zn g B j = zn g B k \<longrightarrow> zn g B j \<noteq> 0 \<longrightarrow> j = k) \<and>
     (\<forall>z\<in>zfree g B. gfdz g \<le> z \<and> z < gzones g)"

definition linked :: "geom \<Rightarrow> nat \<Rightarrow> nat \<Rightarrow> fs_t \<Rightarrow> bool" where
  "linked g sb p s \<longleftrightarrow> get_super (gdev g) s = Some sb \<and> p < List.length (inodes s) \<and> idev (inodes s ! p) = gdev g \<and>
     \<not> ipipe (inodes s ! p) \<and>
     idesc (inodes s ! p) = goff g \<and> pinned (cache s) (ibuf (inodes s ! p)) (gdev g) (gib g) \<and>
     pinned (cache s) (sbuf (supers s ! sb)) (gdev g) 1 \<and>
     get16 (blk (cache s) (gdev g) 1) 2 = gzones g \<and> get16 (blk (cache s) (gdev g) 1) 8 = gfdz g \<and>
     (\<exists>q. zmaps (supers s ! sb) ! 0 = Some q \<and> pinned (cache s) q (gdev g) (gzb g))"

definition fs_ok :: "geom \<Rightarrow> nat \<Rightarrow> nat \<Rightarrow> fs_t \<Rightarrow> bool" where
  "fs_ok g sb p s \<longleftrightarrow> binv (cache s) \<and> card (referenced (refs (cache s))) < 3850 \<and>
     lost (cache s) \<subseteq> {(gdev g, gib g)} \<and> gok g \<and> linked g sb p s \<and> cont g (blk (cache s))"

text \<open>What a function does: the blocks become \<open>B'\<close>, and all else is as before.\<close>

definition moved :: "geom \<Rightarrow> fs_t \<Rightarrow> fs_t \<Rightarrow> disk \<Rightarrow> bool" where
  "moved g s s' B' \<longleftrightarrow> binv (cache s') \<and> blk (cache s') = B' \<and> refs (cache s') = refs (cache s) \<and>
     lost (cache s') \<subseteq> {(gdev g, gib g)} \<and> (\<forall>q d b. pinned (cache s) q d b \<longrightarrow> pinned (cache s') q d b) \<and>
     fs_rest s' = fs_rest s"

lemma moved_trans: "moved g s s1 B1 \<Longrightarrow> moved g s1 s2 B2 \<Longrightarrow> moved g s s2 B2"
  by (simp add: moved_def)

lemma linked_moved:
  assumes "linked g sb p s" and "fs_rest s' = fs_rest s" and "\<forall>q d b. pinned (cache s) q d b \<longrightarrow> pinned (cache s') q d b"
    and "blk (cache s') (gdev g) 1 = blk (cache s) (gdev g) 1"
  shows "linked g sb p s'"
proof -
  have "inodes s' = inodes s" "supers s' = supers s" using assms(2) by (simp_all add: fs_rest_def)
  moreover from this have "get_super d s' = get_super d s" for d by (simp add: get_super_def)
  ultimately show ?thesis using assms(1,3,4) unfolding linked_def by auto
qed

lemma fs_ok_moved:
  assumes "fs_ok g sb p s" and "moved g s s' B'" and "B' (gdev g) 1 = blk (cache s) (gdev g) 1" and "cont g B'"
  shows "fs_ok g sb p s'"
  using assms linked_moved [of g sb p s s'] unfolding fs_ok_def moved_def by simp

lemma referenced_add: "0 < R d b \<Longrightarrow> referenced (add_ref d b 1 R) = referenced R"
  by (auto simp: referenced_def add_ref_def split: if_splits)

lemma fs_ok_hold:
  assumes "fs_ok g sb p s" and "pinned (cache s) q d b"
  shows "fs_ok g sb p (fs_hold q s)"
proof -
  have i: "binv (cache s)" using assms(1) by (simp add: fs_ok_def)
  note h = fs.hold_law [OF i assms(2)]
  have "linked g sb p (fs_hold q s)"
    by (rule linked_moved [of g sb p s]) (use assms(1) h in \<open>simp_all add: fs_ok_def\<close>)
  moreover have "referenced (refs (cache (fs_hold q s))) = referenced (refs (cache s))"
    using h fs.pin_refs [OF i assms(2)] by (simp add: referenced_add)
  ultimately show ?thesis using assms(1) h unfolding fs_ok_def by simp
qed

lemma fs_ok_ready: "fs_ok g sb p s \<Longrightarrow> ready (refs (cache s))"
  by (simp add: fs_ok_def ready_def)

lemma zmap_inv:
  assumes "gok g" and "cont g B"
  shows "bm_inv (zmap g B)" "bm_range (zmap g B) = {gfdz g - 1..<gfdz g - 1 + 8192}"
  using assms by (auto simp: bm_inv_def zmap_def bitmap_make_def cont_def gok_def bm_range_def BLOCK_SIZE_def)

text \<open>Only the i-node's block and the zone map bear on what is known of the file.\<close>

lemma zn_cong: "B' (gdev g) (gib g) = B (gdev g) (gib g) \<Longrightarrow> zn g B' = zn g B \<and> fsize g B' = fsize g B \<and> gmode g B' = gmode g B"
  by (simp add: zn_def fsize_def gmode_def gdesc_def fun_eq_iff)

lemma zfree_cong: "B' (gdev g) (gzb g) = B (gdev g) (gzb g) \<Longrightarrow> zfree g B' = zfree g B"
  by (simp add: zfree_def zmap_def)

section \<open>Allocation\<close>

lemma balloc_ok:
  assumes "fs_ok g sb p s" and "zfree g (blk (cache s)) \<noteq> {}"
  shows "\<exists>z s' B'. balloc (gdev g) s = Some (z, s') \<and> z \<in> zfree g (blk (cache s)) \<and> moved g s s' B' \<and>
    zfree g B' = zfree g (blk (cache s)) - {z} \<and> List.length (B' (gdev g) (gzb g)) = BLOCK_SIZE \<and>
    (\<forall>d b. (d, b) \<noteq> (gdev g, gzb g) \<longrightarrow> B' d b = blk (cache s) d b)"
proof -
  let ?B = "blk (cache s)"
  have i: "binv (cache s)" and g: "gok g" and c: "cont g ?B" and l: "linked g sb p s"
    and lost: "lost (cache s) \<subseteq> {(gdev g, gib g)}" using assms(1) by (simp_all add: fs_ok_def)
  obtain q where q: "zmaps (supers s ! sb) ! 0 = Some q" "pinned (cache s) q (gdev g) (gzb g)"
    using l by (auto simp: linked_def)
  have zb: "gzb g < 2147483648" "0 < gfdz g" "gfdz g < 65536" using g by (auto simp: gok_def)
  have dq: "data q s = ?B (gdev g) (gzb g)" by (rule data_pinned [OF i q(2) zb(1)])
  have sb1: "data (sbuf (supers s ! sb)) s = ?B (gdev g) 1"
    using l by (intro data_pinned [OF i]) (auto simp: linked_def)
  have f: "s_firstdatazone sb s = gfdz g" "s_zones sb s = gzones g"
    using l sb1 by (simp_all add: s_firstdatazone_def s_zones_def linked_def)
  note inv = zmap_inv [OF g c]
  obtain k m where a: "bm_alloc (zmap g ?B) 1 = Some (Some k, m)"
    using bm.alloc_iff [OF inv(1), of 1] assms(2) by (auto simp: zfree_def)
  note found = bm.alloc_found [OF inv(1) _ a]
  have k: "k \<in> zfree g ?B" using found by (auto simp: zfree_def)
  then have kz: "gfdz g \<le> k" "k < gzones g" using c by (auto simp: cont_def)
  obtain r where r: "bitmap_scan (zmap g ?B) 1 = Some (r, m)" "r \<noteq> EOF" "nat r = k"
    using a by (auto simp: bm_alloc_def split: Option.bind_splits if_splits)
  have r0: "0 \<le> r" "r = int k"
    using bitmap_scan_spec [OF inv(1), of 1] r by auto
  have m: "m = zmap g ?B\<lparr>bbits := bbits m\<rparr>" "List.length (bbits m) = BLOCK_SIZE"
  proof -
    from bitmap_scan_spec [OF inv(1), of 1] r(1,2) have "bm_inv m" "blength m = blength (zmap g ?B)" "boffset m = boffset (zmap g ?B)"
      by auto
    then show "m = zmap g ?B\<lparr>bbits := bbits m\<rparr>" "List.length (bbits m) = BLOCK_SIZE"
      by (cases m; simp add: zmap_def bitmap_make_def bm_inv_def)+
  qed
  have off: "u32_of (int (0 * BLOCK_BITS) + (int (gfdz g) - 1)) = gfdz g - 1"
    using zb(2,3) by (simp add: u32_of_def mod_pos_pos_trivial nat_diff_distrib)
  have ku: "u32_of r = k" "k \<noteq> EOF32"
    using kz g r0 by (simp_all add: u32_of_def EOF32_def EOF_def gok_def)
  have bm: "bitmap_make (data q s) BLOCK_SIZE (gfdz g - 1) = zmap g ?B" by (simp add: zmap_def dq)
  let ?s1 = "fs_store True q (\<lambda>_. bbits m) s"
  have s1: "set_dirty q (set_data q (\<lambda>_. bbits m) s) = ?s1" by (simp add: set_data_store set_both_store)
  have upt: "[0..<ZMAP_NR] = 0 # [1..<ZMAP_NR]" by (simp add: ZMAP_NR_def upt_conv_Cons)
  have "alloc_loop (\<lambda>i. zmaps (supers s ! sb) ! i) BLOCK_SIZE (int (gfdz g) - 1) (gzones g) [0..<ZMAP_NR] 0 s = Some (q, k, ?s1)"
    unfolding upt by (simp add: q(1) off [simplified] bm [simplified] r(1) [simplified] ku kz(2) s1 Let_def)
  then have b: "balloc (gdev g) s = Some (k, fs_bwrite q ?s1)"
    using l by (simp add: balloc_def f linked_def)
  note st = fs.store_law [OF i q(2) zb(1), of True "\<lambda>_. bbits m"]
  have q1: "pinned (cache ?s1) q (gdev g) (gzb g)" using st q(2) by simp
  note fl = fs.flush_law [of ?s1, OF conjunct1 [OF st] q1]
  let ?B' = "put_block (gdev g) (gzb g) (\<lambda>_. bbits m) ?B"
  have "moved g s (fs_bwrite q ?s1) ?B'"
    unfolding moved_def using st fl lost by auto
  moreover have "zmap g ?B' = m" using m(1) by (simp add: zmap_def bitmap_make_def)
  then have "zfree g ?B' = zfree g ?B - {k}" using found by (auto simp: zfree_def)
  ultimately show ?thesis
    using b k m(2) by (intro exI [of _ k] exI [of _ "fs_bwrite q ?s1"] exI [of _ ?B']) (auto simp: put_block_other)
qed

section \<open>The zone of a block\<close>

lemma gdesc_get16: "gok g \<Longrightarrow> List.length (B (gdev g) (gib g)) = BLOCK_SIZE \<Longrightarrow> i < 31 \<Longrightarrow>
    get16 (gdesc g B) i = get16 (B (gdev g) (gib g)) (goff g + i)"
  by (auto simp: gdesc_def gok_def BLOCK_SIZE_def intro!: get16_drop)

lemma zn_at: "gok g \<Longrightarrow> List.length (B (gdev g) (gib g)) = BLOCK_SIZE \<Longrightarrow> k < 8 \<Longrightarrow>
    zn g B k = get16 (B (gdev g) (gib g)) (goff g + 14 + 2 * k)"
  by (simp add: zn_def gdesc_get16 add.assoc)

lemma fsize_at: "gok g \<Longrightarrow> List.length (B (gdev g) (gib g)) = BLOCK_SIZE \<Longrightarrow>
    fsize g B = get32 (B (gdev g) (gib g)) (goff g + 4)"
  by (simp add: fsize_def get32_def gdesc_get16 add.commute)

lemma gmode_at: "gok g \<Longrightarrow> List.length (B (gdev g) (gib g)) = BLOCK_SIZE \<Longrightarrow>
    gmode g B = of_nat (get16 (B (gdev g) (gib g)) (goff g))"
  by (simp add: gmode_def gdesc_get16)

lemma zn_put_zone:
  assumes "gok g" and "List.length (B (gdev g) (gib g)) = BLOCK_SIZE" and "k < 7" and "z < 65536"
    and "B' (gdev g) (gib g) = bput (goff g + 14 + 2 * k) (bytes16 z) (B (gdev g) (gib g))"
  shows "j < 7 \<Longrightarrow> zn g B' j = (if j = k then z else zn g B j)" and "fsize g B' = fsize g B" and "gmode g B' = gmode g B"
    and "List.length (B' (gdev g) (gib g)) = BLOCK_SIZE"
proof -
  have o': "goff g \<le> 992" using assms(1) by (simp add: gok_def)
  show len: "List.length (B' (gdev g) (gib g)) = BLOCK_SIZE"
    unfolding assms(5) using assms(2,3) o' by (subst length_bput) (simp_all add: bytes16_def BLOCK_SIZE_def)
  show "zn g B' j = (if j = k then z else zn g B j)" if "j < 7"
  proof (cases "j = k")
    case True
    have "get16 (B' (gdev g) (gib g)) (goff g + 14 + 2 * k) = z"
      unfolding assms(5) by (rule get16_bput) (use assms(2-4) o' in \<open>simp_all add: BLOCK_SIZE_def\<close>)
    with True assms(3) show ?thesis by (simp add: zn_at [where B = B', OF assms(1) len])
  next
    case False
    then have "get16 (B' (gdev g) (gib g)) (goff g + 14 + 2 * j) = get16 (B (gdev g) (gib g)) (goff g + 14 + 2 * j)"
      unfolding assms(5) by (intro get16_bput_other) (use assms(2,3) o' that in \<open>auto simp: BLOCK_SIZE_def bytes16_def\<close>)
    with False that show ?thesis by (simp add: zn_at [where B = B', OF assms(1) len] zn_at [where B = B, OF assms(1,2)])
  qed
  have "get16 (B' (gdev g) (gib g)) i = get16 (B (gdev g) (gib g)) i" if "goff g \<le> i" "i < goff g + 13" for i
    unfolding assms(5) by (rule get16_bput_other) (use assms(2,3) o' that in \<open>auto simp: BLOCK_SIZE_def bytes16_def\<close>)
  then show "fsize g B' = fsize g B" "gmode g B' = gmode g B"
    by (simp_all add: fsize_at [where B = B', OF assms(1) len] fsize_at [where B = B, OF assms(1,2)] get32_def
        gmode_at [where B = B', OF assms(1) len] gmode_at [where B = B, OF assms(1,2)])
qed

lemma bmap_direct_eq:
  assumes "linked g sb p s" and "k < 7"
  shows "bmap p k create s =
    bmap_loop (gdev g) create 0 (ibuf (inodes s ! p)) (goff g + 14) k k 1 (fs_hold (ibuf (inodes s ! p)) s)"
proof -
  have "7 + (512 + 512 * 512) = TOTAL_BLOCK"
    by (simp add: TOTAL_BLOCK_def DIRECT_BLOCK_def INDIRECT1_BLOCK_def INDIRECT2_BLOCK_def BLOCK_INDEXES_def BLOCK_SIZE_def)
  then show ?thesis
    using assms by (simp add: bmap_def linked_def DIRECT_BLOCK_def fs_hold_def bhold_def Let_def)
qed

text \<open>A zone that is there, or is not wanted.\<close>

lemma bmap_there:
  assumes "fs_ok g sb p s" and "k < 7" and "zn g (blk (cache s)) k \<noteq> 0 \<or> \<not> create"
  shows "\<exists>s'. bmap p k create s = Some (zn g (blk (cache s)) k, s') \<and> moved g s s' (blk (cache s))"
proof -
  let ?B = "blk (cache s)" and ?q = "ibuf (inodes s ! p)"
  have i: "binv (cache s)" and g: "gok g" and c: "cont g ?B" and l: "linked g sb p s"
    and lost: "lost (cache s) \<subseteq> {(gdev g, gib g)}" using assms(1) by (simp_all add: fs_ok_def)
  have q: "pinned (cache s) ?q (gdev g) (gib g)" "gib g < 2147483648" using l g by (auto simp: linked_def gok_def)
  let ?s1 = "fs_hold ?q s"
  note h = fs.hold_law [OF i q(1)]
  have q1: "pinned (cache ?s1) ?q (gdev g) (gib g)" "1 < refs (cache ?s1) (gdev g) (gib g)"
    using h q(1) fs.pin_refs [OF i q(1)] by simp_all
  from fs.release_law [OF conjunct1 [OF h] q1(1) disjI2 [OF q1(2)]] obtain s2 where
    s2: "fs_brelse (Some ?q) ?s1 = Some s2" "binv (cache s2)" "blk (cache s2) = blk (cache ?s1)"
      "refs (cache s2) = add_ref (gdev g) (gib g) (- 1) (refs (cache ?s1))"
      "\<forall>q e c. pinned (cache ?s1) q e c \<longrightarrow> 0 < refs (cache s2) e c \<longrightarrow> pinned (cache s2) q e c"
      "lost (cache s2) = lost (cache ?s1)" "fs_rest s2 = fs_rest ?s1" by blast
  have r: "refs (cache s2) = refs (cache s)" using h by (simp add: s2(4))
  have m: "moved g s s2 ?B"
    unfolding moved_def using s2 h lost r fs.pin_refs [OF i] by auto
  have "pinned (cache s2) ?q (gdev g) (gib g)" using m q(1) by (simp add: moved_def)
  then have d: "data ?q s2 = ?B (gdev g) (gib g)" "data ?q ?s1 = ?B (gdev g) (gib g)"
    using data_pinned [of s2] data_pinned [of ?s1] s2(2,3) h q1(1) q(2) by simp_all
  have len: "List.length (?B (gdev g) (gib g)) = BLOCK_SIZE" using c q(2) by (simp add: cont_def)
  have z: "get16 (?B (gdev g) (gib g)) (goff g + 14 + 2 * k) = zn g ?B k"
    using assms(2) by (simp add: zn_at [where B = ?B, OF g len])
  have "bmap p k create s = Some (zn g ?B k, s2)"
    using assms(3) unfolding bmap_direct_eq [OF l assms(2)] by (auto simp: d z s2(1) Let_def)
  with m show ?thesis by blast
qed

text \<open>A new zone.\<close>

lemma bmap_new:
  assumes "fs_ok g sb p s" and "k < 7" and "zn g (blk (cache s)) k = 0" and "zfree g (blk (cache s)) \<noteq> {}"
  shows "\<exists>z s' B'. bmap p k True s = Some (z, s') \<and> z \<in> zfree g (blk (cache s)) \<and> moved g s s' B' \<and> cont g B' \<and>
    (\<forall>j<7. zn g B' j = (if j = k then z else zn g (blk (cache s)) j)) \<and> fsize g B' = fsize g (blk (cache s)) \<and>
    gmode g B' = gmode g (blk (cache s)) \<and> zfree g B' = zfree g (blk (cache s)) - {z} \<and>
    (\<forall>d b. d \<noteq> gdev g \<or> b \<noteq> gib g \<and> b \<noteq> gzb g \<longrightarrow> B' d b = blk (cache s) d b)"
proof -
  let ?B = "blk (cache s)" and ?q = "ibuf (inodes s ! p)"
  have i: "binv (cache s)" and g: "gok g" and c: "cont g ?B" and l: "linked g sb p s"
    and lost: "lost (cache s) \<subseteq> {(gdev g, gib g)}" using assms(1) by (simp_all add: fs_ok_def)
  have q: "pinned (cache s) ?q (gdev g) (gib g)" "gib g < 2147483648" using l g by (auto simp: linked_def gok_def)
  let ?s1 = "fs_hold ?q s"
  note h = fs.hold_law [OF i q(1)]
  have ok1: "fs_ok g sb p ?s1" by (rule fs_ok_hold [OF assms(1) q(1)])
  have "zfree g (blk (cache ?s1)) \<noteq> {}" using h assms(4) by simp
  from balloc_ok [OF ok1 this] obtain z s2 B2 where b: "balloc (gdev g) ?s1 = Some (z, s2)" "z \<in> zfree g ?B"
    "moved g ?s1 s2 B2" "zfree g B2 = zfree g ?B - {z}" "List.length (B2 (gdev g) (gzb g)) = BLOCK_SIZE"
    "\<And>d b. (d, b) \<noteq> (gdev g, gzb g) \<Longrightarrow> B2 d b = ?B d b" using h by auto
  have z: "gfdz g \<le> z" "z < gzones g" "z < 65536" "z \<noteq> 0" using b(2) c g by (auto simp: cont_def gok_def)
  let ?a = "goff g + 14 + 2 * k"
  let ?s3 = "fs_store True ?q (bput ?a (bytes16 z)) s2"
  have q2: "binv (cache s2)" "pinned (cache s2) ?q (gdev g) (gib g)"
    using b(3) h q(1) by (simp_all add: moved_def)
  note st = fs.store_law [OF q2 q(2), of True "bput ?a (bytes16 z)"]
  have rz: "1 < refs (cache ?s3) (gdev g) (gib g)"
    using st b(3) h fs.pin_refs [OF i q(1)] by (simp add: moved_def)
  have q3: "binv (cache ?s3)" "pinned (cache ?s3) ?q (gdev g) (gib g)" using st q2 by simp_all
  from fs.release_law [OF q3 disjI2 [OF rz]] obtain s4 where
    s4: "fs_brelse (Some ?q) ?s3 = Some s4" "binv (cache s4)" "blk (cache s4) = blk (cache ?s3)"
      "refs (cache s4) = add_ref (gdev g) (gib g) (- 1) (refs (cache ?s3))"
      "\<forall>q e c. pinned (cache ?s3) q e c \<longrightarrow> 0 < refs (cache s4) e c \<longrightarrow> pinned (cache s4) q e c"
      "lost (cache s4) = lost (cache ?s3)" "fs_rest s4 = fs_rest ?s3" by blast
  let ?B4 = "put_block (gdev g) (gib g) (bput ?a (bytes16 z)) B2"
  have r: "refs (cache s4) = refs (cache s)" using h st b(3) by (simp add: s4(4) moved_def)
  have B4: "blk (cache s4) = ?B4" using s4(3) st b(3) by (simp add: moved_def)
  have m: "moved g s s4 ?B4"
    unfolding moved_def
  proof (intro conjI allI impI)
    show "lost (cache s4) \<subseteq> {(gdev g, gib g)}" using s4(6) st b(3) by (auto simp: moved_def)
    show "fs_rest s4 = fs_rest s" using s4(7) st b(3) h by (simp add: moved_def)
    fix x d e assume x: "pinned (cache s) x d e"
    then have "pinned (cache ?s3) x d e" using st b(3) h by (simp add: moved_def)
    then show "pinned (cache s4) x d e" using s4(5) r fs.pin_refs [OF i x] by simp
  qed (use s4(2) B4 r in simp_all)
  have len: "List.length (?B (gdev g) (gib g)) = BLOCK_SIZE" using c q(2) by (simp add: cont_def)
  have ib: "B2 (gdev g) (gib g) = ?B (gdev g) (gib g)" using b(6) g by (simp add: gok_def)
  have at4: "?B4 (gdev g) (gib g) = bput ?a (bytes16 z) (?B (gdev g) (gib g))" by (simp add: ib)
  note zp = zn_put_zone [where B = ?B and B' = ?B4, OF g len assms(2) z(3) at4]
  have oth: "?B4 d b' = ?B d b'" if "d \<noteq> gdev g \<or> b' \<noteq> gib g \<and> b' \<noteq> gzb g" for d b'
    using that b(6) [of d b'] by (auto simp: put_block_other)
  have "?B4 (gdev g) (gzb g) = B2 (gdev g) (gzb g)" using g by (simp add: put_block_other gok_def)
  then have zf: "zfree g ?B4 = zfree g ?B - {z}" using b(4) zfree_cong [of ?B4 g B2] by simp
  have zfresh: "zn g ?B j \<noteq> z" if "j < 7" for j using c that b(2) z(4) by (auto simp: cont_def)
  have "cont g ?B4"
    unfolding cont_def zf
  proof (intro conjI allI impI ballI)
    fix d b' assume "b' < (2147483648 :: nat)"
    show "List.length (?B4 d b') = BLOCK_SIZE"
    proof (cases "d \<noteq> gdev g \<or> b' \<noteq> gib g \<and> b' \<noteq> gzb g")
      case True
      with oth [OF True] c \<open>b' < 2147483648\<close> show ?thesis by (simp add: cont_def)
    next
      case False
      with zp(4) b(5) \<open>?B4 (gdev g) (gzb g) = B2 (gdev g) (gzb g)\<close> show ?thesis by auto
    qed
  next
    fix j assume j: "j < (7 :: nat)" "zn g ?B4 j \<noteq> 0"
    have zj: "zn g ?B j \<noteq> 0 \<longrightarrow> gfdz g \<le> zn g ?B j \<and> zn g ?B j < gzones g \<and> zn g ?B j \<notin> zfree g ?B"
      using c j(1) by (simp add: cont_def)
    show "gfdz g \<le> zn g ?B4 j" "zn g ?B4 j < gzones g" "zn g ?B4 j \<notin> zfree g ?B - {z}"
      using zj zp(1) [OF j(1)] j(2) z(1,2) by (auto split: if_splits)
  next
    fix j j' assume j: "j < (7 :: nat)" "j' < (7 :: nat)" "zn g ?B4 j = zn g ?B4 j'" "zn g ?B4 j \<noteq> 0"
    have "zn g ?B j = zn g ?B j' \<longrightarrow> zn g ?B j \<noteq> 0 \<longrightarrow> j = j'" using c j(1,2) by (simp add: cont_def)
    then show "j = j'"
      using j(3,4) zp(1) [OF j(1)] zp(1) [OF j(2)] zfresh [OF j(1)] zfresh [OF j(2)] by (auto split: if_splits)
  next
    fix y assume "y \<in> zfree g ?B - {z}"
    then show "gfdz g \<le> y" "y < gzones g" using c by (auto simp: cont_def)
  qed
  moreover have "bmap p k True s = Some (z, s4)"
  proof -
    have d: "data ?q ?s1 = ?B (gdev g) (gib g)" using data_pinned [of ?s1] h q by simp
    have "pinned (cache s4) ?q (gdev g) (gib g)" using m q(1) by (simp add: moved_def)
    then have d4: "data ?q s4 = ?B4 (gdev g) (gib g)" using data_pinned [of s4] s4(2) B4 q(2) by simp
    have z0: "get16 (?B (gdev g) (gib g)) ?a = 0"
      using assms(2,3) by (simp add: zn_at [where B = ?B, OF g len])
    have z4: "get16 (bput ?a (bytes16 z) (?B (gdev g) (gib g))) ?a = z"
      by (rule get16_bput) (use len assms(2) g z(3) in \<open>auto simp: BLOCK_SIZE_def gok_def\<close>)
    have st3: "set_dirty ?q (set_data ?q (bput ?a (bytes16 z)) s2) = ?s3" by (simp add: set_data_store set_both_store)
    show ?thesis
      unfolding bmap_direct_eq [OF l assms(2)] by (simp add: d z0 b(1) st3 s4(1) d4 ib z4 Let_def)
  qed
  ultimately show ?thesis
    using b(2) m zp zf oth by (intro exI [of _ z] exI [of _ s4] exI [of _ ?B4]) auto
qed

section \<open>Reading\<close>

lemma u32_of_int [simp]: "n < 4294967296 \<Longrightarrow> u32_of (int n) = n"
  by (simp add: u32_of_def)

lemma offset_eqs:
  assumes "n < 2147483648"
  shows "u32_of (cdiv (int n) (int BLOCK_SIZE)) = n div BLOCK_SIZE" and "blk_start (int n) = n mod BLOCK_SIZE"
    and "blk_chars (int n) left = min (BLOCK_SIZE - n mod BLOCK_SIZE) left"
proof -
  have d: "cdiv (int n) (int BLOCK_SIZE) = int (n div BLOCK_SIZE)" "cmod (int n) (int BLOCK_SIZE) = int (n mod BLOCK_SIZE)"
    by (simp_all add: BLOCK_SIZE_def zdiv_int zmod_int)
  have small: "n div BLOCK_SIZE < 4294967296" "n mod BLOCK_SIZE < BLOCK_SIZE"
    using assms by (simp_all add: BLOCK_SIZE_def)
  show "u32_of (cdiv (int n) (int BLOCK_SIZE)) = n div BLOCK_SIZE" using small(1) by (simp add: d)
  show st: "blk_start (int n) = n mod BLOCK_SIZE" unfolding blk_start_def d using small(2) by (intro u32_of_int) (simp add: BLOCK_SIZE_def)
  show "blk_chars (int n) left = min (BLOCK_SIZE - n mod BLOCK_SIZE) left"
    using small(2) by (simp add: blk_chars_def st BLOCK_SIZE_def)
qed

lemma div_mod_add:
  fixes n i b :: nat
  assumes "n mod b + i < b"
  shows "(n + i) div b = n div b \<and> (n + i) mod b = n mod b + i"
proof -
  have b: "b \<noteq> 0" using assms by auto
  have e: "n + i = n div b * b + (n mod b + i)" by simp
  have "(n + i) div b = n div b + (n mod b + i) div b" by (subst e, rule div_mult_self3 [OF b])
  moreover have "(n + i) mod b = (n mod b + i) mod b" by (subst e, rule mod_mult_self3)
  ultimately show ?thesis using assms by simp
qed

text \<open>The bytes of one block.\<close>

lemma fbytes_block:
  assumes "List.length (B (gdev g) (zn g B (n div BLOCK_SIZE))) = BLOCK_SIZE" and "n mod BLOCK_SIZE + c \<le> BLOCK_SIZE"
  shows "take c (drop (n mod BLOCK_SIZE) (B (gdev g) (zn g B (n div BLOCK_SIZE)))) = map (fbyte g B) [n..<n + c]"
proof (rule nth_equalityI)
  fix i assume "i < List.length (take c (drop (n mod BLOCK_SIZE) (B (gdev g) (zn g B (n div BLOCK_SIZE)))))"
  then have i: "i < c" by simp
  have "n mod BLOCK_SIZE + i < BLOCK_SIZE" using i assms(2) by simp
  then have "(n + i) div BLOCK_SIZE = n div BLOCK_SIZE \<and> (n + i) mod BLOCK_SIZE = n mod BLOCK_SIZE + i"
    by (rule div_mod_add)
  then show "take c (drop (n mod BLOCK_SIZE) (B (gdev g) (zn g B (n div BLOCK_SIZE)))) ! i = map (fbyte g B) [n..<n + c] ! i"
    using i assms by (simp add: fbyte_def)
qed (use assms in simp)

lemma linked_rest: "linked g sb p s \<Longrightarrow> fs_rest s' = fs_rest s \<Longrightarrow> idev (inodes s' ! p) = gdev g"
  by (simp add: linked_def fs_rest_def)

lemma read_loop_ok:
  assumes "fs_ok g sb p s" and "o' + n \<le> 7 * BLOCK_SIZE" and "\<And>k. k * BLOCK_SIZE < o' + n \<Longrightarrow> zn g (blk (cache s)) k \<noteq> 0"
  shows "\<exists>s'. read_loop p (int o') n out s = Some (int (o' + n), out @ map (fbyte g (blk (cache s))) [o'..<o' + n], s') \<and>
    moved g s s' (blk (cache s))"
  using assms
proof (induction n arbitrary: o' out s rule: less_induct)
  case (less n)
  let ?B = "blk (cache s)"
  have ok: "binv (cache s)" "gok g" "cont g ?B" "linked g sb p s" "lost (cache s) \<subseteq> {(gdev g, gib g)}"
    using less.prems(1) by (simp_all add: fs_ok_def)
  show ?case
  proof (cases "n = 0")
    case True
    then show ?thesis using ok by (intro exI [of _ s]) (simp add: read_loop.simps [of p _ 0] moved_def)
  next
    case False
    let ?k = "o' div BLOCK_SIZE" and ?c = "min (BLOCK_SIZE - o' mod BLOCK_SIZE) n"
    have small: "o' < 2147483648" using less.prems(2) False by (simp add: BLOCK_SIZE_def)
    note e = offset_eqs [OF small]
    have k: "?k < 7" using less.prems(2) False by (simp add: BLOCK_SIZE_def)
    have c: "0 < ?c" "?c \<le> n" "o' mod BLOCK_SIZE + ?c \<le> BLOCK_SIZE" using False by (simp_all add: BLOCK_SIZE_def)
    have "?k * BLOCK_SIZE < o' + n" using False by (metis add_gr_0 add_less_cancel_left div_times_less_eq_dividend le_less_trans less_add_same_cancel1 neq0_conv)
    then have z: "zn g ?B ?k \<noteq> 0" by (rule less.prems(3))
    from bmap_there [OF less.prems(1) k, of False] obtain s1 where s1: "bmap p ?k False s = Some (zn g ?B ?k, s1)" "moved g s s1 ?B"
      by auto
    have ok1: "fs_ok g sb p s1" by (rule fs_ok_moved [OF less.prems(1) s1(2) refl ok(3)])
    have zb: "zn g ?B ?k < 2147483648" using ok(2,3) k z by (auto simp: cont_def gok_def)
    have B1: "blk (cache s1) = ?B" "binv (cache s1)" using s1(2) by (simp_all add: moved_def)
    from fs.fetch_release [OF B1(2) fs_ok_ready [OF ok1] zb, of "gdev g"] obtain q s2 s3 where
      s3: "fs_bread (gdev g) (zn g ?B ?k) s1 = Some (q, s2)" "binv (cache s2)" "pinned (cache s2) q (gdev g) (zn g ?B ?k)"
        "blk (cache s2) = ?B" "fs_brelse (Some q) s2 = Some s3" "binv (cache s3)" "blk (cache s3) = ?B"
        "refs (cache s3) = refs (cache s1)" "\<forall>q e c. pinned (cache s1) q e c \<longrightarrow> pinned (cache s3) q e c"
        "lost (cache s3) = lost (cache s1)" "fs_rest s3 = fs_rest s1"
      using B1(1) by auto
    have m3: "moved g s s3 ?B" using s1(2) s3 by (simp add: moved_def)
    have ok3: "fs_ok g sb p s3" by (rule fs_ok_moved [OF less.prems(1) m3 refl ok(3)])
    have dq: "data q s2 = ?B (gdev g) (zn g ?B ?k)" using data_pinned [OF s3(2,3) zb] s3(4) by simp
    have idev: "idev (inodes s1 ! p) = gdev g" using linked_rest [OF ok(4)] s1(2) by (simp add: moved_def)
    have len: "List.length (?B (gdev g) (zn g ?B ?k)) = BLOCK_SIZE" using ok(3) zb by (simp add: cont_def)
    have s32: "s32 (int o' + int ?c) = int (o' + ?c)"
      using less.prems(2) c(2) by (simp add: BLOCK_SIZE_def)
    have up: "[o'..<o' + ?c] @ [o' + ?c..<o' + n] = [o'..<o' + n]"
      using upt_add_eq_append [of o' "o' + ?c" "n - ?c"] c(2) by simp
    have "\<exists>s'. read_loop p (int (o' + ?c)) (n - ?c) (out @ map (fbyte g ?B) [o'..<o' + ?c]) s3 =
        Some (int (o' + ?c + (n - ?c)), (out @ map (fbyte g ?B) [o'..<o' + ?c]) @ map (fbyte g (blk (cache s3))) [o' + ?c..<o' + ?c + (n - ?c)], s') \<and>
        moved g s3 s' (blk (cache s3))"
      by (rule less.IH) (use c False less.prems(2,3) ok3 s3(7) in auto)
    then obtain s' where s': "read_loop p (int (o' + ?c)) (n - ?c) (out @ map (fbyte g ?B) [o'..<o' + ?c]) s3 =
        Some (int (o' + n), out @ map (fbyte g ?B) [o'..<o' + n], s')" "moved g s3 s' ?B"
      using c(2) s3(7) up by (auto simp flip: map_append)
    have "read_loop p (int o') n out s = read_loop p (int (o' + ?c)) (n - ?c) (out @ map (fbyte g ?B) [o'..<o' + ?c]) s3"
      using False z c(3)
      by (subst read_loop.simps) (simp add: e s1(1) idev s3(1,5) dq fbytes_block [where B = ?B, OF len c(3)] s32 [simplified] Let_def)
    with s' moved_trans [OF m3 s'(2)] show ?thesis by simp
  qed
qed

section \<open>Writing\<close>

lemma put_block_id [simp]: "put_block d b (\<lambda>x. x) B = B"
  by (simp add: put_block_def)

lemma inodes_store [simp]: "inodes (fs_store k q f s) = inodes s" "supers (fs_store k q f s) = supers s"
  by (simp_all add: fs_store_def)

lemma desc_linked:
  assumes "linked g sb p s" and "binv (cache s)" and "gok g"
  shows "desc_of p s = gdesc g (blk (cache s))" and "d_size p s = fsize g (blk (cache s))"
proof -
  have "data (ibuf (inodes s ! p)) s = blk (cache s) (gdev g) (gib g)"
    by (rule data_pinned [OF assms(2)]) (use assms in \<open>auto simp: linked_def gok_def\<close>)
  then show "desc_of p s = gdesc g (blk (cache s))" using assms(1) by (simp add: desc_of_def gdesc_def linked_def)
  then show "d_size p s = fsize g (blk (cache s))" by (simp add: d_size_def fsize_def)
qed

lemma put_size:
  assumes "gok g" and "List.length (B (gdev g) (gib g)) = BLOCK_SIZE" and "v < 4294967296"
    and "B' (gdev g) (gib g) = bput (goff g + 4) (bytes32 v) (B (gdev g) (gib g))"
  shows "j < 7 \<Longrightarrow> zn g B' j = zn g B j" and "fsize g B' = v" and "List.length (B' (gdev g) (gib g)) = BLOCK_SIZE"
    and "gmode g B' = gmode g B"
proof -
  have o': "goff g \<le> 992" using assms(1) by (simp add: gok_def)
  have l: "List.length (bytes32 v) = 4" by (simp add: bytes32_def bytes16_def)
  show len: "List.length (B' (gdev g) (gib g)) = BLOCK_SIZE"
    unfolding assms(4) using assms(2) o' by (subst length_bput) (simp_all add: l BLOCK_SIZE_def)
  show "fsize g B' = v"
    unfolding fsize_at [where B = B', OF assms(1) len] assms(4)
    by (rule get32_bput) (use assms(2,3) o' in \<open>simp_all add: BLOCK_SIZE_def\<close>)
  have "get16 (B' (gdev g) (gib g)) (goff g) = get16 (B (gdev g) (gib g)) (goff g)"
    unfolding assms(4) by (rule get16_bput_other) (use assms(2) o' in \<open>auto simp: l BLOCK_SIZE_def\<close>)
  then show "gmode g B' = gmode g B" by (simp add: gmode_at [where B = B', OF assms(1) len] gmode_at [where B = B, OF assms(1,2)])
  show "zn g B' j = zn g B j" if j: "j < 7"
  proof -
    have "get16 (B' (gdev g) (gib g)) (goff g + 14 + 2 * j) = get16 (B (gdev g) (gib g)) (goff g + 14 + 2 * j)"
      unfolding assms(4) by (rule get16_bput_other) (use assms(2) o' j in \<open>auto simp: l BLOCK_SIZE_def\<close>)
    with j show ?thesis by (simp add: zn_at [where B = B', OF assms(1) len] zn_at [where B = B, OF assms(1,2)])
  qed
qed

text \<open>The second half of a round.\<close>

lemma cont_cong:
  assumes "cont g B" and "\<And>j. j < 7 \<Longrightarrow> zn g B' j = zn g B j" and "zfree g B' = zfree g B"
    and "\<And>d b. b < 2147483648 \<Longrightarrow> List.length (B' d b) = BLOCK_SIZE"
  shows "cont g B'"
  using assms by (simp add: cont_def)

lemma write_block_ok:
  assumes "fs_ok g sb p s" and "k < 7" and "zn g (blk (cache s)) k \<noteq> 0" and "start + List.length bs \<le> BLOCK_SIZE"
    and "v < 4294967296"
  defines "z \<equiv> zn g (blk (cache s)) k"
  shows "\<exists>s' B'. write_block p z (int v) start bs s = Some s' \<and> moved g s s' B' \<and> cont g B' \<and>
    (\<forall>j<7. zn g B' j = zn g (blk (cache s)) j) \<and> fsize g B' = max (fsize g (blk (cache s))) v \<and>
    gmode g B' = gmode g (blk (cache s)) \<and> zfree g B' = zfree g (blk (cache s)) \<and> B' (gdev g) z = bput start bs (blk (cache s) (gdev g) z) \<and>
    (\<forall>d b. d \<noteq> gdev g \<or> b \<noteq> gib g \<and> b \<noteq> z \<longrightarrow> B' d b = blk (cache s) d b)"
proof -
  let ?B = "blk (cache s)" and ?i = "ibuf (inodes s ! p)"
  have ok: "binv (cache s)" "gok g" "cont g ?B" "linked g sb p s" "lost (cache s) \<subseteq> {(gdev g, gib g)}"
    using assms(1) by (simp_all add: fs_ok_def)
  have z: "gfdz g \<le> z" "z < 2147483648" "gib g < 2147483648" "z \<noteq> gib g" "z \<noteq> gzb g" "z \<noteq> 1"
    using ok(2,3) assms(2,3) by (auto simp: cont_def gok_def z_def)
  from fs.fetch_law [OF ok(1) fs_ok_ready [OF assms(1)] z(2), of "gdev g"] obtain q s1 where
    s1: "fs_bread (gdev g) z s = Some (q, s1)" "binv (cache s1)" "blk (cache s1) = ?B"
      "refs (cache s1) = add_ref (gdev g) z 1 (refs (cache s))" "pinned (cache s1) q (gdev g) z"
      "\<And>q e c. pinned (cache s) q e c \<Longrightarrow> pinned (cache s1) q e c" "lost (cache s1) = lost (cache s)" "fs_rest s1 = fs_rest s"
    by blast
  let ?s2 = "fs_store True q (\<lambda>x. x) s1"
  note st2 = fs.store_law [OF s1(2,5) z(2), of True "\<lambda>x. x"]
  have B2: "blk (cache ?s2) = ?B" "binv (cache ?s2)" "pinned (cache ?s2) = pinned (cache s1)" "refs (cache ?s2) = refs (cache s1)"
    "dirty (bufs (cache ?s2) ! q)" "lost (cache ?s2) \<subseteq> {(gdev g, gib g)}" "fs_rest ?s2 = fs_rest s"
    using st2 s1(3,7,8) ok(5) by auto
  have i2: "pinned (cache ?s2) ?i (gdev g) (gib g)" using s1(6) ok(4) B2(3) by (auto simp: linked_def)
  have l2: "linked g sb p ?s2"
    by (rule linked_moved [OF ok(4) B2(7)]) (use s1(6) B2(1,3) in auto)
  have in2: "inodes ?s2 = inodes s" using B2(7) by (simp add: fs_rest_def)
  have size2: "d_size p ?s2 = fsize g ?B" using desc_linked(2) [OF l2 B2(2) ok(2)] B2(1) by simp
  define s3 where "s3 = (if v > fsize g ?B then fs_store True ?i (bput (goff g + 4) (bytes32 v)) ?s2 else ?s2)"
  define B3 where "B3 = (if v > fsize g ?B then put_block (gdev g) (gib g) (bput (goff g + 4) (bytes32 v)) ?B else ?B)"
  have c3: "blk (cache s3) = B3" "binv (cache s3)" "pinned (cache s3) = pinned (cache s1)" "refs (cache s3) = refs (cache s1)"
    "dirty (bufs (cache s3) ! q)" "lost (cache s3) \<subseteq> {(gdev g, gib g)}" "fs_rest s3 = fs_rest s"
    using fs.store_law [OF B2(2) i2 z(3), of True "bput (goff g + 4) (bytes32 v)"] B2 unfolding s3_def B3_def by auto
  have len: "List.length (?B (gdev g) (gib g)) = BLOCK_SIZE" using ok(3) z(3) by (simp add: cont_def)
  have f3: "fsize g B3 = max (fsize g ?B) v" "\<And>j. j < 7 \<Longrightarrow> zn g B3 j = zn g ?B j"
    "List.length (B3 (gdev g) (gib g)) = BLOCK_SIZE" "gmode g B3 = gmode g ?B"
    using put_size [where B = ?B and B' = "put_block (gdev g) (gib g) (bput (goff g + 4) (bytes32 v)) ?B", OF ok(2) len assms(5)] len
    by (auto simp: B3_def max_def)
  have o3: "B3 d b = ?B d b" if "(d, b) \<noteq> (gdev g, gib g)" for d b
    using that by (auto simp: B3_def put_block_other)
  let ?s4 = "fs_store False q (bput start bs) s3"
  let ?B4 = "put_block (gdev g) z (bput start bs) B3"
  have q3: "pinned (cache s3) q (gdev g) z" using c3(3) s1(5) by simp
  note st4 = fs.store_law [OF c3(2) q3 z(2), of False "bput start bs"]
  have q4: "binv (cache ?s4)" "pinned (cache ?s4) q (gdev g) z" "(gdev g, z) \<notin> lost (cache ?s4) \<or> 1 < refs (cache ?s4) (gdev g) z"
    using st4 q3 c3(5) by auto
  from fs.release_law [OF q4] obtain s5 where
    s5: "fs_brelse (Some q) ?s4 = Some s5" "binv (cache s5)" "blk (cache s5) = blk (cache ?s4)"
      "refs (cache s5) = add_ref (gdev g) z (- 1) (refs (cache ?s4))"
      "\<And>q e c. pinned (cache ?s4) q e c \<Longrightarrow> 0 < refs (cache s5) e c \<Longrightarrow> pinned (cache s5) q e c"
      "lost (cache s5) = lost (cache ?s4)" "fs_rest s5 = fs_rest ?s4" by blast
  have r5: "refs (cache s5) = refs (cache s)" using st4 c3(4) s1(4) by (simp add: s5(4))
  have m: "moved g s s5 ?B4"
    unfolding moved_def
  proof (intro conjI allI impI)
    show "lost (cache s5) \<subseteq> {(gdev g, gib g)}" using s5(6) st4 c3(5,6) by auto
    show "blk (cache s5) = ?B4" using s5(3) st4 c3(1) by simp
    show "fs_rest s5 = fs_rest s" using s5(7) st4 c3(7) by simp
    fix x d e assume x: "pinned (cache s) x d e"
    have "pinned (cache ?s4) x d e" using st4 c3(3) s1(6) [OF x] by simp
    then show "pinned (cache s5) x d e" using s5(5) r5 fs.pin_refs [OF ok(1) x] by simp
  qed (use s5(2) r5 in simp_all)
  have ib4: "?B4 (gdev g) (gib g) = B3 (gdev g) (gib g)" "?B4 (gdev g) (gzb g) = B3 (gdev g) (gzb g)"
    using z by (simp_all add: put_block_other)
  then have zn4: "zn g ?B4 = zn g B3" "fsize g ?B4 = fsize g B3" "zfree g ?B4 = zfree g B3" "gmode g ?B4 = gmode g B3"
    using zn_cong [of ?B4 g B3] zfree_cong [of ?B4 g B3] by simp_all
  have zf: "zfree g B3 = zfree g ?B" using o3 ok(2) by (intro zfree_cong) (simp add: gok_def)
  have zl: "List.length (B3 (gdev g) z) = BLOCK_SIZE" using o3 z ok(3) by (simp add: cont_def)
  have "cont g ?B4"
  proof (rule cont_cong [OF ok(3)])
    show "List.length (?B4 d b) = BLOCK_SIZE" if "b < 2147483648" for d b
      using that zl f3(3) o3 [of d b] ok(3) assms(4)
      by (cases "(d, b) = (gdev g, z)"; cases "(d, b) = (gdev g, gib g)")
        (auto simp: put_block_other cont_def length_bput)
  qed (use zn4 f3 zf in simp_all)
  moreover have "write_block p z (int v) start bs s = Some s5"
  proof -
    have "set_dirty q s1 = ?s2" "set_data q (bput start bs) s3 = ?s4" by (simp_all add: set_dirty_store set_data_store)
    moreover have "idirty p (set_size p v ?s2) = fs_store True ?i (bput (goff g + 4) (bytes32 v)) ?s2"
      using ok(4) in2 by (simp add: idirty_def set_size_def set_desc_def set_data_store set_both_store linked_def)
    moreover have "idev (inodes s ! p) = gdev g" using ok(4) by (simp add: linked_def)
    ultimately show ?thesis
      using assms(4,5) s5(1)
      by (cases "v > fsize g ?B") (simp_all add: write_block_def s1(1) size2 s3_def set_data_store Let_def)
  qed
  ultimately show ?thesis
    using m zn4 f3 zf o3 z by (intro exI [of _ s5] exI [of _ ?B4]) (auto simp: put_block_other)
qed

text \<open>There are as many free zones as the file has blocks without one.\<close>

definition enough :: "geom \<Rightarrow> disk \<Rightarrow> bool" where
  "enough g B \<longleftrightarrow> card {k. k < 7 \<and> zn g B k = 0} \<le> card (zfree g B)"

text \<open>Blocks that do not belong to the file and are not free.\<close>

definition foreign :: "geom \<Rightarrow> disk \<Rightarrow> int \<Rightarrow> nat \<Rightarrow> bool" where
  "foreign g B d b \<longleftrightarrow> d \<noteq> gdev g \<or> b \<noteq> gib g \<and> b \<noteq> gzb g \<and> b \<notin> zfree g B \<and> (\<forall>k<7. zn g B k \<noteq> b)"

lemma bmap_write:
  assumes "fs_ok g sb p s" and "k < 7" and "enough g (blk (cache s))"
  shows "\<exists>s' B'. bmap p k True s = Some (zn g B' k, s') \<and> zn g B' k \<noteq> 0 \<and> moved g s s' B' \<and> fs_ok g sb p s' \<and> enough g B' \<and>
    (\<forall>j<7. zn g (blk (cache s)) j \<noteq> 0 \<longrightarrow> zn g B' j = zn g (blk (cache s)) j) \<and>
    (\<forall>j<7. zn g B' j \<noteq> zn g (blk (cache s)) j \<longrightarrow> zn g B' j \<in> zfree g (blk (cache s))) \<and>
    fsize g B' = fsize g (blk (cache s)) \<and> gmode g B' = gmode g (blk (cache s)) \<and> zfree g B' \<subseteq> zfree g (blk (cache s)) \<and>
    (\<forall>d b. d \<noteq> gdev g \<or> b \<noteq> gib g \<and> b \<noteq> gzb g \<longrightarrow> B' d b = blk (cache s) d b)"
proof (cases "zn g (blk (cache s)) k = 0")
  case False
  let ?B = "blk (cache s)"
  have c: "cont g ?B" using assms(1) by (simp add: fs_ok_def)
  from bmap_there [OF assms(1,2), of True] False obtain s' where s': "bmap p k True s = Some (zn g ?B k, s')" "moved g s s' ?B" by auto
  have "fs_ok g sb p s'" by (rule fs_ok_moved [OF assms(1) s'(2) refl c])
  then show ?thesis using s' assms(3) False by (intro exI [of _ s'] exI [of _ ?B]) simp
next
  case True
  let ?B = "blk (cache s)"
  have k: "k \<in> {j. j < 7 \<and> zn g ?B j = 0}" using True assms(2) by simp
  have fin: "finite {j. j < 7 \<and> zn g ?B j = 0}" by simp
  have finz: "finite (zfree g ?B)" by (simp add: zfree_def bm_range_def)
  have "0 < card {j. j < 7 \<and> zn g ?B j = 0}" using k fin card_gt_0_iff by blast
  with assms(3) have "0 < card (zfree g ?B)" unfolding enough_def by linarith
  then have ne: "zfree g ?B \<noteq> {}" by (metis card.empty less_irrefl)
  from bmap_new [OF assms(1,2) True ne] obtain z s' B' where b: "bmap p k True s = Some (z, s')" "z \<in> zfree g ?B"
    "moved g s s' B'" "cont g B'" "\<And>j. j < 7 \<Longrightarrow> zn g B' j = (if j = k then z else zn g ?B j)" "fsize g B' = fsize g ?B"
    "zfree g B' = zfree g ?B - {z}" "\<And>d b. d \<noteq> gdev g \<or> b \<noteq> gib g \<and> b \<noteq> gzb g \<Longrightarrow> B' d b = ?B d b" "gmode g B' = gmode g ?B" by blast
  have ok: "gok g" "cont g ?B" using assms(1) by (simp_all add: fs_ok_def)
  have z: "z \<noteq> 0" using b(2) ok by (auto simp: cont_def gok_def)
  have "fs_ok g sb p s'" by (rule fs_ok_moved [OF assms(1) b(3) _ b(4)]) (use b(8) ok in \<open>simp add: gok_def\<close>)
  moreover have "{j. j < 7 \<and> zn g B' j = 0} = {j. j < 7 \<and> zn g ?B j = 0} - {k}" using b(5) z by (auto split: if_splits)
  then have "card {j. j < 7 \<and> zn g B' j = 0} = card {j. j < 7 \<and> zn g ?B j = 0} - 1" using k by simp
  with assms(3) b(2,7) finz have "enough g B'" by (simp add: enough_def)
  moreover have "zn g B' k = z" using b(5) [OF assms(2)] by simp
  ultimately show ?thesis
    using b True z by (intro exI [of _ s'] exI [of _ B']) auto
qed

lemma write_round:
  assumes "fs_ok g sb p s" and "k < 7" and "enough g (blk (cache s))" and "start + List.length bs \<le> BLOCK_SIZE" and "v < 4294967296"
  shows "\<exists>z s1 s' B'. bmap p k True s = Some (z, s1) \<and> z \<noteq> 0 \<and> write_block p z (int v) start bs s1 = Some s' \<and>
    moved g s s' B' \<and> fs_ok g sb p s' \<and> enough g B' \<and> fsize g B' = max (fsize g (blk (cache s))) v \<and> gmode g B' = gmode g (blk (cache s)) \<and> zn g B' k \<noteq> 0 \<and>
    (\<forall>j<7. zn g (blk (cache s)) j \<noteq> 0 \<longrightarrow> zn g B' j = zn g (blk (cache s)) j) \<and>
    (\<forall>i<List.length bs. fbyte g B' (k * BLOCK_SIZE + start + i) = bs ! i) \<and>
    (\<forall>n. n div BLOCK_SIZE < 7 \<longrightarrow> zn g (blk (cache s)) (n div BLOCK_SIZE) \<noteq> 0 \<longrightarrow>
      n < k * BLOCK_SIZE + start \<or> k * BLOCK_SIZE + start + List.length bs \<le> n \<longrightarrow> fbyte g B' n = fbyte g (blk (cache s)) n) \<and>
    (\<forall>d b. foreign g (blk (cache s)) d b \<longrightarrow> foreign g B' d b \<and> B' d b = blk (cache s) d b)"
proof -
  let ?B = "blk (cache s)"
  from bmap_write [OF assms(1-3)] obtain s1 B1 where b: "bmap p k True s = Some (zn g B1 k, s1)" "zn g B1 k \<noteq> 0"
    "moved g s s1 B1" "fs_ok g sb p s1" "enough g B1" "\<And>j. j < 7 \<Longrightarrow> zn g ?B j \<noteq> 0 \<Longrightarrow> zn g B1 j = zn g ?B j"
    "\<And>j. j < 7 \<Longrightarrow> zn g B1 j \<noteq> zn g ?B j \<Longrightarrow> zn g B1 j \<in> zfree g ?B"
    "fsize g B1 = fsize g ?B" "zfree g B1 \<subseteq> zfree g ?B"
    "\<And>d b. d \<noteq> gdev g \<or> b \<noteq> gib g \<and> b \<noteq> gzb g \<Longrightarrow> B1 d b = ?B d b" "gmode g B1 = gmode g ?B" by blast
  let ?z = "zn g B1 k"
  have B1: "blk (cache s1) = B1" using b(3) by (simp add: moved_def)
  have ok: "gok g" "cont g B1" using b(4) B1 by (simp_all add: fs_ok_def)
  have zr: "gfdz g \<le> zn g B1 j" "zn g B1 j \<noteq> gib g" "zn g B1 j \<noteq> gzb g" "zn g B1 j \<noteq> 1" "zn g B1 j < 2147483648"
    if "j < 7" "zn g B1 j \<noteq> 0" for j
    using ok that by (auto simp: cont_def gok_def)
  from write_block_ok [OF b(4) assms(2) _ assms(4,5)] b(2) B1 obtain s' B' where w: "write_block p ?z (int v) start bs s1 = Some s'"
    "moved g s1 s' B'" "cont g B'" "\<And>j. j < 7 \<Longrightarrow> zn g B' j = zn g B1 j" "fsize g B' = max (fsize g B1) v" "zfree g B' = zfree g B1"
    "B' (gdev g) ?z = bput start bs (B1 (gdev g) ?z)"
    "\<And>d b. d \<noteq> gdev g \<or> b \<noteq> gib g \<and> b \<noteq> ?z \<Longrightarrow> B' d b = B1 d b" "gmode g B' = gmode g B1" by auto
  have ok': "fs_ok g sb p s'"
    by (rule fs_ok_moved [OF b(4) w(2) _ w(3)]) (use w(8) ok(1) zr(4) [OF assms(2) b(2)] B1 in \<open>simp add: gok_def\<close>)
  have zk: "zn g B' k = ?z" using w(4) assms(2) by simp
  have len: "List.length (B1 (gdev g) ?z) = BLOCK_SIZE" using ok(2) zr(5) [OF assms(2) b(2)] by (simp add: cont_def)
  have new: "fbyte g B' (k * BLOCK_SIZE + start + i) = bs ! i" if "i < List.length bs" for i
  proof -
    have "start + i < BLOCK_SIZE" using that assms(4) by simp
    then have "(k * BLOCK_SIZE + (start + i)) div BLOCK_SIZE = k" "(k * BLOCK_SIZE + (start + i)) mod BLOCK_SIZE = start + i" by simp_all
    then show ?thesis
      using that assms(4) len by (simp add: fbyte_def zk w(7) add.assoc bput_nth)
  qed
  have old: "fbyte g B' n = fbyte g ?B n" if n: "n div BLOCK_SIZE < 7" "zn g ?B (n div BLOCK_SIZE) \<noteq> 0"
    "n < k * BLOCK_SIZE + start \<or> k * BLOCK_SIZE + start + List.length bs \<le> n" for n
  proof -
    let ?j = "n div BLOCK_SIZE"
    have z1: "zn g B1 ?j = zn g ?B ?j" "zn g B1 ?j \<noteq> 0" using b(6) [OF n(1,2)] n(2) by simp_all
    have same: "B1 (gdev g) (zn g B1 ?j) = ?B (gdev g) (zn g B1 ?j)" by (rule b(10)) (use zr [OF n(1) z1(2)] in simp)
    show ?thesis
    proof (cases "?j = k")
      case True
      have "n = n div BLOCK_SIZE * BLOCK_SIZE + n mod BLOCK_SIZE" by simp
      with True have "n = k * BLOCK_SIZE + n mod BLOCK_SIZE" by simp
      then have "n mod BLOCK_SIZE < start \<or> start + List.length bs \<le> n mod BLOCK_SIZE" using n(3) by linarith
      moreover have "n mod BLOCK_SIZE < BLOCK_SIZE" by (simp add: BLOCK_SIZE_def)
      ultimately have "bput start bs (B1 (gdev g) ?z) ! (n mod BLOCK_SIZE) = B1 (gdev g) ?z ! (n mod BLOCK_SIZE)"
        using assms(4) len by (auto simp: bput_nth)
      moreover have "fbyte g B' n = bput start bs (B1 (gdev g) ?z) ! (n mod BLOCK_SIZE)"
        by (simp add: fbyte_def True zk w(7))
      moreover have "fbyte g ?B n = B1 (gdev g) ?z ! (n mod BLOCK_SIZE)"
        using same z1(1) by (simp add: fbyte_def True)
      ultimately show ?thesis by simp
    next
      case False
      have "zn g B1 ?j \<noteq> ?z" using ok(2) n(1) assms(2) z1(2) False by (auto simp: cont_def)
      then have "B' (gdev g) (zn g B1 ?j) = B1 (gdev g) (zn g B1 ?j)" by (intro w(8)) (use zr [OF n(1) z1(2)] in simp)
      then show ?thesis using same z1(1) by (simp add: fbyte_def w(4) [OF n(1)])
    qed
  qed
  have frame: "foreign g B' d e \<and> B' d e = ?B d e" if f: "foreign g ?B d e" for d e
  proof (cases "d = gdev g")
    case False
    then show ?thesis using w(8) b(10) by (simp add: foreign_def)
  next
    case True
    with f have e: "e \<noteq> gib g" "e \<noteq> gzb g" "e \<notin> zfree g ?B" "\<And>j. j < 7 \<Longrightarrow> zn g ?B j \<noteq> e" by (auto simp: foreign_def)
    have z: "zn g B1 j \<noteq> e" if "j < 7" for j using b(7) [OF that] e(3,4) that by metis
    then have "B' d e = B1 d e" using assms(2) e(1) by (intro w(8)) auto
    moreover have "B1 d e = ?B d e" using e(1,2) by (intro b(10)) simp
    ultimately show ?thesis using e z b(9) w(4,6) by (auto simp: foreign_def)
  qed
  have "enough g B'" using b(5) w(4,6) by (simp add: enough_def cong: conj_cong)
  moreover have "zn g B' j = zn g ?B j" if "j < 7" "zn g ?B j \<noteq> 0" for j using b(6) [OF that] w(4) [OF that(1)] by simp
  ultimately show ?thesis
    using b(1,2,8,11) w(1,5,9) moved_trans [OF b(3) w(2)] ok' zk new old frame
    by (intro exI [of _ ?z] exI [of _ s1] exI [of _ s'] exI [of _ B']) auto
qed

lemma file_write_loop:
  assumes "fs_ok g sb p s" and "enough g (blk (cache s))" and "o' + List.length src \<le> 7 * BLOCK_SIZE"
  shows "\<exists>s' B'. write_loop p (int o') src s = Some (int (o' + List.length src), s') \<and> moved g s s' B' \<and> fs_ok g sb p s' \<and>
    enough g B' \<and> gmode g B' = gmode g (blk (cache s)) \<and>
    fsize g B' = (if src = [] then fsize g (blk (cache s)) else max (fsize g (blk (cache s))) (o' + List.length src)) \<and>
    (\<forall>j<7. zn g (blk (cache s)) j \<noteq> 0 \<longrightarrow> zn g B' j = zn g (blk (cache s)) j) \<and>
    (\<forall>i<List.length src. zn g B' ((o' + i) div BLOCK_SIZE) \<noteq> 0 \<and> fbyte g B' (o' + i) = src ! i) \<and>
    (\<forall>n. n div BLOCK_SIZE < 7 \<longrightarrow> zn g (blk (cache s)) (n div BLOCK_SIZE) \<noteq> 0 \<longrightarrow>
      n < o' \<or> o' + List.length src \<le> n \<longrightarrow> fbyte g B' n = fbyte g (blk (cache s)) n) \<and>
    (\<forall>d b. foreign g (blk (cache s)) d b \<longrightarrow> foreign g B' d b \<and> B' d b = blk (cache s) d b)"
  using assms
proof (induction "List.length src" arbitrary: o' src s rule: less_induct)
  case less
  let ?B = "blk (cache s)"
  show ?case
  proof (cases "src = []")
    case True
    have "moved g s s ?B" using less.prems(1) by (simp add: moved_def fs_ok_def)
    with True less.prems show ?thesis by (intro exI [of _ s] exI [of _ ?B]) (simp add: write_loop.simps)
  next
    case False
    let ?k = "o' div BLOCK_SIZE" and ?st = "o' mod BLOCK_SIZE"
    let ?c = "min (BLOCK_SIZE - ?st) (List.length src)"
    let ?bs = "take ?c src"
    have l0: "0 < List.length src" using False by simp
    then have o7: "o' < 7168" using less.prems(3) unfolding BLOCK_SIZE_def by linarith
    then have small: "o' < 2147483648" by simp
    note e = offset_eqs [OF small]
    have k: "?k < 7" using o7 by (simp add: BLOCK_SIZE_def)
    have c: "0 < ?c" "?c \<le> List.length src" "?st + ?c \<le> BLOCK_SIZE" "List.length ?bs = ?c"
      using l0 by (simp_all add: BLOCK_SIZE_def)
    have ks: "?k * BLOCK_SIZE + ?st = o'" by simp
    have v: "o' + ?c < 4294967296" using less.prems(3) c(2) by (simp add: BLOCK_SIZE_def)
    have "?st + List.length ?bs \<le> BLOCK_SIZE" using c by simp
    from write_round [OF less.prems(1) k less.prems(2) this v] obtain z s1 s2 B2 where
      r: "bmap p ?k True s = Some (z, s1)" "z \<noteq> 0" "write_block p z (int (o' + ?c)) ?st ?bs s1 = Some s2" "moved g s s2 B2"
        "fs_ok g sb p s2" "enough g B2" "fsize g B2 = max (fsize g ?B) (o' + ?c)" "gmode g B2 = gmode g ?B" "zn g B2 ?k \<noteq> 0"
        "\<And>j. j < 7 \<Longrightarrow> zn g ?B j \<noteq> 0 \<Longrightarrow> zn g B2 j = zn g ?B j"
        "\<And>i. i < ?c \<Longrightarrow> fbyte g B2 (o' + i) = ?bs ! i"
        "\<And>n. n div BLOCK_SIZE < 7 \<Longrightarrow> zn g ?B (n div BLOCK_SIZE) \<noteq> 0 \<Longrightarrow> n < o' \<or> o' + ?c \<le> n \<Longrightarrow> fbyte g B2 n = fbyte g ?B n"
        "\<And>d b. foreign g ?B d b \<Longrightarrow> foreign g B2 d b \<and> B2 d b = ?B d b"
      unfolding c(4) ks by blast
    have B2: "blk (cache s2) = B2" using r(4) by (simp add: moved_def)
    have "List.length (drop ?c src) < List.length src" using l0 c(1) by simp
    note shorter = this
    have ld: "List.length (drop ?c src) = List.length src - ?c" "o' + ?c + (List.length src - ?c) = o' + List.length src"
      using c(2) by simp_all
    have "enough g (blk (cache s2))" "o' + ?c + List.length (drop ?c src) \<le> 7 * BLOCK_SIZE"
      using r(6) B2 less.prems(3) by (simp_all add: ld)
    from less.hyps [OF shorter r(5) this, unfolded B2 ld] obtain s' B' where
      i: "write_loop p (int (o' + ?c)) (drop ?c src) s2 = Some (int (o' + List.length src), s')" "moved g s2 s' B'" "fs_ok g sb p s'"
        "enough g B'" "gmode g B' = gmode g B2"
        "fsize g B' = (if drop ?c src = [] then fsize g B2 else max (fsize g B2) (o' + List.length src))"
        "\<And>j. j < 7 \<Longrightarrow> zn g B2 j \<noteq> 0 \<Longrightarrow> zn g B' j = zn g B2 j"
        "\<And>i. i < List.length src - ?c \<Longrightarrow> zn g B' ((o' + ?c + i) div BLOCK_SIZE) \<noteq> 0 \<and> fbyte g B' (o' + ?c + i) = drop ?c src ! i"
        "\<And>n. n div BLOCK_SIZE < 7 \<Longrightarrow> zn g B2 (n div BLOCK_SIZE) \<noteq> 0 \<Longrightarrow> n < o' + ?c \<or> o' + List.length src \<le> n \<Longrightarrow> fbyte g B' n = fbyte g B2 n"
        "\<And>d b. foreign g B2 d b \<Longrightarrow> foreign g B' d b \<and> B' d b = B2 d b"
      by blast
    have s32: "s32 (int o' + int ?c) = int (o' + ?c)" using v o7 by (simp add: BLOCK_SIZE_def)
    have w: "write_loop p (int o') src s = Some (int (o' + List.length src), s')"
      using False r(1-3) i(1) by (subst write_loop.simps) (simp add: e s32 Let_def)
    have new: "zn g B' ((o' + i) div BLOCK_SIZE) \<noteq> 0 \<and> fbyte g B' (o' + i) = src ! i" if "i < List.length src" for i
    proof (cases "i < ?c")
      case True
      with c(3) have "?st + i < BLOCK_SIZE" by linarith
      then have d: "(o' + i) div BLOCK_SIZE = ?k" using div_mod_add by blast
      have "zn g B' ?k \<noteq> 0" using i(7) [OF k r(9)] r(9) by simp
      moreover have "fbyte g B' (o' + i) = fbyte g B2 (o' + i)" by (rule i(9)) (use d k r(9) True in simp_all)
      ultimately show ?thesis using d r(11) [OF True] True by simp
    next
      case False
      then have "o' + ?c + (i - ?c) = o' + i" "i - ?c < List.length src - ?c" using that by simp_all
      then show ?thesis using i(8) [of "i - ?c"] c(2) False by simp
    qed
    have old: "fbyte g B' n = fbyte g ?B n" if "n div BLOCK_SIZE < 7" "zn g ?B (n div BLOCK_SIZE) \<noteq> 0" "n < o' \<or> o' + List.length src \<le> n" for n
    proof -
      have "fbyte g B2 n = fbyte g ?B n" by (rule r(12)) (use that c(2) in auto)
      moreover have "fbyte g B' n = fbyte g B2 n" by (rule i(9)) (use that r(10) in auto)
      ultimately show ?thesis by simp
    qed
    have size: "fsize g B' = max (fsize g ?B) (o' + List.length src)"
      using i(6) r(7) c(2) by (cases "?c = List.length src") (auto simp: max_def)
    have "zn g B' j = zn g ?B j" if "j < 7" "zn g ?B j \<noteq> 0" for j using that r(10) [OF that] i(7) by simp
    moreover have "foreign g B' d b \<and> B' d b = ?B d b" if "foreign g ?B d b" for d b using r(13) [OF that] i(10) by simp
    ultimately show ?thesis
      using w moved_trans [OF r(4) i(2)] i(3,4,5) r(8) size new old False
      by (intro exI [of _ s'] exI [of _ B']) simp
  qed
qed

section \<open>A file is a sequence of bytes\<close>

definition contents :: "geom \<Rightarrow> disk \<Rightarrow> bytes" where
  "contents g B = map (fbyte g B) [0..<fsize g B]"

end
