(* ===== verification/FileData.thy ===== *)
theory FileData
  imports FileIO
begin

text \<open>
  A file as a sequence of bytes: \<open>inode_write\<close> of \<open>src/src/fs/inode.c\<close> replaces a stretch of it and
  \<open>inode_read\<close> gives a stretch back, whatever the blocks and zones below. The witnesses are evaluated on a
  disk of twenty blocks with a file of three bytes.
\<close>

text \<open>Every block up to the size has a zone.\<close>

definition dense :: "geom \<Rightarrow> disk \<Rightarrow> bool" where
  "dense g B \<longleftrightarrow> fsize g B \<le> 7 * BLOCK_SIZE \<and> (\<forall>k. k * BLOCK_SIZE < fsize g B \<longrightarrow> zn g B k \<noteq> 0)"

lemma d_mode_ok: "fs_ok g sb p s \<Longrightarrow> d_mode p s = gmode g (blk (cache s))"
  using desc_linked(1) [of g sb p s] by (simp add: fs_ok_def d_mode_def gmode_def)

lemma d_size_ok: "fs_ok g sb p s \<Longrightarrow> d_size p s = fsize g (blk (cache s))"
  using desc_linked(2) [of g sb p s] by (simp add: fs_ok_def)

lemma fs_ok_atime: "fs_ok g sb p s \<Longrightarrow> fs_ok g sb p (upd_inode p (\<lambda>i. i\<lparr>iatime := t\<rparr>) s)"
  by (auto simp: fs_ok_def linked_def upd_inode_def get_super_def)

lemma inode_read_ok:
  assumes "fs_ok g sb p s" and "dense g (blk (cache s))" and "ISFILE (d_mode p s) \<or> ISDIR (d_mode p s)" and "n < 2147483648"
    and that: "off < 2147483648"
  shows "\<exists>s'. inode_read p n (int off) s =
      Some (if off < fsize g (blk (cache s)) then int (List.length (take n (drop off (contents g (blk (cache s)))))) else EOF,
        take n (drop off (contents g (blk (cache s)))), s') \<and> fs_ok g sb p s' \<and> blk (cache s') = blk (cache s)"
proof (cases "off < fsize g (blk (cache s))")
  case False
  then show ?thesis
    using assms(1,3) that d_size_ok [OF assms(1)] by (intro exI [of _ s]) (simp add: inode_read_def contents_def)
next
  case True
  let ?B = "blk (cache s)"
  let ?n = "min n (fsize g ?B - off)"
  have f7: "fsize g ?B \<le> 7168" using assms(2) by (simp add: dense_def BLOCK_SIZE_def)
  have "off + ?n \<le> 7 * BLOCK_SIZE" using f7 True by (simp add: BLOCK_SIZE_def)
  moreover have "zn g ?B k \<noteq> 0" if "k * BLOCK_SIZE < off + ?n" for k
    using assms(2) that True by (simp add: dense_def)
  ultimately obtain s1 where s1: "read_loop p (int off) ?n [] s = Some (int (off + ?n), map (fbyte g ?B) [off..<off + ?n], s1)"
    "moved g s s1 ?B"
    using read_loop_ok [OF assms(1), of off ?n "[]"] by auto
  have c: "cont g ?B" using assms(1) by (simp add: fs_ok_def)
  have ok1: "fs_ok g sb p s1" by (rule fs_ok_moved [OF assms(1) s1(2) refl c])
  have bytes: "map (fbyte g ?B) [off..<off + ?n] = take n (drop off (contents g ?B))"
    using True by (intro nth_equalityI) (auto simp: contents_def less_diff_conv add.commute)
  let ?s' = "upd_inode p (\<lambda>i. i\<lparr>iatime := clock s1\<rparr>) s1"
  have "off + ?n < 4294967296" using True f7 by linarith
  then have u: "u32_of (int (off + ?n)) = off + ?n" "u32_of (int off) = off" "w32_sub (fsize g ?B) off = fsize g ?B - off"
    "w32_sub (off + ?n) off = ?n" "s32 (int ?n) = int ?n"
    using True f7 by (intro u32_of_int | simp)+
  have "inode_read p n (int off) s = Some (int ?n, take n (drop off (contents g ?B)), ?s')"
    using True assms(3) d_size_ok [OF assms(1)] unfolding bytes [symmetric]
    by (simp only: inode_read_def u s1(1) cassert_simps bind.bind_lunit Let_def prod.case) simp
  moreover have "?n = List.length (take n (drop off (contents g ?B)))" by (simp add: contents_def)
  moreover have "blk (cache ?s') = ?B" using s1(2) by (simp add: upd_inode_def moved_def)
  ultimately show ?thesis using True fs_ok_atime [OF ok1] by auto
qed

lemma contents_splice:
  assumes "dense g B" and "dense g B'" and "n \<le> fsize g B" and "src \<noteq> []"
    and "fsize g B' = max (fsize g B) (n + List.length src)"
    and "\<And>i. i < List.length src \<Longrightarrow> fbyte g B' (n + i) = src ! i"
    and "\<And>m. m < fsize g B \<Longrightarrow> m < n \<or> n + List.length src \<le> m \<Longrightarrow> fbyte g B' m = fbyte g B m"
  shows "contents g B' = take n (contents g B) @ src @ drop (n + List.length src) (contents g B)"
proof (rule nth_equalityI)
  show "List.length (contents g B') = List.length (take n (contents g B) @ src @ drop (n + List.length src) (contents g B))"
    using assms(3,5) by (simp add: contents_def)
  fix m assume m: "m < List.length (contents g B')"
  then have "m < max (fsize g B) (n + List.length src)" by (simp add: contents_def assms(5))
  then consider "m < n" | "n \<le> m" "m < n + List.length src" | "n + List.length src \<le> m" "m < fsize g B" by linarith
  then show "contents g B' ! m = (take n (contents g B) @ src @ drop (n + List.length src) (contents g B)) ! m"
  proof cases
    case 1
    then show ?thesis using assms(3,5,7) m by (simp add: contents_def nth_append)
  next
    case 2
    then have "m - n < List.length src" by linarith
    with 2 show ?thesis using assms(3,5) assms(6) [of "m - n"] m by (simp add: contents_def nth_append)
  next
    case 3
    then have "\<not> m - n < List.length src" by linarith
    with 3 show ?thesis using assms(3,5,7) m by (simp add: contents_def nth_append)
  qed
qed

lemma put_mtime:
  assumes "gok g" and "List.length (B (gdev g) (gib g)) = BLOCK_SIZE"
    and "B' (gdev g) (gib g) = bput (goff g + 8) (bytes32 v) (B (gdev g) (gib g))"
  shows "j < 7 \<Longrightarrow> zn g B' j = zn g B j" and "fsize g B' = fsize g B" and "gmode g B' = gmode g B"
    and "List.length (B' (gdev g) (gib g)) = BLOCK_SIZE"
proof -
  have o': "goff g \<le> 992" using assms(1) by (simp add: gok_def)
  have l: "List.length (bytes32 v) = 4" by (simp add: bytes32_def bytes16_def)
  show len: "List.length (B' (gdev g) (gib g)) = BLOCK_SIZE"
    unfolding assms(3) using assms(2) o' by (subst length_bput) (simp_all add: l BLOCK_SIZE_def)
  have e: "get16 (B' (gdev g) (gib g)) i = get16 (B (gdev g) (gib g)) i"
    if "i + 1 < BLOCK_SIZE" "i + 2 \<le> goff g + 8 \<or> goff g + 12 \<le> i" for i
    unfolding assms(3) by (rule get16_bput_other) (use assms(2) o' that in \<open>auto simp: l BLOCK_SIZE_def\<close>)
  note ats = zn_at [where B = B', OF assms(1) len] zn_at [where B = B, OF assms(1,2)]
    fsize_at [where B = B', OF assms(1) len] fsize_at [where B = B, OF assms(1,2)]
    gmode_at [where B = B', OF assms(1) len] gmode_at [where B = B, OF assms(1,2)]
  show "zn g B' j = zn g B j" if "j < 7" using that o' by (simp add: ats e BLOCK_SIZE_def)
  show "fsize g B' = fsize g B" "gmode g B' = gmode g B" using o' by (simp_all add: ats e get32_def BLOCK_SIZE_def)
qed

text \<open>The end of \<open>inode_write\<close>: the times; the buffer is not marked for them.\<close>

lemma mtime_ok:
  fixes s :: fs_t and v t :: nat
  assumes "fs_ok g sb p s"
  defines "s' \<equiv> fs_bwrite (ibuf (inodes s ! p)) (upd_inode p (\<lambda>i. i\<lparr>iatime := t\<rparr>) (set_mtime p v s))"
  shows "fs_ok g sb p s' \<and> (\<forall>j<7. zn g (blk (cache s')) j = zn g (blk (cache s)) j) \<and>
    fsize g (blk (cache s')) = fsize g (blk (cache s)) \<and> gmode g (blk (cache s')) = gmode g (blk (cache s)) \<and>
    zfree g (blk (cache s')) = zfree g (blk (cache s)) \<and>
    (\<forall>d b. d \<noteq> gdev g \<or> b \<noteq> gib g \<longrightarrow> blk (cache s') d b = blk (cache s) d b)"
proof -
  let ?B = "blk (cache s)" and ?q = "ibuf (inodes s ! p)" and ?f = "bput (goff g + 8) (bytes32 v)"
  have ok: "binv (cache s)" "gok g" "cont g ?B" "linked g sb p s" "lost (cache s) \<subseteq> {(gdev g, gib g)}"
    using assms(1) by (simp_all add: fs_ok_def)
  have q: "pinned (cache s) ?q (gdev g) (gib g)" "gib g < 2147483648" using ok(2,4) by (auto simp: linked_def gok_def)
  let ?s1 = "fs_store False ?q ?f s"
  note st = fs.store_law [OF ok(1) q, of False ?f]
  have q1: "pinned (cache ?s1) ?q (gdev g) (gib g)" using st q(1) by simp
  note fl = fs.flush_law [OF conjunct1 [OF st] q1]
  let ?s2 = "fs_bwrite ?q ?s1"
  let ?B' = "put_block (gdev g) (gib g) ?f ?B"
  have "lost (cache ?s1) \<subseteq> {(gdev g, gib g)}" using st ok(5) by (auto split: if_splits)
  then have m: "moved g s ?s2 ?B'" unfolding moved_def using st fl by simp
  have len: "List.length (?B (gdev g) (gib g)) = BLOCK_SIZE" using ok(3) q(2) by (simp add: cont_def)
  note pm = put_mtime [where B = ?B and B' = ?B' and v = v, OF ok(2) len]
  have zf: "zfree g ?B' = zfree g ?B" using ok(2) by (intro zfree_cong) (simp add: put_block_other gok_def)
  have "cont g ?B'"
  proof (rule cont_cong [OF ok(3)])
    show "List.length (?B' d b) = BLOCK_SIZE" if "b < 2147483648" for d b
      using that pm(4) ok(3) by (cases "(d, b) = (gdev g, gib g)") (auto simp: put_block_other cont_def)
  qed (use pm zf in simp_all)
  then have "fs_ok g sb p ?s2"
    using fs_ok_moved [OF assms(1) m] ok(2) by (simp add: put_block_other gok_def)
  moreover have "s' = upd_inode p (\<lambda>i. i\<lparr>iatime := t\<rparr>) ?s2"
    using ok(4) by (simp add: s'_def set_mtime_def set_desc_def set_data_store linked_def fs_bwrite_def upd_inode_def fs_store_def)
  moreover have "blk (cache ?s2) = ?B'" using m by (simp add: moved_def)
  ultimately show ?thesis
    using fs_ok_atime pm zf by (simp add: upd_inode_def put_block_other)
qed

text \<open>Bytes inside a dense file lie in allocated zones.\<close>

lemma dense_block:
  assumes "dense g B" and "m < fsize g B"
  shows "m div BLOCK_SIZE < 7" and "zn g B (m div BLOCK_SIZE) \<noteq> 0"
proof -
  have "m div BLOCK_SIZE * BLOCK_SIZE \<le> m" by simp
  then have "m div BLOCK_SIZE * BLOCK_SIZE < fsize g B" using assms(2) by linarith
  with assms show "zn g B (m div BLOCK_SIZE) \<noteq> 0" by (simp add: dense_def)
  have "m < 7 * BLOCK_SIZE" using assms by (simp add: dense_def)
  then show "m div BLOCK_SIZE < 7" by (simp add: BLOCK_SIZE_def)
qed

text \<open>The loop of \<open>inode_write\<close>, in terms of the contents of the file.\<close>

lemma write_loop_contents:
  assumes "fs_ok g sb p s" and "dense g (blk (cache s))" and "enough g (blk (cache s))"
    and "n \<le> fsize g (blk (cache s))" and "n + List.length src \<le> 7 * BLOCK_SIZE" and "src \<noteq> []"
  shows "\<exists>s'. write_loop p (int n) src s = Some (int (n + List.length src), s') \<and> fs_ok g sb p s' \<and>
    dense g (blk (cache s')) \<and> gmode g (blk (cache s')) = gmode g (blk (cache s)) \<and>
    contents g (blk (cache s')) = take n (contents g (blk (cache s))) @ src @ drop (n + List.length src) (contents g (blk (cache s))) \<and>
    (\<forall>d b. foreign g (blk (cache s)) d b \<longrightarrow> blk (cache s') d b = blk (cache s) d b)"
proof -
  let ?B = "blk (cache s)"
  obtain s1 B1 where l: "write_loop p (int n) src s = Some (int n + int (List.length src), s1)"
    and mv: "moved g s s1 B1" and ok: "fs_ok g sb p s1" and mode: "gmode g B1 = gmode g ?B"
    and size: "fsize g B1 = max (fsize g ?B) (n + List.length src)"
    and olds: "\<forall>j<7. 0 < zn g ?B j \<longrightarrow> zn g B1 j = zn g ?B j"
    and news: "\<forall>i<List.length src. 0 < zn g B1 ((n + i) div BLOCK_SIZE) \<and> fbyte g B1 (n + i) = src ! i"
    and keeps: "\<forall>m. m div BLOCK_SIZE < 7 \<longrightarrow> 0 < zn g ?B (m div BLOCK_SIZE) \<longrightarrow> (m < n \<longrightarrow> fbyte g B1 m = fbyte g ?B m) \<and>
      (n + List.length src \<le> m \<longrightarrow> fbyte g B1 m = fbyte g ?B m)"
    and others: "\<forall>d b. foreign g ?B d b \<longrightarrow> foreign g B1 d b \<and> B1 d b = ?B d b"
    using file_write_loop [OF assms(1,3,5)] assms(6) by auto
  have B1: "blk (cache s1) = B1" using mv by (simp add: moved_def)
  note blocks = dense_block [OF assms(2)]
  have "zn g B1 k \<noteq> 0" if k: "k * BLOCK_SIZE < fsize g B1" for k
  proof (cases "k * BLOCK_SIZE < fsize g ?B")
    case True
    then have "k < 7" "zn g ?B k \<noteq> 0" using blocks [of "k * BLOCK_SIZE"] by (simp_all add: BLOCK_SIZE_def)
    with olds show ?thesis by simp
  next
    case False
    with k size assms(4) have "n \<le> k * BLOCK_SIZE" "k * BLOCK_SIZE - n < List.length src" by (auto simp: max_def split: if_splits)
    with news [rule_format, of "k * BLOCK_SIZE - n"] show ?thesis by (simp add: BLOCK_SIZE_def)
  qed
  then have d1: "dense g B1" using assms(2,5) size by (simp add: dense_def)
  have "contents g B1 = take n (contents g ?B) @ src @ drop (n + List.length src) (contents g ?B)"
    by (rule contents_splice [OF assms(2) d1 assms(4,6) size]) (use news keeps blocks in auto)
  with l ok mode d1 others show ?thesis by (intro exI [of _ s1]) (simp add: B1)
qed

text \<open>The times do not touch the contents.\<close>

lemma contents_same:
  assumes "cont g B" and "gok g" and "dense g B" and "\<forall>j<7. zn g B' j = zn g B j" and "fsize g B' = fsize g B"
    and "\<forall>d b. d \<noteq> gdev g \<or> b \<noteq> gib g \<longrightarrow> B' d b = B d b"
  shows "dense g B' \<and> contents g B' = contents g B"
proof
  show "dense g B'"
    unfolding dense_def assms(5)
  proof (intro conjI allI impI)
    show "fsize g B \<le> 7 * BLOCK_SIZE" using assms(3) by (simp add: dense_def)
    fix k assume k: "k * BLOCK_SIZE < fsize g B"
    from dense_block [OF assms(3) k] show "zn g B' k \<noteq> 0" using assms(4) by (simp add: BLOCK_SIZE_def)
  qed
  have "fbyte g B' m = fbyte g B m" if m: "m < fsize g B" for m
  proof -
    note b = dense_block [OF assms(3) m]
    then have "zn g B (m div BLOCK_SIZE) \<noteq> gib g" using assms(1,2) by (auto simp: cont_def gok_def)
    then have "B' (gdev g) (zn g B (m div BLOCK_SIZE)) = B (gdev g) (zn g B (m div BLOCK_SIZE))" using assms(6) by simp
    then show ?thesis using assms(4) b by (simp add: fbyte_def)
  qed
  then show "contents g B' = contents g B" by (simp add: contents_def assms(5))
qed

section \<open>Properties\<close>

text \<open>\<open>inode_write\<close> replaces a stretch of the file: the file is a sequence of bytes, and after a write
  of \<open>src\<close> at an offset inside the file or at its end the bytes before and behind are the same, with the
  size grown if necessary. It returns the number of bytes; zones are allocated as they are needed, and no
  block changes that belongs to something else. The file stays within its direct zones.\<close>

lemma inode_write_contents:
  assumes "fs_ok g sb p s" and "dense g (blk (cache s))" and "enough g (blk (cache s))" and "ISFILE (d_mode p s)"
    and "n \<le> fsize g (blk (cache s))" and "n + List.length src \<le> 7 * BLOCK_SIZE" and "src \<noteq> []"
  shows "\<exists>s'. inode_write p src (int n) s = Some (int (List.length src), s') \<and> fs_ok g sb p s' \<and>
    dense g (blk (cache s')) \<and> d_mode p s' = d_mode p s \<and>
    contents g (blk (cache s')) = take n (contents g (blk (cache s))) @ src @ drop (n + List.length src) (contents g (blk (cache s))) \<and>
    (\<forall>d b. foreign g (blk (cache s)) d b \<longrightarrow> blk (cache s') d b = blk (cache s) d b)"
proof -
  let ?B = "blk (cache s)"
  obtain s1 where w: "write_loop p (int n) src s = Some (int (n + List.length src), s1)" "fs_ok g sb p s1"
      "dense g (blk (cache s1))" "gmode g (blk (cache s1)) = gmode g ?B"
    and c1: "contents g (blk (cache s1)) = take n (contents g ?B) @ src @ drop (n + List.length src) (contents g ?B)"
    and o1: "\<forall>d b. foreign g ?B d b \<longrightarrow> blk (cache s1) d b = ?B d b"
    using write_loop_contents [OF assms(1-3,5-7)] by blast
  note mt = mtime_ok [OF w(2), of "clock (set_mtime p (clock s1) s1)" "clock s1"]
  let ?s2 = "fs_bwrite (ibuf (inodes s1 ! p)) (upd_inode p (\<lambda>i. i\<lparr>iatime := clock (set_mtime p (clock s1) s1)\<rparr>) (set_mtime p (clock s1) s1))"
  have small: "n + List.length src < 2147483648" using assms(6) by (simp add: BLOCK_SIZE_def)
  have "inode_write p src (int n) s = Some (int (List.length src), ?s2)"
  proof -
    have "p < List.length (inodes s1)" using w(2) by (simp add: fs_ok_def linked_def)
    then have "ibuf (inodes (upd_inode p (\<lambda>i. i\<lparr>iatime := clock s1\<rparr>) (set_mtime p (clock s1) s1)) ! p) = ibuf (inodes s1 ! p)"
      by (simp add: upd_inode_def set_mtime_def set_desc_def set_data_def)
    moreover have "clock (set_mtime p (clock s1) s1) = clock s1" by (simp add: set_mtime_def set_desc_def set_data_def)
    moreover have u: "u32_of (int (n + List.length src)) = n + List.length src" "u32_of (int n) = n"
      "w32_sub (n + List.length src) n = List.length src" "s32 (int (List.length src)) = int (List.length src)"
      using small by (intro u32_of_int | simp)+
    ultimately show ?thesis
      using assms(4) by (simp only: inode_write_def w(1) u cassert_simps bind.bind_lunit Let_def prod.case)
  qed
  moreover have "dense g (blk (cache ?s2)) \<and> contents g (blk (cache ?s2)) = contents g (blk (cache s1))"
    by (rule contents_same) (use w(2,3) mt in \<open>auto simp: fs_ok_def\<close>)
  moreover have "blk (cache ?s2) d b = ?B d b" if f: "foreign g ?B d b" for d b
    using f mt o1 by (simp add: foreign_def)
  moreover have "d_mode p ?s2 = d_mode p s"
    using d_mode_ok [OF assms(1)] d_mode_ok [OF conjunct1 [OF mt]] mt w(4) by simp
  ultimately show ?thesis using mt c1 by (intro exI [of _ ?s2]) simp
qed

section \<open>A disk\<close>

text \<open>Block 1 is the super block (20 zones, the first data zone is 5), block 3 the map of zones (zones 4 and 5
  are taken), block 4 the i-nodes; the first i-node is a file of three bytes in zone 5.\<close>

definition demo_block :: "nat \<Rightarrow> bytes" where
  "demo_block b =
     (if b = 1 then [32, 0, 20, 0, 1, 0, 1, 0, 5, 0] @ replicate 1014 0
      else if b = 3 then [3, 0] @ replicate 1022 255
      else if b = 4 then [164, 129, 0, 0, 3, 0, 0, 0, 0, 0, 0, 0, 0, 1, 5] @ replicate 1009 0
      else replicate 1024 (of_nat b))"

definition demo_buf :: "nat \<Rightarrow> buffer_t" where
  "demo_buf b = \<lparr>bdata = demo_block b, bdev = 1, bblock = b, bcount = 1, dirty = False, valid = True\<rparr>"

definition demo_cache :: bcache where
  "demo_cache = \<lparr>bufs = [demo_buf 1, demo_buf 3, demo_buf 4],
     htable = (replicate 31 [])[0 := [0], 2 := [1], 5 := [2]], free_list = [], disk = (\<lambda>d k. demo_block (k div 2))\<rparr>"

definition demo_fs :: fs_t where
  "demo_fs = \<lparr>cache = demo_cache,
     inodes = [\<lparr>idesc = 0, ibuf = 2, idev = 1, inr = 1, icount = 1, iatime = 0, ictime = 0, imnt = 0, ipipe = False\<rparr>],
     supers = replicate 16 \<lparr>sbuf = 0, imaps = [], zmaps = [Some 1], sdev = 1, scount = 1, inode_list = [0], sroot = Some 0, smount = None\<rparr>,
     root = 0, clock = 0, released = []\<rparr>"

definition demo_geom :: geom where
  "demo_geom = \<lparr>gdev = 1, gib = 4, goff = 0, gzb = 3, gfdz = 5, gzones = 20\<rparr>"

lemmas demo_defs = demo_cache_def demo_fs_def demo_geom_def demo_buf_def

lemma demo_block_length [simp]: "List.length (demo_block b) = 1024"
  by (simp add: demo_block_def)

lemma demo_at: "at demo_cache p d b \<longleftrightarrow> d = 1 \<and> (p = 0 \<and> b = 1 \<or> p = 1 \<and> b = 3 \<or> p = 2 \<and> b = 4)"
proof -
  consider "p = 0" | "p = 1" | "p = 2" | "2 < p" by linarith
  then show ?thesis by cases (auto simp: at_def demo_defs)
qed

lemma demo_hash: "hash 1 1 = 0" "hash 1 (Suc 0) = 0" "hash 1 3 = 2" "hash 1 4 = 5"
  by code_simp+

lemma demo_cache_binv: "binv demo_cache"
proof -
  have "htab_ok {} demo_cache"
    unfolding htab_ok_def
  proof (intro conjI allI impI)
    fix i p assume "i < HASH_COUNT"
    show "p \<in> set (htable demo_cache ! i) \<longleftrightarrow> p < List.length (bufs demo_cache) \<and> p \<notin> {} \<and>
        hash (bdev (bufs demo_cache ! p)) (bblock (bufs demo_cache ! p)) = i"
    proof -
      consider "p = 0" | "p = 1" | "p = 2" | "2 < p" by linarith
      then show ?thesis
        using \<open>i < HASH_COUNT\<close> by cases (auto simp: demo_defs HASH_COUNT_def nth_list_update demo_hash)
    qed
  qed (auto simp: demo_defs HASH_COUNT_def nth_list_update)
  moreover have "\<forall>b\<in>set (bufs demo_cache). buf_ok demo_cache b \<and> bcount b \<noteq> 0"
    by (simp add: demo_defs buf_ok_def)
  then have all: "\<forall>p<List.length (bufs demo_cache). buf_ok demo_cache (bufs demo_cache ! p) \<and> bcount (bufs demo_cache ! p) \<noteq> 0"
    by simp
  moreover have "\<forall>p q d b. at demo_cache p d b \<longrightarrow> at demo_cache q d b \<longrightarrow> p = q" by (auto simp: demo_at)
  moreover have "distinct (free_list demo_cache)" "set (free_list demo_cache) = {}" by (simp_all add: demo_cache_def)
  moreover have "{p. p < List.length (bufs demo_cache) \<and> bcount (bufs demo_cache ! p) = 0} = {}" using all by blast
  ultimately show ?thesis using all unfolding binv_def by (intro conjI) simp_all
qed

lemma demo_blk: "b < 2147483648 \<Longrightarrow> blk demo_cache d b = demo_block b"
proof -
  assume b: "b < 2147483648"
  have sec: "sector b div 2 = b" using b by (simp add: sector_def BLOCK_SECS_def)
  show ?thesis
  proof (cases "\<exists>p. at demo_cache p d b")
    case True
    then obtain p where p: "at demo_cache p d b" by blast
    then show ?thesis using view_at [OF demo_cache_binv p] b by (auto simp: blk_def demo_at) (auto simp: demo_defs)
  next
    case False
    then show ?thesis using view_not_at [of demo_cache d b] b sec by (simp add: blk_def) (simp add: demo_cache_def)
  qed
qed

lemma demo_refs: "refs demo_cache d b = (if d = 1 \<and> b \<in> {1, 3, 4} then 1 else 0)"
proof (cases "\<exists>p. at demo_cache p d b")
  case True
  then obtain p where p: "at demo_cache p d b" by blast
  then show ?thesis using refs_at [OF demo_cache_binv p] by (auto simp: demo_at) (auto simp: demo_defs)
next
  case False
  then have "refs demo_cache d b = 0" by (simp add: refs_not_at)
  with False show ?thesis by (auto simp: demo_at)
qed

lemma demo_used: "i < 8192 \<Longrightarrow> used (zmap demo_geom (blk demo_cache)) i \<longleftrightarrow> i < 2 \<or> 16 \<le> i"
proof -
  assume i: "i < 8192"
  have full: "bit (255 :: u8) k" if "k < 8" for k
  proof -
    have "k \<in> {0, 1, 2, 3, 4, 5, 6, 7}" using that by auto
    then show ?thesis by auto
  qed
  have low: "bit (3 :: u8) k \<longleftrightarrow> k < 2" for k
  proof -
    have "(3 :: u8) = semiring_bit_operations_class.mask 2" by (simp add: mask_eq_exp_minus_1)
    moreover have "bit (semiring_bit_operations_class.mask 2 :: u8) k \<longleftrightarrow> k < 2" by (auto simp: bit_mask_iff)
    ultimately show ?thesis by simp
  qed
  have m: "bbits (zmap demo_geom (blk demo_cache)) = [3, 0] @ replicate 1022 255"
    using demo_blk [of 3] by (simp add: zmap_def bitmap_make_def demo_geom_def demo_block_def)
  consider "i < 8" | "8 \<le> i" "i < 16" | "16 \<le> i" by linarith
  then show ?thesis
  proof cases
    case 1
    then show ?thesis using low [of i] by (simp add: used_def m)
  next
    case 2
    then have "i div 8 = 1" by simp
    with 2 show ?thesis by (simp add: used_def m)
  next
    case 3
    then have "2 \<le> i div 8" "i div 8 < 1024" using i by simp_all
    then have "bbits (zmap demo_geom (blk demo_cache)) ! (i div 8) = 255" by (simp add: m nth_append)
    with 3 full [of "i mod 8"] show ?thesis by (simp add: used_def)
  qed
qed

lemma demo_zfree: "zfree demo_geom (blk demo_cache) = {6..<20}"
proof -
  let ?m = "zmap demo_geom (blk demo_cache)"
  have off: "boffset ?m = 4" "blength ?m = 1024" by (simp_all add: zmap_def bitmap_make_def demo_geom_def BLOCK_SIZE_def)
  have "x \<in> zfree demo_geom (blk demo_cache) \<longleftrightarrow> x \<in> {6..<20}" for x
  proof (cases "4 \<le> x \<and> x < 8196")
    case True
    then have "x \<in> bm_taken ?m \<longleftrightarrow> used ?m (x - 4)" by (auto simp: bm_taken_def off intro: exI [of _ "x - 4"])
    also have "used ?m (x - 4) \<longleftrightarrow> x < 6 \<or> 20 \<le> x" 
    proof -
      have "x - 4 < 8192" using True by linarith
      from demo_used [OF this] True show ?thesis by linarith
    qed
    finally show ?thesis using True by (auto simp: zfree_def bm_range_def off)
  next
    case False
    then show ?thesis by (auto simp: zfree_def bm_range_def off)
  qed
  then show ?thesis by blast
qed

lemma demo_desc: "gdesc demo_geom (blk demo_cache) = [164, 129, 0, 0, 3, 0, 0, 0, 0, 0, 0, 0, 0, 1, 5] @ replicate 1009 0"
  using demo_blk [of 4] by (simp add: gdesc_def demo_geom_def demo_block_def)

lemma demo_zn: "k < 7 \<Longrightarrow> zn demo_geom (blk demo_cache) k = (if k = 0 then 5 else 0)"
proof -
  assume "k < 7"
  then have "k \<in> {0, 1, 2, 3, 4, 5, 6}" by auto
  then show ?thesis by (auto simp: zn_def demo_desc get16_def nth_append)
qed

lemma demo_size: "fsize demo_geom (blk demo_cache) = 3"
  by (simp add: fsize_def demo_desc get32_def get16_def)

lemma demo_contents: "contents demo_geom (blk demo_cache) = [5, 5, 5]"
proof -
  have "fbyte demo_geom (blk demo_cache) m = 5" if "m < 3" for m
    using that demo_zn [of 0] demo_blk [of 5] by (simp add: fbyte_def BLOCK_SIZE_def demo_geom_def demo_block_def)
  then show ?thesis by (simp add: contents_def demo_size numeral_3_eq_3)
qed

lemma demo_dense: "dense demo_geom (blk demo_cache)"
proof -
  have "zn demo_geom (blk demo_cache) k \<noteq> 0" if "k * 1024 < 3" for k
  proof -
    have "k = 0" using that by (cases k) simp_all
    then show ?thesis using demo_zn [of 0] by simp
  qed
  then show ?thesis by (simp add: dense_def demo_size BLOCK_SIZE_def)
qed

lemma demo_enough: "enough demo_geom (blk demo_cache)"
proof -
  have "{k. k < 7 \<and> zn demo_geom (blk demo_cache) k = 0} \<subseteq> {..<7}" by auto
  from card_mono [OF _ this] show ?thesis by (simp add: enough_def demo_zfree)
qed

lemma demo_lengths: "b < 2147483648 \<Longrightarrow> List.length (blk demo_cache d b) = 1024"
  by (simp add: demo_blk)

lemma demo_fields [simp]: "gfdz demo_geom = 5" "gzones demo_geom = 20" "gdev demo_geom = 1"
  by (simp_all add: demo_geom_def)

lemma demo_cont: "cont demo_geom (blk demo_cache)"
  unfolding cont_def by (auto simp: demo_zn demo_zfree demo_lengths BLOCK_SIZE_def split: if_splits)

lemma demo_fs_ok: "fs_ok demo_geom 0 0 demo_fs"
proof -
  have "referenced (refs demo_cache) \<subseteq> {1} \<times> {1, 3, 4}" by (auto simp: referenced_def demo_refs split: if_splits)
  from card_mono [OF _ this] have "card (referenced (refs demo_cache)) < 3850" by (simp add: card_insert_if)
  moreover have "lost demo_cache = {}"
    by (auto simp: lost_def demo_at loose_def) (auto simp: demo_defs sector_def BLOCK_SECS_def)
  moreover have "linked demo_geom 0 0 demo_fs"
  proof -
    have "get_super 1 demo_fs = Some 0" by (simp add: get_super_def demo_defs SUPER_NR_def upt_rec)
    moreover have "pinned demo_cache 0 1 1" "pinned demo_cache 1 1 3" "pinned demo_cache 2 1 4"
      using demo_at by (simp_all add: pinned_def) (simp_all add: demo_defs)
    moreover have "get16 (blk demo_cache 1 1) 2 = 20" "get16 (blk demo_cache 1 1) 8 = 5"
      using demo_blk [of 1] by (simp_all add: get16_def demo_block_def)
    ultimately show ?thesis by (simp add: linked_def demo_fs_def demo_geom_def)
  qed
  moreover have "cache demo_fs = demo_cache" by (simp add: demo_fs_def)
  ultimately show ?thesis using demo_cache_binv demo_cont by (simp add: fs_ok_def gok_def) (simp add: demo_geom_def)
qed

lemma demo_file: "ISFILE (d_mode 0 demo_fs)"
  unfolding d_mode_ok [OF demo_fs_ok]
  by (simp add: demo_fs_def gmode_def demo_desc get16_def ISFILE_def IFMT_def IFREG_def)

section \<open>Properties\<close>

text \<open>C6. \<open>inode_write\<close> replaces a stretch of the file: the file is a sequence of bytes, and after a write
  of \<open>src\<close> at an offset inside the file or at its end the bytes before and behind are the same, with the
  size grown if necessary. It returns the number of bytes; zones are allocated as they are needed, and no
  block changes that belongs to something else. The file stays within its direct zones.\<close>

theorem inode_write_splices:
  assumes "fs_ok g sb p s" and "dense g (blk (cache s))" and "enough g (blk (cache s))" and "ISFILE (d_mode p s)"
    and "n \<le> fsize g (blk (cache s))" and "n + List.length src \<le> 7 * BLOCK_SIZE" and "src \<noteq> []"
  shows "\<exists>s'. inode_write p src (int n) s = Some (int (List.length src), s') \<and> fs_ok g sb p s' \<and>
    dense g (blk (cache s')) \<and> d_mode p s' = d_mode p s \<and>
    contents g (blk (cache s')) = take n (contents g (blk (cache s))) @ src @ drop (n + List.length src) (contents g (blk (cache s))) \<and>
    (\<forall>d b. foreign g (blk (cache s)) d b \<longrightarrow> blk (cache s') d b = blk (cache s) d b)"
  by (rule inode_write_contents [OF assms])

text \<open>Four bytes at offset two of the file of three.\<close>

theorem inode_write_splices_witness:
  "\<exists>s'. inode_write 0 [7, 8, 9, 10] 2 demo_fs = Some (4, s') \<and> contents demo_geom (blk (cache s')) = [5, 5, 7, 8, 9, 10]"
proof -
  have c: "cache demo_fs = demo_cache" by (simp add: demo_fs_def)
  have "\<exists>s'. inode_write 0 [7, 8, 9, 10] (int 2) demo_fs = Some (int (List.length [7 :: u8, 8, 9, 10]), s') \<and>
      contents demo_geom (blk (cache s')) = take 2 [5, 5, 5] @ [7, 8, 9, 10] @ drop (2 + List.length [7 :: u8, 8, 9, 10]) [5, 5, 5]"
    using inode_write_splices [OF demo_fs_ok, unfolded c, OF demo_dense demo_enough demo_file, of 2 "[7, 8, 9, 10]", unfolded demo_contents]
    by (auto simp: demo_size BLOCK_SIZE_def)
  then show ?thesis by simp
qed

text \<open>C8. What \<open>inode_write\<close> has put into a file \<open>inode_read\<close> gives back, at the same offset and for the
  same count, through the cache, the zones and the map of free zones.\<close>

theorem file_read_back:
  assumes "fs_ok g sb p s" and "dense g (blk (cache s))" and "enough g (blk (cache s))" and "ISFILE (d_mode p s)"
    and "n \<le> fsize g (blk (cache s))" and "n + List.length src \<le> 7 * BLOCK_SIZE" and "src \<noteq> []"
  shows "\<exists>s' s''. inode_write p src (int n) s = Some (int (List.length src), s') \<and>
    inode_read p (List.length src) (int n) s' = Some (int (List.length src), src, s'')"
proof -
  from inode_write_contents [OF assms] obtain s' where w: "inode_write p src (int n) s = Some (int (List.length src), s')"
    "fs_ok g sb p s'" "dense g (blk (cache s'))" "d_mode p s' = d_mode p s"
    and c: "contents g (blk (cache s')) = take n (contents g (blk (cache s))) @ src @ drop (n + List.length src) (contents g (blk (cache s)))"
    by blast
  have n: "List.length (take n (contents g (blk (cache s)))) = n" using assms(5) by (simp add: contents_def)
  have size: "fsize g (blk (cache s')) = List.length (contents g (blk (cache s')))" by (simp add: contents_def)
  then have "n < fsize g (blk (cache s'))" using assms(7) n by (simp add: c)
  moreover have "take (List.length src) (drop n (contents g (blk (cache s')))) = src" using n by (simp add: c)
  moreover have "List.length src < 2147483648" "n < 2147483648" using assms(6) by (simp_all add: BLOCK_SIZE_def)
  ultimately obtain s'' where "inode_read p (List.length src) (int n) s' = Some (int (List.length src), src, s'')"
    using inode_read_ok [OF w(2,3), of "List.length src" n] assms(4) w(4) by auto
  with w(1) show ?thesis by blast
qed

text \<open>A block and more, past the end of the file of three bytes: a new zone is taken.\<close>

theorem file_read_back_witness:
  "\<exists>s' s''. inode_write 0 (replicate 2000 7) 3 demo_fs = Some (2000, s') \<and> inode_read 0 2000 3 s' = Some (2000, replicate 2000 7, s'')"
proof -
  have c: "cache demo_fs = demo_cache" by (simp add: demo_fs_def)
  show ?thesis
    using file_read_back [OF demo_fs_ok, unfolded c, OF demo_dense demo_enough demo_file, of 3 "replicate 2000 7"]
    by (simp add: demo_size BLOCK_SIZE_def)
qed

end
