(* ===== verification/Driver.thy ===== *)
theory Driver
  imports Process MutexC FileData
begin

text \<open>
  What the drivers under \<open>src/src/kernel/\<close> share: the ports of \<open>io.asm\<close>, the lock of \<open>mutex.c\<close> around the
  use of a device, in the task table, and the return from a system call that the kernel makes itself.

  The chips behind the ports are not part of the program: a \<open>bus\<close> says what an access to a port gives and
  what it does to the hardware, whose state is the field \<open>hw\<close> of the process state.
\<close>

record 'h bus =
  in8 :: "nat \<Rightarrow> 'h \<Rightarrow> u8 \<times> 'h"
  out8 :: "nat \<Rightarrow> u8 \<Rightarrow> 'h \<Rightarrow> 'h"
  in16 :: "nat \<Rightarrow> 'h \<Rightarrow> u16 \<times> 'h"
  out16 :: "nat \<Rightarrow> u16 \<Rightarrow> 'h \<Rightarrow> 'h"

definition set_hw :: "'h \<Rightarrow> 'h proc_t \<Rightarrow> 'h proc_t" where
  "set_hw h s = s\<lparr>io := (io s)\<lparr>hw := h\<rparr>\<rparr>"

section \<open>The lock of a device\<close>

text \<open>\<open>lock_acquire\<close> by the running task, up to its return or to the \<open>task_block\<close> in \<open>mutex_lock\<close>; \<open>w\<close> is the
  number of the waiting list of the lock.\<close>

definition lock_enter :: "nat \<Rightarrow> lock_t \<Rightarrow> kstate \<Rightarrow> (bool \<times> lock_t \<times> kstate) option" where
  "lock_enter w l k = do {
     let p = cur k;
     let l = lock_acquire p l;
     if pc l p \<noteq> Locking then Some (True, l, k)
     else do {
       l \<leftarrow> mutex_lock p l;
       if pc l p = Waiting
       then do { k \<leftarrow> task_block p w TASK_BLOCKED (- 1) k; Some (False, l, k) }
       else do { l \<leftarrow> lock_acquired p l; Some (True, l, k) } } }"

text \<open>\<open>lock_release\<close>: the task that has waited longest is woken, and gets the processor before.\<close>

definition lock_leave :: "lock_t \<Rightarrow> kstate \<Rightarrow> (lock_t \<times> kstate) option" where
  "lock_leave l k = do {
     let p = cur k;
     l' \<leftarrow> lock_release p l;
     if pc l' p \<noteq> Releasing then Some (l', k)
     else do {
       u \<leftarrow> mutex_unlock p l';
       if waiters l' = [] then Some (u, k)
       else do {
         k \<leftarrow> task_unblock (last (waiters l')) 0 k;
         k \<leftarrow> task_yield k;
         Some (u, k) } } }"

lemma lock_free_enter:
  "lock_enter w (lock_init l) k = Some (True, (lock_init l)\<lparr>holder := Some (cur k), repeats := 1, mvalue := True,
    pc := (pc (lock_init l))(cur k := Held)\<rparr>, k)"
  by (simp add: lock_enter_def lock_acquire_def lock_init_def mutex_init_def mutex_lock_def lock_acquired_def Let_def)

lemma lock_alone_leave:
  assumes "holder l = Some (cur k)" and "repeats l = 1" and "mvalue l" and "waiters l = []"
  shows "lock_leave l k = Some (l\<lparr>holder := None, repeats := 0, mvalue := False, pc := (pc l)(cur k := Idle)\<rparr>, k)"
  using assms by (simp add: lock_leave_def lock_release_def mutex_unlock_def Let_def)

definition lock_idle :: "lock_t \<Rightarrow> bool" where
  "lock_idle l \<longleftrightarrow> \<not> mvalue l \<and> waiters l = [] \<and> holder l = None \<and> repeats l = 0"

lemma lock_idle_init: "lock_idle l \<Longrightarrow> l = lock_init l"
  by (cases l) (simp add: lock_idle_def lock_init_def mutex_init_def)

section \<open>A system call made by the kernel\<close>

text \<open>A system call made by the kernel itself comes back through \<open>interrupt_exit\<close>, which calls \<open>task_signal\<close>
  for the running task. When a signal ends that task, control does not come back (\<open>True\<close>).\<close>

definition signal_return :: "'d proc_t \<Rightarrow> (bool \<times> 'd proc_t) option" where
  "signal_return s = do {
     t \<leftarrow> task_at (kern s) (cur (kern s));
     (out, u, t) \<leftarrow> task_signal (ustack s) t;
     s \<leftarrow> do_kern (modify (cur (kern s)) (\<lambda>_. t)) (s\<lparr>ustack := u\<rparr>);
     (case out of
        Exit st \<Rightarrow> do { s \<leftarrow> task_exit st s; Some (True, s) }
      | _ \<Rightarrow> Some (False, s)) }"

lemma put_same: "task_at k p = Some t \<Longrightarrow> put_task p t k = k"
  by (simp add: put_task_def fun_upd_idem)

lemma no_signal_return:
  assumes "task_at (kern s) (cur (kern s)) = Some t" and "signal t AND NOT (blocked t) = 0"
  shows "signal_return s = Some (False, s)"
  using assms by (cases s) (simp add: signal_return_def task_signal_def do_kern_def modify_put put_same)

text \<open>A task is in the slot of its pid.\<close>

lemma live_slot:
  assumes "kinv k" and "live k q t"
  shows "0 \<le> pid t" and "nat (pid t) < TASK_NR" and "task_table k ! nat (pid t) = q"
proof -
  obtain i where i: "i < TASK_NR" "task_table k ! i = q"
    using assms(2) kinvD(2) [OF assms(1)] by (metis in_set_conv_nth live_def)
  then have "pid t = int i" using kinvD(3) [OF assms(1), of i] assms(2) by (auto simp: live_def)
  with i show "0 \<le> pid t" "nat (pid t) < TASK_NR" "task_table k ! nat (pid t) = q" by simp_all
qed

text \<open>The small system of \<open>Task\<close> as a process state.\<close>

definition demo_proc :: "'h \<Rightarrow> 'h proc_t" where
  "demo_proc h = \<lparr>kern = demo_k, hdescs = [], harenas = (\<lambda>_. None),
     io = \<lparr>fsys = demo_fs, file_table = [], devs = [], umem = (\<lambda>_. 0), hw = h, rings = (\<lambda>_. fifo_init [] 0)\<rparr>,
     vm_at = (\<lambda>_. (0, 0)), tty_pgid = (\<lambda>_. 0), ustack = (\<lambda>_. 0)\<rparr>"

end
