(* ===== verification/Execve.thy ===== *)
theory Execve
  imports Driver Namei
begin

text \<open>
  \<open>src/src/kernel/execve.c\<close>: the validation and the loading of an ELF file, the copies of arguments and environment to the
  new stack, and \<open>sys_execve\<close>. The memory of the task is \<open>umem\<close>; the kernel's pages are in it at their addresses.
  Shown: what the new program finds on its stack.
\<close>

section \<open>The file format\<close>

definition ET_EXEC :: nat where "ET_EXEC = 2"
definition EM_386 :: nat where "EM_386 = 3"
definition EV_CURRENT :: nat where "EV_CURRENT = 1"
definition PT_LOAD :: nat where "PT_LOAD = 1"
definition PF_X :: u32 where "PF_X = 0x1"
definition PF_W :: u32 where "PF_W = 0x2"
definition PF_R :: u32 where "PF_R = 0x4"
definition EHDR_SIZE :: nat where "EHDR_SIZE = 52"
definition PHDR_SIZE :: nat where "PHDR_SIZE = 32"
definition TASK_NAME_LEN :: nat where "TASK_NAME_LEN = 16"

text \<open>The fields of \<open>Elf32_Ehdr\<close> and \<open>Elf32_Phdr\<close> that the code reads, at their offsets.\<close>

definition e_type :: "mem \<Rightarrow> addr \<Rightarrow> nat" where "e_type m a = load16 m (a + 16)"
definition e_machine :: "mem \<Rightarrow> addr \<Rightarrow> nat" where "e_machine m a = load16 m (a + 18)"
definition e_version :: "mem \<Rightarrow> addr \<Rightarrow> nat" where "e_version m a = load32 m (a + 20)"
definition e_entry :: "mem \<Rightarrow> addr \<Rightarrow> nat" where "e_entry m a = load32 m (a + 24)"
definition e_phoff :: "mem \<Rightarrow> addr \<Rightarrow> nat" where "e_phoff m a = load32 m (a + 28)"
definition e_phentsize :: "mem \<Rightarrow> addr \<Rightarrow> nat" where "e_phentsize m a = load16 m (a + 42)"
definition e_phnum :: "mem \<Rightarrow> addr \<Rightarrow> nat" where "e_phnum m a = load16 m (a + 44)"

definition p_type :: "mem \<Rightarrow> addr \<Rightarrow> nat" where "p_type m a = load32 m a"
definition p_offset :: "mem \<Rightarrow> addr \<Rightarrow> nat" where "p_offset m a = load32 m (a + 4)"
definition p_vaddr :: "mem \<Rightarrow> addr \<Rightarrow> nat" where "p_vaddr m a = load32 m (a + 8)"
definition p_filesz :: "mem \<Rightarrow> addr \<Rightarrow> nat" where "p_filesz m a = load32 m (a + 16)"
definition p_memsz :: "mem \<Rightarrow> addr \<Rightarrow> nat" where "p_memsz m a = load32 m (a + 20)"
definition p_flags :: "mem \<Rightarrow> addr \<Rightarrow> u32" where "p_flags m a = of_nat (load32 m (a + 24))"
definition p_align :: "mem \<Rightarrow> addr \<Rightarrow> nat" where "p_align m a = load32 m (a + 28)"

definition elf_validate :: "mem \<Rightarrow> addr \<Rightarrow> bool" where
  "elf_validate m a \<longleftrightarrow> mread m a 7 = [0x7f, 69, 76, 70, 1, 1, 1] \<and> e_type m a = ET_EXEC \<and> e_machine m a = EM_386 \<and>
     e_version m a = EV_CURRENT \<and> e_phentsize m a = PHDR_SIZE"

section \<open>Loading\<close>

definition set_umem :: "mem \<Rightarrow> 'd proc_t \<Rightarrow> 'd proc_t" where
  "set_umem m s = s\<lparr>io := (io s)\<lparr>umem := m\<rparr>\<rparr>"

text \<open>\<open>inode_read\<close> with a destination in memory.\<close>

definition read_to :: "nat \<Rightarrow> addr \<Rightarrow> nat \<Rightarrow> nat \<Rightarrow> 'd proc_t \<Rightarrow> (int \<times> 'd proc_t) option" where
  "read_to p buf len off s = do {
     (n, out, i) \<leftarrow> inode_read p len (s32 (int off)) (fsys (io s));
     Some (n, s\<lparr>io := (io s)\<lparr>fsys := i, umem := mwrite (umem (io s)) buf out\<rparr>\<rparr>) }"

definition protect_page :: "addr \<Rightarrow> mstate \<Rightarrow> mstate option" where
  "protect_page a ms = do {
     ((t, i), ms) \<leftarrow> get_entry a False ms;
     Some (set_pm t i (put_flag 11 True (put_flag 1 False (pm ms t i))) ms) }"

definition load_segment :: "nat \<Rightarrow> addr \<Rightarrow> 'd proc_t \<Rightarrow> 'd proc_t option" where
  "load_segment p ph s = do {
     let m = umem (io s);
     cassert (p_align m ph = 0x1000);
     cassert (p_vaddr m ph mod 0x1000 = 0);
     let vaddr = p_vaddr m ph;
     let filesz = p_filesz m ph;
     let memsz = p_memsz m ph;
     let fl = p_flags m ph;
     let off = p_offset m ph;
     count \<leftarrow> div_round_up (CMAX memsz filesz) PAGE_SIZE;
     s \<leftarrow> for_each (\<lambda>i s. do {
        let a = w32 (vaddr + i * PAGE_SIZE);
        cassert (USER_EXEC_ADDR \<le> a \<and> a < USER_MMAP_ADDR);
        do_mem (link_page a) s }) [0..<count] s;
     (_, s) \<leftarrow> read_to p vaddr filesz off s;
     let s = (if filesz < memsz
              then set_umem (snd (memset (umem (io s)) (vaddr + filesz) 0 (memsz - filesz))) s else s);
     s \<leftarrow> if fl AND PF_W = 0
          then for_each (\<lambda>i s. do_mem (protect_page (w32 (vaddr + i * PAGE_SIZE))) s) [0..<count] s
          else Some s;
     do_kern (modify (cur (kern s)) (\<lambda>t.
       let t = (if fl = PF_R OR PF_X then t\<lparr>text_addr := vaddr\<rparr> else if fl = PF_R OR PF_W then t\<lparr>data_addr := vaddr\<rparr> else t)
       in t\<lparr>end_addr := CMAX (end_addr t) (w32 (vaddr + count * PAGE_SIZE))\<rparr>)) s }"

text \<open>The loop over the program headers, with \<open>n\<close> rounds at most. \<open>continue\<close> skips \<open>ptr++\<close>: from the first header that is
  not \<open>PT_LOAD\<close> on, the loop looks at that header again. The count is read from the header in memory each time.\<close>

fun header_loop :: "nat \<Rightarrow> nat \<Rightarrow> nat \<Rightarrow> addr \<Rightarrow> 'd proc_t \<Rightarrow> 'd proc_t option" where
  "header_loop 0 p i ph s = Some s"
| "header_loop (Suc n) p i ph s =
     (if i < e_phnum (umem (io s)) USER_EXEC_ADDR
      then if p_type (umem (io s)) ph \<noteq> PT_LOAD then header_loop n p (i + 1) ph s
           else do { s \<leftarrow> load_segment p ph s; header_loop n p (i + 1) (ph + PHDR_SIZE) s }
      else Some s)"

text \<open>\<open>e_phnum\<close> is below \<open>2 ^ 16\<close>, so that many rounds are enough.\<close>

definition load_elf :: "nat \<Rightarrow> 'd proc_t \<Rightarrow> (nat \<times> 'd proc_t) option" where
  "load_elf p s = do {
     s \<leftarrow> do_mem (link_page USER_EXEC_ADDR) s;
     (n, s) \<leftarrow> read_to p USER_EXEC_ADDR EHDR_SIZE 0 s;
     cassert (n = int EHDR_SIZE);
     let m = umem (io s);
     if \<not> elf_validate m USER_EXEC_ADDR then Some (4294967295, s)
     else do {
       let ph = USER_EXEC_ADDR + EHDR_SIZE;
       (n, s) \<leftarrow> read_to p ph (e_phnum m USER_EXEC_ADDR * e_phentsize m USER_EXEC_ADDR) (e_phoff m USER_EXEC_ADDR) s;
       s \<leftarrow> header_loop 65536 p 0 ph s;
       Some (e_entry (umem (io s)) USER_EXEC_ADDR, s) } }"

section \<open>Arguments and environment\<close>

partial_function (option) count_loop :: "mem \<Rightarrow> addr \<Rightarrow> nat \<Rightarrow> nat option" where
  "count_loop m argv i = (if load32 m (argv + 4 * i) = 0 then Some i else count_loop m argv (i + 1))"

definition count_argv :: "mem \<Rightarrow> addr \<Rightarrow> nat option" where
  "count_argv m argv = (if argv = NULL then Some 0 else count_loop m argv 0)"

text \<open>One string: it is put below \<open>ktop\<close>, and its address on the user's stack into the table at \<open>cell\<close>.\<close>

definition copy_string :: "addr \<Rightarrow> addr \<Rightarrow> nat \<times> nat \<times> mem \<Rightarrow> (nat \<times> nat \<times> mem) option" where
  "copy_string src cell = (\<lambda>(ktop, utop, m). do {
     l \<leftarrow> strlen m src;
     let len = l + 1;
     let ktop = w32_sub ktop len;
     let utop = w32_sub utop len;
     let m = snd (memcpy m ktop src len);
     let m = store32 m cell utop;
     Some (ktop, utop, m) })"

text \<open>The strings of the vector \<open>v\<close> with \<open>n\<close> pointers, from the last one down.\<close>

fun copy_strings :: "addr \<Rightarrow> addr \<Rightarrow> nat \<Rightarrow> nat \<times> nat \<times> mem \<Rightarrow> (nat \<times> nat \<times> mem) option" where
  "copy_strings v cells 0 z = Some z"
| "copy_strings v cells (Suc n) z = do {
     z \<leftarrow> copy_string (load32 (snd (snd z)) (v + 4 * n)) (cells + 4 * n) z;
     copy_strings v cells n z }"

definition copy_block :: "addr \<Rightarrow> nat \<Rightarrow> nat \<times> mem \<Rightarrow> nat \<times> mem" where
  "copy_block src len = (\<lambda>(ktop, m). (w32_sub ktop len, snd (memcpy m (w32_sub ktop len) src len)))"

text \<open>What \<open>copy_argv_envp\<close> does between the allocation of its pages (at \<open>pages\<close> and \<open>argvk\<close>) and their release.\<close>

definition build_stack :: "addr \<Rightarrow> addr \<Rightarrow> addr \<Rightarrow> addr \<Rightarrow> addr \<Rightarrow> mem \<Rightarrow> (nat \<times> mem) option" where
  "build_stack pages argvk filename argv envp m = do {
     n \<leftarrow> count_argv m argv;
     let argc = n + 1;
     envc \<leftarrow> count_argv m envp;
     let pages_end = pages + 4 * PAGE_SIZE;
     let m = store32 m (argvk + 4 * argc) 0;
     let envpk = argvk + 4 * argc + 4;
     let m = store32 m (envpk + 4 * envc) 0;
     z \<leftarrow> copy_strings envp envpk envc (pages_end, USER_STACK_TOP, m);
     z \<leftarrow> copy_strings argv (argvk + 4) n z;
     (ktop, utop, m) \<leftarrow> copy_string filename argvk z;
     let (ktop, m) = copy_block envpk ((envc + 1) * 4) (ktop, m);
     let (ktop, m) = copy_block argvk ((argc + 1) * 4) (ktop, m);
     let ktop = w32_sub ktop 4;
     let m = store32 m ktop argc;
     cassert (pages < ktop);
     let len = w32_sub pages_end ktop;
     let utop = w32_sub USER_STACK_TOP len;
     Some (utop, snd (memcpy m utop ktop len)) }"

definition copy_argv_envp :: "addr \<Rightarrow> addr \<Rightarrow> addr \<Rightarrow> 'd proc_t \<Rightarrow> (nat \<times> 'd proc_t) option" where
  "copy_argv_envp filename argv envp s = do {
     (pages, ms) \<leftarrow> alloc_kpage 4 (kmem (kern s));
     (argvk, ms) \<leftarrow> alloc_kpage 1 ms;
     (utop, m) \<leftarrow> build_stack pages argvk filename argv envp (umem (io s));
     ms \<leftarrow> free_kpage argvk 1 ms;
     ms \<leftarrow> free_kpage pages 4 ms;
     Some (utop, s\<lparr>kern := (kern s)\<lparr>kmem := ms\<rparr>, io := (io s)\<lparr>umem := m\<rparr>\<rparr>) }"

section \<open>The system call\<close>

definition do_brk :: "nat \<Rightarrow> 'd proc_t \<Rightarrow> 'd proc_t option" where
  "do_brk a s = do {
     let p = cur (kern s);
     t \<leftarrow> task_at (kern s) p;
     (_, t, ms) \<leftarrow> sys_brk a t (kmem (kern s));
     do_kern (modify p (\<lambda>_. t)) (s\<lparr>kern := (kern s)\<lparr>kmem := ms\<rparr>\<rparr>) }"

text \<open>The task either goes on in the new program, with a frame for its entry, or gets an error.\<close>

datatype exec_t = Runs | Fails int

definition sys_execve :: "addr \<Rightarrow> addr \<Rightarrow> addr \<Rightarrow> 'd proc_t \<Rightarrow> (exec_t \<times> 'd proc_t) option" where
  "sys_execve filename argv envp s = do {
     let p = cur (kern s);
     t \<leftarrow> task_at (kern s) p;
     l \<leftarrow> strlen (umem (io s)) filename;
     let path = mread (umem (io s)) filename l;
     (r, i) \<leftarrow> namei t path (fsys (io s));
     let s = s\<lparr>io := (io s)\<lparr>fsys := i\<rparr>\<rparr>;
     (case r of
        None \<Rightarrow> do { s \<leftarrow> do_inode (iput None) s; Some (Fails EOF, s) }
      | Some q \<Rightarrow>
          if \<not> ISFILE (d_mode q i) \<or> \<not> permission t q P_EXEC i
          then do { s \<leftarrow> do_inode (iput (Some q)) s; Some (Fails EOF, s) }
          else do {
            s \<leftarrow> do_kern (modify p (\<lambda>t. t\<lparr>name := map (\<lambda>b. char_of (unat b)) (take (TASK_NAME_LEN - 1) path)\<rparr>)) s;
            (top, s) \<leftarrow> copy_argv_envp filename argv envp s;
            s \<leftarrow> do_kern (modify p (\<lambda>t. t\<lparr>end_addr := USER_EXEC_ADDR\<rparr>)) s;
            s \<leftarrow> do_brk USER_EXEC_ADDR s;
            (entry, s) \<leftarrow> load_elf q s;
            if entry = 4294967295
            then do { s \<leftarrow> do_inode (iput (Some q)) s; Some (Fails EOF, s) }
            else do {
              t \<leftarrow> task_at (kern s) p;
              s \<leftarrow> do_brk (end_addr t) s;
              s \<leftarrow> do_inode (iput (iexec t)) s;
              s \<leftarrow> do_kern (modify p (\<lambda>t. t\<lparr>iexec := Some q,
                iframe := (iframe t)\<lparr>r_edx := 0, r_eip := of_nat entry, r_esp := of_nat top\<rparr>\<rparr>)) s;
              Some (Runs, s) } }) }"

section \<open>Memory words\<close>

section \<open>What the vectors hold\<close>

text \<open>A vector of strings: pointers, and \<open>NULL\<close> behind the last one.\<close>

definition strings_at :: "mem \<Rightarrow> addr \<Rightarrow> bytes list \<Rightarrow> bool" where
  "strings_at m v ss \<longleftrightarrow> (\<forall>i<List.length ss. load32 m (v + 4 * i) \<noteq> 0 \<and> cstr m (load32 m (v + 4 * i)) (ss ! i)) \<and>
     load32 m (v + 4 * List.length ss) = 0"

lemma count_loop_ok:
  assumes "strings_at m v ss" and "i \<le> List.length ss"
  shows "count_loop m v i = Some (List.length ss)"
  using assms(2)
proof (induction "List.length ss - i" arbitrary: i)
  case 0
  then show ?case using assms(1) by (subst count_loop.simps) (simp add: strings_at_def)
next
  case (Suc n)
  then have "load32 m (v + 4 * i) \<noteq> 0" using assms(1) by (simp add: strings_at_def)
  then show ?case using Suc by (subst count_loop.simps) simp
qed

text \<open>A vector that may be absent, all of it outside the set \<open>K\<close>.\<close>

definition vector_ok :: "addr set \<Rightarrow> mem \<Rightarrow> addr \<Rightarrow> bytes list \<Rightarrow> bool" where
  "vector_ok K m v ss \<longleftrightarrow> v = NULL \<and> ss = [] \<or> v \<noteq> NULL \<and> strings_at m v ss \<and>
     {v..<v + 4 * List.length ss + 4} \<inter> K = {} \<and>
     (\<forall>i<List.length ss. {load32 m (v + 4 * i)..load32 m (v + 4 * i) + List.length (ss ! i)} \<inter> K = {})"

lemma count_argv_ok: "vector_ok K m v ss \<Longrightarrow> count_argv m v = Some (List.length ss)"
  using count_loop_ok [of m v ss 0] by (auto simp: vector_ok_def count_argv_def)

section \<open>Copying the strings\<close>

text \<open>The kernel's pages for the copy, and those of the tables.\<close>

definition work :: "addr \<Rightarrow> addr set" where "work pages = {pages..<pages + 16384}"
definition tables :: "addr \<Rightarrow> addr set" where "tables argvk = {argvk..<argvk + 4096}"

definition places_ok :: "addr \<Rightarrow> addr \<Rightarrow> bool" where
  "places_ok pages argvk \<longleftrightarrow> work pages \<inter> tables argvk = {} \<and> pages + 16384 \<le> KERNEL_MEMORY_SIZE \<and> argvk + 4096 \<le> KERNEL_MEMORY_SIZE"

abbreviation str0 :: "bytes \<Rightarrow> bytes" where "str0 s \<equiv> s @ [EOS]"

text \<open>The state of the copy: \<open>S\<close> is what is in place.\<close>

definition copied :: "addr \<Rightarrow> addr \<Rightarrow> mem \<Rightarrow> bytes \<Rightarrow> nat \<times> nat \<times> mem \<Rightarrow> bool" where
  "copied pages argvk m0 S = (\<lambda>(k, u, m). List.length S \<le> 16384 \<and> k = pages + 16384 - List.length S \<and>
     u = USER_STACK_TOP - List.length S \<and> mread m k (List.length S) = S \<and>
     (\<forall>a. a \<notin> work pages \<union> tables argvk \<longrightarrow> m a = m0 a))"

lemma copy_string_ok:
  assumes "copied pages argvk m0 S (k, u, m)" and "places_ok pages argvk" and "cstr m0 src s"
    and "{src..src + List.length s} \<inter> (work pages \<union> tables argvk) = {}" and "List.length s + 1 + List.length S \<le> 16384"
    and "argvk \<le> c" and "c + 4 \<le> argvk + 4096"
  shows "\<exists>m'. copy_string src c (k, u, m) = Some (k - (List.length s + 1), u - (List.length s + 1), m') \<and>
    copied pages argvk m0 (str0 s @ S) (k - (List.length s + 1), u - (List.length s + 1), m') \<and>
    load32 m' c = USER_STACK_TOP - List.length (str0 s @ S) \<and> (\<forall>a\<in>tables argvk. a < c \<or> c + 4 \<le> a \<longrightarrow> m' a = m a)"
proof -
  let ?n = "List.length s + 1" let ?k = "k - ?n" let ?u = "u - ?n"
  have C: "k = pages + 16384 - List.length S" "u = USER_STACK_TOP - List.length S" "mread m k (List.length S) = S"
    "\<And>a. a \<notin> work pages \<union> tables argvk \<Longrightarrow> m a = m0 a"
    using assms(1) by (auto simp: copied_def)
  have P: "work pages \<inter> tables argvk = {}" "pages + 16384 \<le> 16777216" "argvk + 4096 \<le> 16777216"
    using assms(2) by (auto simp: places_ok_def KERNEL_MEMORY_SIZE_def)
  have u: "USER_STACK_TOP = 268435456" by (simp add: USER_STACK_TOP_def)
  have out: "a \<notin> work pages \<union> tables argvk" if "src \<le> a" "a \<le> src + List.length s" for a
    using assms(4) that by auto
  have src: "cstr m src s" using assms(3) cstr_cong [of src s m m0] C(4) out by blast
  have k: "pages \<le> ?k" "?k + ?n = k" "k \<le> pages + 16384" using C(1) assms(5) by linarith+
  have w: "w32_sub k ?n = ?k" "w32_sub u ?n = ?u" using k P(2) C(2) u assms(5) by simp_all
  have len: "strlen m src = Some (List.length s)" using strlen_cstr [OF src] assms(5) by simp
  have dis: "?k \<le> src \<or> src + ?n \<le> ?k"
  proof (rule ccontr)
    assume "\<not> ?thesis"
    then have "src \<le> ?k" "?k \<le> src + List.length s" by simp_all
    moreover have "?k \<in> work pages" using k by (auto simp: work_def)
    ultimately show False using out [of ?k] by blast
  qed
  have rd: "mread m src ?n = str0 s" using src cstr_iff_mread by metis
  let ?m1 = "mwrite m ?k (str0 s)" let ?m2 = "store32 ?m1 c ?u"
  have st: "copy_string src c (k, u, m) = Some (?k, ?u, ?m2)"
    by (simp only: copy_string_def prod.case len bind.bind_lunit Let_def w memcpy_eq [OF dis] rd snd_conv)
  have win: "a \<in> work pages" if "?k \<le> a" "a < pages + 16384" for a using that k by (auto simp: work_def)
  have tab: "a \<in> tables argvk" if "c \<le> a" "a < c + 4" for a using that assms(6,7) by (auto simp: tables_def)
  have m2: "?m2 a = (if ?k \<le> a \<and> a < k then str0 s ! (a - ?k) else m a)" if "a < c \<or> c + 4 \<le> a" for a
    using that k(2) by (auto simp: store32_other mwrite_apply)
  have off: "a < c \<or> c + 4 \<le> a" if "a \<in> work pages" for a using tab that P(1) by (metis disjoint_iff not_le)
  have "mread ?m2 ?k (List.length (str0 s @ S)) = str0 s @ S"
  proof (rule nth_equalityI)
    fix i
    assume i: "i < List.length (mread ?m2 ?k (List.length (str0 s @ S)))"
    then have i': "i < ?n + List.length S" by simp
    then have in_w: "?k + i \<in> work pages" using win k C(1) assms(5) by simp
    have "?m2 (?k + i) = (str0 s @ S) ! i"
    proof (cases "i < ?n")
      case True
      then have "?k \<le> ?k + i \<and> ?k + i < k" using k(2) by linarith
      then have "?m2 (?k + i) = str0 s ! i" using m2 [OF off [OF in_w]] by (simp only: simp_thms if_True add_diff_cancel_left')
      then show ?thesis using True by (simp only: nth_append_left length_append list.size One_nat_def add_Suc_right add_0_right)
    next
      case False
      then obtain j where j: "i = ?n + j" using le_Suc_ex not_less by blast
      then have "?m2 (?k + i) = m (k + j)" using m2 [OF off [OF in_w]] k(2) by simp
      also have "\<dots> = S ! j" using C(3) j i' by (metis mread_nth nat_add_left_cancel_less)
      finally show ?thesis using j by (simp add: nth_append)
    qed
    moreover have "i < List.length (str0 s @ S)" using i' by simp
    ultimately show "mread ?m2 ?k (List.length (str0 s @ S)) ! i = (str0 s @ S) ! i" by (simp only: mread_nth)
  qed simp
  moreover have "?m2 a = m0 a" if a: "a \<notin> work pages \<union> tables argvk" for a
  proof -
    have "a < c \<or> c + 4 \<le> a" "\<not> (?k \<le> a \<and> a < k)" using a tab win k(3) by (metis UnI2 not_le, metis UnI1 less_le_trans)
    then show ?thesis using C(4) [OF a] by (simp only: m2 if_False)
  qed
  moreover have "\<forall>a\<in>tables argvk. a < c \<or> c + 4 \<le> a \<longrightarrow> ?m2 a = m a"
  proof (intro ballI impI)
    fix a assume "a \<in> tables argvk" "a < c \<or> c + 4 \<le> a"
    moreover have "\<not> (?k \<le> a \<and> a < k)" using win k(3) P(1) \<open>a \<in> tables argvk\<close> by (metis disjoint_iff less_le_trans)
    ultimately show "?m2 a = m a" by (simp only: m2 if_False)
  qed
  moreover have "load32 ?m2 c = ?u" using C(2) u by (intro load32_store32) simp
  ultimately show ?thesis using st C(1,2) assms(5) by (auto simp: copied_def)
qed

definition blob :: "bytes list \<Rightarrow> bytes" where
  "blob ss = concat (map str0 ss)"

lemma blob_simps [simp]: "blob [] = []" "blob (s # ss) = str0 s @ blob ss" "blob (xs @ ys) = blob xs @ blob ys"
  by (simp_all add: blob_def)

lemma tables_word:
  assumes "argvk \<le> c" and "c + 4 \<le> argvk + 4096" and "\<forall>a\<in>tables argvk. a < b \<or> e \<le> a \<longrightarrow> m' a = m a" and "c + 4 \<le> b \<or> e \<le> c"
  shows "load32 m' c = load32 m c"
proof (rule load32_cong)
  fix j :: nat
  assume "j < 4"
  then have "c + j \<in> tables argvk" "c + j < b \<or> e \<le> c + j" using assms(1,2,4) by (auto simp: tables_def)
  then show "m' (c + j) = m (c + j)" using assms(3) by blast
qed

lemma copy_strings_ok:
  assumes "copied pages argvk m0 S z" and "places_ok pages argvk" and "vector_ok (work pages \<union> tables argvk) m0 v ss"
    and "n \<le> List.length ss" and "List.length (blob (take n ss)) + List.length S \<le> 16384"
    and "argvk \<le> cells" and "cells + 4 * n \<le> argvk + 4096"
  shows "\<exists>z'. copy_strings v cells n z = Some z' \<and> copied pages argvk m0 (blob (take n ss) @ S) z' \<and>
    (\<forall>i<n. load32 (snd (snd z')) (cells + 4 * i) = USER_STACK_TOP - List.length (blob (drop i (take n ss)) @ S)) \<and>
    (\<forall>a\<in>tables argvk. a < cells \<or> cells + 4 * n \<le> a \<longrightarrow> snd (snd z') a = snd (snd z) a)"
  using assms(1,4,5,7)
proof (induction n arbitrary: z S)
  case 0
  then show ?case by simp
next
  case (Suc n)
  obtain k u m where z: "z = (k, u, m)" by (cases z) auto
  let ?K = "work pages \<union> tables argvk" let ?s = "ss ! n"
  have n: "n < List.length ss" using Suc.prems(2) by simp
  then have V: "strings_at m0 v ss" "{v..<v + 4 * List.length ss + 4} \<inter> ?K = {}"
    "{load32 m0 (v + 4 * n)..load32 m0 (v + 4 * n) + List.length ?s} \<inter> ?K = {}"
    using assms(3) by (auto simp: vector_ok_def)
  have tk: "take (Suc n) ss = take n ss @ [?s]" by (rule take_Suc_conv_app_nth [OF n])
  have "load32 m (v + 4 * n) = load32 m0 (v + 4 * n)"
  proof (rule load32_cong)
    fix j :: nat
    assume "j < 4"
    then have "v + 4 * n + j \<in> {v..<v + 4 * List.length ss + 4}" using n by simp
    then have "v + 4 * n + j \<notin> ?K" using V(2) by blast
    then show "m (v + 4 * n + j) = m0 (v + 4 * n + j)" using Suc.prems(1) z by (simp add: copied_def)
  qed
  moreover have "cstr m0 (load32 m0 (v + 4 * n)) ?s" using V(1) n by (simp add: strings_at_def)
  moreover have "List.length ?s + 1 + List.length S \<le> 16384" using Suc.prems(3) tk by simp
  moreover have "argvk \<le> cells + 4 * n" "cells + 4 * n + 4 \<le> argvk + 4096" using assms(6) Suc.prems(4) by simp_all
  ultimately obtain m1 where m1: "copy_string (load32 m (v + 4 * n)) (cells + 4 * n) z =
      Some (k - (List.length ?s + 1), u - (List.length ?s + 1), m1)"
    "copied pages argvk m0 (str0 ?s @ S) (k - (List.length ?s + 1), u - (List.length ?s + 1), m1)"
    "load32 m1 (cells + 4 * n) = USER_STACK_TOP - List.length (str0 ?s @ S)"
    "\<forall>a\<in>tables argvk. a < cells + 4 * n \<or> cells + 4 * n + 4 \<le> a \<longrightarrow> m1 a = m a"
    using copy_string_ok [OF _ assms(2) _ V(3), of m0 S k u m "cells + 4 * n"] Suc.prems(1) unfolding z by metis
  let ?z1 = "(k - (List.length ?s + 1), u - (List.length ?s + 1), m1)"
  have "List.length (blob (take n ss)) + List.length (str0 ?s @ S) \<le> 16384" using Suc.prems(3) tk by simp
  then obtain z' where z': "copy_strings v cells n ?z1 = Some z'" "copied pages argvk m0 (blob (take n ss) @ str0 ?s @ S) z'"
    "\<forall>i<n. load32 (snd (snd z')) (cells + 4 * i) = USER_STACK_TOP - List.length (blob (drop i (take n ss)) @ str0 ?s @ S)"
    "\<forall>a\<in>tables argvk. a < cells \<or> cells + 4 * n \<le> a \<longrightarrow> snd (snd z') a = m1 a"
    using Suc.IH [OF m1(2)] n Suc.prems(4) by fastforce
  have "load32 (snd (snd z')) (cells + 4 * n) = load32 m1 (cells + 4 * n)"
    using assms(6) Suc.prems(4) by (intro tables_word [OF _ _ z'(4)]) simp_all
  then have "load32 (snd (snd z')) (cells + 4 * i) = USER_STACK_TOP - List.length (blob (drop i (take (Suc n) ss)) @ S)" if "i < Suc n" for i
    using that m1(3) z'(3) tk n by (cases "i = n") auto
  moreover have "snd (snd z') a = snd (snd z) a" if "a \<in> tables argvk" "a < cells \<or> cells + 4 * Suc n \<le> a" for a
    using that z'(4) m1(4) z by auto
  moreover have "copy_strings v cells (Suc n) z = Some z'" using m1(1) z'(1) z by simp
  ultimately show ?case using z'(2) tk by auto
qed

section \<open>The whole image\<close>

lemma mread_prepend:
  assumes "mread m k (List.length I) = I" and "List.length B \<le> k"
  shows "mread (mwrite m (k - List.length B) B) (k - List.length B) (List.length (B @ I)) = B @ I"
proof (rule nth_equalityI)
  let ?k = "k - List.length B"
  fix i
  assume "i < List.length (mread (mwrite m ?k B) ?k (List.length (B @ I)))"
  then have i: "i < List.length (B @ I)" by simp
  have "mwrite m ?k B (?k + i) = (B @ I) ! i"
  proof (cases "i < List.length B")
    case True
    then show ?thesis by (simp add: mwrite_apply nth_append)
  next
    case False
    then obtain j where j: "i = List.length B + j" using le_Suc_ex not_less by blast
    then have "?k + i = k + j" using assms(2) by simp
    then have "mwrite m ?k B (?k + i) = m (k + j)" using False j assms(2) by (simp add: mwrite_apply)
    also have "\<dots> = I ! j" using assms(1) i j by (metis length_append mread_nth nat_add_left_cancel_less)
    finally show ?thesis using j by (simp add: nth_append)
  qed
  with i show "mread (mwrite m ?k B) ?k (List.length (B @ I)) ! i = (B @ I) ! i" by (simp only: mread_nth)
qed simp

lemma mread_mid:
  assumes "mread m a (List.length (P @ Q @ R)) = P @ Q @ R"
  shows "mread m (a + List.length P) (List.length Q) = Q"
proof (rule nth_equalityI)
  fix i
  assume "i < List.length (mread m (a + List.length P) (List.length Q))"
  then have i: "i < List.length Q" by simp
  then have "m (a + (List.length P + i)) = (P @ Q @ R) ! (List.length P + i)"
    using assms by (metis add_less_cancel_left length_append mread_nth trans_less_add1)
  with i show "mread m (a + List.length P) (List.length Q) ! i = Q ! i" by (simp add: nth_append add.assoc)
qed simp

lemma load32_mread:
  assumes "mread m a n = mread m' b n" and "d + 4 \<le> n"
  shows "load32 m (a + d) = load32 m' (b + d)"
proof (rule load32_cong)
  fix j :: nat
  assume "j < 4"
  then have "d + j < n" using assms(2) by simp
  then have "m (a + (d + j)) = m' (b + (d + j))" using assms(1) by (metis mread_nth)
  then show "m (a + d + j) = m' (b + d + j)" by (simp add: add.assoc)
qed

lemma string_in_image:
  assumes "mread m (q - List.length S) (List.length S) = S" and "List.length S \<le> q" and "S = A @ str0 s @ R" and "EOS \<notin> set s"
  shows "cstr m (q - List.length (str0 s @ R)) s"
proof -
  have "q - List.length S + List.length A = q - List.length (str0 s @ R)" using assms(2,3) by simp
  moreover have "mread m (q - List.length S + List.length A) (List.length (str0 s)) = str0 s"
    using assms(1) unfolding assms(3) by (rule mread_mid)
  ultimately have "mread m (q - List.length (str0 s @ R)) (List.length (str0 s)) = str0 s" by (simp only:)
  then show ?thesis using cstr_iff_mread assms(4) by simp
qed

lemma blob_nth: "i < List.length ss \<Longrightarrow> blob ss = blob (take i ss) @ str0 (ss ! i) @ blob (drop (Suc i) ss)"
  using arg_cong [OF id_take_nth_drop [of i ss], of blob] by simp

lemma strings_no_eos: "strings_at m v ss \<Longrightarrow> s \<in> set ss \<Longrightarrow> EOS \<notin> set s"
proof -
  have "cstr m p t \<Longrightarrow> EOS \<notin> set t" for p t using cstr_iff_mread by blast
  then show "strings_at m v ss \<Longrightarrow> s \<in> set ss \<Longrightarrow> EOS \<notin> set s" by (auto simp: strings_at_def in_set_conv_nth)
qed

text \<open>The pointers into an image that ends at \<open>q\<close>.\<close>

lemma strings_at_image:
  assumes "mread m (q - List.length S) (List.length S) = S" and "List.length S < q" and "S = A @ blob ss @ R" and "\<forall>s\<in>set ss. EOS \<notin> set s"
    and "\<And>i. i < List.length ss \<Longrightarrow> load32 m (v + 4 * i) = q - List.length (blob (drop i ss) @ R)" and "load32 m (v + 4 * List.length ss) = 0"
  shows "strings_at m v ss"
  unfolding strings_at_def
proof (intro conjI allI impI)
  fix i assume i: "i < List.length ss"
  have d: "blob (drop i ss) = str0 (ss ! i) @ blob (drop (Suc i) ss)" using i by (simp add: Cons_nth_drop_Suc [symmetric])
  have "S = (A @ blob (take i ss)) @ str0 (ss ! i) @ (blob (drop (Suc i) ss) @ R)" using assms(3) blob_nth [OF i] by simp
  moreover have "EOS \<notin> set (ss ! i)" using assms(4) i by simp
  moreover have "load32 m (v + 4 * i) = q - List.length (str0 (ss ! i) @ (blob (drop (Suc i) ss) @ R))" using assms(5) [OF i] d by simp
  ultimately show "cstr m (load32 m (v + 4 * i)) (ss ! i)"
    using string_in_image [OF assms(1) less_imp_le [OF assms(2)]] by metis
  have "List.length (blob (drop i ss) @ R) \<le> List.length S" using assms(3) d blob_nth [OF i] by simp
  then show "load32 m (v + 4 * i) \<noteq> 0" using assms(2,5) i by simp
qed (rule assms(6))

definition word_bytes :: "nat \<Rightarrow> bytes" where
  "word_bytes v = [of_nat v, of_nat (v div 256), of_nat (v div 65536), of_nat (v div 16777216)]"

lemma length_word_bytes [simp]: "List.length (word_bytes v) = 4"
  by (simp add: word_bytes_def)

lemma store32_prepend:
  assumes "mread m k (List.length I) = I" and "4 \<le> k"
  shows "mread (store32 m (k - 4) v) (k - 4) (List.length (word_bytes v @ I)) = word_bytes v @ I"
proof -
  have e: "store32 m a v = mwrite m a (word_bytes v)" for m a by (simp add: store32_def word_bytes_def)
  show ?thesis unfolding e using mread_prepend [OF assms(1), of "word_bytes v"] assms(2) by (simp only: length_word_bytes)
qed

lemma start_copied:
  assumes "argvk \<le> c" and "c + 4 \<le> argvk + 4096" and "argvk \<le> d" and "d + 4 \<le> argvk + 4096"
  shows "copied pages argvk m [] (pages + 16384, USER_STACK_TOP, store32 (store32 m c 0) d 0)"
proof -
  have "store32 (store32 m c 0) d 0 a = m a" if "a \<notin> tables argvk" for a
    using that assms by (subst store32_other, force simp: tables_def)+ simp
  then show ?thesis by (simp add: copied_def)
qed

text \<open>The three copies: the strings, and the tables that point to them.\<close>

lemma strings_and_tables:
  assumes "places_ok pages argvk" and "vector_ok (work pages \<union> tables argvk) m argv args" and "vector_ok (work pages \<union> tables argvk) m envp envs"
    and "cstr m filename fn" and "{filename..filename + List.length fn} \<inter> (work pages \<union> tables argvk) = {}"
    and "List.length (str0 fn @ blob args @ blob envs) \<le> 16384" and "4 * (List.length args + List.length envs + 3) \<le> 4096"
  shows "let envpk = argvk + 4 * (List.length args + 1) + 4; S = str0 fn @ blob args @ blob envs;
      m1 = store32 (store32 m (argvk + 4 * (List.length args + 1)) 0) (envpk + 4 * List.length envs) 0
    in \<exists>z1 z2 k u m3. copy_strings envp envpk (List.length envs) (pages + 16384, USER_STACK_TOP, m1) = Some z1 \<and>
      copy_strings argv (argvk + 4) (List.length args) z1 = Some z2 \<and> copy_string filename argvk z2 = Some (k, u, m3) \<and>
      copied pages argvk m S (k, u, m3) \<and>
      (\<forall>i\<le>List.length args. load32 m3 (argvk + 4 * i) = USER_STACK_TOP - List.length (blob (drop i (fn # args)) @ blob envs)) \<and>
      load32 m3 (argvk + 4 * (List.length args + 1)) = 0 \<and>
      (\<forall>i<List.length envs. load32 m3 (envpk + 4 * i) = USER_STACK_TOP - List.length (blob (drop i envs))) \<and>
      load32 m3 (envpk + 4 * List.length envs) = 0"
proof -
  let ?n = "List.length args" let ?e = "List.length envs" let ?T = "tables argvk"
  let ?ek = "argvk + 4 * (?n + 1) + 4" let ?za = "argvk + 4 * (?n + 1)" let ?ze = "?ek + 4 * ?e"
  let ?m1 = "store32 (store32 m ?za 0) ?ze 0"
  have c0: "copied pages argvk m [] (pages + 16384, USER_STACK_TOP, ?m1)"
    using assms(7) by (intro start_copied) simp_all
  obtain z1 where z1: "copy_strings envp ?ek ?e (pages + 16384, USER_STACK_TOP, ?m1) = Some z1" "copied pages argvk m (blob envs) z1"
    "\<forall>i<?e. load32 (snd (snd z1)) (?ek + 4 * i) = USER_STACK_TOP - List.length (blob (drop i envs))"
    "\<forall>a\<in>?T. a < ?ek \<or> ?ek + 4 * ?e \<le> a \<longrightarrow> snd (snd z1) a = ?m1 a"
    using copy_strings_ok [OF c0 assms(1,3) le_refl, of ?ek] assms(6,7) by auto
  obtain z2 where z2: "copy_strings argv (argvk + 4) ?n z1 = Some z2" "copied pages argvk m (blob args @ blob envs) z2"
    "\<forall>i<?n. load32 (snd (snd z2)) (argvk + 4 + 4 * i) = USER_STACK_TOP - List.length (blob (drop i args) @ blob envs)"
    "\<forall>a\<in>?T. a < argvk + 4 \<or> argvk + 4 + 4 * ?n \<le> a \<longrightarrow> snd (snd z2) a = snd (snd z1) a"
    using copy_strings_ok [OF z1(2) assms(1,2) le_refl, of "argvk + 4"] assms(6,7) by auto
  obtain k2 u2 m2 where e2: "z2 = (k2, u2, m2)" by (cases z2) auto
  obtain m3 where m3: "copy_string filename argvk z2 = Some (k2 - (List.length fn + 1), u2 - (List.length fn + 1), m3)"
    "copied pages argvk m (str0 fn @ blob args @ blob envs) (k2 - (List.length fn + 1), u2 - (List.length fn + 1), m3)"
    "load32 m3 argvk = USER_STACK_TOP - List.length (str0 fn @ blob args @ blob envs)"
    "\<forall>a\<in>?T. a < argvk \<or> argvk + 4 \<le> a \<longrightarrow> m3 a = m2 a"
    using copy_string_ok [OF z2(2) [unfolded e2] assms(1,4,5), of argvk] assms(6) unfolding e2 by auto
  have t3: "load32 m3 c = load32 (snd (snd z2)) c" if "argvk + 4 \<le> c" "c + 4 \<le> argvk + 4096" for c
    using tables_word [OF _ that(2) m3(4)] that e2 by simp
  have t2: "load32 (snd (snd z2)) c = load32 (snd (snd z1)) c" if "argvk + 4 + 4 * ?n \<le> c" "c + 4 \<le> argvk + 4096" for c
    using tables_word [OF _ that(2) z2(4)] that by simp
  have t1: "load32 (snd (snd z1)) c = load32 ?m1 c" if "argvk \<le> c" "c + 4 \<le> ?ek \<or> ?ek + 4 * ?e \<le> c" "c + 4 \<le> argvk + 4096" for c
    using tables_word [OF that(1,3) z1(4)] that(2) by simp
  have za: "load32 ?m1 ?za = load32 (store32 m ?za 0) ?za"
    by (rule load32_cong) (simp add: store32_other)
  have "load32 m3 ?za = 0" "load32 m3 ?ze = 0"
    using t3 [of ?za] t2 [of ?za] t1 [of ?za] za t3 [of ?ze] t2 [of ?ze] t1 [of ?ze] assms(7) by (simp_all add: load32_store32)
  moreover have "load32 m3 (?ek + 4 * i) = USER_STACK_TOP - List.length (blob (drop i envs))" if "i < ?e" for i
    using t3 [of "?ek + 4 * i"] t2 [of "?ek + 4 * i"] z1(3) that assms(7) by simp
  moreover have "load32 m3 (argvk + 4 * i) = USER_STACK_TOP - List.length (blob (drop i (fn # args)) @ blob envs)" if "i \<le> ?n" for i
  proof (cases i)
    case 0
    then show ?thesis using m3(3) by simp
  next
    case (Suc j)
    then show ?thesis using t3 [of "argvk + 4 + 4 * j"] z2(3) that assms(7) by (simp add: add.assoc)
  qed
  ultimately show ?thesis using z1(1) z2(1) m3(1,2) unfolding Let_def by blast
qed

text \<open>The rest: the tables and the count go below the strings, and the image to the top of the user's stack.\<close>

lemma image_built:
  assumes "places_ok pages argvk" and "copied pages argvk m0 S (k, u, m)" and "a + la \<le> argvk + 4096" and "argvk \<le> a"
    and "b + lb \<le> argvk + 4096" and "argvk \<le> b" and "4 + la + lb + List.length S < 16384" and "n < 4294967296"
  shows "let T = 4 + la + lb + List.length S; (k4, m4) = copy_block b lb (k, m); (k5, m5) = copy_block a la (k4, m4);
      k6 = w32_sub k5 4; m6 = store32 m5 k6 n; len = w32_sub (pages + 16384) k6; utop = w32_sub USER_STACK_TOP len;
      m7 = snd (memcpy m6 utop k6 len)
    in pages < k6 \<and> utop = USER_STACK_TOP - T \<and> load32 m7 utop = n \<and> mread m7 (utop + 4) la = mread m a la \<and>
      mread m7 (utop + 4 + la) lb = mread m b lb \<and> mread m7 (USER_STACK_TOP - List.length S) (List.length S) = S \<and>
      (\<forall>x. x \<notin> work pages \<union> tables argvk \<longrightarrow> \<not> (utop \<le> x \<and> x < USER_STACK_TOP) \<longrightarrow> m7 x = m0 x)"
proof -
  let ?T = "4 + la + lb + List.length S" let ?A = "mread m a la" let ?B = "mread m b lb"
  have C: "k = pages + 16384 - List.length S" "mread m k (List.length S) = S" "\<And>x. x \<notin> work pages \<union> tables argvk \<Longrightarrow> m x = m0 x"
    using assms(2) by (auto simp: copied_def)
  have P: "work pages \<inter> tables argvk = {}" "pages + 16384 \<le> 16777216"
    using assms(1) by (auto simp: places_ok_def KERNEL_MEMORY_SIZE_def)
  have u: "USER_STACK_TOP = 268435456" by (simp add: USER_STACK_TOP_def)
  have le: "?T \<le> 16384" "List.length S \<le> 16384" "lb \<le> k" "la \<le> k - lb" "4 \<le> k - lb - la" using assms(7) C(1) by linarith+
  have kk: "k - lb - la - 4 = pages + 16384 - ?T" using C(1) assms(7) by linarith
  have dis: "x + l \<le> y \<or> y + l \<le> x \<or> l = 0" if "argvk \<le> x" "x + l \<le> argvk + 4096" "pages \<le> y" "y + l \<le> pages + 16384" for x y l :: nat
  proof (rule ccontr)
    assume "\<not> ?thesis"
    then have "x < y + l" "y < x + l" "0 < l" by auto
    then have "max x y \<in> work pages" "max x y \<in> tables argvk" using that by (auto simp: work_def tables_def)
    then show False using P(1) by blast
  qed
  have copy: "snd (memcpy m' y x l) = mwrite m' y (mread m' x l)" if "argvk \<le> x" "x + l \<le> argvk + 4096" "pages \<le> y" "y + l \<le> pages + 16384" for m' x y l
  proof (cases "l = 0")
    case False
    then have "y \<le> x \<or> x + l \<le> y" using dis [OF that] by auto
    then show ?thesis by (simp add: memcpy_eq)
  qed (simp add: memcpy_def)
  have b4: "pages \<le> k - lb" "k - lb + lb \<le> pages + 16384" "pages \<le> k - lb - la" "k - lb - la + la \<le> pages + 16384"
    using C(1) assms(7) by linarith+
  let ?m4 = "mwrite m (k - lb) ?B" let ?m5 = "mwrite ?m4 (k - lb - la) ?A" let ?k6 = "k - lb - la - 4" let ?m6 = "store32 ?m5 ?k6 n"
  have k32: "k < 4294967296" using C(1) P(2) by linarith
  have blk1: "copy_block b lb (k, m) = (k - lb, ?m4)"
    using copy [OF assms(6,5) b4(1,2), of m] k32 le by (simp add: copy_block_def)
  have keep: "mread (mwrite m (k - lb) B) a la = ?A" if "List.length B = lb" for B
  proof (rule mread_cong)
    fix x assume "a \<le> x" "x < a + la"
    then have "x \<in> tables argvk" using assms(3,4) by (simp add: tables_def)
    then have "x \<notin> work pages" using P(1) by blast
    then have "\<not> (k - lb \<le> x \<and> x < k - lb + lb)" using b4(1) le(3) C(1) by (auto simp: work_def)
    then show "mwrite m (k - lb) B x = m x" by (simp only: mwrite_apply that if_False)
  qed
  have blk2: "copy_block a la (k - lb, ?m4) = (k - lb - la, ?m5)"
    using copy [OF assms(4,3) b4(3,4), of ?m4] k32 le keep [of ?B] by (simp add: copy_block_def)
  let ?w = "word_bytes n"
  have "mread ?m4 (k - lb) (List.length (?B @ S)) = ?B @ S"
    using mread_prepend [of m k S ?B] C(2) le(3) by (simp only: length_mread)
  then have "mread ?m5 (k - lb - la) (List.length (?A @ ?B @ S)) = ?A @ ?B @ S"
    using mread_prepend [of ?m4 "k - lb" "?B @ S" ?A] le(4) by (simp only: length_mread)
  then have I6: "mread ?m6 ?k6 (List.length (?w @ ?A @ ?B @ S)) = ?w @ ?A @ ?B @ S"
    using le(5) by (rule store32_prepend)
  let ?I = "?w @ ?A @ ?B @ S" let ?ut = "USER_STACK_TOP - ?T" let ?m7 = "mwrite ?m6 ?ut ?I"
  have T: "List.length ?I = ?T" by simp
  have ws: "w32_sub (k - lb - la) 4 = ?k6" "w32_sub (pages + 16384) ?k6 = ?T" "w32_sub USER_STACK_TOP ?T = ?ut" "pages < ?k6"
    using k32 le kk P(2) assms(7) u by simp_all
  have "?k6 + ?T \<le> ?ut" using kk le(1) P(2) u by linarith
  then have m7: "snd (memcpy ?m6 ?ut ?k6 ?T) = ?m7" using I6 T by (simp only: memcpy_eq disj_ac snd_conv simp_thms)
  have "mread ?m7 ?ut (List.length ?I) = ?I"
    by (rule nth_equalityI) (simp_all only: length_mread mread_nth mwrite_apply, simp)
  note M = this
  have r1: "mread ?m7 (?ut + 4) la = ?A" using mread_mid [OF M] by simp
  have r2: "mread ?m7 (?ut + 4 + la) lb = ?B" using mread_mid [of ?m7 ?ut "?w @ ?A" ?B S] M by (simp add: add.assoc)
  have "?ut + List.length (?w @ ?A @ ?B) = USER_STACK_TOP - List.length S" using le(1) u by simp
  then have r3: "mread ?m7 (USER_STACK_TOP - List.length S) (List.length S) = S"
    using mread_mid [of ?m7 ?ut "?w @ ?A @ ?B" S "[]"] M by simp
  have "mread ?m7 ?ut 4 = ?w" using mread_mid [of ?m7 ?ut "[]" ?w "?A @ ?B @ S"] M by simp
  moreover have "mread ?m6 ?k6 4 = ?w" using mread_mid [of ?m6 ?k6 "[]" ?w "?A @ ?B @ S"] I6 by simp
  ultimately have "load32 ?m7 ?ut = load32 ?m6 ?k6" using load32_mread [of ?m7 ?ut 4 ?m6 ?k6 0] by simp
  then have r4: "load32 ?m7 ?ut = n" using load32_store32 [OF assms(8)] by simp
  have "?m7 x = m0 x" if x: "x \<notin> work pages \<union> tables argvk" "\<not> (?ut \<le> x \<and> x < USER_STACK_TOP)" for x
  proof -
    have out: "x < pages \<or> pages + 16384 \<le> x" using x(1) by (auto simp: work_def)
    have "\<not> (?ut \<le> x \<and> x < ?ut + List.length ?I)" using x(2) T le(1) u by linarith
    then have "?m7 x = ?m6 x" by (simp only: mwrite_apply if_False)
    also have "\<dots> = ?m5 x"
    proof (rule store32_other)
      have "pages \<le> ?k6" "?k6 + 4 \<le> pages + 16384" using ws(4) b4(4) le(5) by linarith+
      with out show "x < ?k6 \<or> ?k6 + 4 \<le> x" by (elim disjE) linarith+
    qed
    also have "\<dots> = ?m4 x"
    proof -
      have "\<not> (k - lb - la \<le> x \<and> x < k - lb - la + List.length ?A)" using out b4 by auto
      then show ?thesis by (simp only: mwrite_apply if_False)
    qed
    also have "\<dots> = m x"
    proof -
      have "\<not> (k - lb \<le> x \<and> x < k - lb + List.length ?B)" using out b4 by auto
      then show ?thesis by (simp only: mwrite_apply if_False)
    qed
    finally show ?thesis using C(3) [OF x(1)] by simp
  qed
  then have "\<forall>x. x \<notin> work pages \<union> tables argvk \<longrightarrow> \<not> (?ut \<le> x \<and> x < USER_STACK_TOP) \<longrightarrow> ?m7 x = m0 x" by blast
  with r1 r2 r3 r4 ws m7 show ?thesis unfolding Let_def blk1 prod.case blk2 by (simp only: simp_thms)
qed

text \<open>What the program finds on its stack at \<open>sp\<close>: the number of its arguments, the vector of the arguments (with the
  name of the program first) and the vector of the environment.\<close>

definition start_stack :: "mem \<Rightarrow> addr \<Rightarrow> bytes list \<Rightarrow> bytes list \<Rightarrow> bool" where
  "start_stack m sp args envs \<longleftrightarrow> load32 m sp = List.length args \<and> strings_at m (sp + 4) args \<and>
     strings_at m (sp + 4 + 4 * (List.length args + 1)) envs"

lemma build_stack_ok:
  assumes "places_ok pages argvk" and "vector_ok (work pages \<union> tables argvk) m argv args" and "vector_ok (work pages \<union> tables argvk) m envp envs"
    and "cstr m filename fn" and "{filename..filename + List.length fn} \<inter> (work pages \<union> tables argvk) = {}"
    and "List.length (str0 fn @ blob args @ blob envs) + 4 * (List.length args + List.length envs + 4) < 16384"
    and "4 * (List.length args + List.length envs + 3) \<le> 4096"
  shows "\<exists>sp m'. build_stack pages argvk filename argv envp m = Some (sp, m') \<and> USER_STACK_TOP - 16384 < sp \<and>
    start_stack m' sp (fn # args) envs \<and>
    (\<forall>x. x \<notin> work pages \<union> tables argvk \<longrightarrow> \<not> (sp \<le> x \<and> x < USER_STACK_TOP) \<longrightarrow> m' x = m x)"
proof -
  let ?n = "List.length args" let ?e = "List.length envs" let ?S = "str0 fn @ blob args @ blob envs"
  let ?ek = "argvk + 4 * (?n + 1) + 4"
  let ?m1 = "store32 (store32 m (argvk + 4 * (?n + 1)) 0) (?ek + 4 * ?e) 0"
  have S: "List.length ?S \<le> 16384" using assms(6) by linarith
  obtain z1 z2 k u m3 where z: "copy_strings envp ?ek ?e (pages + 16384, USER_STACK_TOP, ?m1) = Some z1"
    "copy_strings argv (argvk + 4) ?n z1 = Some z2" "copy_string filename argvk z2 = Some (k, u, m3)" "copied pages argvk m ?S (k, u, m3)"
    "\<forall>i\<le>?n. load32 m3 (argvk + 4 * i) = USER_STACK_TOP - List.length (blob (drop i (fn # args)) @ blob envs)"
    "load32 m3 (argvk + 4 * (?n + 1)) = 0" "\<forall>i<?e. load32 m3 (?ek + 4 * i) = USER_STACK_TOP - List.length (blob (drop i envs))"
    "load32 m3 (?ek + 4 * ?e) = 0"
    using strings_and_tables [OF assms(1-5) S assms(7), unfolded Let_def] by blast
  let ?la = "(?n + 1 + 1) * 4" let ?lb = "(?e + 1) * 4" let ?T = "4 + ?la + ?lb + List.length ?S"
  obtain k4 m4 where b4: "copy_block ?ek ?lb (k, m3) = (k4, m4)" by force
  obtain k5 m5 where b5: "copy_block argvk ?la (k4, m4) = (k5, m5)" by force
  let ?k6 = "w32_sub k5 4" let ?m6 = "store32 m5 ?k6 (?n + 1)" let ?len = "w32_sub (pages + 16384) ?k6"
  define m7 where "m7 = snd (memcpy ?m6 (w32_sub USER_STACK_TOP ?len) ?k6 ?len)"
  define sp where "sp = w32_sub USER_STACK_TOP ?len"
  have "argvk + ?la \<le> argvk + 4096" "?ek + ?lb \<le> argvk + 4096" "argvk \<le> ?ek" "?T < 16384" "?n + 1 < 4294967296"
    using assms(6,7) by simp_all
  from image_built [OF assms(1) z(4) this(1) le_refl this(2-5), unfolded Let_def b4 prod.case b5, folded m7_def, folded sp_def]
  have I: "pages < ?k6" "sp = USER_STACK_TOP - ?T" "load32 m7 sp = ?n + 1" "mread m7 (sp + 4) ?la = mread m3 argvk ?la"
    "mread m7 (sp + 4 + ?la) ?lb = mread m3 ?ek ?lb" "mread m7 (USER_STACK_TOP - List.length ?S) (List.length ?S) = ?S"
    "\<forall>x. x \<notin> work pages \<union> tables argvk \<longrightarrow> \<not> (sp \<le> x \<and> x < USER_STACK_TOP) \<longrightarrow> m7 x = m x" by blast+
  have u: "USER_STACK_TOP = 268435456" by (simp add: USER_STACK_TOP_def)
  have la: "load32 m7 (sp + 4 + 4 * i) = load32 m3 (argvk + 4 * i)" if "i \<le> ?n + 1" for i
    using that by (intro load32_mread [OF I(4)]) simp
  have lb: "load32 m7 (sp + 4 + ?la + 4 * i) = load32 m3 (?ek + 4 * i)" if "i \<le> ?e" for i
    using that by (intro load32_mread [OF I(5)]) simp
  have no: "\<forall>s\<in>set (fn # args). EOS \<notin> set s" "\<forall>s\<in>set envs. EOS \<notin> set s"
    using assms(2-4) strings_no_eos cstr_iff_mread by (auto simp: vector_ok_def)
  have "List.length ?S < USER_STACK_TOP" using S u by linarith
  note img = strings_at_image [OF I(6) this]
  have "strings_at m7 (sp + 4) (fn # args)"
  proof (rule img [of "[]" "fn # args" "blob envs"])
    fix i assume "i < List.length (fn # args)"
    then show "load32 m7 (sp + 4 + 4 * i) = USER_STACK_TOP - List.length (blob (drop i (fn # args)) @ blob envs)"
      using la [of i] z(5) by simp
  next
    show "load32 m7 (sp + 4 + 4 * List.length (fn # args)) = 0" using la [of "?n + 1"] z(6) by simp
  qed (use no(1) in simp_all)
  moreover have "strings_at m7 (sp + 4 + ?la) envs"
  proof (rule img [of "str0 fn @ blob args" envs "[]"])
    fix i assume "i < ?e"
    then show "load32 m7 (sp + 4 + ?la + 4 * i) = USER_STACK_TOP - List.length (blob (drop i envs) @ [])"
      using lb [of i] z(7) by simp
  next
    show "load32 m7 (sp + 4 + ?la + 4 * ?e) = 0" using lb [of ?e] z(8) by simp
  qed (use no(2) in simp_all)
  moreover have "sp + 4 + ?la = sp + 4 + 4 * (List.length (fn # args) + 1)" by simp
  ultimately have "start_stack m7 sp (fn # args) envs" using I(3) by (simp only: start_stack_def) simp
  moreover have "build_stack pages argvk filename argv envp m = Some (sp, m7)"
    using count_argv_ok [OF assms(2)] count_argv_ok [OF assms(3)] z(1-3) b4 b5 I(1)
    by (simp add: build_stack_def PAGE_SIZE_def Let_def add.assoc m7_def sp_def)
  moreover have "USER_STACK_TOP - 16384 < sp" using I(2) u assms(6) by simp
  ultimately show ?thesis using I(7) by blast
qed

lemma pages_apart:
  assumes "a mod 4096 = 0" and "b mod 4096 = 0" and "IDX b \<notin> {IDX a..<IDX a + 4}"
  shows "work a \<inter> tables b = {}"
proof -
  obtain p q where e: "a = 4096 * p" "b = 4096 * q" using assms(1,2) by (auto elim!: dvdE)
  then have "q < p \<or> p + 4 \<le> q" using assms(3) by (auto simp: IDX_def)
  then show ?thesis unfolding e work_def tables_def by (elim disjE) auto
qed

section \<open>Properties\<close>

text \<open>C13. What \<open>execve\<close> hands to a new program: when the arguments, the environment and the path are readable
  outside the pages that the kernel takes for the copy, and fit (16 KiB in all, 4 KiB of pointers), the copy returns, and
  the program finds on its stack the number of its arguments, a vector whose strings are the path and the
  arguments in order, and a vector with the environment; no other byte outside the kernel's pages has changed, and
  these pages have been given back.\<close>

theorem execve_arguments:
  assumes "map_ok (kmem (kern s))" and "alloc_kpage 4 (kmem (kern s)) = Some (pages, ms1)" and "alloc_kpage 1 ms1 = Some (argvk, ms2)"
    and "pages + 16384 \<le> KERNEL_MEMORY_SIZE" and "argvk + 4096 \<le> KERNEL_MEMORY_SIZE"
    and "vector_ok (work pages \<union> tables argvk) (umem (io s)) argv args" and "vector_ok (work pages \<union> tables argvk) (umem (io s)) envp envs"
    and "cstr (umem (io s)) filename fn" and "{filename..filename + List.length fn} \<inter> (work pages \<union> tables argvk) = {}"
    and "List.length (str0 fn @ blob args @ blob envs) + 4 * (List.length args + List.length envs + 4) < 16384"
    and "4 * (List.length args + List.length envs + 3) \<le> 4096"
  shows "\<exists>sp s'. copy_argv_envp filename argv envp s = Some (sp, s') \<and> start_stack (umem (io s')) sp (fn # args) envs \<and>
    (\<forall>x. x \<notin> work pages \<union> tables argvk \<longrightarrow> \<not> (sp \<le> x \<and> x < USER_STACK_TOP) \<longrightarrow> umem (io s') x = umem (io s) x) \<and>
    ktaken (kmem (kern s')) = ktaken (kmem (kern s))"
proof -
  note a = alloc_kpage_ok [OF assms(1) _ assms(2)] note b = alloc_kpage_ok [OF a(1) _ assms(3)]
  have "IDX argvk \<notin> {IDX pages..<IDX pages + 4}" using a(6) b(5) by auto
  then have pl: "places_ok pages argvk" using pages_apart [OF a(2) b(2)] assms(4,5) by (simp add: places_ok_def)
  obtain sp m' where m': "build_stack pages argvk filename argv envp (umem (io s)) = Some (sp, m')" "start_stack m' sp (fn # args) envs"
    "\<forall>x. x \<notin> work pages \<union> tables argvk \<longrightarrow> \<not> (sp \<le> x \<and> x < USER_STACK_TOP) \<longrightarrow> m' x = umem (io s) x"
    using build_stack_ok [OF pl assms(6-11)] by blast
  have "{IDX argvk..<IDX argvk + 1} \<subseteq> ktaken ms2" using b(6) by simp
  then obtain ms3 where f3: "free_kpage argvk 1 ms2 = Some ms3" "map_ok ms3" "ktaken ms3 = ktaken ms2 - {IDX argvk..<IDX argvk + 1}"
    using free_kpage_ok [OF b(1) _ b(2), of 1] by auto
  have "{IDX pages..<IDX pages + 4} \<subseteq> ktaken ms3" using f3(3) b(5,6) a(6) by auto
  then obtain ms4 where f4: "free_kpage pages 4 ms3 = Some ms4" "ktaken ms4 = ktaken ms3 - {IDX pages..<IDX pages + 4}"
    using free_kpage_ok [OF f3(2) _ a(2), of 4] by auto
  have "ktaken ms4 = ktaken (kmem (kern s))" using f4(2) f3(3) a(5,6) b(5,6) by auto
  then show ?thesis using m' f3(1) f4(1) assms(2,3) by (simp add: copy_argv_envp_def)
qed

text \<open>The path \<open>sh\<close> with one argument \<open>-c\<close> and no environment.\<close>

definition demo_user_mem :: mem where
  "demo_user_mem = mwrite (mwrite (mwrite (\<lambda>_. 0) 0x2000000 [115, 104, 0]) 0x2000010 [45, 99, 0]) 0x2000020 [0x10, 0, 0, 2, 0, 0, 0, 0]"

lemma execve_arguments_witness:
  "\<exists>sp s'. copy_argv_envp 0x2000000 0x2000020 NULL (set_umem demo_user_mem (demo_proc ())) = Some (sp, s') \<and>
    start_stack (umem (io s')) sp [[115, 104], [45, 99]] []"
proof -
  let ?s = "set_umem demo_user_mem (demo_proc ())"
  have m: "map_ok (kmem (kern ?s))" by (simp add: set_umem_def demo_proc_def demo_k_def map_ok_def demo_mem_def bm_inv_def bitmap_make_def)
  have "scan_page (bitmap_make [0, 0] 2 256) 4 = Some (0x100000, bitmap_make [15, 0] 2 256)"
    "scan_page (bitmap_make [15, 0] 2 256) 1 = Some (0x104000, bitmap_make [31, 0] 2 256)" by code_simp+
  then have a: "alloc_kpage 4 (kmem (kern ?s)) = Some (0x100000, demo_mem\<lparr>kernel_map := bitmap_make [15, 0] 2 256\<rparr>)"
    "alloc_kpage 1 (demo_mem\<lparr>kernel_map := bitmap_make [15, 0] 2 256\<rparr>) = Some (0x104000, demo_mem\<lparr>kernel_map := bitmap_make [31, 0] 2 256\<rparr>)"
    by (simp_all add: set_umem_def demo_proc_def demo_k_def alloc_kpage_def demo_mem_def)
  let ?K = "work 0x100000 \<union> tables 0x104000"
  have K: "x \<notin> ?K" if "0x2000000 \<le> x" for x using that by (simp add: work_def tables_def)
  have l: "load32 demo_user_mem 0x2000020 = 0x2000010" "load32 demo_user_mem 0x2000024 = 0" by (simp_all add: demo_user_mem_def load32_def load16_def)
  have c: "cstr demo_user_mem 0x2000010 [45, 99]" "cstr demo_user_mem 0x2000000 [115, 104]" by (simp_all add: demo_user_mem_def)
  have "vector_ok ?K demo_user_mem 0x2000020 [[45, 99]]"
    using l c K by (auto simp: vector_ok_def strings_at_def)
  moreover have "vector_ok ?K demo_user_mem NULL []" by (simp add: vector_ok_def)
  moreover have "{0x2000000..0x2000000 + 2} \<inter> ?K = {}" using K by auto
  ultimately show ?thesis
    using execve_arguments [OF m a, of "0x2000020" "[[45, 99]]" NULL "[]" "0x2000000" "[115, 104]"] c(2)
    by (auto simp: KERNEL_MEMORY_SIZE_def set_umem_def)
qed

end
