(* ===== verification/UserLib.thy ===== *)
theory UserLib
  imports TimeC Vsprintf Stdlib
begin

text \<open>
  The library of the user programs: the stubs of \<open>src/src/lib/syscall.c\<close>, \<open>printf\<close> (\<open>lib/printf.c\<close>) and the start-up
  code (\<open>lib/crt1.c\<close>).

  A program sees its memory and, through \<open>int 0x80\<close>, the kernel. The kernel is an argument, a \<open>trap\<close>: from the number of
  the call and the registers \<open>ebx, ecx, edx, esi, edi, ebp\<close> that the stub has set, it gives \<open>eax\<close> and what has become of the
  memory and of the rest of the world, or \<open>None\<close> when control does not come back. \<open>Gate\<close> has the kernel's side.
\<close>

record 'w ust =
  umemory :: mem
  outer :: 'w

type_synonym 'w trap = "nat \<Rightarrow> nat list \<Rightarrow> 'w ust \<Rightarrow> (nat \<times> 'w ust) option"

section \<open>System calls\<close>

datatype syscall_t =
    SYS_NR_TEST | SYS_NR_EXIT | SYS_NR_FORK | SYS_NR_READ | SYS_NR_WRITE | SYS_NR_OPEN
  | SYS_NR_CLOSE | SYS_NR_WAITPID | SYS_NR_CREAT | SYS_NR_LINK | SYS_NR_UNLINK | SYS_NR_EXECVE
  | SYS_NR_CHDIR | SYS_NR_TIME | SYS_NR_MKNOD | SYS_NR_STAT | SYS_NR_LSEEK | SYS_NR_GETPID
  | SYS_NR_MOUNT | SYS_NR_UMOUNT | SYS_NR_ALARM | SYS_NR_FSTAT | SYS_NR_STTY | SYS_NR_GTTY
  | SYS_NR_KILL | SYS_NR_MKDIR | SYS_NR_RMDIR | SYS_NR_DUP | SYS_NR_PIPE | SYS_NR_BRK
  | SYS_NR_SIGNAL | SYS_NR_IOCTL | SYS_NR_SETPGID | SYS_NR_UMASK | SYS_NR_CHROOT | SYS_NR_DUP2
  | SYS_NR_GETPPID | SYS_NR_GETPGRP | SYS_NR_SETSID | SYS_NR_SIGACTION | SYS_NR_SGETMASK | SYS_NR_SSETMASK
  | SYS_NR_READDIR | SYS_NR_MMAP | SYS_NR_MUNMAP | SYS_NR_YIELD | SYS_NR_SLEEP | SYS_NR_GETCWD
  | SYS_NR_MKFS

fun syscall_nr :: "syscall_t \<Rightarrow> nat" where
  "syscall_nr SYS_NR_TEST = 0"
| "syscall_nr SYS_NR_EXIT = 1"
| "syscall_nr SYS_NR_FORK = 2"
| "syscall_nr SYS_NR_READ = 3"
| "syscall_nr SYS_NR_WRITE = 4"
| "syscall_nr SYS_NR_OPEN = 5"
| "syscall_nr SYS_NR_CLOSE = 6"
| "syscall_nr SYS_NR_WAITPID = 7"
| "syscall_nr SYS_NR_CREAT = 8"
| "syscall_nr SYS_NR_LINK = 9"
| "syscall_nr SYS_NR_UNLINK = 10"
| "syscall_nr SYS_NR_EXECVE = 11"
| "syscall_nr SYS_NR_CHDIR = 12"
| "syscall_nr SYS_NR_TIME = 13"
| "syscall_nr SYS_NR_MKNOD = 14"
| "syscall_nr SYS_NR_STAT = 18"
| "syscall_nr SYS_NR_LSEEK = 19"
| "syscall_nr SYS_NR_GETPID = 20"
| "syscall_nr SYS_NR_MOUNT = 21"
| "syscall_nr SYS_NR_UMOUNT = 22"
| "syscall_nr SYS_NR_ALARM = 27"
| "syscall_nr SYS_NR_FSTAT = 28"
| "syscall_nr SYS_NR_STTY = 31"
| "syscall_nr SYS_NR_GTTY = 32"
| "syscall_nr SYS_NR_KILL = 37"
| "syscall_nr SYS_NR_MKDIR = 39"
| "syscall_nr SYS_NR_RMDIR = 40"
| "syscall_nr SYS_NR_DUP = 41"
| "syscall_nr SYS_NR_PIPE = 42"
| "syscall_nr SYS_NR_BRK = 45"
| "syscall_nr SYS_NR_SIGNAL = 48"
| "syscall_nr SYS_NR_IOCTL = 54"
| "syscall_nr SYS_NR_SETPGID = 57"
| "syscall_nr SYS_NR_UMASK = 60"
| "syscall_nr SYS_NR_CHROOT = 61"
| "syscall_nr SYS_NR_DUP2 = 63"
| "syscall_nr SYS_NR_GETPPID = 64"
| "syscall_nr SYS_NR_GETPGRP = 65"
| "syscall_nr SYS_NR_SETSID = 66"
| "syscall_nr SYS_NR_SIGACTION = 67"
| "syscall_nr SYS_NR_SGETMASK = 68"
| "syscall_nr SYS_NR_SSETMASK = 69"
| "syscall_nr SYS_NR_READDIR = 89"
| "syscall_nr SYS_NR_MMAP = 90"
| "syscall_nr SYS_NR_MUNMAP = 91"
| "syscall_nr SYS_NR_YIELD = 158"
| "syscall_nr SYS_NR_SLEEP = 162"
| "syscall_nr SYS_NR_GETCWD = 183"
| "syscall_nr SYS_NR_MKFS = 200"

definition syscall0 :: "'w trap \<Rightarrow> syscall_t \<Rightarrow> 'w ust \<Rightarrow> (nat \<times> 'w ust) option" where
  "syscall0 k nr = k (syscall_nr nr) []"

definition syscall1 :: "'w trap \<Rightarrow> syscall_t \<Rightarrow> nat \<Rightarrow> 'w ust \<Rightarrow> (nat \<times> 'w ust) option" where
  "syscall1 k nr arg = k (syscall_nr nr) [arg]"

definition syscall2 :: "'w trap \<Rightarrow> syscall_t \<Rightarrow> nat \<Rightarrow> nat \<Rightarrow> 'w ust \<Rightarrow> (nat \<times> 'w ust) option" where
  "syscall2 k nr arg1 arg2 = k (syscall_nr nr) [arg1, arg2]"

definition syscall3 :: "'w trap \<Rightarrow> syscall_t \<Rightarrow> nat \<Rightarrow> nat \<Rightarrow> nat \<Rightarrow> 'w ust \<Rightarrow> (nat \<times> 'w ust) option" where
  "syscall3 k nr arg1 arg2 arg3 = k (syscall_nr nr) [arg1, arg2, arg3]"

definition syscall4 :: "'w trap \<Rightarrow> syscall_t \<Rightarrow> nat \<Rightarrow> nat \<Rightarrow> nat \<Rightarrow> nat \<Rightarrow> 'w ust \<Rightarrow> (nat \<times> 'w ust) option" where
  "syscall4 k nr arg1 arg2 arg3 arg4 = k (syscall_nr nr) [arg1, arg2, arg3, arg4]"

definition syscall5 :: "'w trap \<Rightarrow> syscall_t \<Rightarrow> nat \<Rightarrow> nat \<Rightarrow> nat \<Rightarrow> nat \<Rightarrow> nat \<Rightarrow> 'w ust \<Rightarrow> (nat \<times> 'w ust) option" where
  "syscall5 k nr arg1 arg2 arg3 arg4 arg5 = k (syscall_nr nr) [arg1, arg2, arg3, arg4, arg5]"

definition syscall6 :: "'w trap \<Rightarrow> syscall_t \<Rightarrow> nat \<Rightarrow> nat \<Rightarrow> nat \<Rightarrow> nat \<Rightarrow> nat \<Rightarrow> nat \<Rightarrow> 'w ust \<Rightarrow> (nat \<times> 'w ust) option" where
  "syscall6 k nr arg1 arg2 arg3 arg4 arg5 arg6 = k (syscall_nr nr) [arg1, arg2, arg3, arg4, arg5, arg6]"

text \<open>What a stub makes of \<open>eax\<close>: an \<open>int\<close>, a \<open>u16\<close>, nothing. An \<open>int\<close> argument goes into its register modulo \<open>2 ^ 32\<close>.\<close>

definition as_int :: "(nat \<times> 'w ust) option \<Rightarrow> (int \<times> 'w ust) option" where
  "as_int r = map_option (map_prod (\<lambda>n. s32 (int n)) id) r"

definition as_u16 :: "(nat \<times> 'w ust) option \<Rightarrow> (nat \<times> 'w ust) option" where
  "as_u16 r = map_option (map_prod w16 id) r"

definition as_void :: "(nat \<times> 'w ust) option \<Rightarrow> 'w ust option" where
  "as_void r = map_option snd r"

definition reg :: "int \<Rightarrow> nat" where
  "reg i = nat (i mod 4294967296)"

definition test_call :: "'w trap \<Rightarrow> 'w ust \<Rightarrow> (nat \<times> 'w ust) option" where
  "test_call k s = syscall0 k SYS_NR_TEST s"

definition exit_call :: "'w trap \<Rightarrow> int \<Rightarrow> 'w ust \<Rightarrow> 'w ust option" where
  "exit_call k st s = as_void (syscall1 k SYS_NR_EXIT (reg st) s)"

definition fork_call :: "'w trap \<Rightarrow> 'w ust \<Rightarrow> (int \<times> 'w ust) option" where
  "fork_call k s = as_int (syscall0 k SYS_NR_FORK s)"

definition waitpid_call :: "'w trap \<Rightarrow> int \<Rightarrow> nat \<Rightarrow> 'w ust \<Rightarrow> (int \<times> 'w ust) option" where
  "waitpid_call k pid st s = as_int (syscall2 k SYS_NR_WAITPID (reg pid) st s)"

definition execve_call :: "'w trap \<Rightarrow> nat \<Rightarrow> nat \<Rightarrow> nat \<Rightarrow> 'w ust \<Rightarrow> (int \<times> 'w ust) option" where
  "execve_call k filename argv envp s = as_int (syscall3 k SYS_NR_EXECVE filename argv envp s)"

definition kill_call :: "'w trap \<Rightarrow> int \<Rightarrow> int \<Rightarrow> 'w ust \<Rightarrow> (int \<times> 'w ust) option" where
  "kill_call k pid sg s = as_int (syscall2 k SYS_NR_KILL (reg pid) (reg sg) s)"

definition alarm_call :: "'w trap \<Rightarrow> int \<Rightarrow> 'w ust \<Rightarrow> (int \<times> 'w ust) option" where
  "alarm_call k sec s = as_int (syscall1 k SYS_NR_ALARM (reg sec) s)"

definition yield_call :: "'w trap \<Rightarrow> 'w ust \<Rightarrow> 'w ust option" where
  "yield_call k s = as_void (syscall0 k SYS_NR_YIELD s)"

definition sleep_call :: "'w trap \<Rightarrow> nat \<Rightarrow> 'w ust \<Rightarrow> 'w ust option" where
  "sleep_call k ms s = as_void (syscall1 k SYS_NR_SLEEP ms s)"

definition getpid_call :: "'w trap \<Rightarrow> 'w ust \<Rightarrow> (int \<times> 'w ust) option" where
  "getpid_call k s = as_int (syscall0 k SYS_NR_GETPID s)"

definition getppid_call :: "'w trap \<Rightarrow> 'w ust \<Rightarrow> (int \<times> 'w ust) option" where
  "getppid_call k s = as_int (syscall0 k SYS_NR_GETPPID s)"

definition setpgid_call :: "'w trap \<Rightarrow> int \<Rightarrow> int \<Rightarrow> 'w ust \<Rightarrow> (int \<times> 'w ust) option" where
  "setpgid_call k pid pgid s = as_int (syscall2 k SYS_NR_SETPGID (reg pid) (reg pgid) s)"

definition getpgrp_call :: "'w trap \<Rightarrow> 'w ust \<Rightarrow> (int \<times> 'w ust) option" where
  "getpgrp_call k s = as_int (syscall0 k SYS_NR_GETPGRP s)"

definition setsid_call :: "'w trap \<Rightarrow> 'w ust \<Rightarrow> (int \<times> 'w ust) option" where
  "setsid_call k s = as_int (syscall0 k SYS_NR_SETSID s)"

definition stty_call :: "'w trap \<Rightarrow> 'w ust \<Rightarrow> (int \<times> 'w ust) option" where
  "stty_call k s = as_int (syscall0 k SYS_NR_STTY s)"

definition gtty_call :: "'w trap \<Rightarrow> 'w ust \<Rightarrow> (int \<times> 'w ust) option" where
  "gtty_call k s = as_int (syscall0 k SYS_NR_GTTY s)"

definition ioctl_call :: "'w trap \<Rightarrow> int \<Rightarrow> int \<Rightarrow> int \<Rightarrow> 'w ust \<Rightarrow> (int \<times> 'w ust) option" where
  "ioctl_call k fd cmd args s = as_int (syscall3 k SYS_NR_IOCTL (reg fd) (reg cmd) (reg args) s)"

definition brk_call :: "'w trap \<Rightarrow> nat \<Rightarrow> 'w ust \<Rightarrow> (int \<times> 'w ust) option" where
  "brk_call k addr s = as_int (syscall1 k SYS_NR_BRK addr s)"

definition mmap_call :: "'w trap \<Rightarrow> nat \<Rightarrow> nat \<Rightarrow> int \<Rightarrow> int \<Rightarrow> int \<Rightarrow> int \<Rightarrow> 'w ust \<Rightarrow> (nat \<times> 'w ust) option" where
  "mmap_call k addr len prot fl fd off s = syscall6 k SYS_NR_MMAP addr len (reg prot) (reg fl) (reg fd) (reg off) s"

definition munmap_call :: "'w trap \<Rightarrow> nat \<Rightarrow> nat \<Rightarrow> 'w ust \<Rightarrow> (int \<times> 'w ust) option" where
  "munmap_call k addr len s = as_int (syscall2 k SYS_NR_MUNMAP addr len s)"

definition dup_call :: "'w trap \<Rightarrow> int \<Rightarrow> 'w ust \<Rightarrow> (int \<times> 'w ust) option" where
  "dup_call k oldfd s = as_int (syscall1 k SYS_NR_DUP (reg oldfd) s)"

definition dup2_call :: "'w trap \<Rightarrow> int \<Rightarrow> int \<Rightarrow> 'w ust \<Rightarrow> (int \<times> 'w ust) option" where
  "dup2_call k oldfd newfd s = as_int (syscall2 k SYS_NR_DUP2 (reg oldfd) (reg newfd) s)"

definition pipe_call :: "'w trap \<Rightarrow> nat \<Rightarrow> 'w ust \<Rightarrow> (int \<times> 'w ust) option" where
  "pipe_call k pipefd s = as_int (syscall1 k SYS_NR_PIPE pipefd s)"

definition open_call :: "'w trap \<Rightarrow> nat \<Rightarrow> int \<Rightarrow> int \<Rightarrow> 'w ust \<Rightarrow> (int \<times> 'w ust) option" where
  "open_call k filename fl md s = as_int (syscall3 k SYS_NR_OPEN filename (reg fl) (reg md) s)"

definition creat_call :: "'w trap \<Rightarrow> nat \<Rightarrow> int \<Rightarrow> 'w ust \<Rightarrow> (int \<times> 'w ust) option" where
  "creat_call k filename md s = as_int (syscall2 k SYS_NR_CREAT filename (reg md) s)"

definition close_call :: "'w trap \<Rightarrow> int \<Rightarrow> 'w ust \<Rightarrow> 'w ust option" where
  "close_call k fd s = as_void (syscall1 k SYS_NR_CLOSE (reg fd) s)"

definition read_call :: "'w trap \<Rightarrow> int \<Rightarrow> nat \<Rightarrow> int \<Rightarrow> 'w ust \<Rightarrow> (int \<times> 'w ust) option" where
  "read_call k fd buf len s = as_int (syscall3 k SYS_NR_READ (reg fd) buf (reg len) s)"

definition write_call :: "'w trap \<Rightarrow> int \<Rightarrow> nat \<Rightarrow> int \<Rightarrow> 'w ust \<Rightarrow> (int \<times> 'w ust) option" where
  "write_call k fd buf len s = as_int (syscall3 k SYS_NR_WRITE (reg fd) buf (reg len) s)"

definition lseek_call :: "'w trap \<Rightarrow> int \<Rightarrow> int \<Rightarrow> int \<Rightarrow> 'w ust \<Rightarrow> (int \<times> 'w ust) option" where
  "lseek_call k fd off whence s = as_int (syscall3 k SYS_NR_LSEEK (reg fd) (reg off) (reg whence) s)"

definition readdir_call :: "'w trap \<Rightarrow> int \<Rightarrow> nat \<Rightarrow> int \<Rightarrow> 'w ust \<Rightarrow> (int \<times> 'w ust) option" where
  "readdir_call k fd dir count s = as_int (syscall3 k SYS_NR_READDIR (reg fd) dir (reg count) s)"

definition getcwd_call :: "'w trap \<Rightarrow> nat \<Rightarrow> nat \<Rightarrow> 'w ust \<Rightarrow> (nat \<times> 'w ust) option" where
  "getcwd_call k buf sz s = syscall2 k SYS_NR_GETCWD buf sz s"

definition chdir_call :: "'w trap \<Rightarrow> nat \<Rightarrow> 'w ust \<Rightarrow> (int \<times> 'w ust) option" where
  "chdir_call k pathname s = as_int (syscall1 k SYS_NR_CHDIR pathname s)"

definition chroot_call :: "'w trap \<Rightarrow> nat \<Rightarrow> 'w ust \<Rightarrow> (int \<times> 'w ust) option" where
  "chroot_call k pathname s = as_int (syscall1 k SYS_NR_CHROOT pathname s)"

definition mkdir_call :: "'w trap \<Rightarrow> nat \<Rightarrow> int \<Rightarrow> 'w ust \<Rightarrow> (int \<times> 'w ust) option" where
  "mkdir_call k pathname md s = as_int (syscall2 k SYS_NR_MKDIR pathname (reg md) s)"

definition rmdir_call :: "'w trap \<Rightarrow> nat \<Rightarrow> 'w ust \<Rightarrow> (int \<times> 'w ust) option" where
  "rmdir_call k pathname s = as_int (syscall1 k SYS_NR_RMDIR pathname s)"

definition link_call :: "'w trap \<Rightarrow> nat \<Rightarrow> nat \<Rightarrow> 'w ust \<Rightarrow> (int \<times> 'w ust) option" where
  "link_call k oldname newname s = as_int (syscall2 k SYS_NR_LINK oldname newname s)"

definition unlink_call :: "'w trap \<Rightarrow> nat \<Rightarrow> 'w ust \<Rightarrow> (int \<times> 'w ust) option" where
  "unlink_call k filename s = as_int (syscall1 k SYS_NR_UNLINK filename s)"

definition mount_call :: "'w trap \<Rightarrow> nat \<Rightarrow> nat \<Rightarrow> int \<Rightarrow> 'w ust \<Rightarrow> (int \<times> 'w ust) option" where
  "mount_call k devname dirname fl s = as_int (syscall3 k SYS_NR_MOUNT devname dirname (reg fl) s)"

definition umount_call :: "'w trap \<Rightarrow> nat \<Rightarrow> 'w ust \<Rightarrow> (int \<times> 'w ust) option" where
  "umount_call k target s = as_int (syscall1 k SYS_NR_UMOUNT target s)"

definition mknod_call :: "'w trap \<Rightarrow> nat \<Rightarrow> int \<Rightarrow> int \<Rightarrow> 'w ust \<Rightarrow> (int \<times> 'w ust) option" where
  "mknod_call k filename md d s = as_int (syscall3 k SYS_NR_MKNOD filename (reg md) (reg d) s)"

definition time_call :: "'w trap \<Rightarrow> 'w ust \<Rightarrow> (nat \<times> 'w ust) option" where
  "time_call k s = syscall0 k SYS_NR_TIME s"

definition umask_call :: "'w trap \<Rightarrow> nat \<Rightarrow> 'w ust \<Rightarrow> (nat \<times> 'w ust) option" where
  "umask_call k msk s = as_u16 (syscall1 k SYS_NR_UMASK msk s)"

definition stat_call :: "'w trap \<Rightarrow> nat \<Rightarrow> nat \<Rightarrow> 'w ust \<Rightarrow> (int \<times> 'w ust) option" where
  "stat_call k filename statbuf s = as_int (syscall2 k SYS_NR_STAT filename statbuf s)"

definition fstat_call :: "'w trap \<Rightarrow> int \<Rightarrow> nat \<Rightarrow> 'w ust \<Rightarrow> (int \<times> 'w ust) option" where
  "fstat_call k fd statbuf s = as_int (syscall2 k SYS_NR_FSTAT (reg fd) statbuf s)"

definition mkfs_call :: "'w trap \<Rightarrow> nat \<Rightarrow> int \<Rightarrow> 'w ust \<Rightarrow> (int \<times> 'w ust) option" where
  "mkfs_call k devname icount s = as_int (syscall2 k SYS_NR_MKFS devname (reg icount) s)"

definition sgetmask_call :: "'w trap \<Rightarrow> 'w ust \<Rightarrow> (int \<times> 'w ust) option" where
  "sgetmask_call k s = as_int (syscall0 k SYS_NR_SGETMASK s)"

definition ssetmask_call :: "'w trap \<Rightarrow> int \<Rightarrow> 'w ust \<Rightarrow> (int \<times> 'w ust) option" where
  "ssetmask_call k newmask s = as_int (syscall1 k SYS_NR_SSETMASK (reg newmask) s)"

definition signal_call :: "'w trap \<Rightarrow> nat \<Rightarrow> int \<Rightarrow> int \<Rightarrow> 'w ust \<Rightarrow> (int \<times> 'w ust) option" where
  "signal_call k restorer sig handler s = as_int (syscall3 k SYS_NR_SIGNAL (reg sig) (reg handler) restorer s)"

definition sigaction_call :: "'w trap \<Rightarrow> int \<Rightarrow> nat \<Rightarrow> nat \<Rightarrow> 'w ust \<Rightarrow> (int \<times> 'w ust) option" where
  "sigaction_call k sig act oldaction s = as_int (syscall3 k SYS_NR_SIGACTION (reg sig) act oldaction s)"

text \<open>\<open>setpgrp\<close> has no \<open>return\<close>: its value is undefined, and only its effect is in the model.\<close>

definition setpgrp_call :: "'w trap \<Rightarrow> 'w ust \<Rightarrow> 'w ust option" where
  "setpgrp_call k s = do { (_, s) \<leftarrow> setpgid_call k 0 0 s; Some s }"

section \<open>Output\<close>

text \<open>Where the linker has put the string literals of a program (each ends with a zero byte), and where its static and
  local objects are.\<close>

record image =
  lit :: "string \<Rightarrow> addr"
  obj :: "string \<Rightarrow> addr"

definition STDIN_FILENO :: int where "STDIN_FILENO = 0"
definition STDOUT_FILENO :: int where "STDOUT_FILENO = 1"
definition STDERR_FILENO :: int where "STDERR_FILENO = 2"

definition set_memory :: "mem \<Rightarrow> 'w ust \<Rightarrow> 'w ust" where
  "set_memory m s = s\<lparr>umemory := m\<rparr>"

text \<open>The output of \<open>vsprintf\<close> in memory: its bytes at \<open>buf\<close>, and the counts that \<open>%n\<close> stores.\<close>

definition vsprintf_to :: "addr \<Rightarrow> u8 list \<Rightarrow> u32 list \<Rightarrow> 'w ust \<Rightarrow> (nat \<times> 'w ust) option" where
  "vsprintf_to buf fmt args s = do {
     (i, out, counts) \<leftarrow> vsprintf (umemory s) fmt args;
     Some (i, set_memory (foldl (\<lambda>m (a, v). store32 m a v) (mwrite (umemory s) buf out) counts) s) }"

definition printf :: "image \<Rightarrow> 'w trap \<Rightarrow> u8 list \<Rightarrow> u32 list \<Rightarrow> 'w ust \<Rightarrow> (int \<times> 'w ust) option" where
  "printf im k fmt args s = do {
     (i, s) \<leftarrow> vsprintf_to (obj im ''printf.buf'') fmt args s;
     (_, s) \<leftarrow> write_call k STDOUT_FILENO (obj im ''printf.buf'') (int i) s;
     Some (int i, s) }"

text \<open>A format that is a string in memory.\<close>

definition printf_at :: "image \<Rightarrow> 'w trap \<Rightarrow> addr \<Rightarrow> 'w ust \<Rightarrow> (int \<times> 'w ust) option" where
  "printf_at im k fmt s = do {
     e \<leftarrow> strend (umemory s) fmt;
     printf im k (mread (umemory s) fmt (e - fmt)) [] s }"

definition puts :: "image \<Rightarrow> 'w trap \<Rightarrow> string \<Rightarrow> u32 list \<Rightarrow> 'w ust \<Rightarrow> 'w ust option" where
  "puts im k fmt args s = map_option snd (printf im k (str8 fmt) args s)"

definition word_at :: "addr \<Rightarrow> 'w ust \<Rightarrow> nat" where
  "word_at a s = load32 (umemory s) a"

section \<open>Start-up\<close>

text \<open>\<open>_init\<close> and \<open>_fini\<close> are the empty functions of the file. The function does not return: \<open>None\<close> when the kernel does
  not come back from \<open>exit\<close>, and undefined when it does.\<close>

definition libc_start_main :: "(int \<Rightarrow> addr \<Rightarrow> addr \<Rightarrow> 'w ust \<Rightarrow> (int \<times> 'w ust) option) \<Rightarrow> 'w trap \<Rightarrow> int \<Rightarrow> addr \<Rightarrow> 'w ust \<Rightarrow> 'w ust option" where
  "libc_start_main main k argc argv s = do {
     let envp = nat (int argv + 4 * argc + 4);
     (i, s) \<leftarrow> main argc argv envp s;
     exit_call k i s }"

end
