(* ===== verification/Gate.thy ===== *)
theory Gate
  imports UserLib FileC
begin






text \<open>\<open>sys_test\<close>: \<open>ch\<close> is where the byte on its stack lies. A device that is not there fails an assertion.\<close>

definition sys_test :: "addr \<Rightarrow> 's device_t list \<Rightarrow> 's \<Rightarrow> (nat \<times> 's) option" where
  "sys_test ch devices s = do {
     serial \<leftarrow> device_find DEV_SERIAL 0 devices;
     keyboard \<leftarrow> device_find DEV_KEYBOARD 0 devices;
     console \<leftarrow> device_find DEV_CONSOLE 0 devices;
     (_, s) \<leftarrow> device_read (int serial) ch 1 0 0 devices s;
     (_, s) \<leftarrow> device_write (int serial) ch 1 0 0 devices s;
     (_, s) \<leftarrow> device_write (int console) ch 1 0 0 devices s;
     Some (255, s) }"

section \<open>Every call reaches its function\<close>


section \<open>Properties\<close>












end
