(* ===== verification/Ide.thy ===== *)
theory Ide
  imports Driver
begin

text \<open>
  \<open>src/src/kernel/ide.c\<close>: two controllers with two disks each, programmed through ports (PIO). The controllers are
  behind the \<open>bus\<close>. A transfer takes the lock of the controller, selects disk and sectors, and moves the sectors
  word by word; between two sectors the task blocks until the interrupt, unless it runs before there are tasks.
\<close>

section \<open>Registers, commands and data\<close>

definition IDE_IOBASE_PRIMARY :: nat where "IDE_IOBASE_PRIMARY = 0x1F0"
definition IDE_IOBASE_SECONDARY :: nat where "IDE_IOBASE_SECONDARY = 0x170"
definition IDE_DATA :: nat where "IDE_DATA = 0x0000"
definition IDE_ERR :: nat where "IDE_ERR = 0x0001"
definition IDE_FEATURE :: nat where "IDE_FEATURE = 0x0001"
definition IDE_SECTOR :: nat where "IDE_SECTOR = 0x0002"
definition IDE_LBA_LOW :: nat where "IDE_LBA_LOW = 0x0003"
definition IDE_LBA_MID :: nat where "IDE_LBA_MID = 0x0004"
definition IDE_LBA_HIGH :: nat where "IDE_LBA_HIGH = 0x0005"
definition IDE_HDDEVSEL :: nat where "IDE_HDDEVSEL = 0x0006"
definition IDE_STATUS :: nat where "IDE_STATUS = 0x0007"
definition IDE_COMMAND :: nat where "IDE_COMMAND = 0x0007"
definition IDE_ALT_STATUS :: nat where "IDE_ALT_STATUS = 0x0206"
definition IDE_CONTROL :: nat where "IDE_CONTROL = 0x0206"
definition IDE_CMD_READ :: u8 where "IDE_CMD_READ = 0x20"
definition IDE_CMD_WRITE :: u8 where "IDE_CMD_WRITE = 0x30"
definition IDE_CMD_IDENTIFY :: u8 where "IDE_CMD_IDENTIFY = 0xEC"
definition IDE_SR_NULL :: u8 where "IDE_SR_NULL = 0x00"
definition IDE_SR_ERR :: u8 where "IDE_SR_ERR = 0x01"
definition IDE_SR_DRQ :: u8 where "IDE_SR_DRQ = 0x08"
definition IDE_SR_DRDY :: u8 where "IDE_SR_DRDY = 0x40"
definition IDE_SR_BSY :: u8 where "IDE_SR_BSY = 0x80"
definition IDE_CTRL_SRST :: u8 where "IDE_CTRL_SRST = 0x04"
definition IDE_LBA_MASTER :: u8 where "IDE_LBA_MASTER = 0xe0"
definition IDE_LBA_SLAVE :: u8 where "IDE_LBA_SLAVE = 0xf0"
definition IDE_CTRL_NR :: nat where "IDE_CTRL_NR = 2"
definition IDE_DISK_NR :: nat where "IDE_DISK_NR = 2"
definition IDE_PART_NR :: nat where "IDE_PART_NR = 4"
definition SECTOR_SIZE :: nat where "SECTOR_SIZE = 512"
definition PART_FS_EXTENDED :: nat where "PART_FS_EXTENDED = 5"
definition IRQ_HARDDISK :: nat where "IRQ_HARDDISK = 14"

record ide_part_t =
  pname :: string
  psystem :: nat
  pstart :: nat
  pcount :: nat

record ide_disk_t =
  dname :: string
  selector :: u8
  master :: bool
  total_lba :: nat
  cylinders :: nat
  heads :: nat
  sectors :: nat
  parts :: "ide_part_t list"

record ide_ctrl_t =
  cname :: string
  clock_of :: lock_t
  iobase :: nat
  disks :: "ide_disk_t list"
  active :: "nat option"
  control_byte :: u8
  cwaiter :: tptr

text \<open>A disk is named by the index of its controller and its index there.\<close>

record 'd ide_t =
  pr :: "'d proc_t"
  ibus :: "'d bus"
  ctrls :: "ide_ctrl_t list"

definition in_port :: "nat \<Rightarrow> 'd ide_t \<Rightarrow> u8 \<times> 'd ide_t" where
  "in_port p s = (let (b, h) = in8 (ibus s) p (hw (io (pr s))) in (b, s\<lparr>pr := set_hw h (pr s)\<rparr>))"

definition out_port :: "nat \<Rightarrow> u8 \<Rightarrow> 'd ide_t \<Rightarrow> 'd ide_t" where
  "out_port p b s = s\<lparr>pr := set_hw (out8 (ibus s) p b (hw (io (pr s)))) (pr s)\<rparr>"

definition in_word :: "nat \<Rightarrow> 'd ide_t \<Rightarrow> u16 \<times> 'd ide_t" where
  "in_word p s = (let (b, h) = in16 (ibus s) p (hw (io (pr s))) in (b, s\<lparr>pr := set_hw h (pr s)\<rparr>))"

definition out_word :: "nat \<Rightarrow> u16 \<Rightarrow> 'd ide_t \<Rightarrow> 'd ide_t" where
  "out_word p b s = s\<lparr>pr := set_hw (out16 (ibus s) p b (hw (io (pr s)))) (pr s)\<rparr>"

definition set_umem :: "mem \<Rightarrow> 'd ide_t \<Rightarrow> 'd ide_t" where
  "set_umem m s = s\<lparr>pr := (pr s)\<lparr>io := (io (pr s))\<lparr>umem := m\<rparr>\<rparr>\<rparr>"

definition upd_ctrl :: "nat \<Rightarrow> (ide_ctrl_t \<Rightarrow> ide_ctrl_t) \<Rightarrow> 'd ide_t \<Rightarrow> 'd ide_t" where
  "upd_ctrl c f s = s\<lparr>ctrls := (ctrls s)[c := f (ctrls s ! c)]\<rparr>"

definition upd_disk :: "nat \<Rightarrow> nat \<Rightarrow> (ide_disk_t \<Rightarrow> ide_disk_t) \<Rightarrow> 'd ide_t \<Rightarrow> 'd ide_t" where
  "upd_disk c d f = upd_ctrl c (\<lambda>x. x\<lparr>disks := (disks x)[d := f (disks x ! d)]\<rparr>)"

definition on_kern :: "(kstate \<Rightarrow> kstate option) \<Rightarrow> 'd ide_t \<Rightarrow> 'd ide_t option" where
  "on_kern f s = do { p \<leftarrow> do_kern f (pr s); Some (s\<lparr>pr := p\<rparr>) }"

abbreviation (input) port_of :: "'d ide_t \<Rightarrow> nat \<Rightarrow> nat \<Rightarrow> nat" where
  "port_of s c r \<equiv> iobase (ctrls s ! c) + r"

abbreviation (input) disk_of :: "'d ide_t \<Rightarrow> nat \<Rightarrow> nat \<Rightarrow> ide_disk_t" where
  "disk_of s c d \<equiv> disks (ctrls s ! c) ! d"

section \<open>The interrupt and the status\<close>

definition ide_handler :: "nat \<Rightarrow> 'd ide_t \<Rightarrow> 'd ide_t option" where
  "ide_handler vector s = do {
     let c = w32_sub (w32_sub vector IRQ_HARDDISK) 0x20;
     x \<leftarrow> aget (ctrls s) c;
     let (st, s) = in_port (iobase x + IDE_STATUS) s;
     if cwaiter (ctrls s ! c) \<noteq> NULL
     then do {
       s \<leftarrow> on_kern (task_unblock (cwaiter (ctrls s ! c)) 0) s;
       Some (upd_ctrl c (\<lambda>x. x\<lparr>cwaiter := NULL\<rparr>) s) }
     else Some s }"

text \<open>\<open>ide_error\<close> reads the error register and prints what it finds.\<close>

definition ide_error :: "nat \<Rightarrow> 'd ide_t \<Rightarrow> 'd ide_t" where
  "ide_error c s = snd (in_port (port_of s c IDE_ERR) s)"

partial_function (option) ide_busy_wait :: "nat \<Rightarrow> u8 \<Rightarrow> 'd ide_t \<Rightarrow> 'd ide_t option" where
  "ide_busy_wait c msk s =
     (let (st, s) = in_port (port_of s c IDE_ALT_STATUS) s;
          s = (if st AND IDE_SR_ERR \<noteq> 0 then ide_error c s else s)
      in if st AND IDE_SR_BSY \<noteq> 0 then ide_busy_wait c msk s
         else if st AND msk = msk then Some s
         else ide_busy_wait c msk s)"

definition ide_reset_controller :: "nat \<Rightarrow> 'd ide_t \<Rightarrow> 'd ide_t option" where
  "ide_reset_controller c s = do {
     s \<leftarrow> ide_busy_wait c IDE_SR_NULL (out_port (port_of s c IDE_CONTROL) IDE_CTRL_SRST s);
     ide_busy_wait c IDE_SR_NULL (out_port (port_of s c IDE_CONTROL) (control_byte (ctrls s ! c)) s) }"

section \<open>Selection and sectors\<close>

definition ide_select_drive :: "nat \<Rightarrow> nat \<Rightarrow> 'd ide_t \<Rightarrow> 'd ide_t" where
  "ide_select_drive c d s =
     upd_ctrl c (\<lambda>x. x\<lparr>active := Some d\<rparr>) (out_port (port_of s c IDE_HDDEVSEL) (selector (disk_of s c d)) s)"

definition ide_select_sector :: "nat \<Rightarrow> nat \<Rightarrow> u32 \<Rightarrow> u8 \<Rightarrow> 'd ide_t \<Rightarrow> 'd ide_t" where
  "ide_select_sector c d lba count s =
     (let a = iobase (ctrls s ! c);
          s = out_port (a + IDE_FEATURE) 0 s;
          s = out_port (a + IDE_SECTOR) count s;
          s = out_port (a + IDE_LBA_LOW) (ucast (lba AND 0xff)) s;
          s = out_port (a + IDE_LBA_MID) (ucast (drop_bit 8 lba AND 0xff)) s;
          s = out_port (a + IDE_LBA_HIGH) (ucast (drop_bit 16 lba AND 0xff)) s;
          s = out_port (a + IDE_HDDEVSEL) (ucast (drop_bit 24 lba AND 0xf) OR selector (disk_of s c d)) s
      in upd_ctrl c (\<lambda>x. x\<lparr>active := Some d\<rparr>) s)"

text \<open>A sector is 256 words, low byte first in memory.\<close>

definition ide_pio_read_sector :: "nat \<Rightarrow> addr \<Rightarrow> 'd ide_t \<Rightarrow> 'd ide_t option" where
  "ide_pio_read_sector c buf s = for_each (\<lambda>i s.
     let (w, s) = in_word (port_of s c IDE_DATA) s
     in Some (set_umem ((umem (io (pr s)))(buf + 2 * i := ucast w, buf + 2 * i + 1 := ucast (drop_bit 8 w))) s))
     [0..<SECTOR_SIZE div 2] s"

definition ide_pio_write_sector :: "nat \<Rightarrow> addr \<Rightarrow> 'd ide_t \<Rightarrow> 'd ide_t option" where
  "ide_pio_write_sector c buf s = for_each (\<lambda>i s.
     let m = umem (io (pr s))
     in Some (out_word (port_of s c IDE_DATA) (ucast (m (buf + 2 * i)) OR push_bit 8 (ucast (m (buf + 2 * i + 1)))) s))
     [0..<SECTOR_SIZE div 2] s"

section \<open>Disks and partitions\<close>

definition ide_pio_ioctl :: "ide_disk_t \<Rightarrow> int \<Rightarrow> int option" where
  "ide_pio_ioctl d cmd =
     (if cmd = DEV_CMD_SECTOR_START then Some 0
      else if cmd = DEV_CMD_SECTOR_COUNT then Some (s32 (int (total_lba d))) else None)"

text \<open>A transfer stops where its task blocks: for the lock, or in the wait for the interrupt of sector \<open>i\<close>.\<close>

datatype xfer_t = At_lock | At_sector nat | Finished

text \<open>The wait for the interrupt: \<open>True\<close> when the task has blocked.\<close>

definition ide_wait :: "nat \<Rightarrow> 'd ide_t \<Rightarrow> (bool \<times> 'd ide_t) option" where
  "ide_wait c s = do {
     let p = cur (kern (pr s));
     t \<leftarrow> task_at (kern (pr s)) p;
     if state t = TASK_RUNNING
     then do {
       s \<leftarrow> on_kern (task_block p block_list TASK_BLOCKED (- 1)) (upd_ctrl c (\<lambda>x. x\<lparr>cwaiter := p\<rparr>) s);
       Some (True, s) }
     else Some (False, s) }"

definition ide_release :: "nat \<Rightarrow> 'd ide_t \<Rightarrow> (xfer_t \<times> 'd ide_t) option" where
  "ide_release c s = do {
     (l, k) \<leftarrow> lock_leave (clock_of (ctrls s ! c)) (kern (pr s));
     Some (Finished, upd_ctrl c (\<lambda>x. x\<lparr>clock_of := l\<rparr>) (s\<lparr>pr := (pr s)\<lparr>kern := k\<rparr>\<rparr>)) }"

definition read_one :: "nat \<Rightarrow> addr \<Rightarrow> nat \<Rightarrow> 'd ide_t \<Rightarrow> 'd ide_t option" where
  "read_one c buf i s = do {
     s \<leftarrow> ide_busy_wait c IDE_SR_DRQ s;
     ide_pio_read_sector c (buf + i * SECTOR_SIZE) s }"

fun read_loop :: "nat \<Rightarrow> addr \<Rightarrow> nat \<Rightarrow> nat \<Rightarrow> 'd ide_t \<Rightarrow> (xfer_t \<times> 'd ide_t) option" where
  "read_loop c buf i 0 s = ide_release c s"
| "read_loop c buf i (Suc n) s = do {
     (blocked, s) \<leftarrow> ide_wait c s;
     if blocked then Some (At_sector i, s)
     else do { s \<leftarrow> read_one c buf i s; read_loop c buf (i + 1) n s } }"

text \<open>A written sector is followed by the wait; so \<open>i\<close> counts the sectors that are out.\<close>

fun write_loop :: "nat \<Rightarrow> addr \<Rightarrow> nat \<Rightarrow> nat \<Rightarrow> 'd ide_t \<Rightarrow> (xfer_t \<times> 'd ide_t) option" where
  "write_loop c buf i 0 s = ide_release c s"
| "write_loop c buf i (Suc n) s = do {
     s \<leftarrow> ide_pio_write_sector c (buf + i * SECTOR_SIZE) s;
     (blocked, s) \<leftarrow> ide_wait c s;
     if blocked then Some (At_sector i, s)
     else do { s \<leftarrow> ide_busy_wait c IDE_SR_NULL s; write_loop c buf (i + 1) n s } }"

definition IDE_LISTS :: nat where "IDE_LISTS = 7"

text \<open>The start of a transfer with command \<open>cmd\<close>: \<open>False\<close> when the task waits for the lock.\<close>

definition ide_begin :: "nat \<Rightarrow> nat \<Rightarrow> nat \<Rightarrow> nat \<Rightarrow> u8 \<Rightarrow> 'd ide_t \<Rightarrow> (bool \<times> 'd ide_t) option" where
  "ide_begin c d count lba cmd s = do {
     cassert (0 < count);
     cassert (\<not> intr (kern (pr s)));
     (got, l, k) \<leftarrow> lock_enter (IDE_LISTS + c) (clock_of (ctrls s ! c)) (kern (pr s));
     let s = upd_ctrl c (\<lambda>x. x\<lparr>clock_of := l\<rparr>) (s\<lparr>pr := (pr s)\<lparr>kern := k\<rparr>\<rparr>);
     if \<not> got then Some (False, s)
     else do {
       s \<leftarrow> ide_busy_wait c IDE_SR_DRDY (ide_select_drive c d s);
       let s = ide_select_sector c d (of_nat lba) (of_nat count) s;
       Some (True, out_port (port_of s c IDE_COMMAND) cmd s) } }"

definition ide_pio_read :: "nat \<Rightarrow> nat \<Rightarrow> addr \<Rightarrow> nat \<Rightarrow> nat \<Rightarrow> xfer_t \<Rightarrow> 'd ide_t \<Rightarrow> (xfer_t \<times> 'd ide_t) option" where
  "ide_pio_read c d buf cnt lba x s =
     (let count = cnt mod 256
      in case x of
        At_lock \<Rightarrow> do {
          (got, s) \<leftarrow> ide_begin c d count lba IDE_CMD_READ s;
          if got then read_loop c buf 0 count s else Some (At_lock, s) }
      | At_sector i \<Rightarrow> do { s \<leftarrow> read_one c buf i s; read_loop c buf (i + 1) (count - (i + 1)) s }
      | Finished \<Rightarrow> Some (Finished, s))"

definition ide_pio_write :: "nat \<Rightarrow> nat \<Rightarrow> addr \<Rightarrow> nat \<Rightarrow> nat \<Rightarrow> xfer_t \<Rightarrow> 'd ide_t \<Rightarrow> (xfer_t \<times> 'd ide_t) option" where
  "ide_pio_write c d buf cnt lba x s =
     (let count = cnt mod 256
      in case x of
        At_lock \<Rightarrow> do {
          (got, s) \<leftarrow> ide_begin c d count lba IDE_CMD_WRITE s;
          if got then write_loop c buf 0 count s else Some (At_lock, s) }
      | At_sector i \<Rightarrow> do { s \<leftarrow> ide_busy_wait c IDE_SR_NULL s; write_loop c buf (i + 1) (count - (i + 1)) s }
      | Finished \<Rightarrow> Some (Finished, s))"

definition ide_pio_part_ioctl :: "ide_part_t \<Rightarrow> int \<Rightarrow> int option" where
  "ide_pio_part_ioctl p cmd =
     (if cmd = DEV_CMD_SECTOR_START then Some (s32 (int (pstart p)))
      else if cmd = DEV_CMD_SECTOR_COUNT then Some (s32 (int (pcount p))) else None)"

definition ide_pio_part_read :: "nat \<Rightarrow> nat \<Rightarrow> ide_part_t \<Rightarrow> addr \<Rightarrow> nat \<Rightarrow> nat \<Rightarrow> xfer_t \<Rightarrow> 'd ide_t \<Rightarrow> (xfer_t \<times> 'd ide_t) option" where
  "ide_pio_part_read c d p buf count lba = ide_pio_read c d buf count (w32 (pstart p + lba))"

definition ide_pio_part_write :: "nat \<Rightarrow> nat \<Rightarrow> ide_part_t \<Rightarrow> addr \<Rightarrow> nat \<Rightarrow> nat \<Rightarrow> xfer_t \<Rightarrow> 'd ide_t \<Rightarrow> (xfer_t \<times> 'd ide_t) option" where
  "ide_pio_part_write c d p buf count lba = ide_pio_write c d buf count (w32 (pstart p + lba))"

section \<open>Identification and partitions\<close>

text \<open>The text fields of the identification have their bytes swapped in pairs.\<close>

definition swap_pair :: "addr \<Rightarrow> mem \<Rightarrow> mem" where
  "swap_pair a m = m(a := m (a + 1), a + 1 := m a)"

definition ide_swap_pairs :: "addr \<Rightarrow> nat \<Rightarrow> mem \<Rightarrow> mem" where
  "ide_swap_pairs buf len m = (fold (\<lambda>i. swap_pair (buf + 2 * i)) [0..<(len + 1) div 2] m)(buf + (len - 1) := 0)"

text \<open>The fields of \<open>ide_params_t\<close>, by their offsets.\<close>

definition P_CYLINDERS :: nat where "P_CYLINDERS = 2"
definition P_HEADS :: nat where "P_HEADS = 6"
definition P_SECTORS :: nat where "P_SECTORS = 12"
definition P_SERIAL :: nat where "P_SERIAL = 20"
definition P_FIRMWARE :: nat where "P_FIRMWARE = 46"
definition P_MODEL :: nat where "P_MODEL = 54"
definition P_TOTAL_LBA :: nat where "P_TOTAL_LBA = 120"

text \<open>\<open>ide_identify\<close>; it runs before there are tasks, with the lock free (a wait for it would not come back).\<close>

definition ide_identify :: "nat \<Rightarrow> nat \<Rightarrow> addr \<Rightarrow> 'd ide_t \<Rightarrow> (int \<times> 'd ide_t) option" where
  "ide_identify c d buf s = do {
     (got, l, k) \<leftarrow> lock_enter (IDE_LISTS + c) (clock_of (ctrls s ! c)) (kern (pr s));
     cassert got;
     let s = upd_ctrl c (\<lambda>x. x\<lparr>clock_of := l\<rparr>) (s\<lparr>pr := (pr s)\<lparr>kern := k\<rparr>\<rparr>);
     let s = ide_select_drive c d s;
     let s = out_port (port_of s c IDE_COMMAND) IDE_CMD_IDENTIFY s;
     s \<leftarrow> ide_busy_wait c IDE_SR_NULL s;
     s \<leftarrow> ide_pio_read_sector c buf s;
     let m = umem (io (pr s));
     let total = load32 m (buf + P_TOTAL_LBA);
     let (ret, s) =
       (if total = 0 then (EOF, s)
        else if total > 2 ^ 28 then (EOF, set_umem (mwrite m (buf + P_TOTAL_LBA) [0, 0, 0, 0]) s)
        else
          let m = ide_swap_pairs (buf + P_SERIAL) 20 m;
              m = ide_swap_pairs (buf + P_FIRMWARE) 8 m;
              m = ide_swap_pairs (buf + P_MODEL) 40 m
          in (0, upd_disk c d (\<lambda>x. x\<lparr>total_lba := total, cylinders := load16 m (buf + P_CYLINDERS),
               heads := load16 m (buf + P_HEADS), sectors := load16 m (buf + P_SECTORS)\<rparr>) (set_umem m s)));
     (_, s) \<leftarrow> ide_release c s;
     Some (ret, s) }"

text \<open>The partition table: four entries of 16 bytes from byte 446 on.\<close>

definition ENTRY_AT :: nat where "ENTRY_AT = 446"

definition entry_system :: "mem \<Rightarrow> addr \<Rightarrow> nat" where "entry_system m a = unat (m (a + 4))"
definition entry_start :: "mem \<Rightarrow> addr \<Rightarrow> nat" where "entry_start m a = load32 m (a + 8)"
definition entry_count :: "mem \<Rightarrow> addr \<Rightarrow> nat" where "entry_count m a = load32 m (a + 12)"

text \<open>One entry; the sectors of an extended partition are read (and only printed) at the address two sectors behind.\<close>

definition part_entry :: "nat \<Rightarrow> nat \<Rightarrow> addr \<Rightarrow> nat \<Rightarrow> 'd ide_t \<Rightarrow> 'd ide_t option" where
  "part_entry c d buf i s =
     (let m = umem (io (pr s)); e = buf + ENTRY_AT + 16 * i
      in if entry_count m e = 0 then Some s
         else do {
           let s = upd_disk c d (\<lambda>x. x\<lparr>parts := (parts x)[i := \<lparr>pname = ide_disk_t.dname x @ [char_of (49 + i)],
             psystem = entry_system m e, pstart = entry_start m e, pcount = entry_count m e\<rparr>]\<rparr>) s;
           if entry_system m e = PART_FS_EXTENDED
           then do {
             (x, s) \<leftarrow> ide_pio_read c d (buf + 2 * SECTOR_SIZE) 1 (entry_start m e) At_lock s;
             cassert (x = Finished);
             Some s }
           else Some s })"

definition ide_part_init :: "nat \<Rightarrow> nat \<Rightarrow> addr \<Rightarrow> 'd ide_t \<Rightarrow> 'd ide_t option" where
  "ide_part_init c d buf s =
     (if total_lba (disk_of s c d) = 0 then Some s
      else do {
        (x, s) \<leftarrow> ide_pio_read c d buf 1 0 At_lock s;
        cassert (x = Finished);
        for_each (part_entry c d buf) [0..<IDE_PART_NR] s })"

section \<open>Initialisation\<close>

definition ide_disk_init :: "nat \<Rightarrow> addr \<Rightarrow> nat \<Rightarrow> 'd ide_t \<Rightarrow> 'd ide_t option" where
  "ide_disk_init c buf d s = do {
     let s = upd_disk c d (\<lambda>x. x\<lparr>dname := ''hd'' @ [char_of (97 + c * 2 + d)], master := (d = 0),
       selector := (if d = 0 then IDE_LBA_MASTER else IDE_LBA_SLAVE)\<rparr>) s;
     (_, s) \<leftarrow> ide_identify c d buf s;
     ide_part_init c d buf s }"

definition ide_ctrl_one :: "addr \<Rightarrow> nat \<Rightarrow> 'd ide_t \<Rightarrow> 'd ide_t option" where
  "ide_ctrl_one buf c s = do {
     let s = upd_ctrl c (\<lambda>x. x\<lparr>cname := ''ide'' @ [char_of (48 + c)], clock_of := lock_init (clock_of x), active := None,
       cwaiter := NULL, iobase := (if c = 0 then IDE_IOBASE_PRIMARY else IDE_IOBASE_SECONDARY)\<rparr>) s;
     let (b, s) = in_port (port_of s c IDE_CONTROL) s;
     let s = upd_ctrl c (\<lambda>x. x\<lparr>control_byte := b\<rparr>) s;
     for_each (ide_disk_init c buf) [0..<IDE_DISK_NR] s }"

definition ide_ctrl_init :: "'d ide_t \<Rightarrow> 'd ide_t option" where
  "ide_ctrl_init s = do {
     (buf, p) \<leftarrow> page_alloc (pr s);
     s \<leftarrow> for_each (ide_ctrl_one buf) [0..<IDE_CTRL_NR] (s\<lparr>pr := p\<rparr>);
     p \<leftarrow> do_mem (free_kpage buf 1) (pr s);
     Some (s\<lparr>pr := p\<rparr>) }"

text \<open>The device table: \<open>da\<close> and \<open>pa\<close> are the addresses of the records of disks and partitions, the next arguments
  what the table holds for the functions of disks and of partitions. The loops skip disks and partitions of size 0.\<close>

definition install_part :: "(nat \<Rightarrow> nat \<Rightarrow> nat \<Rightarrow> addr) \<Rightarrow> (mem \<times> 'd) control \<times> (mem \<times> 'd) transfer \<times> (mem \<times> 'd) transfer \<Rightarrow>
    nat \<Rightarrow> nat \<Rightarrow> nat \<Rightarrow> 'd ide_t \<Rightarrow> nat \<Rightarrow> (mem \<times> 'd) device_t list \<Rightarrow> (mem \<times> 'd) device_t list option" where
  "install_part pa fs c d par s i ds =
     (let p = parts (disk_of s c d) ! i; (ioc, rd, wr) = fs
      in if pcount p = 0 then Some ds
         else do {
           (_, ds) \<leftarrow> device_install DEV_BLOCK DEV_IDE_PART (pa c d i) (pname p) par (Some ioc) (Some rd) (Some wr) ds;
           Some ds })"

definition install_disk :: "(nat \<Rightarrow> nat \<Rightarrow> addr) \<Rightarrow> (nat \<Rightarrow> nat \<Rightarrow> nat \<Rightarrow> addr) \<Rightarrow>
    (mem \<times> 'd) control \<times> (mem \<times> 'd) transfer \<times> (mem \<times> 'd) transfer \<Rightarrow>
    (mem \<times> 'd) control \<times> (mem \<times> 'd) transfer \<times> (mem \<times> 'd) transfer \<Rightarrow>
    'd ide_t \<Rightarrow> nat \<Rightarrow> nat \<Rightarrow> (mem \<times> 'd) device_t list \<Rightarrow> (mem \<times> 'd) device_t list option" where
  "install_disk da pa fs gs s c d ds =
     (let x = disk_of s c d; (ioc, rd, wr) = fs
      in if total_lba x = 0 then Some ds
         else do {
           (dv, ds) \<leftarrow> device_install DEV_BLOCK DEV_IDE_DISK (da c d) (ide_disk_t.dname x) 0 (Some ioc) (Some rd) (Some wr) ds;
           for_each (install_part pa gs c d dv s) [0..<IDE_PART_NR] ds })"

definition ide_install :: "(nat \<Rightarrow> nat \<Rightarrow> addr) \<Rightarrow> (nat \<Rightarrow> nat \<Rightarrow> nat \<Rightarrow> addr) \<Rightarrow>
    (mem \<times> 'd) control \<times> (mem \<times> 'd) transfer \<times> (mem \<times> 'd) transfer \<Rightarrow>
    (mem \<times> 'd) control \<times> (mem \<times> 'd) transfer \<times> (mem \<times> 'd) transfer \<Rightarrow> 'd ide_t \<Rightarrow> 'd ide_t option" where
  "ide_install da pa fs gs s = do {
     ds \<leftarrow> for_each (\<lambda>c. for_each (install_disk da pa fs gs s c) [0..<IDE_DISK_NR]) [0..<IDE_CTRL_NR] (devs (io (pr s)));
     Some (s\<lparr>pr := (pr s)\<lparr>io := (io (pr s))\<lparr>devs := ds\<rparr>\<rparr>\<rparr>) }"

text \<open>\<open>ide_init\<close>, but for the entries in the tables of \<open>interrupt.c\<close>.\<close>

definition ide_init :: "(nat \<Rightarrow> nat \<Rightarrow> addr) \<Rightarrow> (nat \<Rightarrow> nat \<Rightarrow> nat \<Rightarrow> addr) \<Rightarrow>
    (mem \<times> 'd) control \<times> (mem \<times> 'd) transfer \<times> (mem \<times> 'd) transfer \<Rightarrow>
    (mem \<times> 'd) control \<times> (mem \<times> 'd) transfer \<times> (mem \<times> 'd) transfer \<Rightarrow> 'd ide_t \<Rightarrow> 'd ide_t option" where
  "ide_init da pa fs gs s = do { s \<leftarrow> ide_ctrl_init s; ide_install da pa fs gs s }"

section \<open>A disk behind the ports\<close>

text \<open>The documented behaviour of an ATA controller with its two drives, as far as the driver uses it: the task file
  registers, the commands to read and write sectors by 28-bit number, and the data register, which moves the sectors
  word by word. \<open>dwait\<close> says for how many more looks at the status it is busy (\<open>BSY\<close>); \<open>dl\<close> is any such delay, after
  the other drive is selected, after the command to read, and after each sector but the last one that is read. For the
  command to write, the controller is taken to ask for the data at once: the driver does not wait for \<open>DRQ\<close> there.\<close>

datatype mode_t = Idle | Reading nat nat nat | Writing nat nat nat

record ata_t =
  r_count :: u8
  r_low :: u8
  r_mid :: u8
  r_high :: u8
  r_sel :: u8
  dmode :: mode_t
  dwait :: nat
  content :: "bool \<Rightarrow> nat \<Rightarrow> nat \<Rightarrow> u16"

definition ata_lba :: "ata_t \<Rightarrow> nat" where
  "ata_lba a = unat (r_low a) + 256 * unat (r_mid a) + 65536 * unat (r_high a) + 16777216 * (unat (r_sel a) mod 16)"

definition ata_slave :: "ata_t \<Rightarrow> bool" where
  "ata_slave a \<longleftrightarrow> bit (r_sel a) 4"

definition ata_count :: "ata_t \<Rightarrow> nat" where
  "ata_count a = (if r_count a = 0 then 256 else unat (r_count a))"

definition ata_out8 :: "(ata_t \<Rightarrow> nat) \<Rightarrow> nat \<Rightarrow> u8 \<Rightarrow> ata_t \<Rightarrow> ata_t" where
  "ata_out8 dl p v a =
     (if p = 2 then a\<lparr>r_count := v\<rparr> else if p = 3 then a\<lparr>r_low := v\<rparr> else if p = 4 then a\<lparr>r_mid := v\<rparr>
      else if p = 5 then a\<lparr>r_high := v\<rparr> else if p = 6 then a\<lparr>r_sel := v, dwait := (if bit v 4 = bit (r_sel a) 4 then 0 else dl a)\<rparr>
      else if p = 7 \<and> v = 0x20 then a\<lparr>dmode := Reading (ata_lba a) (ata_count a) 0, dwait := dl a\<rparr>
      else if p = 7 \<and> v = 0x30 then a\<lparr>dmode := Writing (ata_lba a) (ata_count a) 0\<rparr>
      else a)"

definition ata_status :: "ata_t \<Rightarrow> u8" where
  "ata_status a = (if dwait a > 0 then 0x80 else if dmode a = Idle then 0x40 else 0x48)"

definition ata_next :: "(nat \<Rightarrow> nat \<Rightarrow> nat \<Rightarrow> mode_t) \<Rightarrow> nat \<Rightarrow> nat \<Rightarrow> nat \<Rightarrow> mode_t" where
  "ata_next m l n i = (if i < 255 then m l n (i + 1) else if n \<le> 1 then Idle else m (l + 1) (n - 1) 0)"

definition ata_in16 :: "(ata_t \<Rightarrow> nat) \<Rightarrow> ata_t \<Rightarrow> u16 \<times> ata_t" where
  "ata_in16 dl a =
     (case dmode a of
        Reading l n i \<Rightarrow> (content a (ata_slave a) l i,
          a\<lparr>dmode := ata_next Reading l n i, dwait := (if i < 255 \<or> n \<le> 1 then 0 else dl a)\<rparr>)
      | _ \<Rightarrow> (0, a))"

definition ata_out16 :: "(ata_t \<Rightarrow> nat) \<Rightarrow> u16 \<Rightarrow> ata_t \<Rightarrow> ata_t" where
  "ata_out16 dl v a =
     (case dmode a of
        Writing l n i \<Rightarrow>
          a\<lparr>content := (content a)(ata_slave a := (content a (ata_slave a))(l := (content a (ata_slave a) l)(i := v))),
            dmode := ata_next Writing l n i, dwait := (if i < 255 then 0 else dl a)\<rparr>
      | _ \<Rightarrow> a)"

text \<open>\<open>b\<close> has such a controller at the ports from \<open>a\<close> on; \<open>v\<close> shows it in the state of the hardware. Nothing is said of an
  access out of turn: a register or a command that is written while the drive is busy or moves data, and the data
  register while it is busy or has no data to move (\<open>BSY = 0\<close> and \<open>DRQ = 1\<close> is what \<open>ata_drq\<close> says).\<close>

definition ata_drq :: "ata_t \<Rightarrow> bool" where
  "ata_drq a \<longleftrightarrow> dwait a = 0 \<and> dmode a \<noteq> Idle"

definition ata_ready :: "ata_t \<Rightarrow> bool" where
  "ata_ready a \<longleftrightarrow> dwait a = 0 \<and> dmode a = Idle"

definition attached :: "'d bus \<Rightarrow> nat \<Rightarrow> (ata_t \<Rightarrow> nat) \<Rightarrow> ('d \<Rightarrow> ata_t) \<Rightarrow> bool" where
  "attached b a dl v \<longleftrightarrow>
     (\<forall>p x h. 1 \<le> p \<longrightarrow> p \<le> 7 \<longrightarrow> ata_ready (v h) \<longrightarrow> v (out8 b (a + p) x h) = ata_out8 dl p x (v h)) \<and>
     (\<forall>h. fst (in8 b (a + 0x206) h) = ata_status (v h) \<and> v (snd (in8 b (a + 0x206) h)) = (v h)\<lparr>dwait := dwait (v h) - 1\<rparr>) \<and>
     (\<forall>h. ata_drq (v h) \<longrightarrow> fst (in16 b a h) = fst (ata_in16 dl (v h)) \<and> v (snd (in16 b a h)) = snd (ata_in16 dl (v h))) \<and>
     (\<forall>x h. ata_drq (v h) \<longrightarrow> v (out16 b a x h) = ata_out16 dl x (v h))"

definition ata :: "('d \<Rightarrow> ata_t) \<Rightarrow> 'd ide_t \<Rightarrow> ata_t" where
  "ata v s = v (hw (io (pr s)))"

text \<open>What the steps of a transfer leave alone.\<close>

definition same_but_hw :: "'d ide_t \<Rightarrow> 'd ide_t \<Rightarrow> bool" where
  "same_but_hw s s' \<longleftrightarrow> kern (pr s') = kern (pr s) \<and> ibus s' = ibus s \<and> map iobase (ctrls s') = map iobase (ctrls s) \<and>
     map disks (ctrls s') = map disks (ctrls s)"

lemma hw_simps [simp]:
  "kern (pr (out_port p x s)) = kern (pr s)" "ibus (out_port p x s) = ibus s" "ctrls (out_port p x s) = ctrls s"
  "umem (io (pr (out_port p x s))) = umem (io (pr s))"
  "kern (pr (out_word p w s)) = kern (pr s)" "ibus (out_word p w s) = ibus s" "ctrls (out_word p w s) = ctrls s"
  "umem (io (pr (out_word p w s))) = umem (io (pr s))"
  "kern (pr (snd (in_port p s))) = kern (pr s)" "ibus (snd (in_port p s)) = ibus s" "ctrls (snd (in_port p s)) = ctrls s"
  "umem (io (pr (snd (in_port p s)))) = umem (io (pr s))"
  "kern (pr (snd (in_word p s))) = kern (pr s)" "ibus (snd (in_word p s)) = ibus s" "ctrls (snd (in_word p s)) = ctrls s"
  "umem (io (pr (snd (in_word p s)))) = umem (io (pr s))"
  "kern (pr (set_umem m s)) = kern (pr s)" "ibus (set_umem m s) = ibus s" "ctrls (set_umem m s) = ctrls s"
  "umem (io (pr (set_umem m s))) = m" "ata v (set_umem m s) = ata v s"
  by (simp_all add: out_port_def out_word_def in_port_def in_word_def set_hw_def set_umem_def ata_def split: prod.split)

lemma ata_steps:
  assumes "attached (ibus s) a dl v"
  shows "fst (in_port (a + 0x206) s) = ata_status (ata v s)"
    and "ata v (snd (in_port (a + 0x206) s)) = (ata v s)\<lparr>dwait := dwait (ata v s) - 1\<rparr>"
  using assms by (simp_all add: attached_def ata_def in_port_def set_hw_def split: prod.split) (metis fst_conv snd_conv)+

text \<open>Waiting until the disk is not busy.\<close>

lemma busy_wait_ok:
  assumes "attached (ibus s) (iobase (ctrls s ! c)) dl v"
    and "msk = 0 \<or> msk = 0x40 \<or> msk = 0x08 \<and> dmode (ata v s) \<noteq> Idle"
  shows "\<exists>h. ide_busy_wait c msk s = Some (s\<lparr>pr := set_hw h (pr s)\<rparr>) \<and> v h = (ata v s)\<lparr>dwait := 0\<rparr>"
  using assms
proof (induction "dwait (ata v s)" arbitrary: s)
  case 0
  obtain st s1 where s1: "in_port (iobase (ctrls s ! c) + IDE_ALT_STATUS) s = (st, s1)" by force
  then have st: "st = ata_status (ata v s)" "ata v s1 = (ata v s)\<lparr>dwait := dwait (ata v s) - 1\<rparr>"
    using ata_steps [OF 0(2)] by (simp_all add: IDE_ALT_STATUS_def)
  obtain h where h: "s1 = s\<lparr>pr := set_hw h (pr s)\<rparr>" using s1 by (auto simp: in_port_def split: prod.splits)
  have "ide_busy_wait c msk s = Some s1"
    using 0(1,3) st(1) by (subst ide_busy_wait.simps)
      (auto simp: s1 ata_status_def IDE_SR_ERR_def IDE_SR_BSY_def)
  moreover have "v h = (ata v s)\<lparr>dwait := 0\<rparr>" using st(2) 0(1) h by (simp add: ata_def set_hw_def)
  ultimately show ?case using h by blast
next
  case (Suc n)
  obtain st s1 where s1: "in_port (iobase (ctrls s ! c) + IDE_ALT_STATUS) s = (st, s1)" by force
  then have st: "st = ata_status (ata v s)" "ata v s1 = (ata v s)\<lparr>dwait := dwait (ata v s) - 1\<rparr>"
    using ata_steps [OF Suc(3)] by (simp_all add: IDE_ALT_STATUS_def)
  obtain h where h: "s1 = s\<lparr>pr := set_hw h (pr s)\<rparr>" using s1 by (auto simp: in_port_def split: prod.splits)
  have "ide_busy_wait c msk s = ide_busy_wait c msk s1"
    using Suc(2) st(1) by (subst ide_busy_wait.simps) (auto simp: s1 ata_status_def IDE_SR_ERR_def IDE_SR_BSY_def)
  moreover have "\<exists>h. ide_busy_wait c msk s1 = Some (s1\<lparr>pr := set_hw h (pr s1)\<rparr>) \<and> v h = (ata v s1)\<lparr>dwait := 0\<rparr>"
    using Suc(2-4) st(2) h by (intro Suc(1)) auto
  ultimately show ?case using st(2) h by (auto simp: set_hw_def)
qed

definition upd :: "'d \<Rightarrow> mem \<Rightarrow> 'd ide_t \<Rightarrow> 'd ide_t" where
  "upd h m s = s\<lparr>pr := (pr s)\<lparr>io := (io (pr s))\<lparr>umem := m, hw := h\<rparr>\<rparr>\<rparr>"

lemma upd_simps [simp]:
  "kern (pr (upd h m s)) = kern (pr s)" "ibus (upd h m s) = ibus s" "ctrls (upd h m s) = ctrls s"
  "umem (io (pr (upd h m s))) = m" "ata v (upd h m s) = v h" "hw (io (pr (upd h m s))) = h" "upd h m (upd h' m' s) = upd h m s"
  "set_umem m' (upd h m s) = upd h m' s" "(upd h m s)\<lparr>pr := set_hw h' (pr (upd h m s))\<rparr> = upd h' m s"
  by (simp_all add: upd_def ata_def set_umem_def set_hw_def)

lemma upd_same: "s = upd (hw (io (pr s))) (umem (io (pr s))) s"
  by (simp add: upd_def)

lemma hw_upd: "s\<lparr>pr := set_hw h (pr s)\<rparr> = upd h (umem (io (pr s))) s"
  by (simp add: upd_def set_hw_def)

lemma out_upd: "out_word p w s = upd (out16 (ibus s) p w (hw (io (pr s)))) (umem (io (pr s))) s"
  by (simp add: upd_def out_word_def set_hw_def)

text \<open>Words in memory.\<close>

definition word_byte :: "(nat \<Rightarrow> u16) \<Rightarrow> nat \<Rightarrow> u8" where
  "word_byte f k = (if even k then ucast (f (k div 2)) else ucast (drop_bit 8 (f (k div 2))))"

definition put_words :: "mem \<Rightarrow> addr \<Rightarrow> (nat \<Rightarrow> u16) \<Rightarrow> nat \<Rightarrow> mem" where
  "put_words m buf f n = (\<lambda>a. if buf \<le> a \<and> a < buf + 2 * n then word_byte f (a - buf) else m a)"

definition word_at :: "mem \<Rightarrow> addr \<Rightarrow> nat \<Rightarrow> u16" where
  "word_at m buf k = ucast (m (buf + 2 * k)) OR push_bit 8 (ucast (m (buf + 2 * k + 1)))"

lemma put_words_0 [simp]: "put_words m buf f 0 = m"
  by (rule ext) (auto simp: put_words_def)

lemma put_words_Suc:
  "(put_words m buf f i)(buf + 2 * i := ucast (f i), buf + 2 * i + 1 := ucast (drop_bit 8 (f i))) = put_words m buf f (Suc i)"
proof (rule ext)
  fix a
  consider "a < buf + 2 * i" | "a = buf + 2 * i" | "a = buf + 2 * i + 1" | "buf + 2 * i + 1 < a" by linarith
  then show "((put_words m buf f i)(buf + 2 * i := ucast (f i), buf + 2 * i + 1 := ucast (drop_bit 8 (f i)))) a = put_words m buf f (Suc i) a"
    by cases (auto simp: put_words_def word_byte_def)
qed

lemma put_words_append:
  "put_words (put_words m buf f n) (buf + 2 * n) (\<lambda>k. f (n + k)) l = put_words m buf f (n + l)"
proof (rule ext)
  fix a
  have "word_byte (\<lambda>k. f (n + k)) (a - (buf + 2 * n)) = word_byte f (a - buf)" if a: "buf + 2 * n \<le> a"
  proof -
    obtain r where r: "a = buf + 2 * n + r" using a le_Suc_ex by blast
    then have "a - buf = 2 * n + r" "a - (buf + 2 * n) = r" by simp_all
    then show ?thesis by (simp add: word_byte_def)
  qed
  then show "put_words (put_words m buf f n) (buf + 2 * n) (\<lambda>k. f (n + k)) l a = put_words m buf f (n + l) a"
    by (auto simp: put_words_def)
qed

lemma word_byte_at: "word_byte (word_at m buf) k = m (buf + k)"
proof (cases "even k")
  case True
  then have "buf + 2 * (k div 2) = buf + k" by simp
  moreover have "ucast (ucast x OR push_bit 8 (ucast y) :: u16) = x" for x y :: u8
    by (rule bit_word_eqI) (auto simp: bit_simps)
  ultimately show ?thesis using True by (simp add: word_byte_def word_at_def)
next
  case False
  then obtain j where "k = 2 * j + 1" by (auto elim: oddE)
  moreover have "ucast (drop_bit 8 (ucast x OR push_bit 8 (ucast y) :: u16)) = y" for x y :: u8
    by (rule bit_word_eqI) (auto simp: bit_simps dest: bit_imp_le_length)
  ultimately show ?thesis using False by (simp add: word_byte_def word_at_def)
qed

lemma read_sector_ok:
  assumes "attached (ibus s) (iobase (ctrls s ! c)) dl v" and "dmode (ata v s) = Reading l n 0" and "0 < n"
    and "dwait (ata v s) = 0"
  shows "\<exists>h w. ide_pio_read_sector c buf s = Some (upd h (put_words (umem (io (pr s))) buf (content (ata v s) (ata_slave (ata v s)) l) 256) s) \<and>
    v h = (ata v s)\<lparr>dmode := (if n = 1 then Idle else Reading (l + 1) (n - 1) 0), dwait := w\<rparr> \<and> (n = 1 \<longrightarrow> w = 0)"
proof -
  let ?f = "content (ata v s) (ata_slave (ata v s)) l" let ?m = "umem (io (pr s))"
  let ?mode = "\<lambda>i. if i < 256 then Reading l n i else if n = 1 then Idle else Reading (l + 1) (n - 1) 0"
  define P where "P = (\<lambda>i s'. \<exists>h w. s' = upd h (put_words ?m buf ?f i) s \<and> v h = (ata v s)\<lparr>dmode := ?mode i, dwait := w\<rparr> \<and> (i < 256 \<or> n = 1 \<longrightarrow> w = 0))"
  have "\<exists>s'. ide_pio_read_sector c buf s = Some s' \<and> P (SECTOR_SIZE div 2) s'"
    unfolding ide_pio_read_sector_def
  proof (rule for_each_rule [where P = P])
    have "v (hw (io (pr s))) = (ata v s)\<lparr>dmode := Reading l n 0, dwait := 0\<rparr>"
      using assms(2,4) by (cases "ata v s") (simp add: ata_def)
    then show "P 0 s" unfolding P_def by (intro exI [of _ "hw (io (pr s))"] exI [of _ 0]) (simp add: upd_same [symmetric])
    fix i s'
    assume i: "i < SECTOR_SIZE div 2" and "P i s'"
    then obtain h where h: "s' = upd h (put_words ?m buf ?f i) s" "v h = (ata v s)\<lparr>dmode := Reading l n i, dwait := 0\<rparr>"
      unfolding P_def by (auto simp: SECTOR_SIZE_def)
    have drq: "ata_drq (v h)" by (simp add: ata_drq_def h(2))
    obtain x h' where x: "in16 (ibus s) (iobase (ctrls s ! c)) h = (x, h')" by force
    then have "x = fst (ata_in16 dl (v h))" "v h' = snd (ata_in16 dl (v h))"
      using assms(1) drq by (metis attached_def fst_conv, metis attached_def snd_conv)
    then have h': "x = ?f i" "\<exists>w. v h' = (ata v s)\<lparr>dmode := ?mode (Suc i), dwait := w\<rparr> \<and> (Suc i < 256 \<or> n = 1 \<longrightarrow> w = 0)"
      using h(2) i assms(3) by (auto simp: ata_in16_def ata_slave_def ata_next_def SECTOR_SIZE_def)
    have "in_word (iobase (ctrls s' ! c) + IDE_DATA) s' = (x, upd h' (put_words ?m buf ?f i) s)"
      using x h(1) by (simp add: in_word_def IDE_DATA_def)
    then have "(let (w, s) = in_word (iobase (ctrls s' ! c) + IDE_DATA) s'
      in Some (set_umem ((umem (io (pr s)))(buf + 2 * i := ucast w, buf + 2 * i + 1 := ucast (drop_bit 8 w))) s)) =
      Some (upd h' (put_words ?m buf ?f (Suc i)) s)"
      using h'(1) put_words_Suc [of ?m buf ?f i] by simp
    moreover have "P (Suc i) (upd h' (put_words ?m buf ?f (Suc i)) s)" using h'(2) unfolding P_def by blast
    ultimately show "\<exists>s''. (let (w, s) = in_word (iobase (ctrls s' ! c) + IDE_DATA) s'
      in Some (set_umem ((umem (io (pr s)))(buf + 2 * i := ucast w, buf + 2 * i + 1 := ucast (drop_bit 8 w))) s)) = Some s'' \<and> P (Suc i) s''" by blast
  qed simp
  then obtain h w where "ide_pio_read_sector c buf s = Some (upd h (put_words ?m buf ?f 256) s)"
    "v h = (ata v s)\<lparr>dmode := ?mode 256, dwait := w\<rparr>" "n = 1 \<longrightarrow> w = 0" by (auto simp: P_def SECTOR_SIZE_def)
  then show ?thesis by (intro exI [of _ h] exI [of _ w]) simp
qed

text \<open>The disk with the first \<open>n\<close> words from sector \<open>lba\<close> on set to those of \<open>g\<close>.\<close>

definition store_words :: "bool \<Rightarrow> nat \<Rightarrow> (nat \<Rightarrow> u16) \<Rightarrow> nat \<Rightarrow> (bool \<Rightarrow> nat \<Rightarrow> nat \<Rightarrow> u16) \<Rightarrow> bool \<Rightarrow> nat \<Rightarrow> nat \<Rightarrow> u16" where
  "store_words sl lba g n C = (\<lambda>d l k. if d = sl \<and> lba \<le> l \<and> k < 256 \<and> 256 * (l - lba) + k < n then g (256 * (l - lba) + k) else C d l k)"

lemma store_words_0 [simp]: "store_words sl lba g 0 C = C"
  by (simp add: store_words_def)

lemma store_words_Suc:
  assumes "i < 256"
  shows "(store_words sl l g i C)(sl := (store_words sl l g i C sl)(l := (store_words sl l g i C sl l)(i := g i))) = store_words sl l g (Suc i) C"
proof (intro ext)
  fix d x k
  consider "x < l" | "x = l" | "l < x" by linarith
  then show "((store_words sl l g i C)(sl := (store_words sl l g i C sl)(l := (store_words sl l g i C sl l)(i := g i)))) d x k =
    store_words sl l g (Suc i) C d x k"
    using assms by cases (auto simp: store_words_def less_Suc_eq)
qed

lemma store_words_append:
  "store_words sl (lba + n) (\<lambda>k. g (256 * n + k)) m (store_words sl lba g (256 * n) C) = store_words sl lba g (256 * n + m) C"
proof (intro ext)
  fix d l k
  show "store_words sl (lba + n) (\<lambda>k. g (256 * n + k)) m (store_words sl lba g (256 * n) C) d l k = store_words sl lba g (256 * n + m) C d l k"
  proof (cases "lba + n \<le> l")
    case True
    then obtain j where "l = lba + n + j" using le_Suc_ex by blast
    then show ?thesis by (auto simp: store_words_def algebra_simps)
  next
    case False
    then show ?thesis by (auto simp: store_words_def)
  qed
qed

lemma write_sector_ok:
  assumes "attached (ibus s) (iobase (ctrls s ! c)) dl v" and "dmode (ata v s) = Writing l n 0" and "0 < n"
    and "dwait (ata v s) = 0"
  shows "\<exists>h w. ide_pio_write_sector c buf s = Some (upd h (umem (io (pr s))) s) \<and>
    v h = (ata v s)\<lparr>content := store_words (ata_slave (ata v s)) l (word_at (umem (io (pr s))) buf) 256 (content (ata v s)),
      dmode := (if n = 1 then Idle else Writing (l + 1) (n - 1) 0), dwait := w\<rparr>"
proof -
  let ?m = "umem (io (pr s))" let ?g = "word_at ?m buf" let ?sl = "ata_slave (ata v s)" let ?C = "content (ata v s)"
  let ?mode = "\<lambda>i. if i < 256 then Writing l n i else if n = 1 then Idle else Writing (l + 1) (n - 1) 0"
  define P where "P = (\<lambda>i s'. \<exists>h w. s' = upd h ?m s \<and>
    v h = (ata v s)\<lparr>content := store_words ?sl l ?g i ?C, dmode := ?mode i, dwait := w\<rparr> \<and> (i < 256 \<longrightarrow> w = 0))"
  let ?f = "\<lambda>i s. let m = umem (io (pr s))
     in Some (out_word (iobase (ctrls s ! c) + IDE_DATA) (ucast (m (buf + 2 * i)) OR push_bit 8 (ucast (m (buf + 2 * i + 1)))) s)"
  have "\<exists>s'. for_each ?f [0..<SECTOR_SIZE div 2] s = Some s' \<and> P (SECTOR_SIZE div 2) s'"
  proof (rule for_each_rule [where P = P])
    have "v (hw (io (pr s))) = (ata v s)\<lparr>content := ?C, dmode := Writing l n 0, dwait := 0\<rparr>"
      using assms(2,4) by (cases "ata v s") (simp add: ata_def)
    then show "P 0 s" unfolding P_def by (intro exI [of _ "hw (io (pr s))"] exI [of _ 0]) (simp add: upd_same [symmetric])
    fix i s'
    assume i: "i < SECTOR_SIZE div 2" and "P i s'"
    then obtain h where h: "s' = upd h ?m s" "v h = (ata v s)\<lparr>content := store_words ?sl l ?g i ?C, dmode := Writing l n i, dwait := 0\<rparr>"
      unfolding P_def by (auto simp: SECTOR_SIZE_def)
    have drq: "ata_drq (v h)" by (simp add: ata_drq_def h(2))
    let ?h = "out16 (ibus s) (iobase (ctrls s ! c)) (?g i) h"
    have "v ?h = ata_out16 dl (?g i) (v h)" using assms(1) drq by (simp add: attached_def)
    then have "\<exists>w. v ?h = (ata v s)\<lparr>content := store_words ?sl l ?g (Suc i) ?C, dmode := ?mode (Suc i), dwait := w\<rparr> \<and> (Suc i < 256 \<longrightarrow> w = 0)"
      using h(2) i assms(3) store_words_Suc [of i ?sl l ?g ?C]
      by (auto simp: ata_out16_def ata_slave_def ata_next_def SECTOR_SIZE_def)
    moreover have "?f i s' = Some (upd ?h ?m s)" using h(1) by (simp add: out_upd IDE_DATA_def word_at_def Let_def)
    ultimately show "\<exists>s''. ?f i s' = Some s'' \<and> P (Suc i) s''" unfolding P_def by blast
  qed simp
  then obtain h w where "ide_pio_write_sector c buf s = Some (upd h ?m s)"
    "v h = (ata v s)\<lparr>content := store_words ?sl l ?g 256 ?C, dmode := ?mode 256, dwait := w\<rparr>"
    by (auto simp: P_def SECTOR_SIZE_def ide_pio_write_sector_def)
  then show ?thesis by (intro exI [of _ h] exI [of _ w]) simp
qed

section \<open>Transfers before there are tasks\<close>

definition early :: "'d ide_t \<Rightarrow> bool" where
  "early s \<longleftrightarrow> \<not> intr (kern (pr s)) \<and> (\<exists>t. task_at (kern (pr s)) (cur (kern (pr s))) = Some t \<and> state t \<noteq> TASK_RUNNING)"

lemma no_wait: "early s \<Longrightarrow> ide_wait c s = Some (False, s)"
  by (auto simp: early_def ide_wait_def)

lemma early_upd [simp]: "early (upd h m s) \<longleftrightarrow> early s"
  by (simp add: early_def)

lemma pio_read_loop_ok:
  assumes "attached (ibus s) (iobase (ctrls s ! c)) dl v" and "early s"
    and "dmode (ata v s) = (if n = 0 then Idle else Reading l n 0)" and "n = 0 \<longrightarrow> dwait (ata v s) = 0"
  shows "\<exists>h. read_loop c buf i n s = ide_release c
      (upd h (put_words (umem (io (pr s))) (buf + 512 * i) (\<lambda>k. content (ata v s) (ata_slave (ata v s)) (l + k div 256) (k mod 256)) (256 * n)) s) \<and>
    content (v h) = content (ata v s) \<and> ata_ready (v h)"
  using assms
proof (induction n arbitrary: s i l)
  case 0
  then show ?case by (intro exI [of _ "hw (io (pr s))"]) (simp add: upd_same [symmetric] ata_def ata_ready_def)
next
  case (Suc n)
  let ?F = "\<lambda>k. content (ata v s) (ata_slave (ata v s)) (l + k div 256) (k mod 256)" let ?m = "umem (io (pr s))"
  obtain h1 where h1: "ide_busy_wait c IDE_SR_DRQ s = Some (upd h1 ?m s)" "v h1 = (ata v s)\<lparr>dwait := 0\<rparr>"
    using busy_wait_ok [OF Suc.prems(1), of IDE_SR_DRQ] Suc.prems(3) by (auto simp: IDE_SR_DRQ_def hw_upd)
  obtain h2 w where h2: "ide_pio_read_sector c (buf + i * SECTOR_SIZE) (upd h1 ?m s) =
      Some (upd h2 (put_words ?m (buf + i * SECTOR_SIZE) (content (v h1) (ata_slave (v h1)) l) 256) s)"
    "v h2 = (v h1)\<lparr>dmode := (if Suc n = 1 then Idle else Reading (l + 1) (Suc n - 1) 0), dwait := w\<rparr>" "Suc n = 1 \<longrightarrow> w = 0"
    using read_sector_ok [of "upd h1 ?m s" c dl v l "Suc n" "buf + i * SECTOR_SIZE"] Suc.prems h1(2) by auto
  have "put_words ?m (buf + i * SECTOR_SIZE) (content (v h1) (ata_slave (v h1)) l) 256 = put_words ?m (buf + 512 * i) ?F 256"
    by (rule ext) (auto simp: put_words_def word_byte_def h1(2) ata_slave_def SECTOR_SIZE_def mult.commute)
  then have one: "read_loop c buf i (Suc n) s = read_loop c buf (i + 1) n (upd h2 (put_words ?m (buf + 512 * i) ?F 256) s)"
    using h1(1) h2(1) by (simp add: no_wait [OF Suc.prems(2)] read_one_def)
  let ?s = "upd h2 (put_words ?m (buf + 512 * i) ?F 256) s"
  have e: "content (v h2) = content (ata v s)" "ata_slave (v h2) = ata_slave (ata v s)"
    by (simp_all add: h1(2) h2(2) ata_slave_def)
  have "\<exists>h. read_loop c buf (i + 1) n ?s = ide_release c
      (upd h (put_words (umem (io (pr ?s))) (buf + 512 * (i + 1)) (\<lambda>k. content (ata v ?s) (ata_slave (ata v ?s)) (l + 1 + k div 256) (k mod 256)) (256 * n)) ?s) \<and>
    content (v h) = content (ata v ?s) \<and> ata_ready (v h)"
    using Suc.prems h2(2,3) by (intro Suc.IH) auto
  then obtain h where h: "read_loop c buf (i + 1) n ?s = ide_release c
      (upd h (put_words (put_words ?m (buf + 512 * i) ?F 256) (buf + 512 * (i + 1))
        (\<lambda>k. content (ata v s) (ata_slave (ata v s)) (l + 1 + k div 256) (k mod 256)) (256 * n)) s)"
    "content (v h) = content (ata v s)" "ata_ready (v h)"
    by (auto simp: e)
  have "(\<lambda>k. ?F (256 + k)) = (\<lambda>k. content (ata v s) (ata_slave (ata v s)) (l + 1 + k div 256) (k mod 256))"
    by (rule ext) (simp add: div_add_self1)
  note q = put_words_append [of ?m "buf + 512 * i" ?F 256 "256 * n", unfolded this]
  have "buf + 512 * i + 2 * 256 = buf + 512 * (i + 1)" "256 + 256 * n = 256 * Suc n" by simp_all
  note q [unfolded this]
  with h one show ?case by (intro exI [of _ h]) (simp only: simp_thms)
qed

lemma pio_write_loop_ok:
  assumes "attached (ibus s) (iobase (ctrls s ! c)) dl v" and "early s"
    and "dmode (ata v s) = (if n = 0 then Idle else Writing l n 0)" and "dwait (ata v s) = 0"
  shows "\<exists>h. write_loop c buf i n s = ide_release c (upd h (umem (io (pr s))) s) \<and> ata_ready (v h) \<and>
    content (v h) = store_words (ata_slave (ata v s)) l (word_at (umem (io (pr s))) (buf + 512 * i)) (256 * n) (content (ata v s))"
  using assms
proof (induction n arbitrary: s i l)
  case 0
  then show ?case by (intro exI [of _ "hw (io (pr s))"]) (simp add: upd_same [symmetric] ata_def ata_ready_def)
next
  case (Suc n)
  let ?m = "umem (io (pr s))" let ?sl = "ata_slave (ata v s)" let ?C = "content (ata v s)"
  have b: "buf + i * SECTOR_SIZE = buf + 512 * i" by (simp add: SECTOR_SIZE_def)
  obtain h1 w where h1: "ide_pio_write_sector c (buf + i * SECTOR_SIZE) s = Some (upd h1 ?m s)"
    "v h1 = (ata v s)\<lparr>content := store_words ?sl l (word_at ?m (buf + 512 * i)) 256 ?C,
      dmode := (if Suc n = 1 then Idle else Writing (l + 1) (Suc n - 1) 0), dwait := w\<rparr>"
    using write_sector_ok [OF Suc.prems(1), of l "Suc n" "buf + 512 * i"] Suc.prems(3,4) unfolding b by auto
  obtain h2 where h2: "ide_busy_wait c IDE_SR_NULL (upd h1 ?m s) = Some (upd h2 ?m s)" "v h2 = (v h1)\<lparr>dwait := 0\<rparr>"
    using busy_wait_ok [of "upd h1 ?m s" c dl v IDE_SR_NULL] Suc.prems(1) by (auto simp: IDE_SR_NULL_def hw_upd)
  have one: "write_loop c buf i (Suc n) s = write_loop c buf (i + 1) n (upd h2 ?m s)"
    using h1(1) h2(1) Suc.prems(2) no_wait [of "upd h1 ?m s" c] by simp
  have g: "word_at ?m (buf + 512 * (i + 1)) = (\<lambda>k. word_at ?m (buf + 512 * i) (256 * 1 + k))"
    by (rule ext) (simp add: word_at_def algebra_simps)
  have e: "ata_slave (v h2) = ?sl" "content (v h2) = store_words ?sl l (word_at ?m (buf + 512 * i)) (256 * 1) ?C"
    by (simp_all add: h1(2) h2(2) ata_slave_def)
  have "\<exists>h. write_loop c buf (i + 1) n (upd h2 ?m s) = ide_release c (upd h (umem (io (pr (upd h2 ?m s)))) (upd h2 ?m s)) \<and> ata_ready (v h) \<and>
    content (v h) = store_words (ata_slave (ata v (upd h2 ?m s))) (l + 1) (word_at (umem (io (pr (upd h2 ?m s)))) (buf + 512 * (i + 1))) (256 * n)
      (content (ata v (upd h2 ?m s)))"
    using Suc.prems h1(2) h2(2) by (intro Suc.IH) auto
  note this [unfolded upd_simps e g]
  then obtain h where h: "write_loop c buf (i + 1) n (upd h2 ?m s) = ide_release c (upd h ?m s)" "ata_ready (v h)"
    "content (v h) = store_words ?sl (l + 1) (\<lambda>k. word_at ?m (buf + 512 * i) (256 * 1 + k)) (256 * n)
      (store_words ?sl l (word_at ?m (buf + 512 * i)) (256 * 1) ?C)" by blast
  have "256 * 1 + 256 * n = 256 * Suc n" by simp
  with h one show ?case unfolding store_words_append by (intro exI [of _ h]) (simp only: simp_thms)
qed

section \<open>The start of a transfer\<close>

lemma lba_byte: "unat (ucast (drop_bit j (of_nat n :: u32) AND 0xff) :: u8) = n mod 2 ^ 32 div 2 ^ j mod 256"
proof -
  have "(drop_bit j (of_nat n :: u32) AND 0xff) = take_bit 8 (drop_bit j (of_nat n))" by (simp add: take_bit_eq_mask mask_eq_exp_minus_1)
  then have "unat (ucast (drop_bit j (of_nat n :: u32) AND 0xff) :: u8) = take_bit 8 (take_bit 8 (unat (drop_bit j (of_nat n :: u32))))"
    by (simp only: unsigned_ucast_eq unsigned_take_bit_eq) (simp add: unsigned_take_bit_eq)
  also have "unat (drop_bit j (of_nat n :: u32)) = n mod 2 ^ 32 div 2 ^ j"
    by (subst unsigned_drop_bit_eq) (simp add: unsigned_of_nat drop_bit_eq_div take_bit_eq_mod)
  finally show ?thesis by (simp only: take_bit_eq_mod) simp
qed

lemma lba_top:
  assumes "sel = IDE_LBA_MASTER \<or> sel = IDE_LBA_SLAVE"
  shows "unat (ucast (drop_bit 24 (of_nat n :: u32) AND 0xf) OR sel :: u8) mod 16 = n mod 2 ^ 32 div 2 ^ 24 mod 16"
    and "bit (ucast (drop_bit 24 (of_nat n :: u32) AND 0xf) OR sel :: u8) 4 \<longleftrightarrow> sel = IDE_LBA_SLAVE"
proof -
  let ?y = "ucast (drop_bit 24 (of_nat n :: u32) AND 0xf) :: u8"
  have m: "(drop_bit 24 (of_nat n :: u32) AND 0xf) = take_bit 4 (drop_bit 24 (of_nat n))" by (simp add: take_bit_eq_mask mask_eq_exp_minus_1)
  have "unat ?y = take_bit 8 (take_bit 4 (unat (drop_bit 24 (of_nat n :: u32))))"
    unfolding m by (simp only: unsigned_ucast_eq unsigned_take_bit_eq) (simp add: unsigned_take_bit_eq)
  also have "unat (drop_bit 24 (of_nat n :: u32)) = n mod 2 ^ 32 div 2 ^ 24"
    by (subst unsigned_drop_bit_eq) (simp add: unsigned_of_nat drop_bit_eq_div take_bit_eq_mod)
  finally have y: "unat ?y = n mod 2 ^ 32 div 2 ^ 24 mod 16" by (simp only: take_bit_eq_mod) simp
  have "take_bit 4 sel = 0" using assms by (auto simp: IDE_LBA_MASTER_def IDE_LBA_SLAVE_def)
  then have "take_bit 4 (?y OR sel) = take_bit 4 ?y" by simp
  then have "unat (take_bit 4 (?y OR sel)) = unat (take_bit 4 ?y)" by (rule arg_cong)
  then have "take_bit 4 (unat (?y OR sel)) = take_bit 4 (unat ?y)" by (simp only: unsigned_take_bit_eq)
  then show "unat (?y OR sel) mod 16 = n mod 2 ^ 32 div 2 ^ 24 mod 16" using y by (simp add: take_bit_eq_mod)
  have "\<not> bit ?y 4" unfolding m by (simp add: bit_simps)
  then show "bit (?y OR sel) 4 \<longleftrightarrow> sel = IDE_LBA_SLAVE"
  proof -
    have "\<not> bit (0xe0 :: u8) 4" "bit (0xf0 :: u8) 4" "(0xe0 :: u8) \<noteq> 0xf0" by simp_all
    with assms \<open>\<not> bit ?y 4\<close> show ?thesis by (metis bit_or_iff IDE_LBA_MASTER_def IDE_LBA_SLAVE_def)
  qed
qed

lemma out8_upd: "out_port p x s = upd (out8 (ibus s) p x (hw (io (pr s)))) (umem (io (pr s))) s"
  by (simp add: upd_def out_port_def set_hw_def)

lemma upd_ctrl_upd: "upd_ctrl c f (upd h m s) = upd h m (upd_ctrl c f s)"
  by (simp add: upd_ctrl_def upd_def)

lemma upd_ctrl_simps [simp]:
  "ibus (upd_ctrl c f s) = ibus s" "pr (upd_ctrl c f s) = pr s" "ata v (upd_ctrl c f s) = ata v s"
  "c < List.length (ctrls s) \<Longrightarrow> ctrls (upd_ctrl c f s) ! c = f (ctrls s ! c)" "List.length (ctrls (upd_ctrl c f s)) = List.length (ctrls s)"
  "early (upd_ctrl c f s) \<longleftrightarrow> early s" "c < List.length (ctrls s) \<Longrightarrow> upd_ctrl c f (upd_ctrl c g s) = upd_ctrl c (\<lambda>x. f (g x)) s"
  by (simp_all add: upd_ctrl_def ata_def early_def)

lemma attached_out: "attached b a dl v \<Longrightarrow> 1 \<le> p \<Longrightarrow> p \<le> 7 \<Longrightarrow> ata_ready (v h) \<Longrightarrow> v (out8 b (a + p) x h) = ata_out8 dl p x (v h)"
  by (simp add: attached_def)

lemma select_sector_ok:
  assumes "attached (ibus s) (iobase (ctrls s ! c)) dl v" and "selector (disks (ctrls s ! c) ! d) = sel" and "ata_ready (ata v s)"
    and "bit (ucast (drop_bit 24 lba AND 0xf) OR sel) 4 = bit (r_sel (ata v s)) 4"
  shows "\<exists>h. ide_select_sector c d lba cnt s = upd h (umem (io (pr s))) (upd_ctrl c (\<lambda>x. x\<lparr>active := Some d\<rparr>) s) \<and>
    v h = (ata v s)\<lparr>r_count := cnt, r_low := ucast (lba AND 0xff), r_mid := ucast (drop_bit 8 lba AND 0xff),
      r_high := ucast (drop_bit 16 lba AND 0xff), r_sel := ucast (drop_bit 24 lba AND 0xf) OR sel\<rparr>"
proof -
  note A = attached_out [OF assms(1)]
  let ?b = "ibus s" let ?a = "iobase (ctrls s ! c)" let ?A = "ata v s"
  define h1 where "h1 = out8 ?b (?a + 1) 0 (hw (io (pr s)))"
  define h2 where "h2 = out8 ?b (?a + 2) cnt h1"
  define h3 where "h3 = out8 ?b (?a + 3) (ucast (lba AND 0xff)) h2"
  define h4 where "h4 = out8 ?b (?a + 4) (ucast (drop_bit 8 lba AND 0xff)) h3"
  define h5 where "h5 = out8 ?b (?a + 5) (ucast (drop_bit 16 lba AND 0xff)) h4"
  define h6 where "h6 = out8 ?b (?a + 6) (ucast (drop_bit 24 lba AND 0xf) OR sel) h5"
  note H = h6_def h5_def h4_def h3_def h2_def h1_def
  have "ide_select_sector c d lba cnt s = upd h6 (umem (io (pr s))) (upd_ctrl c (\<lambda>x. x\<lparr>active := Some d\<rparr>) s)"
    using assms(2) by (simp add: H ide_select_sector_def Let_def out8_upd upd_ctrl_upd IDE_FEATURE_def IDE_SECTOR_def IDE_LBA_LOW_def
        IDE_LBA_MID_def IDE_LBA_HIGH_def IDE_HDDEVSEL_def)
  moreover have w: "dwait ?A = 0" "dmode ?A = Idle" "v (hw (io (pr s))) = ?A" using assms(3) by (simp_all add: ata_ready_def ata_def)
  have "v h1 = ?A" unfolding h1_def using A [of 1] w by (simp add: ata_ready_def ata_out8_def)
  then have "v h2 = ?A\<lparr>r_count := cnt\<rparr>" unfolding h2_def using A [of 2] w by (simp add: ata_ready_def ata_out8_def)
  then have "v h3 = ?A\<lparr>r_count := cnt, r_low := ucast (lba AND 0xff)\<rparr>" unfolding h3_def using A [of 3] w by (simp add: ata_ready_def ata_out8_def)
  then have "v h4 = ?A\<lparr>r_count := cnt, r_low := ucast (lba AND 0xff), r_mid := ucast (drop_bit 8 lba AND 0xff)\<rparr>"
    unfolding h4_def using A [of 4] w by (simp add: ata_ready_def ata_out8_def)
  then have h5: "v h5 = ?A\<lparr>r_count := cnt, r_low := ucast (lba AND 0xff), r_mid := ucast (drop_bit 8 lba AND 0xff),
      r_high := ucast (drop_bit 16 lba AND 0xff)\<rparr>"
    unfolding h5_def using A [of 5] w by (simp add: ata_ready_def ata_out8_def)
  then have r5: "ata_ready (v h5)" "bit (ucast (drop_bit 24 lba AND 0xf) OR sel) 4 = bit (r_sel (v h5)) 4"
    using w assms(4) by (simp_all add: ata_ready_def)
  have "v h6 = (v h5)\<lparr>r_sel := ucast (drop_bit 24 lba AND 0xf) OR sel, dwait := 0\<rparr>"
    unfolding h6_def using A [of 6 h5] r5 by (simp add: ata_out8_def)
  then have "v h6 = ?A\<lparr>r_count := cnt, r_low := ucast (lba AND 0xff), r_mid := ucast (drop_bit 8 lba AND 0xff),
      r_high := ucast (drop_bit 16 lba AND 0xff), r_sel := ucast (drop_bit 24 lba AND 0xf) OR sel\<rparr>"
    unfolding h5 using w(1) by (cases ?A) simp
  ultimately show ?thesis by blast
qed

lemma four_digits:
  fixes lba :: nat
  assumes "lba < 2 ^ 28"
  shows "lba mod 256 + 256 * (lba div 256 mod 256) + 65536 * (lba div 65536 mod 256) + 16777216 * (lba div 16777216 mod 16) = lba"
proof -
  have sum: "x = 256 * b + r \<Longrightarrow> b = 256 * c + u \<Longrightarrow> c = 256 * e + t \<Longrightarrow> r + 256 * u + 65536 * t + 16777216 * e = x"
    for x b c e r u t :: nat by simp
  have d: "lba div 65536 = lba div 256 div 256" "lba div 16777216 = lba div 256 div 256 div 256" by (simp_all flip: div_mult2_eq)
  have "lba div 16777216 mod 16 = lba div 16777216" using assms by (simp add: less_mult_imp_div_less)
  then show ?thesis unfolding d
    using sum [of lba "lba div 256" "lba mod 256" "lba div 256 div 256" "lba div 256 mod 256" "lba div 256 div 256 div 256"
        "lba div 256 div 256 mod 256"] by (simp only: mult_div_mod_eq)
qed

lemma begin_ok:
  assumes "attached (ibus s) (iobase (ctrls s ! c)) dl v" and "early s" and "c < List.length (ctrls s)"
    and "lock_idle (clock_of (ctrls s ! c))" and "selector (disks (ctrls s ! c) ! d) = sel" and "sel = IDE_LBA_MASTER \<or> sel = IDE_LBA_SLAVE"
    and "ata_ready (ata v s)" and "0 < n" and "n < 256" and "lba < 2 ^ 28" and "cmd = IDE_CMD_READ \<or> cmd = IDE_CMD_WRITE"
  shows "\<exists>h l. ide_begin c d n lba cmd s = Some (True, upd h (umem (io (pr s))) (upd_ctrl c (\<lambda>x. x\<lparr>clock_of := l, active := Some d\<rparr>) s)) \<and>
    holder l = Some (cur (kern (pr s))) \<and> repeats l = 1 \<and> mvalue l \<and> waiters l = [] \<and>
    dmode (v h) = (if cmd = IDE_CMD_READ then Reading lba n 0 else Writing lba n 0) \<and> (cmd = IDE_CMD_WRITE \<longrightarrow> dwait (v h) = 0) \<and>
    ata_slave (v h) = (sel = IDE_LBA_SLAVE) \<and> content (v h) = content (ata v s)"
proof -
  let ?m = "umem (io (pr s))" let ?a = "iobase (ctrls s ! c)"
  let ?l = "(clock_of (ctrls s ! c))\<lparr>holder := Some (cur (kern (pr s))), repeats := 1, mvalue := True,
    pc := (pc (clock_of (ctrls s ! c)))(cur (kern (pr s)) := Held)\<rparr>"
  let ?s = "upd_ctrl c (\<lambda>x. x\<lparr>clock_of := ?l\<rparr>) s" let ?sa = "upd_ctrl c (\<lambda>x. x\<lparr>clock_of := ?l, active := Some d\<rparr>) s"
  have li: "clock_of (ctrls s ! c) = lock_init (clock_of (ctrls s ! c))" by (rule lock_idle_init [OF assms(4)])
  have lock: "lock_enter w (clock_of (ctrls s ! c)) k = Some (True, (clock_of (ctrls s ! c))\<lparr>holder := Some (cur k), repeats := 1, mvalue := True,
    pc := (pc (clock_of (ctrls s ! c)))(cur k := Held)\<rparr>, k)" for w k
    using lock_free_enter [of w "clock_of (ctrls s ! c)" k] li by metis
  let ?h0 = "out8 (ibus s) (?a + 6) sel (hw (io (pr s)))"
  have h0: "\<exists>w. v ?h0 = (ata v s)\<lparr>r_sel := sel, dwait := w\<rparr>" using attached_out [OF assms(1), of 6] assms(7)
    by (simp add: ata_out8_def ata_def ata_ready_def) blast
  have drive: "ide_select_drive c d ?s = upd ?h0 ?m ?sa"
    using assms(3,5) by (simp add: ide_select_drive_def out8_upd upd_ctrl_upd IDE_HDDEVSEL_def)
  have A: "attached (ibus (upd h ?m ?sa)) (iobase (ctrls (upd h ?m ?sa) ! c)) dl v" for h using assms(1,3) by simp
  obtain h1 where h1: "ide_busy_wait c IDE_SR_DRDY (upd ?h0 ?m ?sa) = Some (upd h1 ?m ?sa)" "v h1 = (ata v s)\<lparr>r_sel := sel, dwait := 0\<rparr>"
    using busy_wait_ok [OF A, of IDE_SR_DRDY ?h0] h0 by (auto simp: IDE_SR_DRDY_def hw_upd)
  have u1: "upd h ?m (upd_ctrl c (\<lambda>x. x\<lparr>active := Some d\<rparr>) (upd h1 ?m ?sa)) = upd h ?m ?sa" for h
    using assms(3) by (simp add: upd_ctrl_upd)
  have r1: "ata_ready (ata v (upd h1 ?m ?sa))" "bit (ucast (drop_bit 24 (of_nat lba :: u32) AND 0xf) OR sel) 4 = bit (r_sel (ata v (upd h1 ?m ?sa))) 4"
    using assms(7) h1(2) lba_top(2) [OF assms(6)] lba_top(2) [OF assms(6), of 0] by (simp_all add: ata_ready_def)
  obtain h2 where h2: "ide_select_sector c d (of_nat lba) (of_nat n) (upd h1 ?m ?sa) = upd h2 ?m ?sa"
    "v h2 = (v h1)\<lparr>r_count := of_nat n, r_low := ucast (of_nat lba AND 0xff :: u32), r_mid := ucast (drop_bit 8 (of_nat lba) AND 0xff :: u32),
      r_high := ucast (drop_bit 16 (of_nat lba) AND 0xff :: u32), r_sel := ucast (drop_bit 24 (of_nat lba) AND 0xf :: u32) OR sel\<rparr>"
    using select_sector_ok [OF A [of h1] _ r1, where d = d and cnt = "of_nat n"] assms(3,5) u1 by auto
  let ?h3 = "out8 (ibus s) (?a + 7) cmd h2"
  have "ata_lba (v h2) = lba"
  proof -
    have "lba mod 2 ^ 32 = lba" using assms(10) by simp
    then have "ata_lba (v h2) = lba mod 256 + 256 * (lba div 256 mod 256) + 65536 * (lba div 65536 mod 256) + 16777216 * (lba div 16777216 mod 16)"
      using lba_byte [of 0 lba] lba_byte [of 8 lba] lba_byte [of 16 lba] lba_top(1) [OF assms(6), of lba] by (simp add: ata_lba_def h2(2))
    also have "\<dots> = lba" by (rule four_digits [OF assms(10)])
    finally show ?thesis .
  qed
  moreover have "ata_count (v h2) = n"
  proof -
    have "unat (of_nat n :: u8) = n" using assms(9) by (simp add: unsigned_of_nat take_bit_nat_eq_self)
    then show ?thesis using assms(8) by (auto simp: ata_count_def h2(2) word_unat_eq_iff)
  qed
  moreover have "ata_ready (v h2)" using assms(7) h1(2) h2(2) by (simp add: ata_ready_def)
  then have "v ?h3 = ata_out8 dl 7 cmd (v h2)" using attached_out [OF assms(1), of 7] by simp
  ultimately have h3: "cmd = IDE_CMD_WRITE \<longrightarrow> dwait (v ?h3) = 0" "dmode (v ?h3) = (if cmd = IDE_CMD_READ then Reading lba n 0 else Writing lba n 0)"
    "ata_slave (v ?h3) = (sel = IDE_LBA_SLAVE)" "content (v ?h3) = content (ata v s)"
    using assms(11) lba_top(2) [OF assms(6), of lba] h1(2) h2(2)
    by (auto simp: ata_out8_def IDE_CMD_READ_def IDE_CMD_WRITE_def ata_slave_def)
  have "ide_begin c d n lba cmd s = Some (True, upd ?h3 ?m ?sa)"
    using assms(2,3,8) h1(1) h2(1) drive
    by (simp add: ide_begin_def lock early_def out8_upd IDE_COMMAND_def)
  with h3 assms(4) show ?thesis by (intro exI [of _ ?h3] exI [of _ ?l]) (simp add: lock_idle_def)
qed

lemma release_ok:
  assumes "c < List.length (ctrls s)" and "holder (clock_of (ctrls s ! c)) = Some (cur (kern (pr s)))"
    and "repeats (clock_of (ctrls s ! c)) = 1" and "mvalue (clock_of (ctrls s ! c))" and "waiters (clock_of (ctrls s ! c)) = []"
  shows "\<exists>l. ide_release c s = Some (Finished, upd_ctrl c (\<lambda>x. x\<lparr>clock_of := l\<rparr>) s) \<and> lock_idle l"
  by (intro exI [of _ "(clock_of (ctrls s ! c))\<lparr>holder := None, repeats := 0, mvalue := False,
      pc := (pc (clock_of (ctrls s ! c)))(cur (kern (pr s)) := MutexC.Idle)\<rparr>"])
    (use lock_alone_leave [OF assms(2-5)] assms(5) in \<open>simp add: ide_release_def lock_idle_def\<close>)

text \<open>The disk can be used.\<close>

definition usable :: "nat \<Rightarrow> nat \<Rightarrow> (ata_t \<Rightarrow> nat) \<Rightarrow> ('d \<Rightarrow> ata_t) \<Rightarrow> 'd ide_t \<Rightarrow> bool" where
  "usable c d dl v s \<longleftrightarrow> attached (ibus s) (iobase (ctrls s ! c)) dl v \<and> early s \<and> c < List.length (ctrls s) \<and>
     lock_idle (clock_of (ctrls s ! c)) \<and> ata_ready (ata v s) \<and>
     (selector (disks (ctrls s ! c) ! d) = IDE_LBA_MASTER \<or> selector (disks (ctrls s ! c) ! d) = IDE_LBA_SLAVE)"

lemma early_write:
  assumes "usable c d dl v s" and "0 < n" and "n < 256" and "lba < 2 ^ 28"
  shows "\<exists>s1. ide_pio_write c d buf n lba At_lock s = Some (Finished, s1) \<and> usable c d dl v s1 \<and>
    umem (io (pr s1)) = umem (io (pr s)) \<and> disks (ctrls s1 ! c) = disks (ctrls s ! c) \<and>
    content (ata v s1) = store_words (selector (disks (ctrls s ! c) ! d) = IDE_LBA_SLAVE) lba (word_at (umem (io (pr s))) buf) (256 * n) (content (ata v s))"
proof -
  note U = assms(1) [unfolded usable_def]
  obtain h l where b: "ide_begin c d n lba IDE_CMD_WRITE s =
      Some (True, upd h (umem (io (pr s))) (upd_ctrl c (\<lambda>x. x\<lparr>clock_of := l, active := Some d\<rparr>) s))"
    "holder l = Some (cur (kern (pr s)))" "repeats l = 1" "mvalue l" "waiters l = []"
    "dmode (v h) = Writing lba n 0" "dwait (v h) = 0" "ata_slave (v h) = (selector (disks (ctrls s ! c) ! d) = IDE_LBA_SLAVE)" "content (v h) = content (ata v s)"
    using begin_ok [OF _ _ _ _ refl _ _ assms(2-4), of s c dl v d IDE_CMD_WRITE] U by (auto simp: IDE_CMD_READ_def IDE_CMD_WRITE_def)
  let ?s = "upd h (umem (io (pr s))) (upd_ctrl c (\<lambda>x. x\<lparr>clock_of := l, active := Some d\<rparr>) s)"
  obtain h1 where h1: "write_loop c buf 0 n ?s = ide_release c (upd h1 (umem (io (pr s))) ?s)" "ata_ready (v h1)"
    "content (v h1) = store_words (ata_slave (v h)) lba (word_at (umem (io (pr s))) buf) (256 * n) (content (v h))"
    using pio_write_loop_ok [of ?s c dl v n lba buf 0] U b assms(2) by auto
  obtain l1 where "ide_release c (upd h1 (umem (io (pr s))) ?s) =
      Some (Finished, upd_ctrl c (\<lambda>x. x\<lparr>clock_of := l1\<rparr>) (upd h1 (umem (io (pr s))) ?s))" "lock_idle l1"
    using release_ok [of c "upd h1 (umem (io (pr s))) ?s"] U b by auto
  with h1 b U assms(3) show ?thesis by (simp add: ide_pio_write_def usable_def)
qed

lemma early_read:
  assumes "usable c d dl v s" and "0 < n" and "n < 256" and "lba < 2 ^ 28"
  shows "\<exists>s1. ide_pio_read c d buf n lba At_lock s = Some (Finished, s1) \<and> usable c d dl v s1 \<and> content (ata v s1) = content (ata v s) \<and>
    umem (io (pr s1)) = put_words (umem (io (pr s))) buf
      (\<lambda>k. content (ata v s) (selector (disks (ctrls s ! c) ! d) = IDE_LBA_SLAVE) (lba + k div 256) (k mod 256)) (256 * n)"
proof -
  note U = assms(1) [unfolded usable_def]
  obtain h l where b: "ide_begin c d n lba IDE_CMD_READ s =
      Some (True, upd h (umem (io (pr s))) (upd_ctrl c (\<lambda>x. x\<lparr>clock_of := l, active := Some d\<rparr>) s))"
    "holder l = Some (cur (kern (pr s)))" "repeats l = 1" "mvalue l" "waiters l = []"
    "dmode (v h) = Reading lba n 0" "ata_slave (v h) = (selector (disks (ctrls s ! c) ! d) = IDE_LBA_SLAVE)" "content (v h) = content (ata v s)"
    using begin_ok [OF _ _ _ _ refl _ _ assms(2-4), of s c dl v d IDE_CMD_READ] U by auto
  let ?s = "upd h (umem (io (pr s))) (upd_ctrl c (\<lambda>x. x\<lparr>clock_of := l, active := Some d\<rparr>) s)"
  let ?m = "put_words (umem (io (pr s))) buf (\<lambda>k. content (v h) (ata_slave (v h)) (lba + k div 256) (k mod 256)) (256 * n)"
  obtain h1 where h1: "read_loop c buf 0 n ?s = ide_release c (upd h1 ?m ?s)" "ata_ready (v h1)" "content (v h1) = content (v h)"
    using pio_read_loop_ok [of ?s c dl v n lba buf 0] U b assms(2) by auto
  obtain l1 where "ide_release c (upd h1 ?m ?s) =
      Some (Finished, upd_ctrl c (\<lambda>x. x\<lparr>clock_of := l1\<rparr>) (upd h1 ?m ?s))" "lock_idle l1"
    using release_ok [of c "upd h1 ?m ?s"] U b by auto
  with h1 b U assms(3) show ?thesis by (simp add: ide_pio_read_def usable_def)
qed

section \<open>Properties\<close>

text \<open>C14. What the driver writes it reads: with a controller that does as the ATA registers are documented (however long
  it is busy, and with data out of turn undefined; it takes the data of a write at once), before there are tasks and with the lock free, a write of 1 to 255 sectors returns, has stored exactly
  the bytes of the buffer in exactly these sectors of the selected drive (28-bit sector numbers), and a later read of the
  sectors into any buffer returns with the same bytes there, with memory elsewhere and the disk unchanged and the lock
  free.\<close>

theorem ide_write_then_read:
  assumes "usable c d dl v s" and "0 < n" and "n < 256" and "lba < 2 ^ 28"
  shows "\<exists>s1. ide_pio_write c d buf n lba At_lock s = Some (Finished, s1) \<and>
    content (ata v s1) = store_words (selector (disks (ctrls s ! c) ! d) = IDE_LBA_SLAVE) lba (word_at (umem (io (pr s))) buf) (256 * n) (content (ata v s)) \<and>
    (\<forall>buf2. \<exists>s2. ide_pio_read c d buf2 n lba At_lock s1 = Some (Finished, s2) \<and> lock_idle (clock_of (ctrls s2 ! c)) \<and>
      content (ata v s2) = content (ata v s1) \<and>
      umem (io (pr s2)) = (\<lambda>a. if buf2 \<le> a \<and> a < buf2 + 512 * n then umem (io (pr s)) (buf + (a - buf2)) else umem (io (pr s)) a))"
proof -
  let ?m = "umem (io (pr s))" let ?sl = "selector (disks (ctrls s ! c) ! d) = IDE_LBA_SLAVE"
  obtain s1 where s1: "ide_pio_write c d buf n lba At_lock s = Some (Finished, s1)" "usable c d dl v s1" "umem (io (pr s1)) = ?m"
    "disks (ctrls s1 ! c) = disks (ctrls s ! c)"
    "content (ata v s1) = store_words ?sl lba (word_at ?m buf) (256 * n) (content (ata v s))"
    using early_write [OF assms] by blast
  have "\<exists>s2. ide_pio_read c d buf2 n lba At_lock s1 = Some (Finished, s2) \<and> lock_idle (clock_of (ctrls s2 ! c)) \<and>
      content (ata v s2) = content (ata v s1) \<and>
      umem (io (pr s2)) = (\<lambda>a. if buf2 \<le> a \<and> a < buf2 + 512 * n then ?m (buf + (a - buf2)) else ?m a)" for buf2
  proof -
    obtain s2 where s2: "ide_pio_read c d buf2 n lba At_lock s1 = Some (Finished, s2)" "usable c d dl v s2"
      "content (ata v s2) = content (ata v s1)"
      "umem (io (pr s2)) = put_words ?m buf2 (\<lambda>k. content (ata v s1) ?sl (lba + k div 256) (k mod 256)) (256 * n)"
      using early_read [OF s1(2) assms(2-4), of buf2] s1(3,4) by auto
    have "word_byte (\<lambda>k. content (ata v s1) ?sl (lba + k div 256) (k mod 256)) j = ?m (buf + j)" if j: "j < 512 * n" for j
    proof -
      have "j div 2 < 256 * n" using j by linarith
      then have "content (ata v s1) ?sl (lba + j div 2 div 256) (j div 2 mod 256) = word_at ?m buf (j div 2)"
        by (simp add: s1(5) store_words_def)
      then have "word_byte (\<lambda>k. content (ata v s1) ?sl (lba + k div 256) (k mod 256)) j = word_byte (word_at ?m buf) j"
        by (simp add: word_byte_def)
      then show ?thesis by (simp only: word_byte_at)
    qed
    then have "umem (io (pr s2)) a = (if buf2 \<le> a \<and> a < buf2 + 512 * n then ?m (buf + (a - buf2)) else ?m a)" for a
      by (auto simp: s2(4) put_words_def)
    with s2 show ?thesis by (intro exI [of _ s2]) (auto simp: usable_def)
  qed
  with s1 show ?thesis by blast
qed

definition demo_ata :: ata_t where
  "demo_ata = \<lparr>r_count = 0, r_low = 0, r_mid = 0, r_high = 0, r_sel = 0, dmode = Idle, dwait = 0, content = (\<lambda>_ _ _. 0)\<rparr>"

definition demo_bus :: "ata_t bus" where
  "demo_bus = \<lparr>in8 = (\<lambda>p a. if p = 0x1F0 + 0x206 then (ata_status a, a\<lparr>dwait := dwait a - 1\<rparr>) else (0, a)),
     out8 = (\<lambda>p x a. if 0x1F0 \<le> p then ata_out8 (\<lambda>_. 2) (p - 0x1F0) x a else a),
     in16 = (\<lambda>p a. ata_in16 (\<lambda>_. 2) a), out16 = (\<lambda>p x a. ata_out16 (\<lambda>_. 2) x a)\<rparr>"

definition demo_ide :: "ata_t ide_t" where
  "demo_ide = \<lparr>pr = (demo_proc demo_ata)\<lparr>kern := put_task 0x111000 (new_task 1 TASK_READY None 1000) demo_k\<rparr>, ibus = demo_bus,
     ctrls = [\<lparr>cname = ''ide0'', clock_of = lock_init \<lparr>mvalue = True, waiters = [], holder = None, repeats = 0, pc = (\<lambda>_. MutexC.Idle)\<rparr>,
       iobase = IDE_IOBASE_PRIMARY,
       disks = [\<lparr>dname = ''hda'', selector = IDE_LBA_MASTER, master = True, total_lba = 1000, cylinders = 0, heads = 0, sectors = 0, parts = []\<rparr>],
       active = None, control_byte = 0, cwaiter = NULL\<rparr>]\<rparr>"

lemma ide_write_then_read_witness:
  "\<exists>s1 s2. ide_pio_write 0 0 0x3000 2 500 At_lock demo_ide = Some (Finished, s1) \<and>
    ide_pio_read 0 0 0x8000 2 500 At_lock s1 = Some (Finished, s2) \<and> umem (io (pr s2)) 0x8001 = umem (io (pr demo_ide)) 0x3001"
proof -
  have "usable 0 0 (\<lambda>_. 2) id demo_ide"
    by (simp add: usable_def attached_def demo_ide_def demo_bus_def early_def lock_idle_def lock_init_def mutex_init_def ata_def
        demo_proc_def demo_ata_def ata_ready_def demo_k_def new_task_def IDE_IOBASE_PRIMARY_def)
  then obtain s1 where s1: "ide_pio_write 0 0 0x3000 2 500 At_lock demo_ide = Some (Finished, s1)"
    "\<forall>buf2. \<exists>s2. ide_pio_read 0 0 buf2 2 500 At_lock s1 = Some (Finished, s2) \<and> lock_idle (clock_of (ctrls s2 ! 0)) \<and>
      content (ata id s2) = content (ata id s1) \<and>
      umem (io (pr s2)) = (\<lambda>a. if buf2 \<le> a \<and> a < buf2 + 512 * 2 then umem (io (pr demo_ide)) (0x3000 + (a - buf2)) else umem (io (pr demo_ide)) a)"
    using ide_write_then_read [of 0 0 "\<lambda>_. 2" id demo_ide 2 500 "0x3000"] by (simp (no_asm_use)) blast
  from s1(2) [rule_format, of "0x8000"] obtain s2 where "ide_pio_read 0 0 0x8000 2 500 At_lock s1 = Some (Finished, s2)"
    "umem (io (pr s2)) = (\<lambda>a. if 0x8000 \<le> a \<and> a < 0x8000 + 512 * 2 then umem (io (pr demo_ide)) (0x3000 + (a - 0x8000)) else umem (io (pr demo_ide)) a)"
    by blast
  with s1(1) show ?thesis by (intro exI [of _ s1] exI [of _ s2]) simp
qed

end
