(* ===== verification/Keyboard.thy ===== *)
theory Keyboard
  imports Driver
begin

text \<open>
  The keyboard and the terminal: \<open>src/src/kernel/keyboard.c\<close> and \<open>src/src/kernel/tty.c\<close>. The interrupt handler turns
  the scan codes of set 1 into bytes, with the table \<open>keymap\<close>, whose last two columns hold which keys are down;
  the terminal sees each byte first (it acts on the control key), and what it lets through goes to a ring of
  64 bytes, from which \<open>keyboard_read\<close> takes it.
\<close>

section \<open>Data\<close>

definition KEYBOARD_DATA_PORT :: nat where "KEYBOARD_DATA_PORT = 0x60"
definition KEYBOARD_CTRL_PORT :: nat where "KEYBOARD_CTRL_PORT = 0x64"
definition KEYBOARD_CMD_LED :: u8 where "KEYBOARD_CMD_LED = 0xED"
definition KEYBOARD_CMD_ACK :: u8 where "KEYBOARD_CMD_ACK = 0xFA"
definition INV :: u8 where "INV = 0"
definition CODE_PRINT_SCREEN_DOWN :: nat where "CODE_PRINT_SCREEN_DOWN = 0xB7"
definition BUFFER_SIZE :: nat where "BUFFER_SIZE = 64"
definition EINVAL :: int where "EINVAL = 22"
definition ENOSYS :: int where "ENOSYS = 38"
definition SIGINT :: int where "SIGINT = 2"
definition TIOCSPGRP :: int where "TIOCSPGRP = 0x5410"

text \<open>The keys of the enumeration \<open>KEY\<close> that the code names.\<close>

definition KEY_CTRL_L :: nat where "KEY_CTRL_L = 0x1D"
definition KEY_SHIFT_L :: nat where "KEY_SHIFT_L = 0x2A"
definition KEY_SLASH :: nat where "KEY_SLASH = 0x35"
definition KEY_SHIFT_R :: nat where "KEY_SHIFT_R = 0x36"
definition KEY_ALT_L :: nat where "KEY_ALT_L = 0x38"
definition KEY_CAPSLOCK :: nat where "KEY_CAPSLOCK = 0x3A"
definition KEY_NUMLOCK :: nat where "KEY_NUMLOCK = 0x45"
definition KEY_SCRLOCK :: nat where "KEY_SCRLOCK = 0x46"
definition KEY_PRINT_SCREEN :: nat where "KEY_PRINT_SCREEN = 0x5F"

text \<open>The bytes of each key, without and with shift.\<close>

definition key_bytes :: "(u8 \<times> u8) list" where
  "key_bytes = [
     (0, 0), (27, 27), (chr8 CHR ''1'', chr8 CHR ''!''), (chr8 CHR ''2'', chr8 CHR ''@''),
     (chr8 CHR ''3'', chr8 CHR ''#''), (chr8 CHR ''4'', chr8 CHR ''$''), (chr8 CHR ''5'', chr8 CHR ''%''), (chr8 CHR ''6'', chr8 CHR ''^''),
     (chr8 CHR ''7'', chr8 CHR ''&''), (chr8 CHR ''8'', chr8 CHR ''*''), (chr8 CHR ''9'', chr8 CHR ''(''), (chr8 CHR ''0'', chr8 CHR '')''),
     (chr8 CHR ''-'', chr8 CHR ''_''), (chr8 CHR ''='', chr8 CHR ''+''), (8, 8), (9, 9),
     (chr8 CHR ''q'', chr8 CHR ''Q''), (chr8 CHR ''w'', chr8 CHR ''W''), (chr8 CHR ''e'', chr8 CHR ''E''), (chr8 CHR ''r'', chr8 CHR ''R''),
     (chr8 CHR ''t'', chr8 CHR ''T''), (chr8 CHR ''y'', chr8 CHR ''Y''), (chr8 CHR ''u'', chr8 CHR ''U''), (chr8 CHR ''i'', chr8 CHR ''I''),
     (chr8 CHR ''o'', chr8 CHR ''O''), (chr8 CHR ''p'', chr8 CHR ''P''), (chr8 CHR ''['', chr8 CHR ''{''), (chr8 CHR '']'', chr8 CHR ''}''),
     (10, 10), (0, 0), (chr8 CHR ''a'', chr8 CHR ''A''), (chr8 CHR ''s'', chr8 CHR ''S''),
     (chr8 CHR ''d'', chr8 CHR ''D''), (chr8 CHR ''f'', chr8 CHR ''F''), (chr8 CHR ''g'', chr8 CHR ''G''), (chr8 CHR ''h'', chr8 CHR ''H''),
     (chr8 CHR ''j'', chr8 CHR ''J''), (chr8 CHR ''k'', chr8 CHR ''K''), (chr8 CHR ''l'', chr8 CHR ''L''), (chr8 CHR '';'', chr8 CHR '':''),
     (39, 34), (96, chr8 CHR ''~''), (0, 0), (92, chr8 CHR ''|''),
     (chr8 CHR ''z'', chr8 CHR ''Z''), (chr8 CHR ''x'', chr8 CHR ''X''), (chr8 CHR ''c'', chr8 CHR ''C''), (chr8 CHR ''v'', chr8 CHR ''V''),
     (chr8 CHR ''b'', chr8 CHR ''B''), (chr8 CHR ''n'', chr8 CHR ''N''), (chr8 CHR ''m'', chr8 CHR ''M''), (chr8 CHR '','', chr8 CHR ''<''),
     (chr8 CHR ''.'', chr8 CHR ''>''), (chr8 CHR ''/'', chr8 CHR ''?''), (0, 0), (chr8 CHR ''*'', chr8 CHR ''*''),
     (0, 0), (chr8 CHR '' '', chr8 CHR '' ''), (0, 0), (0, 0),
     (0, 0), (0, 0), (0, 0), (0, 0),
     (0, 0), (0, 0), (0, 0), (0, 0),
     (0, 0), (0, 0), (0, 0), (chr8 CHR ''7'', 0),
     (chr8 CHR ''8'', 0), (chr8 CHR ''9'', 0), (chr8 CHR ''-'', chr8 CHR ''-''), (chr8 CHR ''4'', 0),
     (chr8 CHR ''5'', 0), (chr8 CHR ''6'', 0), (chr8 CHR ''+'', chr8 CHR ''+''), (chr8 CHR ''1'', 0),
     (chr8 CHR ''2'', 0), (chr8 CHR ''3'', 0), (chr8 CHR ''0'', 0), (chr8 CHR ''.'', 127),
     (0, 0), (0, 0), (0, 0), (0, 0),
     (0, 0), (0, 0), (0, 0), (0, 0),
     (0, 0), (0, 0), (0, 0), (0, 0)]"

definition keymap_rows :: "u8 list list" where
  "keymap_rows = map (\<lambda>(a, b). [a, b, 0, 0]) key_bytes"

text \<open>The static variables of \<open>keyboard.c\<close>, the \<open>tty_t\<close> of \<open>tty.c\<close> (its process group is in
  \<open>tty_pgid\<close>, at the address \<open>typewriter\<close>), the bus, and the address of the string that \<open>tty_rx_notify\<close> writes.\<close>

record 'd kbd_t =
  pr :: "'d proc_t"
  kbus :: "'d bus"
  keymap :: "u8 list list"
  klock :: lock_t
  kwaiter :: tptr
  kfifo :: fifo
  capslock :: bool
  scrlock :: bool
  numlock :: bool
  extcode :: bool
  typewriter :: addr
  tty_rdev :: int
  tty_wdev :: int
  clear_text :: addr

definition in_port :: "nat \<Rightarrow> 'd kbd_t \<Rightarrow> u8 \<times> 'd kbd_t" where
  "in_port p s = (let (b, h) = in8 (kbus s) p (hw (io (pr s))) in (b, s\<lparr>pr := set_hw h (pr s)\<rparr>))"

definition out_port :: "nat \<Rightarrow> u8 \<Rightarrow> 'd kbd_t \<Rightarrow> 'd kbd_t" where
  "out_port p b s = s\<lparr>pr := set_hw (out8 (kbus s) p b (hw (io (pr s)))) (pr s)\<rparr>"

definition key_is :: "nat \<Rightarrow> nat \<Rightarrow> 'd kbd_t \<Rightarrow> u8" where
  "key_is k i s = keymap s ! k ! i"

definition ctrl_state :: "'d kbd_t \<Rightarrow> bool" where
  "ctrl_state s \<longleftrightarrow> key_is KEY_CTRL_L 2 s \<noteq> 0 \<or> key_is KEY_CTRL_L 3 s \<noteq> 0"

definition alt_state :: "'d kbd_t \<Rightarrow> bool" where
  "alt_state s \<longleftrightarrow> key_is KEY_ALT_L 2 s \<noteq> 0 \<or> key_is KEY_ALT_L 3 s \<noteq> 0"

definition shift_state :: "'d kbd_t \<Rightarrow> bool" where
  "shift_state s \<longleftrightarrow> key_is KEY_SHIFT_L 2 s \<noteq> 0 \<or> key_is KEY_SHIFT_R 2 s \<noteq> 0"

section \<open>The lamps\<close>

partial_function (option) keyboard_wait :: "'d kbd_t \<Rightarrow> 'd kbd_t option" where
  "keyboard_wait s =
     (let (st, s) = in_port KEYBOARD_CTRL_PORT s in if st AND 2 \<noteq> 0 then keyboard_wait s else Some s)"

partial_function (option) keyboard_ack :: "'d kbd_t \<Rightarrow> 'd kbd_t option" where
  "keyboard_ack s =
     (let (st, s) = in_port KEYBOARD_DATA_PORT s in if st \<noteq> KEYBOARD_CMD_ACK then keyboard_ack s else Some s)"

definition set_leds :: "'d kbd_t \<Rightarrow> 'd kbd_t option" where
  "set_leds s = do {
     let leds = push_bit 2 (of_bool (capslock s)) OR push_bit 1 (of_bool (numlock s)) OR of_bool (scrlock s);
     s \<leftarrow> keyboard_wait s;
     let s = out_port KEYBOARD_DATA_PORT KEYBOARD_CMD_LED s;
     s \<leftarrow> keyboard_ack s;
     s \<leftarrow> keyboard_wait s;
     let s = out_port KEYBOARD_DATA_PORT leds s;
     keyboard_ack s }"

section \<open>The terminal\<close>

text \<open>The loop of \<open>tty_intr\<close>. \<open>kill\<close> is a system call: on its way back the running task takes its own signal,
  and when that ends it, nothing after it happens (the result is \<open>True\<close>).\<close>

fun tty_intr_loop :: "addr \<Rightarrow> nat list \<Rightarrow> 'd proc_t \<Rightarrow> (bool \<times> 'd proc_t) option" where
  "tty_intr_loop w [] s = Some (False, s)"
| "tty_intr_loop w (i # is) s =
     (let p = task_table (kern s) ! i
      in if p = NULL then tty_intr_loop w is s
         else do {
           t \<leftarrow> task_at (kern s) p;
           if pgid t \<noteq> tty_pgid s w then tty_intr_loop w is s
           else do {
             (r, k) \<leftarrow> sys_kill (pid t) SIGINT (kern s);
             (ended, s) \<leftarrow> signal_return (s\<lparr>kern := k\<rparr>);
             if ended then Some (True, s) else tty_intr_loop w is s } })"

definition tty_intr :: "addr \<Rightarrow> 'd proc_t \<Rightarrow> (bool \<times> 'd proc_t) option" where
  "tty_intr w s = (if tty_pgid s w = 0 then Some (False, s) else tty_intr_loop w [0..<TASK_NR] s)"

datatype notify_t = Ended | Back int u8

definition tty_rx_notify :: "u8 \<Rightarrow> bool \<Rightarrow> bool \<Rightarrow> bool \<Rightarrow> 'd kbd_t \<Rightarrow> (notify_t \<times> 'd kbd_t) option" where
  "tty_rx_notify ch ctrl shift alt s =
     (let ch = (if ch = 13 then 10 else ch)
      in if \<not> ctrl then Some (Back 0 ch, s)
         else if ch = chr8 CHR ''c'' \<or> ch = chr8 CHR ''C'' then do {
           (ended, p) \<leftarrow> tty_intr (typewriter s) (pr s);
           Some (if ended then Ended else Back 0 10, s\<lparr>pr := p\<rparr>) }
         else if ch = chr8 CHR ''l'' \<or> ch = chr8 CHR ''L'' then do {
           let i = io (pr s);
           (_, m, h) \<leftarrow> device_write (tty_wdev s) (clear_text s) 12 0 0 (devs i) (umem i, hw i);
           Some (Back 0 13, s\<lparr>pr := (pr s)\<lparr>io := i\<lparr>umem := m, hw := h\<rparr>\<rparr>\<rparr>) }
         else Some (Back 1 ch, s))"

definition tty_read :: "addr \<Rightarrow> nat \<Rightarrow> 'd kbd_t \<Rightarrow> (int \<times> 'd kbd_t) option" where
  "tty_read buf count s = do {
     let i = io (pr s);
     (r, m, h) \<leftarrow> device_read (tty_rdev s) buf count 0 0 (devs i) (umem i, hw i);
     Some (r, s\<lparr>pr := (pr s)\<lparr>io := i\<lparr>umem := m, hw := h\<rparr>\<rparr>\<rparr>) }"

definition tty_write :: "addr \<Rightarrow> nat \<Rightarrow> 'd kbd_t \<Rightarrow> (int \<times> 'd kbd_t) option" where
  "tty_write buf count s = do {
     let i = io (pr s);
     (r, m, h) \<leftarrow> device_write (tty_wdev s) buf count 0 0 (devs i) (umem i, hw i);
     Some (r, s\<lparr>pr := (pr s)\<lparr>io := i\<lparr>umem := m, hw := h\<rparr>\<rparr>\<rparr>) }"

text \<open>The command is carried out, and the result is an error all the same.\<close>

definition tty_ioctl :: "addr \<Rightarrow> int \<Rightarrow> int \<Rightarrow> int \<Rightarrow> 'd proc_t \<Rightarrow> int \<times> 'd proc_t" where
  "tty_ioctl w cmd args fl s =
     (- EINVAL, if cmd = TIOCSPGRP then s\<lparr>tty_pgid := (tty_pgid s)(w := args)\<rparr> else s)"

definition sys_stty :: int where "sys_stty = - ENOSYS"
definition sys_gtty :: int where "sys_gtty = - ENOSYS"

text \<open>\<open>tty_init\<close>: the terminal reads the keyboard and writes to the console. The functions it installs work on the
  whole kernel; what the device table holds of them is given.\<close>

definition tty_init :: "(mem \<times> 'd) control \<Rightarrow> (mem \<times> 'd) transfer \<Rightarrow> (mem \<times> 'd) transfer \<Rightarrow> 'd kbd_t \<Rightarrow> 'd kbd_t option" where
  "tty_init ioc rd wr s = do {
     let ds = devs (io (pr s));
     k \<leftarrow> device_find DEV_KEYBOARD 0 ds;
     let s = s\<lparr>tty_rdev := int (dev (ds ! k))\<rparr>;
     c \<leftarrow> device_find DEV_CONSOLE 0 ds;
     let s = s\<lparr>tty_wdev := int (dev (ds ! c))\<rparr>;
     (_, ds) \<leftarrow> device_install DEV_CHAR DEV_TTY (typewriter s) ''tty'' 0 (Some ioc) (Some rd) (Some wr) ds;
     Some (s\<lparr>pr := (pr s)\<lparr>io := (io (pr s))\<lparr>devs := ds\<rparr>\<rparr>\<rparr>) }"

section \<open>The handler\<close>

definition set_key :: "nat \<Rightarrow> nat \<Rightarrow> u8 \<Rightarrow> 'd kbd_t \<Rightarrow> 'd kbd_t" where
  "set_key k i b s = s\<lparr>keymap := (keymap s)[k := (keymap s ! k)[i := b]]\<rparr>"

text \<open>The locks: their lamps are set before the byte is looked up.\<close>

definition key_locks :: "nat \<Rightarrow> 'd kbd_t \<Rightarrow> 'd kbd_t option" where
  "key_locks k s =
     (if k = KEY_NUMLOCK then set_leds (s\<lparr>numlock := \<not> numlock s\<rparr>)
      else if k = KEY_CAPSLOCK then set_leds (s\<lparr>capslock := \<not> capslock s\<rparr>)
      else if k = KEY_SCRLOCK then set_leds (s\<lparr>scrlock := \<not> scrlock s\<rparr>)
      else Some s)"

text \<open>The byte of a key that has gone down.\<close>

definition key_char :: "nat \<Rightarrow> nat \<Rightarrow> 'd kbd_t \<Rightarrow> u8" where
  "key_char k ext s =
     (let shift = (capslock s \<and> chr8 CHR ''a'' \<le> key_is k 0 s \<and> key_is k 0 s \<le> chr8 CHR ''z'');
          shift = (if shift_state s then \<not> shift else shift)
      in if ext = 3 \<and> k \<noteq> KEY_SLASH then key_is k 1 s else key_is k (of_bool shift) s)"

definition key_deliver :: "u8 \<Rightarrow> 'd kbd_t \<Rightarrow> 'd kbd_t option" where
  "key_deliver ch s = do {
     (n, s) \<leftarrow> tty_rx_notify ch (ctrl_state s) (shift_state s) (alt_state s) s;
     (case n of
        Ended \<Rightarrow> Some s
      | Back r ch \<Rightarrow>
          if r > 0 then Some s
          else do {
            f \<leftarrow> fifo_put (kfifo s) ch;
            let s = s\<lparr>kfifo := f\<rparr>;
            if kwaiter s \<noteq> NULL
            then do { p \<leftarrow> do_kern (task_unblock (kwaiter s) 0) (pr s); Some (s\<lparr>pr := p, kwaiter := NULL\<rparr>) }
            else Some s }) }"

text \<open>What the handler does with a byte of the keyboard.\<close>

definition keyboard_code :: "u8 \<Rightarrow> 'd kbd_t \<Rightarrow> 'd kbd_t option" where
  "keyboard_code b s =
     (let scancode = (ucast b :: u16)
      in if scancode = 0xe0 then Some (s\<lparr>extcode := True\<rparr>)
         else
           let ext = (if extcode s then 3 else 2);
               scancode = (if extcode s then scancode OR 0xe000 else scancode);
               s = (if extcode s then s\<lparr>extcode := False\<rparr> else s);
               makecode = unat (scancode AND 0x7f);
               makecode = (if makecode = CODE_PRINT_SCREEN_DOWN then KEY_PRINT_SCREEN else makecode)
           in if makecode > KEY_PRINT_SCREEN then Some s
              else if scancode AND 0x80 \<noteq> 0 then Some (set_key makecode ext 0 s)
              else do {
                s \<leftarrow> key_locks makecode (set_key makecode ext 1 s);
                let ch = key_char makecode ext s;
                if ch = INV then Some s else key_deliver ch s })"

definition keyboard_handler :: "nat \<Rightarrow> 'd kbd_t \<Rightarrow> 'd kbd_t option" where
  "keyboard_handler vector s = do {
     cassert (vector = 0x21);
     let (b, s) = in_port KEYBOARD_DATA_PORT s;
     keyboard_code b s }"

section \<open>Reading\<close>

definition KEYBOARD_LOCK :: nat where "KEYBOARD_LOCK = 2"

datatype read_t = At_lock | At_fifo nat | Finished

text \<open>The loop of \<open>keyboard_read\<close> with \<open>n\<close> bytes to go, up to its end or to where the task blocks; when the task
  runs again it tests the ring again.\<close>

fun keyboard_loop :: "addr \<Rightarrow> nat \<Rightarrow> nat \<Rightarrow> 'd kbd_t \<Rightarrow> (read_t \<times> 'd kbd_t) option" where
  "keyboard_loop buf nr 0 s = do {
     (l, k) \<leftarrow> lock_leave (klock s) (kern (pr s));
     Some (Finished, s\<lparr>klock := l, pr := (pr s)\<lparr>kern := k\<rparr>\<rparr>) }"
| "keyboard_loop buf nr (Suc n) s =
     (if fifo_empty (kfifo s)
      then do {
        let s = s\<lparr>kwaiter := cur (kern (pr s))\<rparr>;
        p \<leftarrow> do_kern (task_block (kwaiter s) block_list TASK_BLOCKED (- 1)) (pr s);
        Some (At_fifo nr, s\<lparr>pr := p\<rparr>) }
      else do {
        (b, f) \<leftarrow> fifo_get (kfifo s);
        keyboard_loop buf (nr + 1) n
          (s\<lparr>kfifo := f, pr := (pr s)\<lparr>io := (io (pr s))\<lparr>umem := (umem (io (pr s)))(buf + nr := b)\<rparr>\<rparr>\<rparr>) })"

text \<open>\<open>keyboard_read\<close> from its start (\<open>At_lock\<close>, also after a wait for the lock) or from the loop.\<close>

definition keyboard_read :: "addr \<Rightarrow> nat \<Rightarrow> read_t \<Rightarrow> 'd kbd_t \<Rightarrow> (read_t \<times> 'd kbd_t) option" where
  "keyboard_read buf count r s =
     (case r of
        At_lock \<Rightarrow> do {
          (got, l, k) \<leftarrow> lock_enter KEYBOARD_LOCK (klock s) (kern (pr s));
          let s = s\<lparr>klock := l, pr := (pr s)\<lparr>kern := k\<rparr>\<rparr>;
          if got then keyboard_loop buf 0 count s else Some (At_lock, s) }
      | At_fifo nr \<Rightarrow> keyboard_loop buf nr (count - nr) s
      | Finished \<Rightarrow> Some (Finished, s))"

text \<open>\<open>keyboard_init\<close>; \<open>buf0\<close> is what the buffer of the ring holds, \<open>rd\<close> what the device table holds for
  \<open>keyboard_read\<close>.\<close>

definition keyboard_init :: "u8 list \<Rightarrow> (mem \<times> 'd) transfer \<Rightarrow> 'd kbd_t \<Rightarrow> 'd kbd_t option" where
  "keyboard_init buf0 rd s = do {
     let s = s\<lparr>numlock := False, scrlock := False, capslock := False, extcode := False,
       kfifo := fifo_init buf0 BUFFER_SIZE, klock := lock_init (klock s), kwaiter := NULL\<rparr>;
     s \<leftarrow> set_leds s;
     let i = io (pr s);
     (_, ds) \<leftarrow> device_install DEV_CHAR DEV_KEYBOARD NULL ''keyboard'' 0 None (Some rd) None (devs i);
     Some (s\<lparr>pr := (pr s)\<lparr>io := i\<lparr>devs := ds\<rparr>\<rparr>\<rparr>) }"

section \<open>What a keystroke does\<close>

lemmas key_defs = KEY_CTRL_L_def KEY_SHIFT_L_def KEY_SLASH_def KEY_SHIFT_R_def KEY_ALT_L_def KEY_CAPSLOCK_def
  KEY_NUMLOCK_def KEY_SCRLOCK_def KEY_PRINT_SCREEN_def CODE_PRINT_SCREEN_DOWN_def

lemma length_key_bytes: "length key_bytes = 96"
  by (simp add: key_bytes_def)

lemma keymap_row: "k < 96 \<Longrightarrow> keymap_rows ! k = [fst (key_bytes ! k), snd (key_bytes ! k), 0, 0]"
  by (simp add: keymap_rows_def length_key_bytes case_prod_unfold)

text \<open>The keys without a byte of their own are no keys of text.\<close>

lemma special_keys:
  "key_bytes ! KEY_CTRL_L = (0, 0)" "key_bytes ! KEY_SHIFT_L = (0, 0)" "key_bytes ! KEY_SHIFT_R = (0, 0)"
  "key_bytes ! KEY_ALT_L = (0, 0)" "key_bytes ! KEY_CAPSLOCK = (0, 0)" "key_bytes ! KEY_NUMLOCK = (0, 0)"
  "key_bytes ! KEY_SCRLOCK = (0, 0)"
  by (simp_all add: key_bytes_def key_defs)

lemma no_return_key: "(a, b) \<in> set key_bytes \<Longrightarrow> a \<noteq> 13 \<and> b \<noteq> 13"
  by (auto simp: key_bytes_def chr8_def)

lemma code_bits:
  assumes "k < 256"
  shows "unat ((ucast (of_nat k :: u8) :: u16) AND 0x7f) = k mod 128"
    and "(ucast (of_nat k :: u8) :: u16) AND 0x80 \<noteq> 0 \<longleftrightarrow> 128 \<le> k"
    and "(ucast (of_nat k :: u8) :: u16) = 0xe0 \<longleftrightarrow> k = 224"
proof -
  have u: "unat (ucast (of_nat k :: u8) :: u16) = k"
    using assms by (simp add: unsigned_ucast_eq unsigned_of_nat take_bit_nat_eq_self)
  let ?w = "ucast (of_nat k :: u8) :: u16"
  have "?w AND 0x7f = take_bit 7 ?w" by (simp add: take_bit_eq_mask mask_eq_exp_minus_1)
  moreover have "unat (take_bit 7 ?w) = k mod 128"
    unfolding unsigned_take_bit_eq u by (simp add: take_bit_eq_mod)
  ultimately show "unat (?w AND 0x7f) = k mod 128" by metis
  have "?w AND 0x80 = 0 \<longleftrightarrow> \<not> bit ?w 7" using and_exp_eq_0_iff_not_bit [of ?w 7] by simp
  moreover have "bit ?w 7 \<longleftrightarrow> bit (unat ?w) 7" by (simp add: bit_unsigned_iff)
  moreover have "bit k 7 \<longleftrightarrow> 128 \<le> k"
  proof -
    have "k div 128 = (if 128 \<le> k then 1 else 0)" using assms by auto
    then show ?thesis by (simp add: bit_iff_odd)
  qed
  ultimately show "?w AND 0x80 \<noteq> 0 \<longleftrightarrow> 128 \<le> k" using u by simp
  show "?w = 0xe0 \<longleftrightarrow> k = 224"
    unfolding word_unat_eq_iff u by simp
qed

text \<open>The scan codes that type a byte: the key goes down and up, between left shift if it needs it.\<close>

definition strokes :: "u8 \<Rightarrow> u8 list" where
  "strokes c = (case find (\<lambda>k. fst (key_bytes ! k) = c) [0..<96] of
     Some k \<Rightarrow> [of_nat k, of_nat (k + 128)]
   | None \<Rightarrow> (case find (\<lambda>k. snd (key_bytes ! k) = c) [0..<96] of
       Some k \<Rightarrow> [of_nat KEY_SHIFT_L, of_nat k, of_nat (k + 128), of_nat (KEY_SHIFT_L + 128)]
     | None \<Rightarrow> []))"

definition typable :: "u8 \<Rightarrow> bool" where
  "typable c \<longleftrightarrow> c \<noteq> 0 \<and> (\<exists>k<96. fst (key_bytes ! k) = c \<or> snd (key_bytes ! k) = c)"

fun keyboard_codes :: "u8 list \<Rightarrow> 'd kbd_t \<Rightarrow> 'd kbd_t option" where
  "keyboard_codes [] s = Some s"
| "keyboard_codes (b # rest) s = do { s \<leftarrow> keyboard_code b s; keyboard_codes rest s }"

lemma keyboard_codes_append: "keyboard_codes (xs @ ys) s = keyboard_codes xs s \<bind> keyboard_codes ys"
  by (induction xs arbitrary: s) (auto split: bind_split)

lemma code_up:
  assumes "k < 96" and "\<not> extcode s"
  shows "keyboard_code (of_nat (k + 128)) s = Some (set_key k 2 0 s)"
  using code_bits [of "k + 128"] assms by (simp add: keyboard_code_def Let_def key_defs)

lemma code_down:
  assumes "k < 96" and "\<not> extcode s" and "k \<noteq> KEY_NUMLOCK" and "k \<noteq> KEY_CAPSLOCK" and "k \<noteq> KEY_SCRLOCK"
  shows "keyboard_code (of_nat k) s = (let s = set_key k 2 1 s; ch = key_char k 2 s
    in if ch = INV then Some s else key_deliver ch s)"
  using code_bits [of k] assms by (simp add: keyboard_code_def Let_def key_locks_def CODE_PRINT_SCREEN_DOWN_def KEY_PRINT_SCREEN_def)

text \<open>With the control key up and nobody waiting, a byte other than a carriage return goes to the ring.\<close>

lemma deliver_plain:
  assumes "\<not> ctrl_state s" and "kwaiter s = NULL" and "ch \<noteq> 13" and "fifo_put (kfifo s) ch = Some f"
  shows "key_deliver ch s = Some (s\<lparr>kfifo := f\<rparr>)"
  using assms by (simp add: key_deliver_def tty_rx_notify_def Let_def)

text \<open>The state between two keystrokes.\<close>

definition at_rest :: "'d kbd_t \<Rightarrow> bool" where
  "at_rest s \<longleftrightarrow> keymap s = keymap_rows \<and> \<not> capslock s \<and> \<not> extcode s \<and> kwaiter s = NULL"

lemma length_keymap_rows [simp]: "length keymap_rows = 96"
  by (simp add: keymap_rows_def length_key_bytes)

lemma set_key_back: "k < 96 \<Longrightarrow> i < 4 \<Longrightarrow> b = keymap_rows ! k ! i \<Longrightarrow> keymap s = keymap_rows[k := (keymap_rows ! k)[i := v]] \<Longrightarrow>
  set_key k i b s = s\<lparr>keymap := keymap_rows\<rparr>"
  by (simp add: set_key_def)

lemma text_key:
  assumes "k < 96" and "fst (key_bytes ! k) = c \<or> snd (key_bytes ! k) = c" and "c \<noteq> 0"
  shows "k \<noteq> KEY_CTRL_L" "k \<noteq> KEY_SHIFT_L" "k \<noteq> KEY_SHIFT_R" "k \<noteq> KEY_NUMLOCK" "k \<noteq> KEY_CAPSLOCK" "k \<noteq> KEY_SCRLOCK" "c \<noteq> 13"
proof -
  show "k \<noteq> KEY_CTRL_L" "k \<noteq> KEY_SHIFT_L" "k \<noteq> KEY_SHIFT_R" "k \<noteq> KEY_NUMLOCK" "k \<noteq> KEY_CAPSLOCK" "k \<noteq> KEY_SCRLOCK"
    using assms(2,3) special_keys by (metis fst_conv snd_conv)+
  show "c \<noteq> 13"
    using no_return_key [of "fst (key_bytes ! k)" "snd (key_bytes ! k)"] assms(1,2) length_key_bytes
    by (metis nth_mem prod.collapse)
qed

lemma key_numbers: "KEY_CTRL_L < 96" "KEY_SHIFT_L < 96" "KEY_SHIFT_R < 96" "KEY_CTRL_L \<noteq> KEY_SHIFT_L" "KEY_SHIFT_R \<noteq> KEY_SHIFT_L"
  "KEY_SHIFT_L \<noteq> KEY_NUMLOCK" "KEY_SHIFT_L \<noteq> KEY_CAPSLOCK" "KEY_SHIFT_L \<noteq> KEY_SCRLOCK"
  by (simp_all add: key_defs)

lemma plain_stroke:
  assumes "at_rest s" and "k < 96" and "fst (key_bytes ! k) = c" and "c \<noteq> 0" and "fifo_put (kfifo s) c = Some f"
  shows "keyboard_codes [of_nat k, of_nat (k + 128)] s = Some (s\<lparr>kfifo := f\<rparr>)"
proof -
  let ?s = "set_key k 2 1 s"
  have r: "keymap s = keymap_rows" "\<not> capslock s" "\<not> extcode s" "kwaiter s = NULL" using assms(1) by (auto simp: at_rest_def)
  note k = text_key [OF assms(2) disjI1, OF assms(3,4)]
  have m: "keymap ?s = keymap_rows[k := (keymap_rows ! k)[2 := 1]]" using r by (simp add: set_key_def)
  have st: "\<not> ctrl_state ?s" "\<not> shift_state ?s"
    using k key_numbers by (auto simp: ctrl_state_def shift_state_def key_is_def m keymap_row)
  have "key_char k 2 ?s = c" using st r assms(2,3) by (simp add: key_char_def key_is_def m keymap_row set_key_def)
  then have d: "keyboard_code (of_nat k) s = Some (?s\<lparr>kfifo := f\<rparr>)"
    using code_down [OF assms(2) r(3) k(4-6)] deliver_plain [of ?s c f] st r k(7) assms(4,5) by (simp add: set_key_def Let_def INV_def)
  have "set_key k 2 0 (?s\<lparr>kfifo := f\<rparr>) = ?s\<lparr>kfifo := f, keymap := keymap_rows\<rparr>"
    by (rule set_key_back [of _ _ _ _ 1]) (use assms(2) m in \<open>simp_all add: keymap_row\<close>)
  then show ?thesis using d code_up [OF assms(2), of "?s\<lparr>kfifo := f\<rparr>"] r by (simp add: set_key_def)
qed

lemma row_clear: "k < 96 \<Longrightarrow> (keymap_rows ! k)[2 := 0] = keymap_rows ! k"
  by (simp add: keymap_row)

lemma update_row: "k \<noteq> j \<Longrightarrow> keymap_rows[j := v, k := keymap_rows ! k] = keymap_rows[j := v]"
  by (metis list_update_id nth_list_update_neq)

lemma shift_stroke:
  assumes "at_rest s" and "k < 96" and "snd (key_bytes ! k) = c" and "c \<noteq> 0" and "fifo_put (kfifo s) c = Some f"
  shows "keyboard_codes [of_nat KEY_SHIFT_L, of_nat k, of_nat (k + 128), of_nat (KEY_SHIFT_L + 128)] s = Some (s\<lparr>kfifo := f\<rparr>)"
proof -
  let ?s = "set_key KEY_SHIFT_L 2 1 s" let ?u = "set_key k 2 1 ?s"
  have r: "keymap s = keymap_rows" "\<not> capslock s" "\<not> extcode s" "kwaiter s = NULL" using assms(1) by (auto simp: at_rest_def)
  note k = text_key [OF assms(2) disjI2, OF assms(3,4)] note N = key_numbers
  have "key_char KEY_SHIFT_L 2 ?s = INV" using r N special_keys by (auto simp: key_char_def key_is_def INV_def set_key_def keymap_row Let_def)
  then have d1: "keyboard_code (of_nat KEY_SHIFT_L) s = Some ?s" using code_down [OF N(2) r(3) N(6-8)] by (simp add: Let_def)
  have m: "keymap ?u = keymap_rows[KEY_SHIFT_L := (keymap_rows ! KEY_SHIFT_L)[2 := 1], k := (keymap_rows ! k)[2 := 1]]"
    using r k by (simp add: set_key_def)
  have st: "\<not> ctrl_state ?u" "shift_state ?u" using k N by (auto simp: ctrl_state_def shift_state_def key_is_def m keymap_row)
  have x: "\<not> extcode ?s" "\<not> capslock ?u" "kwaiter ?u = NULL" "kfifo ?u = kfifo s" using r by (simp_all add: set_key_def)
  have "key_char k 2 ?u = c" using st x k assms(2,3) by (simp add: key_char_def key_is_def m keymap_row)
  then have d2: "keyboard_code (of_nat k) ?s = Some (?u\<lparr>kfifo := f\<rparr>)"
    using code_down [OF assms(2) x(1) k(4-6)] deliver_plain [of ?u c f] st x k(7) assms(4,5) by (simp add: Let_def INV_def)
  have "set_key k 2 0 (?u\<lparr>kfifo := f\<rparr>) = ?s\<lparr>kfifo := f\<rparr>"
    by (rule kbd_t.equality) (use r k assms(2) in \<open>simp_all add: set_key_def row_clear update_row\<close>)
  then have d3: "keyboard_code (of_nat (k + 128)) (?u\<lparr>kfifo := f\<rparr>) = Some (?s\<lparr>kfifo := f\<rparr>)"
    using code_up [OF assms(2), of "?u\<lparr>kfifo := f\<rparr>"] r by (simp add: set_key_def)
  have "set_key KEY_SHIFT_L 2 0 (?s\<lparr>kfifo := f\<rparr>) = s\<lparr>kfifo := f\<rparr>"
    by (rule kbd_t.equality) (use r N in \<open>simp_all add: set_key_def row_clear\<close>)
  then have d4: "keyboard_code (of_nat (KEY_SHIFT_L + 128)) (?s\<lparr>kfifo := f\<rparr>) = Some (s\<lparr>kfifo := f\<rparr>)"
    using code_up [OF N(2), of "?s\<lparr>kfifo := f\<rparr>"] r by (simp add: set_key_def)
  from d1 d2 d3 d4 show ?thesis by simp
qed

lemma stroke:
  assumes "at_rest s" and "typable c" and "fifo_put (kfifo s) c = Some f"
  shows "keyboard_codes (strokes c) s = Some (s\<lparr>kfifo := f\<rparr>)"
proof (cases "find (\<lambda>k. fst (key_bytes ! k) = c) [0..<96]")
  case None
  obtain k where k: "find (\<lambda>k. snd (key_bytes ! k) = c) [0..<96] = Some k"
    using assms(2) None by (cases "find (\<lambda>k. snd (key_bytes ! k) = c) [0..<96]") (auto simp: typable_def find_None_iff)
  then have "k < 96" "snd (key_bytes ! k) = c" by (auto simp: find_Some_iff)
  with shift_stroke [OF assms(1) _ _ _ assms(3), of k] assms(2) None k show ?thesis
    by (simp only: strokes_def typable_def option.case simp_thms)
next
  case (Some k)
  then have "k < 96" "fst (key_bytes ! k) = c" by (auto simp: find_Some_iff)
  with plain_stroke [OF assms(1) _ _ _ assms(3), of k] assms(2) Some show ?thesis
    by (simp only: strokes_def typable_def option.case simp_thms)
qed

lemma typed:
  assumes "at_rest s" and "\<forall>c\<in>set cs. typable c" and "put_all fifo_put (kfifo s) cs = Some f"
  shows "keyboard_codes (concat (map strokes cs)) s = Some (s\<lparr>kfifo := f\<rparr>)"
  using assms
proof (induction cs arbitrary: s)
  case (Cons c cs)
  then obtain g where g: "fifo_put (kfifo s) c = Some g" "put_all fifo_put g cs = Some f" by (auto split: bind_splits)
  have "keyboard_codes (strokes c) s = Some (s\<lparr>kfifo := g\<rparr>)" using stroke [OF Cons.prems(1) _ g(1)] Cons.prems(2) by simp
  with Cons.IH [of "s\<lparr>kfifo := g\<rparr>"] Cons.prems g show ?case by (simp add: keyboard_codes_append at_rest_def)
qed simp

text \<open>Reading from the ring.\<close>

lemma loop_takes:
  assumes "get_many fifo_get n (kfifo s) = Some (cs, f)" and "\<And>g. fifo_get g \<noteq> None \<Longrightarrow> \<not> fifo_empty g"
  shows "keyboard_loop buf nr n s = keyboard_loop buf (nr + n) 0
    (s\<lparr>kfifo := f, pr := (pr s)\<lparr>io := (io (pr s))\<lparr>umem := mwrite (umem (io (pr s))) (buf + nr) cs\<rparr>\<rparr>\<rparr>)"
  using assms(1)
proof (induction n arbitrary: s nr cs)
  case 0
  then show ?case by (cases s) (simp del: keyboard_loop.simps)
next
  case (Suc n)
  then obtain b g rest where g: "fifo_get (kfifo s) = Some (b, g)" "get_many fifo_get n g = Some (rest, f)" "cs = b # rest"
    by (auto split: bind_splits prod.splits)
  let ?s = "s\<lparr>kfifo := g, pr := (pr s)\<lparr>io := (io (pr s))\<lparr>umem := (umem (io (pr s)))(buf + nr := b)\<rparr>\<rparr>\<rparr>"
  have "keyboard_loop buf nr (Suc n) s = keyboard_loop buf (nr + 1) n ?s" using g(1) assms(2) [of "kfifo s"] by simp
  with Suc.IH [of ?s rest "nr + 1"] g show ?case by (simp del: keyboard_loop.simps add: add.assoc)
qed

section \<open>Properties\<close>

text \<open>C19. What is typed is what is read: for any text of bytes on the keyboard that fits into the ring, the interrupts
  of the keystrokes that type it (with shift where it is needed), with no key down before and nobody waiting, all
  return; a read of that many bytes then returns without blocking, with exactly the text in the caller's buffer, and
  leaves the keyboard with no key down, the ring empty and the lock free.\<close>

theorem typed_text_is_read:
  assumes "at_rest s" and "fifo_inv (kfifo s)" and "fifo_content (kfifo s) = []" and "klock s = lock_init l"
    and "\<forall>c\<in>set cs. typable c" and "length cs \<le> fifo_cap (kfifo s)"
  shows "\<exists>s1 s2. keyboard_codes (concat (map strokes cs)) s = Some s1 \<and>
    keyboard_read buf (length cs) At_lock s1 = Some (Finished, s2) \<and>
    umem (io (pr s2)) = mwrite (umem (io (pr s))) buf cs \<and>
    at_rest s2 \<and> fifo_content (kfifo s2) = [] \<and> holder (klock s2) = None \<and> kern (pr s2) = kern (pr s)"
proof -
  obtain f where f: "put_all fifo_put (kfifo s) cs = Some f" "fifo_inv f" "fifo_content f = cs"
    using ring.put_all_content [OF assms(2), of cs] assms(3,6) by auto
  obtain g where g: "get_many fifo_get (length cs) f = Some (cs, g)" "fifo_content g = []"
    using ring.get_many_content [OF f(2), of "length cs"] f(3) by auto
  have t: "keyboard_codes (concat (map strokes cs)) s = Some (s\<lparr>kfifo := f\<rparr>)" by (rule typed [OF assms(1,5) f(1)])
  let ?l = "(klock s)\<lparr>holder := Some (cur (kern (pr s))), repeats := 1, mvalue := True, pc := (pc (klock s))(cur (kern (pr s)) := Held)\<rparr>"
  let ?s = "s\<lparr>kfifo := f, klock := ?l, pr := (pr s)\<lparr>kern := kern (pr s)\<rparr>\<rparr>"
  have "\<not> fifo_empty q" if "fifo_get q \<noteq> None" for q using that by (auto simp: fifo_get_def)
  then have "keyboard_loop buf 0 (length cs) ?s = keyboard_loop buf (length cs) 0
      (?s\<lparr>kfifo := g, pr := (pr s)\<lparr>io := (io (pr s))\<lparr>umem := mwrite (umem (io (pr s))) buf cs\<rparr>\<rparr>\<rparr>)"
    using loop_takes [of "length cs" ?s cs g buf 0] g(1) by (simp del: keyboard_loop.simps)
  moreover have "waiters ?l = []" using assms(4) by (simp add: lock_init_def mutex_init_def)
  ultimately have "\<exists>s2. keyboard_read buf (length cs) At_lock (s\<lparr>kfifo := f\<rparr>) = Some (Finished, s2) \<and>
    umem (io (pr s2)) = mwrite (umem (io (pr s))) buf cs \<and> at_rest s2 \<and> fifo_content (kfifo s2) = [] \<and>
    holder (klock s2) = None \<and> kern (pr s2) = kern (pr s)"
    using assms(1,4) g(2) by (simp add: keyboard_read_def lock_free_enter lock_alone_leave at_rest_def)
  with t show ?thesis by metis
qed

definition demo_kbd :: "unit kbd_t" where
  "demo_kbd = \<lparr>pr = demo_proc (), kbus = \<lparr>in8 = (\<lambda>_ _. (0, ())), out8 = (\<lambda>_ _ _. ()), in16 = (\<lambda>_ _. (0, ())), out16 = (\<lambda>_ _ _. ())\<rparr>,
     keymap = keymap_rows, klock = lock_init \<lparr>mvalue = True, waiters = [], holder = None, repeats = 0, pc = (\<lambda>_. Idle)\<rparr>,
     kwaiter = NULL, kfifo = fifo_init (replicate 64 0) 64, capslock = False, scrlock = False, numlock = False,
     extcode = False, typewriter = 0x2000, tty_rdev = 2, tty_wdev = 1, clear_text = 0x3000\<rparr>"

lemma typed_text_is_read_witness:
  "\<exists>s1 s2. keyboard_codes [0x2a, 0x1e, 0x9e, 0xaa, 0x02, 0x82] demo_kbd = Some s1 \<and>
    keyboard_read 0x5000 2 At_lock s1 = Some (Finished, s2) \<and> umem (io (pr s2)) 0x5000 = 65 \<and> umem (io (pr s2)) 0x5001 = 49"
proof -
  have e: "find (\<lambda>k. fst (key_bytes ! k) = 65) [0..<96] = None" "find (\<lambda>k. snd (key_bytes ! k) = 65) [0..<96] = Some 30"
    "find (\<lambda>k. fst (key_bytes ! k) = 49) [0..<96] = Some 2"
    by (simp_all add: key_bytes_def chr8_def upt_rec)
  have t: "typable 65" "typable 49"
    using e(2,3) by (auto simp: typable_def find_Some_iff)
  have st: "strokes 65 = [0x2a, 0x1e, 0x9e, 0xaa]" "strokes 49 = [0x02, 0x82]" by (simp_all add: strokes_def e KEY_SHIFT_L_def)
  have a: "at_rest demo_kbd" "fifo_inv (kfifo demo_kbd)" "fifo_content (kfifo demo_kbd) = []"
    "klock demo_kbd = lock_init \<lparr>mvalue = True, waiters = [], holder = None, repeats = 0, pc = (\<lambda>_. Idle)\<rparr>"
    by (simp_all add: at_rest_def demo_kbd_def fifo_inv_def fifo_init_def fifo_content_def fifo_count_def)
  have b: "\<forall>c\<in>set [65, 49]. typable c" "length [65, 49 :: u8] \<le> fifo_cap (kfifo demo_kbd)"
    using t by (simp_all add: demo_kbd_def fifo_init_def fifo_cap_def)
  obtain s1 s2 where "keyboard_codes (concat (map strokes [65, 49])) demo_kbd = Some s1"
    "keyboard_read 0x5000 (length [65, 49 :: u8]) At_lock s1 = Some (Finished, s2)"
    "umem (io (pr s2)) = mwrite (umem (io (pr demo_kbd))) 0x5000 [65, 49]"
    using typed_text_is_read [OF a b, of "0x5000"] by blast
  then show ?thesis by (intro exI [of _ s1] exI [of _ s2]) (simp add: st numeral_2_eq_2)
qed

text \<open>Interrupting the foreground group: the tasks of the slots from \<open>a\<close> to \<open>n - 1\<close> have been dealt with.\<close>

definition hit :: "int \<Rightarrow> task_t \<Rightarrow> bool" where
  "hit g t \<longleftrightarrow> pgid t = g \<and> kill_ok SIGINT t"

definition sent_below :: "nat \<Rightarrow> nat \<Rightarrow> int \<Rightarrow> kstate \<Rightarrow> kstate \<Rightarrow> bool" where
  "sent_below a n g k0 k \<longleftrightarrow> kinv k \<and> task_table k = task_table k0 \<and> cur k = cur k0 \<and>
     (\<forall>q t. live k0 q t \<longrightarrow> live k q (if int a \<le> pid t \<and> pid t < int n \<and> hit g t then signalled SIGINT t else t))"

lemma signalled_simps [simp]: "pid (signalled x t) = pid t" "pgid (signalled x t) = pgid t"
  by (simp_all add: signalled_def Let_def)

lemma sent_step:
  assumes "kinv k0" and "sent_below a i g k0 k" and "i < TASK_NR" and "a \<le> i" and "task_table k0 ! i = p" and "p \<noteq> NULL"
    and "task_at k p = Some t" and "pgid t = g"
  shows "\<exists>r k'. sys_kill (pid t) SIGINT k = Some (r, k') \<and> sent_below a (Suc i) g k0 k'"
proof -
  note S = assms(2) [unfolded sent_below_def]
  have k: "kinv k" "task_table k = task_table k0" using S by auto
  have "p \<in> set (task_table k)" using assms(3,5) k(2) kinvD(2) [OF k(1)] by (metis nth_mem)
  then have l: "live k p t" using assms(6,7) by (simp add: live_def)
  obtain t0 where t0: "task_at k0 p = Some t0" "pid t0 = int i" using kinvD(3) [OF assms(1,3)] assms(5,6) by auto
  then have l0: "live k0 p t0" using l k(2) by (simp add: live_def)
  with S t0(2) have "live k p t0" by fastforce
  then have t: "t0 = t" using l live_fun by metis
  have other: "pid u \<noteq> int i" if "live k0 q u" "q \<noteq> p" for q u
    using that pid_inj [OF assms(1) l0] t0(2) by metis
  show ?thesis
  proof (cases "kill_ok SIGINT t")
    case True
    let ?k = "put_task p (signalled SIGINT t)
      (k\<lparr>wlists := unlink p (if state t = TASK_WAITING \<or> state t = TASK_SLEEPING then node t else None) (wlists k)\<rparr>)"
    have L: "live ?k q (if int a \<le> pid u \<and> pid u < int (Suc i) \<and> hit g u then signalled SIGINT u else u)" if u: "live k0 q u" for q u
    proof (cases "q = p")
      case True
      with u l0 have "u = t" using t live_fun by metis
      with True l assms(8,4) \<open>kill_ok SIGINT t\<close> t0(2) t show ?thesis by (simp add: hit_def live_def)
    next
      case False
      with other [OF u] have "pid u < int (Suc i) \<longleftrightarrow> pid u < int i" by linarith
      moreover have "live k q (if int a \<le> pid u \<and> pid u < int i \<and> hit g u then signalled SIGINT u else u)" using S u by blast
      ultimately show ?thesis using False by (simp add: live_def)
    qed
    have "sent_below a (Suc i) g k0 ?k"
      unfolding sent_below_def
    proof (intro conjI allI impI)
      show "kinv ?k" by (rule kinv_signalled [OF k(1) l])
      show "task_table ?k = task_table k0" "cur ?k = cur k0" using S by simp_all
      fix q u
      assume "live k0 q u"
      then show "live ?k q (if int a \<le> pid u \<and> pid u < int (Suc i) \<and> hit g u then signalled SIGINT u else u)" by (rule L)
    qed
    with sys_kill_eq [OF k(1) l True] show ?thesis by blast
  next
    case False
    have "\<not> kill_ok SIGINT u" if "live k q u" "pid u = pid t" for q u
      using that False pid_inj [OF k(1) l] l live_fun by metis
    then have "sys_kill (pid t) SIGINT k = Some (EOF, k)" by (rule sys_kill_refused [OF k(1)])
    moreover have "int a \<le> pid u \<and> pid u < int (Suc i) \<and> hit g u \<longleftrightarrow> int a \<le> pid u \<and> pid u < int i \<and> hit g u" if "live k0 q u" for q u
      using other [OF that] False that l0 t live_fun by (cases "q = p") (auto simp: hit_def)
    ultimately show ?thesis using S by (auto simp: sent_below_def)
  qed
qed

lemma intr_loop_ok:
  assumes "kinv k0" and "live k0 (cur k0) c" and "signal c AND NOT (blocked c) = 0" and "hit g c \<Longrightarrow> pid c < int a \<or> int n \<le> pid c"
    and "n \<le> TASK_NR" and "sent_below a i g k0 (kern s)" and "tty_pgid s w = g" and "i \<le> n" and "a \<le> i"
  shows "\<exists>k. tty_intr_loop w [i..<n] s = Some (False, s\<lparr>kern := k\<rparr>) \<and> sent_below a n g k0 k"
  using assms(6-9)
proof (induction "n - i" arbitrary: i s)
  case 0
  then show ?case by (cases s) (auto intro: exI [of _ "kern s"])
next
  case (Suc d)
  then have i: "i < TASK_NR" "i < n" "[i..<n] = i # [Suc i..<n]" using assms(5) by (simp_all add: upt_conv_Cons)
  note S = Suc.prems(1) [unfolded sent_below_def]
  have next_one: ?case if "sent_below a (Suc i) g k0 k" "tty_intr_loop w [i..<n] s = tty_intr_loop w [Suc i..<n] (s\<lparr>kern := k\<rparr>)" for k
    using Suc.hyps(1) [of "Suc i" "s\<lparr>kern := k\<rparr>"] that Suc.hyps(2) Suc.prems(2,4) i(1,2) by auto
  let ?p = "task_table k0 ! i"
  have skip: "sent_below a (Suc i) g k0 (kern s)" if "\<And>q u. live k0 q u \<Longrightarrow> pid u = int i \<Longrightarrow> \<not> hit g u"
  proof -
    have "int a \<le> pid u \<and> pid u < int (Suc i) \<and> hit g u \<longleftrightarrow> int a \<le> pid u \<and> pid u < int i \<and> hit g u" if "live k0 q u" for q u
      using \<open>\<And>q u. live k0 q u \<Longrightarrow> pid u = int i \<Longrightarrow> \<not> hit g u\<close> [OF that] by (cases "pid u = int i") auto
    with S show ?thesis by (simp add: sent_below_def)
  qed
  show ?case
  proof (cases "?p = NULL")
    case True
    have "\<not> hit g u" if "live k0 q u" "pid u = int i" for q u
      using live_slot(3) [OF assms(1) that(1)] that True live_at(2) by simp
    then show ?thesis using next_one [OF skip] S True i(3) by (simp add: Let_def)
  next
    case False
    obtain t0 where t0: "task_at k0 ?p = Some t0" "pid t0 = int i" using kinvD(3) [OF assms(1) i(1)] False by blast
    have "?p \<in> set (task_table k0)" using i(1) kinvD(2) [OF assms(1)] by simp
    then have l0: "live k0 ?p t0" using t0 False by (simp add: live_def)
    with S t0(2) have l: "live (kern s) ?p t0" by fastforce
    show ?thesis
    proof (cases "pgid t0 = g")
      case True
      obtain r k' where k': "sys_kill (pid t0) SIGINT (kern s) = Some (r, k')" "sent_below a (Suc i) g k0 k'"
        using sent_step [OF assms(1) Suc.prems(1) i(1) Suc.prems(4) refl False _ True] l by (auto simp: live_def)
      have "live k' (cur k0) c" using k'(2) assms(2,4) i(2) by (fastforce simp: sent_below_def)
      then have "task_at (kern (s\<lparr>kern := k'\<rparr>)) (cur (kern (s\<lparr>kern := k'\<rparr>))) = Some c"
        using k'(2) by (simp add: sent_below_def live_def)
      from no_signal_return [OF this assms(3)] have "tty_intr_loop w [i..<n] s = tty_intr_loop w [Suc i..<n] (s\<lparr>kern := k'\<rparr>)"
        using S False l True Suc.prems(2) k'(1) i(3) by (simp add: Let_def live_def)
      then show ?thesis using next_one k'(2) by blast
    next
      case False
      have "\<not> hit g u" if "live k0 q u" "pid u = int i" for q u
        using live_slot(3) [OF assms(1) that(1)] that l0 live_fun False by (auto simp: hit_def)
      moreover have "tty_intr_loop w [i..<n] s = tty_intr_loop w [Suc i..<n] (s\<lparr>kern := kern s\<rparr>)"
        using S False \<open>?p \<noteq> NULL\<close> l Suc.prems(2) i(3) by (simp add: Let_def live_def)
      ultimately show ?thesis using next_one [OF skip] by blast
    qed
  qed
qed

lemma intr_loop_append:
  "tty_intr_loop w (xs @ ys) s = (tty_intr_loop w xs s \<bind> (\<lambda>(e, s). if e then Some (True, s) else tty_intr_loop w ys s))"
  by (induction xs arbitrary: s) (auto simp: Let_def split: Option.bind_splits prod.splits)

text \<open>When only \<open>sig\<close> is due, nothing is due after the delivery, which changes nothing but the state of the signals and
  the frame.\<close>

lemma task_signal_only:
  assumes "sig_inv t" and "\<And>k. due t k \<Longrightarrow> k = sig"
  obtains out m' t' where "task_signal m t = Some (out, m', t')" and "signal t' AND NOT (blocked t') = 0"
    and "t' = t\<lparr>signal := signal t', blocked := blocked t', iframe := iframe t', actions := actions t'\<rparr>"
proof (cases "due t sig")
  case False
  then have "\<forall>k. \<not> due t k" using assms(2) by blast
  then have "signal t AND NOT (blocked t) = 0" using first_signal_due(1) [of t] assms(1) by (simp add: sig_inv_def)
  then show ?thesis by (intro that [of No_signal m t]) (simp_all add: task_signal_def)
next
  case True
  moreover have "\<not> due t k" if "k < sig" for k using assms(2) [of k] that by auto
  ultimately have "next_sig t sig" by (simp add: next_sig_def)
  note e = task_signal_next [OF assms(1) this, of m]
  have P: "\<not> (bit (signal t) n \<and> n \<noteq> nat (sig - 1) \<and> \<not> bit (blocked t) n)" for n
  proof
    assume n: "bit (signal t) n \<and> n \<noteq> nat (sig - 1) \<and> \<not> bit (blocked t) n"
    then have "n < 32" by (auto dest: bit_imp_le_length)
    moreover have "n \<noteq> 31" using n assms(1) by (auto simp: sig_inv_def)
    ultimately have "due t (int n + 1)" using n by (simp add: due_def MINSIG_def MAXSIG_def)
    with assms(2) n show False by fastforce
  qed
  have z: "(signal t AND NOT (SIGMASK sig)) AND NOT (blocked t OR b) = 0" for b
  proof (rule bit_word_eqI)
    fix n assume "n < LENGTH(32)"
    then show "bit ((signal t AND NOT (SIGMASK sig)) AND NOT (blocked t OR b)) n = bit (0 :: u32) n"
      using P [of n] by (auto simp: bit_and_iff bit_not_iff bit_or_iff SIGMASK_bit)
  qed
  let ?a = "actions t ! nat (sig - 1)"
  consider "handler ?a = SIG_IGN \<or> handler ?a = SIG_DFL" | "handler ?a \<noteq> SIG_IGN" "handler ?a \<noteq> SIG_DFL" by blast
  then show ?thesis
  proof cases
    case 1
    then have "\<exists>out. task_signal m t = Some (out, m, t\<lparr>signal := signal t AND NOT (SIGMASK sig)\<rparr>)" unfolding e
      by (cases "handler ?a = SIG_IGN \<or> handler ?a = SIG_DFL \<and> sig = SIGCHLD") auto
    then obtain out where "task_signal m t = Some (out, m, t\<lparr>signal := signal t AND NOT (SIGMASK sig)\<rparr>)" ..
    then show ?thesis by (rule that) (use z [of 0] in simp_all)
  next
    case 2
    then obtain m' t' where t': "task_signal m t = Some (Handler, m', t')" "signal t' = signal t AND NOT (SIGMASK sig)"
      "blocked t' = blocked t OR mask ?a" "t' = t\<lparr>signal := signal t', blocked := blocked t', iframe := iframe t', actions := actions t'\<rparr>"
      using e by (simp add: Let_def)
    then show ?thesis by (intro that [OF t'(1) _ t'(4)]) (simp only: t'(2,3) z)
  qed
qed

text \<open>The running task, when the signal reaches it, takes it at once.\<close>

lemma signal_self:
  assumes "signal c AND NOT (blocked c) = 0" and "sig_inv c" and "state c = TASK_RUNNING"
  obtains out u c' where "task_signal m (signalled SIGINT c) = Some (out, u, c')" and "signal c' AND NOT (blocked c') = 0"
    and "c' = c\<lparr>signal := signal c', blocked := blocked c', iframe := iframe c', actions := actions c'\<rparr>"
proof -
  let ?t = "c\<lparr>signal := signal c OR SIGMASK SIGINT\<rparr>"
  have t: "signalled SIGINT c = ?t" using assms(3) by (simp add: signalled_def)
  have only: "due ?t n \<Longrightarrow> n = SIGINT" for n
  proof -
    assume d: "due ?t n"
    then have "\<not> bit (signal c) (nat (n - 1))"
      using arg_cong [OF assms(1), of "\<lambda>x. bit x (nat (n - 1))"] by (auto simp: due_def bit_and_iff bit_not_iff dest: bit_imp_le_length)
    then have "nat (n - 1) = nat (SIGINT - 1)" "1 \<le> n" using d by (auto simp: due_def bit_or_iff SIGMASK_bit MINSIG_def)
    then show "n = SIGINT" by (simp add: SIGINT_def)
  qed
  have inv: "sig_inv ?t" using assms(2) by (simp add: sig_inv_def bit_or_iff SIGMASK_bit SIGINT_def)
  obtain out u c' where c': "task_signal m ?t = Some (out, u, c')" "signal c' AND NOT (blocked c') = 0"
    "c' = ?t\<lparr>signal := signal c', blocked := blocked c', iframe := iframe c', actions := actions c'\<rparr>"
    by (rule task_signal_only [OF inv only])
  from c'(3) have "c' = c\<lparr>signal := signal c', blocked := blocked c', iframe := iframe c', actions := actions c'\<rparr>" by simp
  with c'(1,2) show ?thesis using that by (simp add: t)
qed

lemma intr_loop_self:
  assumes "kinv k0" and "live k0 (cur k0) c" and "hit g c" and "state c = TASK_RUNNING"
    and "sent_below 0 (nat (pid c)) g k0 (kern s)" and "tty_pgid s w = g"
    and "task_signal (ustack s) (signalled SIGINT c) = Some (out, u, c')"
    and "c' = c\<lparr>signal := signal c', blocked := blocked c', iframe := iframe c', actions := actions c'\<rparr>"
  defines "k \<equiv> put_task (cur k0) c' (kern s)"
  shows "kinv k"
    and "tty_intr_loop w (nat (pid c) # is) s = (case out of
      Exit st \<Rightarrow> map_option (Pair True) (task_exit st (s\<lparr>kern := k, ustack := u\<rparr>))
    | _ \<Rightarrow> tty_intr_loop w is (s\<lparr>kern := k, ustack := u\<rparr>))"
proof -
  let ?p = "cur k0" let ?t = "signalled SIGINT c"
  note S = assms(5) [unfolded sent_below_def]
  have g: "pgid c = g" "kill_ok SIGINT c" using assms(3) by (simp_all add: hit_def)
  have k: "kinv (kern s)" and tt: "task_table (kern s) = task_table k0" "cur (kern s) = ?p" using S by simp_all
  have "live (kern s) ?p (if int 0 \<le> pid c \<and> pid c < int (nat (pid c)) \<and> hit g c then signalled SIGINT c else c)"
    using S assms(2) by blast
  then have l: "live (kern s) ?p c" using live_slot(1) [OF assms(1,2)] by simp
  have f: "pid c' = pid c" "node c' = node c" "state c' = state c" "magic c' = magic c" "ticks c' = ticks c" "priority c' = priority c"
    "pde c' = pde c" "alarm c' = alarm c" by (subst assms(8), simp)+
  have "task_ok (kern s) ?p c'" using kinvD(4) [OF k l] by (simp add: task_ok_def f)
  then show "kinv k" unfolding k_def put_task_def
    by (intro kinv_same_lists [OF k l f(1,2)]) (simp_all add: f(3) assms(4) is_waiting_def)
  have kill: "sys_kill (pid c) SIGINT (kern s) = Some (0, put_task ?p ?t (kern s))"
    using sys_kill_eq [OF k l g(2)] assms(4) by (simp add: unlink_def)
  have sl: "task_table k0 ! nat (pid c) = ?p" "?p \<noteq> NULL" using live_slot [OF assms(1,2)] assms(2) by (simp_all add: live_def)
  have swap: "s\<lparr>ustack := u, kern := x\<rparr> = s\<lparr>kern := x, ustack := u\<rparr>" for x by simp
  show "tty_intr_loop w (nat (pid c) # is) s = (case out of
      Exit st \<Rightarrow> map_option (Pair True) (task_exit st (s\<lparr>kern := k, ustack := u\<rparr>))
    | _ \<Rightarrow> tty_intr_loop w is (s\<lparr>kern := k, ustack := u\<rparr>))"
    using sl tt l kill g(1) assms(6,7)
    by (cases out) (auto simp: Let_def live_def signal_return_def do_kern_def modify_put k_def swap split: Option.bind_splits)
qed

lemma sent_start: "kinv k \<Longrightarrow> sent_below a a g k k"
  by (auto simp: sent_below_def)

lemma intr_loop_group:
  assumes "kinv (kern s)" and "live (kern s) (cur (kern s)) c" and "signal c AND NOT (blocked c) = 0"
    and "hit g c" and "sig_inv c" and "state c = TASK_RUNNING" and "tty_pgid s w = g"
  shows "\<exists>out u c' k. task_signal (ustack s) (signalled SIGINT c) = Some (out, u, c') \<and> kinv k \<and> live k (cur (kern s)) c' \<and>
    (\<forall>q t. live (kern s) q t \<longrightarrow> q \<noteq> cur (kern s) \<longrightarrow>
      live k q (if hit g t \<and> (pid t < pid c \<or> (\<forall>st. out \<noteq> Exit st)) then signalled SIGINT t else t)) \<and>
    tty_intr_loop w [0..<TASK_NR] s = (case out of
      Exit st \<Rightarrow> map_option (Pair True) (task_exit st (s\<lparr>kern := k, ustack := u\<rparr>))
    | _ \<Rightarrow> Some (False, s\<lparr>kern := k, ustack := u\<rparr>))"
proof -
  let ?k0 = "kern s" let ?p = "cur ?k0" let ?i = "nat (pid c)"
  note slot = live_slot [OF assms(1)]
  have i: "?i < TASK_NR" "int ?i = pid c" using slot(1,2) [OF assms(2)] by simp_all
  have parts: "[0..<TASK_NR] = [0..<?i] @ ?i # [Suc ?i..<TASK_NR]"
    using i(1) upt_add_eq_append [of 0 ?i "TASK_NR - ?i"] by (simp add: upt_conv_Cons)
  obtain k1 where k1: "tty_intr_loop w [0..<?i] s = Some (False, s\<lparr>kern := k1\<rparr>)" "sent_below 0 ?i g ?k0 k1"
    using intr_loop_ok [OF assms(1-3), of g 0 ?i 0 s w] sent_start [OF assms(1)] assms(7) i by auto
  have s1: "sent_below 0 ?i g ?k0 (kern (s\<lparr>kern := k1\<rparr>))" "tty_pgid (s\<lparr>kern := k1\<rparr>) w = g" using k1(2) assms(7) by simp_all
  obtain out u c' where ts: "task_signal (ustack s) (signalled SIGINT c) = Some (out, u, c')" "signal c' AND NOT (blocked c') = 0"
    and e: "c' = c\<lparr>signal := signal c', blocked := blocked c', iframe := iframe c', actions := actions c'\<rparr>"
    by (rule signal_self [OF assms(3,5,6)])
  let ?k2 = "put_task ?p c' k1"
  have ts1: "task_signal (ustack (s\<lparr>kern := k1\<rparr>)) (signalled SIGINT c) = Some (out, u, c')" using ts(1) by simp
  note self = intr_loop_self [OF assms(1,2,4,6) s1 ts1 e]
  have k2: "kinv ?k2" "cur ?k2 = ?p" "live ?k2 ?p c'"
    using self(1) k1(2) assms(2) by (auto simp: sent_below_def live_def)
  have before: "live ?k2 q (if hit g t \<and> pid t < pid c then signalled SIGINT t else t)" if "live ?k0 q t" "q \<noteq> ?p" for q t
  proof -
    have "live k1 q (if int 0 \<le> pid t \<and> pid t < int ?i \<and> hit g t then signalled SIGINT t else t)"
      using k1(2) that(1) by (auto simp: sent_below_def)
    then show ?thesis using that slot(1) [OF that(1)] i(2) by (auto simp: live_def)
  qed
  show ?thesis
  proof (cases "\<exists>st. out = Exit st")
    case True
    then obtain st where st: "out = Exit st" ..
    then have "tty_intr_loop w [0..<TASK_NR] s = map_option (Pair True) (task_exit st (s\<lparr>kern := ?k2, ustack := u\<rparr>))"
      using self(2) by (simp add: parts intr_loop_append k1(1) del: tty_intr_loop.simps)
    with ts(1) k2 before st show ?thesis
      by (intro exI [of _ out] exI [of _ u] exI [of _ c'] exI [of _ ?k2]) auto
  next
    case False
    let ?s2 = "s\<lparr>kern := ?k2, ustack := u\<rparr>"
    have f: "pid c' = pid c" by (subst e, simp)
    obtain k3 where k3: "tty_intr_loop w [Suc ?i..<TASK_NR] ?s2 = Some (False, ?s2\<lparr>kern := k3\<rparr>)" "sent_below (Suc ?i) TASK_NR g ?k2 k3"
      using intr_loop_ok [OF k2(1), of c' g "Suc ?i" TASK_NR "Suc ?i" ?s2 w] k2 ts(2) sent_start [OF k2(1)] assms(7) i f by auto
    have "tty_intr_loop w [0..<TASK_NR] s = Some (False, s\<lparr>kern := k3, ustack := u\<rparr>)"
      using self(2) False k3(1) by (cases out) (auto simp: parts intr_loop_append k1(1) simp del: tty_intr_loop.simps)
    moreover have "live k3 q (if hit g t then signalled SIGINT t else t)" if q: "live ?k0 q t" "q \<noteq> ?p" for q t
    proof -
      have "pid t \<noteq> pid c" using pid_inj [OF assms(1) q(1) assms(2)] q(2) by blast
      moreover have "pid t < int TASK_NR" using slot(1,2) [OF q(1)] by linarith
      ultimately consider "pid t < pid c" | "int (Suc ?i) \<le> pid t" "pid t < int TASK_NR" "\<not> pid t < pid c" using i(2) by linarith
      then show ?thesis
      proof cases
        case 1
        with before [OF q] have "live ?k2 q (if hit g t then signalled SIGINT t else t)" by simp
        then show ?thesis using k3(2) 1 i(2) by (fastforce simp: sent_below_def)
      next
        case 2
        with before [OF q] have "live ?k2 q t" by simp
        with k3(2) have "live k3 q (if int (Suc ?i) \<le> pid t \<and> pid t < int TASK_NR \<and> hit g t then signalled SIGINT t else t)"
          unfolding sent_below_def by blast
        with 2 show ?thesis by simp
      qed
    qed
    moreover have "live k3 ?p (if int (Suc ?i) \<le> pid c' \<and> pid c' < int TASK_NR \<and> hit g c' then signalled SIGINT c' else c')"
      using k3(2) k2(3) unfolding sent_below_def by blast
    then have "live k3 ?p c'" using f i(2) by simp
    moreover have "kinv k3" using k3(2) by (simp add: sent_below_def)
    ultimately show ?thesis using ts(1) False
      by (intro exI [of _ out] exI [of _ u] exI [of _ c'] exI [of _ k3]) (cases out; simp)
  qed
qed

text \<open>C20. Control and C sends SIGINT to the tasks of the foreground group that \<open>kill\<close> accepts (those of users, but process
  1; see \<open>kill_ok\<close>). The running task has no signal due when it is interrupted. If the signal does not reach it, the
  handler comes back, each of these tasks has SIGINT added and is woken if it slept or waited for a child, and no
  other task has changed in any way. If it does reach it, the running task takes the signal in its turn, in the return from \<open>kill\<close>:
  when its action ends it, the tasks before it in the table have been sent the signal, those behind it have not, and
  control goes to \<open>task_exit\<close> and does not come back; otherwise (the signal is blocked, ignored or has a handler) all of the group have it and the
  handler comes back. The byte that goes to the reader is a newline, so that a task that waits for a key wakes too.\<close>

theorem ctrl_c_interrupts_the_group:
  assumes "kinv (kern (pr s))" and "live (kern (pr s)) (cur (kern (pr s))) c" and "signal c AND NOT (blocked c) = 0"
    and "tty_pgid (pr s) (typewriter s) = g" and "g \<noteq> 0"
  shows "(\<not> (pgid c = g \<and> kill_ok SIGINT c) \<longrightarrow>
      (\<exists>s'. tty_rx_notify (chr8 CHR ''c'') True shift alt s = Some (Back 0 10, s') \<and> kinv (kern (pr s')) \<and>
        (\<forall>q t. live (kern (pr s)) q t \<longrightarrow> live (kern (pr s')) q (if pgid t = g \<and> kill_ok SIGINT t then signalled SIGINT t else t)))) \<and>
    (pgid c = g \<and> kill_ok SIGINT c \<and> sig_inv c \<and> state c = TASK_RUNNING \<longrightarrow>
      (\<exists>out u c' k. task_signal (ustack (pr s)) (signalled SIGINT c) = Some (out, u, c') \<and> kinv k \<and> live k (cur (kern (pr s))) c' \<and>
        (\<forall>q t. live (kern (pr s)) q t \<longrightarrow> q \<noteq> cur (kern (pr s)) \<longrightarrow>
          live k q (if pgid t = g \<and> kill_ok SIGINT t \<and> (pid t < pid c \<or> (\<forall>st. out \<noteq> Exit st)) then signalled SIGINT t else t)) \<and>
        tty_rx_notify (chr8 CHR ''c'') True shift alt s = (case out of
          Exit st \<Rightarrow> map_option (\<lambda>p. (Ended, s\<lparr>pr := p\<rparr>)) (task_exit st ((pr s)\<lparr>kern := k, ustack := u\<rparr>))
        | _ \<Rightarrow> Some (Back 0 10, s\<lparr>pr := (pr s)\<lparr>kern := k, ustack := u\<rparr>\<rparr>))))"
proof (intro conjI impI)
  let ?k = "kern (pr s)" let ?loop = "tty_intr_loop (typewriter s) [0..<TASK_NR] (pr s)"
  have n: "tty_rx_notify (chr8 CHR ''c'') True shift alt s =
      map_option (\<lambda>(e, p). (if e then Ended else Back 0 10, s\<lparr>pr := p\<rparr>)) ?loop"
    using assms(4,5) by (cases ?loop) (auto simp: tty_rx_notify_def tty_intr_def chr8_def Let_def)
  have h: "pgid t = g \<and> kill_ok SIGINT t \<longleftrightarrow> hit g t" for t by (simp add: hit_def)
  show "\<exists>s'. tty_rx_notify (chr8 CHR ''c'') True shift alt s = Some (Back 0 10, s') \<and> kinv (kern (pr s')) \<and>
      (\<forall>q t. live ?k q t \<longrightarrow> live (kern (pr s')) q (if pgid t = g \<and> kill_ok SIGINT t then signalled SIGINT t else t))"
    if "\<not> (pgid c = g \<and> kill_ok SIGINT c)"
  proof -
    have "hit g c \<Longrightarrow> pid c < int 0 \<or> int TASK_NR \<le> pid c" using that h by blast
    from intr_loop_ok [OF assms(1-3) this order_refl sent_start [OF assms(1)] assms(4)]
    obtain k where k: "?loop = Some (False, (pr s)\<lparr>kern := k\<rparr>)" "sent_below 0 TASK_NR g ?k k" by auto
    have "live k q (if hit g t then signalled SIGINT t else t)" if "live ?k q t" for q t
    proof -
      have "0 \<le> pid t" "pid t < int TASK_NR" using live_slot(1,2) [OF assms(1) that] by linarith+
      then show ?thesis using k(2) that by (fastforce simp: sent_below_def)
    qed
    with k n show ?thesis unfolding h by (auto simp: sent_below_def)
  qed
  assume c: "pgid c = g \<and> kill_ok SIGINT c \<and> sig_inv c \<and> state c = TASK_RUNNING"
  then have "hit g c" by (simp add: hit_def)
  from intr_loop_group [OF assms(1-3) this _ _ assms(4)] c obtain out u c' k where
    r: "task_signal (ustack (pr s)) (signalled SIGINT c) = Some (out, u, c')" "kinv k" "live k (cur ?k) c'"
      "\<forall>q t. live ?k q t \<longrightarrow> q \<noteq> cur ?k \<longrightarrow> live k q (if hit g t \<and> (pid t < pid c \<or> (\<forall>st. out \<noteq> Exit st)) then signalled SIGINT t else t)"
      "?loop = (case out of Exit st \<Rightarrow> map_option (Pair True) (task_exit st ((pr s)\<lparr>kern := k, ustack := u\<rparr>))
        | _ \<Rightarrow> Some (False, (pr s)\<lparr>kern := k, ustack := u\<rparr>))" by auto
  have "tty_rx_notify (chr8 CHR ''c'') True shift alt s = (case out of
      Exit st \<Rightarrow> map_option (\<lambda>p. (Ended, s\<lparr>pr := p\<rparr>)) (task_exit st ((pr s)\<lparr>kern := k, ustack := u\<rparr>))
    | _ \<Rightarrow> Some (Back 0 10, s\<lparr>pr := (pr s)\<lparr>kern := k, ustack := u\<rparr>\<rparr>))"
    unfolding n r(5) by (cases out) (simp_all add: option.map_comp comp_def)
  with r(1-4) show "\<exists>out u c' k. task_signal (ustack (pr s)) (signalled SIGINT c) = Some (out, u, c') \<and> kinv k \<and> live k (cur ?k) c' \<and>
      (\<forall>q t. live ?k q t \<longrightarrow> q \<noteq> cur ?k \<longrightarrow>
        live k q (if pgid t = g \<and> kill_ok SIGINT t \<and> (pid t < pid c \<or> (\<forall>st. out \<noteq> Exit st)) then signalled SIGINT t else t)) \<and>
      tty_rx_notify (chr8 CHR ''c'') True shift alt s = (case out of
        Exit st \<Rightarrow> map_option (\<lambda>p. (Ended, s\<lparr>pr := p\<rparr>)) (task_exit st ((pr s)\<lparr>kern := k, ustack := u\<rparr>))
      | _ \<Rightarrow> Some (Back 0 10, s\<lparr>pr := (pr s)\<lparr>kern := k, ustack := u\<rparr>\<rparr>))"
    unfolding conj_assoc [symmetric] h by blast
qed


definition demo_sleeper :: task_t where
  "demo_sleeper = (new_task 2 TASK_SLEEPING (Some 1) 1000)\<lparr>pgid := 5\<rparr>"

definition demo_group :: "unit kbd_t" where
  "demo_group = demo_kbd\<lparr>pr := (demo_proc ())\<lparr>kern := put_task 0x112000 demo_sleeper demo_k, tty_pgid := (\<lambda>_. 5)\<rparr>\<rparr>"

text \<open>The same system with the task of the group running and the other one asleep.\<close>

definition demo_front :: task_t where
  "demo_front = (new_task 2 TASK_RUNNING None 1000)\<lparr>pgid := 5\<rparr>"

definition front_k :: kstate where
  "front_k = demo_k\<lparr>task_at := [0x110000 \<mapsto> new_task 0 TASK_READY None 0, 0x111000 \<mapsto> new_task 1 TASK_SLEEPING (Some 1) 1000,
     0x112000 \<mapsto> demo_front], cur := 0x112000, wlists := (\<lambda>_. [])(1 := [0x111000]), timer_list := []\<rparr>"

definition front_kbd :: "unit kbd_t" where
  "front_kbd = demo_kbd\<lparr>pr := (demo_proc ())\<lparr>kern := front_k, tty_pgid := (\<lambda>_. 5)\<rparr>\<rparr>"

lemma front_live: "live front_k p t \<longleftrightarrow>
  p = 0x110000 \<and> t = new_task 0 TASK_READY None 0 \<or> p = 0x111000 \<and> t = new_task 1 TASK_SLEEPING (Some 1) 1000 \<or>
  p = 0x112000 \<and> t = demo_front"
  by (auto simp: live_def front_k_def demo_k_def demo_pages_def)

lemma front_kinv: "kinv front_k"
proof -
  have "task_ok front_k p t" if "live front_k p t" for p t
    using that by (auto simp: front_live task_ok_def new_task_def is_waiting_def demo_front_def) (simp_all add: front_k_def)
  moreover have "p \<in> set (wlists front_k l) \<longleftrightarrow> (\<exists>t. live front_k p t \<and> node t = Some l)" for p l
    by (auto simp: front_live new_task_def demo_front_def) (simp_all add: front_k_def split: if_splits)
  moreover have "\<exists>t. live front_k (cur front_k) t" "\<exists>t. live front_k (idle_task front_k) t \<and> \<not> is_waiting (state t) \<and> state t \<noteq> TASK_DIED"
    by (auto simp: front_live front_k_def [THEN arg_cong, of cur] front_k_def [THEN arg_cong, of idle_task] demo_k_def new_task_def is_waiting_def)
  moreover have "\<exists>t. task_at front_k (task_table front_k ! i) = Some t \<and> pid t = int i" if "i < TASK_NR" "task_table front_k ! i \<noteq> NULL" for i
  proof -
    have "task_table front_k = task_table demo_k" by (simp add: front_k_def)
    with that demo_k_table [of i] have "task_table demo_k ! i \<in> {0x110000, 0x111000, 0x112000}"
      "\<exists>t. task_at demo_k (task_table demo_k ! i) = Some t \<and> pid t = int i" by (auto simp: demo_k_def split: if_splits)
    then show ?thesis by (auto simp: front_k_def demo_k_def [THEN arg_cong, of task_at] new_task_def demo_front_def)
  qed
  moreover have "\<not> intr front_k" "length (task_table front_k) = TASK_NR" "distinct (wlists front_k l)" "timer_list front_k = []" for l
    by (simp_all add: front_k_def demo_k_def demo_pages_def TASK_NR_def)
  ultimately show ?thesis by (auto simp: kinv_def)
qed

lemma group_kinv: "kinv (kern (pr demo_group))"
proof -
  let ?t = "new_task 2 TASK_SLEEPING (Some 1) 1000"
  have k: "kinv demo_k" using demo_ok by (simp add: kstate_ok_def)
  have l: "live demo_k 0x112000 ?t" by (simp add: demo_live)
  have ok: "task_ok demo_k 0x112000 demo_sleeper"
    using kinvD(4) [OF k l] by (simp add: task_ok_def demo_sleeper_def)
  have "idle_task demo_k = 0x110000" by (simp add: demo_k_def)
  then have "kinv (put_task 0x112000 demo_sleeper demo_k)"
    unfolding put_task_def by (intro kinv_same_lists [OF k l _ _ ok]) (simp_all add: demo_sleeper_def new_task_def)
  then show ?thesis by (simp add: demo_group_def)
qed

lemma ctrl_c_interrupts_the_group_witness:
  "(\<exists>s'. tty_rx_notify (chr8 CHR ''c'') True False False demo_group = Some (Back 0 10, s') \<and>
      live (kern (pr s')) 0x112000 (signalled SIGINT demo_sleeper)) \<and>
   (\<exists>u k. kinv k \<and> live k 0x111000 (new_task 1 TASK_SLEEPING (Some 1) 1000) \<and>
      tty_rx_notify (chr8 CHR ''c'') True False False front_kbd =
        map_option (\<lambda>p. (Ended, front_kbd\<lparr>pr := p\<rparr>)) (task_exit 2 ((pr front_kbd)\<lparr>kern := k, ustack := u\<rparr>)))"
proof
  let ?c = "new_task 1 TASK_RUNNING None 1000"
  have l: "live (kern (pr demo_group)) (cur (kern (pr demo_group))) ?c" "live (kern (pr demo_group)) 0x112000 demo_sleeper"
    by (simp_all add: demo_group_def demo_k_def demo_pages_def)
  have c: "signal ?c AND NOT (blocked ?c) = 0" "pgid ?c \<noteq> 5" "tty_pgid (pr demo_group) (typewriter demo_group) = 5"
    by (simp_all add: new_task_def demo_group_def)
  obtain s' where s': "tty_rx_notify (chr8 CHR ''c'') True False False demo_group = Some (Back 0 10, s')"
    "\<forall>q t. live (kern (pr demo_group)) q t \<longrightarrow> live (kern (pr s')) q (if pgid t = 5 \<and> kill_ok SIGINT t then signalled SIGINT t else t)"
    using ctrl_c_interrupts_the_group [OF group_kinv l(1) c(1,3), of False False] c(2) by auto
  have "pgid demo_sleeper = 5" "kill_ok SIGINT demo_sleeper"
    by (simp_all add: demo_sleeper_def new_task_def kill_ok_def SIGINT_def MINSIG_def MAXSIG_def KERNEL_USER_def)
  with s' l(2) show "\<exists>s'. tty_rx_notify (chr8 CHR ''c'') True False False demo_group = Some (Back 0 10, s') \<and>
      live (kern (pr s')) 0x112000 (signalled SIGINT demo_sleeper)" by fastforce
next
  let ?w = "new_task 1 TASK_SLEEPING (Some 1) 1000"
  have k: "kern (pr front_kbd) = front_k" "tty_pgid (pr front_kbd) (typewriter front_kbd) = 5" "cur front_k = 0x112000"
    by (simp_all add: front_kbd_def front_k_def)
  have l: "live (kern (pr front_kbd)) (cur (kern (pr front_kbd))) demo_front" "live front_k 0x111000 ?w"
    by (simp_all add: k front_live)
  have a: "kinv (kern (pr front_kbd))" by (simp add: k front_kinv)
  have c: "signal demo_front AND NOT (blocked demo_front) = 0"
    "pgid demo_front = 5 \<and> kill_ok SIGINT demo_front \<and> sig_inv demo_front \<and> state demo_front = TASK_RUNNING" "pgid ?w = 0"
    by (simp_all add: demo_front_def new_task_def kill_ok_def SIGINT_def MINSIG_def MAXSIG_def KERNEL_USER_def sig_inv_def SIG_DFL_def)
  let ?t = "demo_front\<lparr>signal := SIGMASK SIGINT\<rparr>"
  have t: "signalled SIGINT demo_front = ?t" by (simp add: signalled_def demo_front_def new_task_def)
  have "due ?t n \<longleftrightarrow> n = SIGINT" for n
    by (auto simp: due_def SIGMASK_bit demo_front_def new_task_def SIGINT_def MINSIG_def MAXSIG_def)
  then have next_t: "next_sig ?t SIGINT" by (simp add: next_sig_def)
  have inv_t: "sig_inv ?t" using c(2) by (simp add: sig_inv_def SIGMASK_bit SIGINT_def)
  have h: "handler (actions ?t ! nat (SIGINT - 1)) = 0" by (simp add: demo_front_def new_task_def SIGINT_def)
  have "task_signal m ?t = Some (Exit (sint (SIGMASK SIGINT)), m, ?t\<lparr>signal := signal ?t AND NOT (SIGMASK SIGINT)\<rparr>)" for m
    by (simp only: task_signal_next [OF inv_t next_t] h) (simp add: SIG_DFL_def SIG_IGN_def SIGINT_def SIGCHLD_def)
  then have ex: "task_signal m (signalled SIGINT demo_front) = Some (out, u, c') \<Longrightarrow> out = Exit 2" for m out u c'
    by (simp add: t) (simp add: SIGMASK_def SIGINT_def)
  from ctrl_c_interrupts_the_group [OF a l(1) c(1) k(2), of False False] c(2) obtain out u c' k' where
    r: "task_signal (ustack (pr front_kbd)) (signalled SIGINT demo_front) = Some (out, u, c')" "kinv k'"
      "\<forall>q t. live (kern (pr front_kbd)) q t \<longrightarrow> q \<noteq> cur (kern (pr front_kbd)) \<longrightarrow>
        live k' q (if pgid t = 5 \<and> kill_ok SIGINT t \<and> (pid t < pid demo_front \<or> (\<forall>st. out \<noteq> Exit st)) then signalled SIGINT t else t)"
      "tty_rx_notify (chr8 CHR ''c'') True False False front_kbd = (case out of
          Exit st \<Rightarrow> map_option (\<lambda>p. (Ended, front_kbd\<lparr>pr := p\<rparr>)) (task_exit st ((pr front_kbd)\<lparr>kern := k', ustack := u\<rparr>))
        | _ \<Rightarrow> Some (Back 0 10, front_kbd\<lparr>pr := (pr front_kbd)\<lparr>kern := k', ustack := u\<rparr>\<rparr>))" by auto
  have "live k' 0x111000 ?w" using r(3) [rule_format, of "0x111000" ?w] l(2) c(3) by (simp add: k)
  with r(2,4) ex [OF r(1)] show "\<exists>u k. kinv k \<and> live k 0x111000 ?w \<and>
      tty_rx_notify (chr8 CHR ''c'') True False False front_kbd =
        map_option (\<lambda>p. (Ended, front_kbd\<lparr>pr := p\<rparr>)) (task_exit 2 ((pr front_kbd)\<lparr>kern := k, ustack := u\<rparr>))"
    by (intro exI [of _ u] exI [of _ k']) simp
qed

end
