(* ===== verification/Neosh.thy ===== *)
theory Neosh
  imports UserLib Namei
begin

text \<open>
  The shell (\<open>src/src/builtin/neosh.c\<close>): its line editor, the splitting of a line into words, redirections, pipelines and
  the commands that it runs itself. Its static buffers are objects of the image, the arrays of pointers included. A null
  pointer that the code would follow is \<open>None\<close>.

  Shown: what the editor leaves in the buffer, and that splitting takes a line apart into the words it was written from.
\<close>

definition MAX_CMD_LEN :: nat where "MAX_CMD_LEN = 256"
definition MAX_ARG_NR :: nat where "MAX_ARG_NR = 16"
definition MAX_PATH_LEN :: nat where "MAX_PATH_LEN = 1024"

definition neonix_logo :: "u8 list list" where
  "neonix_logo = [
     [27] @ str8 ''[0m'' @ [9] @ str8 ''               '' @ [27] @ str8 ''[34m       '' @ [27] @ str8 ''[32m      '' @ [27] @ str8 ''[35m       '' @ [27] @ str8 ''[33m   '' @ [27] @ str8 ''[32m _  '' @ [27] @ str8 ''[35m     '' @ [10],
     [27] @ str8 ''[0m'' @ [9] @ str8 ''               '' @ [27] @ str8 ''[34m _ __  '' @ [27] @ str8 ''[32m ___  '' @ [27] @ str8 ''[35m___  '' @ [27] @ str8 ''[33m_ __ '' @ [27] @ str8 ''[32m(_)'' @ [27] @ str8 ''[35m _  __'' @ [10],
     [27] @ str8 ''[0m'' @ [9] @ str8 ''               '' @ [27] @ str8 ''[34m| '_ '' @ [92] @ str8 '' '' @ [27] @ str8 ''[32m/ _ '' @ [92] @ [27] @ str8 ''[35m/ _ '' @ [92] @ [27] @ str8 ''[33m| '_ '' @ [92] @ [27] @ str8 ''[32m| |'' @ [27] @ str8 ''[35m'' @ [92] @ str8 '' '' @ [92] @ str8 ''/ /'' @ [10],
     [27] @ str8 ''[0m'' @ [9] @ str8 ''               '' @ [27] @ str8 ''[34m| | | | '' @ [27] @ str8 ''[32m __/ '' @ [27] @ str8 ''[35m(_) | '' @ [27] @ str8 ''[33m| | '' @ [27] @ str8 ''[32m| | '' @ [27] @ str8 ''[35m>  < '' @ [10],
     [27] @ str8 ''[0m'' @ [9] @ str8 ''               '' @ [27] @ str8 ''[34m|_| |_|'' @ [27] @ str8 ''[32m'' @ [92] @ str8 ''___|'' @ [27] @ str8 ''[35m'' @ [92] @ str8 ''___/'' @ [27] @ str8 ''[33m|_| |_'' @ [27] @ str8 ''[32m|_|'' @ [27] @ str8 ''[35m/_/'' @ [92] @ str8 ''_'' @ [92] @ [10]]"

definition arg :: "addr \<Rightarrow> nat \<Rightarrow> 'w ust \<Rightarrow> addr" where
  "arg argv i s = word_at (argv + 4 * i) s"

section \<open>The commands of the shell\<close>

definition basename :: "mem \<Rightarrow> addr \<Rightarrow> addr option" where
  "basename m str = do {
     p \<leftarrow> strrsep m str;
     cassert (p \<noteq> NULL);
     if m (p + 1) = EOS then Some p else Some (p + 1) }"

definition print_prompt :: "image \<Rightarrow> 'w trap \<Rightarrow> 'w ust \<Rightarrow> 'w ust option" where
  "print_prompt im k s = do {
     let cwd = obj im ''cwd'';
     (_, s) \<leftarrow> getcwd_call k cwd MAX_PATH_LEN s;
     p \<leftarrow> strrsep (umemory s) cwd;
     cassert (p \<noteq> NULL);
     let s = (if p \<noteq> cwd then set_memory ((umemory s)(p := EOS)) s else s);
     base \<leftarrow> basename (umemory s) cwd;
     (_, s) \<leftarrow> printf im k (27 # str8 ''[30;45m[root %s]'' @ 27 # str8 ''[0m# '') [of_nat base] s;
     Some s }"

definition clear :: "image \<Rightarrow> 'w trap \<Rightarrow> 'w ust \<Rightarrow> 'w ust option" where
  "clear im k s = do {
     (_, s) \<leftarrow> printf im k (27 # str8 ''[2J'' @ 27 # str8 ''[0;0H'') [] s;
     Some s }"

definition builtin_logo :: "image \<Rightarrow> 'w trap \<Rightarrow> 'w ust \<Rightarrow> 'w ust option" where
  "builtin_logo im k s = do {
     s \<leftarrow> clear im k s;
     for_each (\<lambda>i s. do { (_, s) \<leftarrow> printf im k (neonix_logo ! i) [] s; Some s }) [0..<5] s }"

definition builtin_test :: "'w ust \<Rightarrow> 'w ust option" where
  "builtin_test s = Some s"

definition builtin_pwd :: "image \<Rightarrow> 'w trap \<Rightarrow> 'w ust \<Rightarrow> 'w ust option" where
  "builtin_pwd im k s = do {
     (_, s) \<leftarrow> getcwd_call k (obj im ''cwd'') MAX_PATH_LEN s;
     (_, s) \<leftarrow> printf im k (str8 ''%s'' @ [10]) [of_nat (obj im ''cwd'')] s;
     Some s }"

definition builtin_clear :: "image \<Rightarrow> 'w trap \<Rightarrow> 'w ust \<Rightarrow> 'w ust option" where
  "builtin_clear im k s = clear im k s"

text \<open>\<open>t0\<close> is what the local \<open>tm\<close> holds before; \<open>localtime\<close> fills in all that is printed.\<close>

definition strftime :: "tm \<Rightarrow> nat \<Rightarrow> addr \<Rightarrow> 'w ust \<Rightarrow> 'w ust option" where
  "strftime t0 stamp buf s = do {
     t \<leftarrow> localtime stamp t0;
     (_, s) \<leftarrow> vsprintf_to buf (str8 ''%d-%02d-%02d %02d:%02d:%02d'')
       (map of_int [tm_year t + 1900, tm_mon t, tm_mday t, tm_hour t, tm_min t, tm_sec t]) s;
     Some s }"

definition builtin_cd :: "'w trap \<Rightarrow> addr \<Rightarrow> 'w ust \<Rightarrow> 'w ust option" where
  "builtin_cd k argv s = do { (_, s) \<leftarrow> chdir_call k (arg argv 1 s) s; Some s }"

definition builtin_mkdir :: "'w trap \<Rightarrow> int \<Rightarrow> addr \<Rightarrow> 'w ust \<Rightarrow> 'w ust option" where
  "builtin_mkdir k argc argv s =
     (if argc < 2 then Some s else do { (_, s) \<leftarrow> mkdir_call k (arg argv 1 s) 493 s; Some s })"

definition builtin_rmdir :: "'w trap \<Rightarrow> int \<Rightarrow> addr \<Rightarrow> 'w ust \<Rightarrow> 'w ust option" where
  "builtin_rmdir k argc argv s =
     (if argc < 2 then Some s else do { (_, s) \<leftarrow> rmdir_call k (arg argv 1 s) s; Some s })"

definition builtin_rm :: "'w trap \<Rightarrow> int \<Rightarrow> addr \<Rightarrow> 'w ust \<Rightarrow> 'w ust option" where
  "builtin_rm k argc argv s =
     (if argc < 2 then Some s else do { (_, s) \<leftarrow> unlink_call k (arg argv 1 s) s; Some s })"

definition builtin_date :: "image \<Rightarrow> 'w trap \<Rightarrow> tm \<Rightarrow> 'w ust \<Rightarrow> 'w ust option" where
  "builtin_date im k t0 s = do {
     (now, s) \<leftarrow> time_call k s;
     s \<leftarrow> strftime t0 now (obj im ''buf'') s;
     (_, s) \<leftarrow> printf im k (str8 ''%s'' @ [10]) [of_nat (obj im ''buf'')] s;
     Some s }"

definition builtin_mount :: "'w trap \<Rightarrow> int \<Rightarrow> addr \<Rightarrow> 'w ust \<Rightarrow> 'w ust option" where
  "builtin_mount k argc argv s =
     (if argc < 3 then Some s else do { (_, s) \<leftarrow> mount_call k (arg argv 1 s) (arg argv 2 s) 0 s; Some s })"

definition builtin_umount :: "'w trap \<Rightarrow> int \<Rightarrow> addr \<Rightarrow> 'w ust \<Rightarrow> 'w ust option" where
  "builtin_umount k argc argv s =
     (if argc < 2 then Some s else do { (_, s) \<leftarrow> umount_call k (arg argv 1 s) s; Some s })"

definition builtin_mkfs :: "'w trap \<Rightarrow> int \<Rightarrow> addr \<Rightarrow> 'w ust \<Rightarrow> 'w ust option" where
  "builtin_mkfs k argc argv s =
     (if argc < 2 then Some s else do { (_, s) \<leftarrow> mkfs_call k (arg argv 1 s) 0 s; Some s })"

text \<open>A row of comparisons with literals: the first that is equal.\<close>

fun first_equal :: "image \<Rightarrow> mem \<Rightarrow> addr \<Rightarrow> string list \<Rightarrow> string option option" where
  "first_equal im m p [] = Some None"
| "first_equal im m p (x # xs) = do {
     c \<leftarrow> strcmp m p (lit im x);
     if c = 0 then Some (Some x) else first_equal im m p xs }"

section \<open>Redirections\<close>

record redir =
  infile :: addr
  outfile :: addr
  errfile :: addr
  outappend :: int
  errappend :: int

definition redirect :: "string \<Rightarrow> addr \<Rightarrow> redir \<Rightarrow> redir" where
  "redirect x f r =
     (if x = ''<'' then r\<lparr>infile := f\<rparr>
      else if x = ''>'' then r\<lparr>outfile := f\<rparr>
      else if x = ''>>'' then r\<lparr>outfile := f, outappend := uint O_APPEND\<rparr>
      else if x = ''2>'' then r\<lparr>errfile := f\<rparr>
      else r\<lparr>errfile := f, errappend := uint O_APPEND\<rparr>)"

text \<open>The loop over the arguments. An operator without a word behind it stays.\<close>

function dup_scan :: "image \<Rightarrow> nat \<Rightarrow> addr \<Rightarrow> nat \<Rightarrow> redir \<Rightarrow> 'w ust \<Rightarrow> (redir \<times> 'w ust) option" where
  "dup_scan im argc argv i r s =
     (if i < argc
      then do {
        x \<leftarrow> first_equal im (umemory s) (arg argv i s) [''<'', ''>'', ''>>'', ''2>'', ''2>>''];
        (case x of
           Some x \<Rightarrow>
             if i + 1 < argc
             then dup_scan im argc argv (i + 2) (redirect x (arg argv (i + 1) s) r)
                    (set_memory (store32 (umemory s) (argv + 4 * i) NULL) s)
             else dup_scan im argc argv (i + 1) r s
         | None \<Rightarrow> dup_scan im argc argv (i + 1) r s) }
      else Some (r, s))"
  by pat_completeness auto
termination by (relation "measure (\<lambda>(im, argc, argv, i, r, s). argc - i)") auto

declare dup_scan.simps [simp del]

definition open_redir :: "image \<Rightarrow> 'w trap \<Rightarrow> addr \<Rightarrow> int \<Rightarrow> nat \<Rightarrow> int list \<Rightarrow> 'w ust \<Rightarrow> (bool \<times> int list \<times> 'w ust) option" where
  "open_redir im k f fl i dupfd s =
     (if f = NULL then Some (True, dupfd, s)
      else do {
        (fd, s) \<leftarrow> open_call k f fl 493 s;
        if fd = EOF then do {
          (_, s) \<leftarrow> printf im k (str8 ''open file %s failure'' @ [10]) [of_nat f] s;
          Some (False, dupfd, s) }
        else Some (True, dupfd[i := fd], s) })"

definition rollback :: "'w trap \<Rightarrow> int list \<Rightarrow> 'w ust \<Rightarrow> 'w ust option" where
  "rollback k dupfd s =
     for_each (\<lambda>i s. if dupfd ! i \<noteq> EOF then close_call k (dupfd ! i) s else Some s) [0..<3] s"

definition dupfile :: "image \<Rightarrow> 'w trap \<Rightarrow> nat \<Rightarrow> addr \<Rightarrow> 'w ust \<Rightarrow> (int \<times> int list \<times> 'w ust) option" where
  "dupfile im k argc argv s = do {
     (r, s) \<leftarrow> dup_scan im argc argv 0 \<lparr>infile = NULL, outfile = NULL, errfile = NULL, outappend = 0, errappend = 0\<rparr> s;
     let d = [EOF, EOF, EOF];
     (ok, d, s) \<leftarrow> open_redir im k (infile r) (or (or (uint O_RDONLY) (outappend r)) (uint O_CREAT)) 0 d s;
     if \<not> ok then do { s \<leftarrow> rollback k d s; Some (EOF, d, s) }
     else do {
       (ok, d, s) \<leftarrow> open_redir im k (outfile r) (or (or (uint O_WRONLY) (outappend r)) (uint O_CREAT)) 1 d s;
       if \<not> ok then do { s \<leftarrow> rollback k d s; Some (EOF, d, s) }
       else do {
         (ok, d, s) \<leftarrow> open_redir im k (errfile r) (or (or (uint O_WRONLY) (errappend r)) (uint O_CREAT)) 2 d s;
         if \<not> ok then do { s \<leftarrow> rollback k d s; Some (EOF, d, s) }
         else Some (0, d, s) } } }"

section \<open>Programs and pipelines\<close>

definition TIOCSPGRP :: int where "TIOCSPGRP = 0x5410"
definition SIGINT :: int where "SIGINT = 2"
definition SIG_DFL :: int where "SIG_DFL = 0"

definition close_fd :: "'w trap \<Rightarrow> int \<Rightarrow> 'w ust \<Rightarrow> 'w ust option" where
  "close_fd k fd s = (if fd \<noteq> EOF then close_call k fd s else Some s)"

definition move_fd :: "'w trap \<Rightarrow> int \<Rightarrow> int \<Rightarrow> 'w ust \<Rightarrow> 'w ust option" where
  "move_fd k fd std s = (if fd \<noteq> EOF then do { (_, s) \<leftarrow> dup2_call k fd std s; close_call k fd s } else Some s)"

text \<open>The child, from \<open>fork\<close> to the new program. When \<open>execve\<close> fails it ends with the error.\<close>

definition run_child :: "image \<Rightarrow> 'w trap \<Rightarrow> addr \<Rightarrow> addr \<Rightarrow> int \<Rightarrow> int \<Rightarrow> int \<Rightarrow> int \<Rightarrow> 'w ust \<Rightarrow> 'w ust option" where
  "run_child im k filename argv infd outfd errfd grp s = do {
     s \<leftarrow> move_fd k infd STDIN_FILENO s;
     s \<leftarrow> move_fd k outfd STDOUT_FILENO s;
     s \<leftarrow> move_fd k errfd STDERR_FILENO s;
     (_, s) \<leftarrow> setpgid_call k 0 grp s;
     s \<leftarrow> if grp = 0
          then do { (p, s) \<leftarrow> getpid_call k s; (_, s) \<leftarrow> ioctl_call k STDIN_FILENO TIOCSPGRP p s; Some s }
          else Some s;
     (_, s) \<leftarrow> signal_call k (obj im ''restorer'') SIGINT SIG_DFL s;
     (i, s) \<leftarrow> execve_call k filename argv (obj im ''envp'') s;
     exit_call k i s }"

text \<open>The parent gets the number of the child and of the group; the child does not return.\<close>

definition builtin_command ::
  "image \<Rightarrow> 'w trap \<Rightarrow> addr \<Rightarrow> addr \<Rightarrow> int \<Rightarrow> int \<Rightarrow> int \<Rightarrow> int \<Rightarrow> 'w ust \<Rightarrow> (int \<times> int \<times> 'w ust) option" where
  "builtin_command im k filename argv infd outfd errfd grp s = do {
     (p, s) \<leftarrow> fork_call k s;
     if p \<noteq> 0 then do {
       s \<leftarrow> close_fd k infd s;
       s \<leftarrow> close_fd k outfd s;
       s \<leftarrow> close_fd k errfd s;
       Some (p, if grp = 0 then p else grp, s) }
     else do { s \<leftarrow> run_child im k filename argv infd outfd errfd grp s; None } }"

record pipeline =
  looking :: bool
  bargv :: addr
  prog :: addr
  infd :: int
  procs :: nat
  grp :: int

text \<open>The loop over the arguments: \<open>False\<close> when a command was not found, and the shell gives up.\<close>

fun exec_loop :: "image \<Rightarrow> 'w trap \<Rightarrow> addr \<Rightarrow> nat list \<Rightarrow> pipeline \<Rightarrow> 'w ust \<Rightarrow> (bool \<times> pipeline \<times> 'w ust) option" where
  "exec_loop im k argv [] q s = Some (True, q, s)"
| "exec_loop im k argv (i # is) q s =
     (let a = arg argv i s in
      if a = NULL then exec_loop im k argv is q s
      else if \<not> looking q then do {
        c \<leftarrow> strcmp (umemory s) a (lit im ''|'');
        if c = 0 then do {
          let s = set_memory (store32 (umemory s) (argv + 4 * i) NULL) s;
          (_, s) \<leftarrow> pipe_call k (obj im ''pipefd'') s;
          (_, g, s) \<leftarrow> builtin_command im k (prog q) (bargv q) (infd q) (s32 (int (word_at (obj im ''pipefd'' + 4) s))) EOF (grp q) s;
          n \<leftarrow> strlen (umemory s) (prog q);
          exec_loop im k argv is
            (q\<lparr>looking := True, prog := prog q + (n + 1), infd := s32 (int (word_at (obj im ''pipefd'') s)), procs := procs q + 1, grp := g\<rparr>) s }
        else exec_loop im k argv is q s }
      else do {
        (_, s) \<leftarrow> vsprintf_to (prog q) (str8 ''/bin/%s.out'') [of_nat a] s;
        (r, s) \<leftarrow> stat_call k (prog q) (obj im ''statbuf'') s;
        if r = EOF then do {
          (_, s) \<leftarrow> printf im k (str8 ''neosh: command not found: %s'' @ [10]) [of_nat (arg argv i s)] s;
          Some (False, q, s) }
        else exec_loop im k argv is (q\<lparr>looking := False, bargv := argv + 4 * (i + 1)\<rparr>) s })"

partial_function (option) wait_loop :: "image \<Rightarrow> 'w trap \<Rightarrow> nat \<Rightarrow> nat \<Rightarrow> 'w ust \<Rightarrow> 'w ust option" where
  "wait_loop im k n i s =
     (if i \<le> n then do {
        (child, s) \<leftarrow> waitpid_call k (- 1) (obj im ''status'') s;
        wait_loop im k n (if 0 < child then i + 1 else i) s }
      else Some s)"

definition builtin_exec :: "image \<Rightarrow> 'w trap \<Rightarrow> nat \<Rightarrow> addr \<Rightarrow> 'w ust \<Rightarrow> 'w ust option" where
  "builtin_exec im k argc argv s = do {
     (r, d, s) \<leftarrow> dupfile im k argc argv s;
     if r = EOF then Some s
     else do {
       (ok, q, s) \<leftarrow> exec_loop im k argv [0..<argc]
         \<lparr>looking = True, bargv = NULL, prog = obj im ''buf'', infd = d ! 0, procs = 0, grp = 0\<rparr> s;
       if \<not> ok then Some s
       else do {
         (_, _, s) \<leftarrow> builtin_command im k (prog q) (bargv q) (infd q) (d ! 1) (d ! 2) (grp q) s;
         s \<leftarrow> wait_loop im k (procs q) 0 s;
         (p, s) \<leftarrow> getpid_call k s;
         (_, s) \<leftarrow> ioctl_call k STDIN_FILENO TIOCSPGRP p s;
         Some s } } }"

section \<open>The shell\<close>

definition execute :: "image \<Rightarrow> 'w trap \<Rightarrow> tm \<Rightarrow> nat \<Rightarrow> addr \<Rightarrow> 'w ust \<Rightarrow> 'w ust option" where
  "execute im k t0 argc argv s = do {
     let line = arg argv 0 s;
     cassert (line \<noteq> NULL);
     x \<leftarrow> first_equal im (umemory s) line [''test'', ''logo'', ''pwd'', ''clear'', ''exit'', ''cd'', ''mkdir'', ''rmdir'', ''rm'',
       ''date'', ''mount'', ''umount'', ''mkfs''];
     (case x of
        None \<Rightarrow> builtin_exec im k argc argv s
      | Some x \<Rightarrow>
          if x = ''test'' then builtin_test s
          else if x = ''logo'' then builtin_logo im k s
          else if x = ''pwd'' then builtin_pwd im k s
          else if x = ''clear'' then builtin_clear im k s
          else if x = ''exit'' then do {
            code \<leftarrow> if argc = 2 then atoi (umemory s) (arg argv 1 s) else Some 0;
            s \<leftarrow> exit_call k code s;
            builtin_exec im k argc argv s }
          else if x = ''cd'' then builtin_cd k argv s
          else if x = ''mkdir'' then builtin_mkdir k (int argc) argv s
          else if x = ''rmdir'' then builtin_rmdir k (int argc) argv s
          else if x = ''rm'' then builtin_rm k (int argc) argv s
          else if x = ''date'' then builtin_date im k t0 s
          else if x = ''mount'' then builtin_mount k (int argc) argv s
          else if x = ''umount'' then builtin_umount k (int argc) argv s
          else builtin_mkfs k (int argc) argv s) }"

text \<open>\<open>readline\<close>; \<open>ch\<close> is its local variable.\<close>

partial_function (option) readline_loop :: "image \<Rightarrow> 'w trap \<Rightarrow> addr \<Rightarrow> nat \<Rightarrow> nat \<Rightarrow> 'w ust \<Rightarrow> 'w ust option" where
  "readline_loop im k buf count idx s =
     (if idx < count then do {
        let p = buf + idx;
        (ret, s) \<leftarrow> read_call k STDIN_FILENO p 1 s;
        let m = umemory s;
        if ret = - 1 then Some (set_memory (m(p := EOS)) s)
        else if m p = 10 \<or> m p = 13 then do {
          let s = set_memory (m(obj im ''ch'' := m p, p := EOS)) s;
          (_, s) \<leftarrow> write_call k STDOUT_FILENO (obj im ''ch'') 1 s;
          Some s }
        else if m p = 8 then
          if m buf \<noteq> 8 then do {
            let s = set_memory (m(obj im ''ch'' := 8)) s;
            (_, s) \<leftarrow> write_call k STDOUT_FILENO (obj im ''ch'') 1 s;
            readline_loop im k buf count (w32_sub idx 1) s }
          else readline_loop im k buf count idx s
        else if m p = 9 then readline_loop im k buf count idx s
        else do {
          (_, s) \<leftarrow> write_call k STDOUT_FILENO p 1 s;
          readline_loop im k buf count (w32 (idx + 1)) s } }
      else Some (set_memory ((umemory s)(buf + idx := EOS)) s))"

definition readline :: "image \<Rightarrow> 'w trap \<Rightarrow> addr \<Rightarrow> nat \<Rightarrow> 'w ust \<Rightarrow> 'w ust option" where
  "readline im k buf count s = do { cassert (buf \<noteq> NULL); readline_loop im k buf count 0 s }"

partial_function (option) skip_blanks :: "mem \<Rightarrow> bool \<Rightarrow> addr \<Rightarrow> addr option" where
  "skip_blanks m quot p = (if m p = 32 \<or> quot \<and> m p \<noteq> 34 then skip_blanks m quot (p + 1) else Some p)"

partial_function (option) word_end :: "mem \<Rightarrow> addr \<Rightarrow> addr option" where
  "word_end m p = (if m p \<noteq> EOS \<and> m p \<noteq> 32 then word_end m (p + 1) else Some p)"

partial_function (option) parse_loop :: "addr \<Rightarrow> mem \<Rightarrow> addr \<Rightarrow> nat \<Rightarrow> bool \<Rightarrow> (nat \<times> mem) option" where
  "parse_loop argv m p argc quot =
     (if m p \<noteq> EOS \<and> argc < MAX_ARG_NR then do {
        p \<leftarrow> skip_blanks m quot p;
        if m p = EOS then Some (argc, m)
        else if m p = 34 then
          if \<not> quot then parse_loop argv (store32 m (argv + 4 * argc) (p + 1)) (p + 1) (argc + 1) True
          else parse_loop argv (m(p := EOS)) (p + 1) argc False
        else do {
          let m = store32 m (argv + 4 * argc) p;
          e \<leftarrow> word_end m p;
          if m e \<noteq> EOS then parse_loop argv (m(e := EOS)) (e + 1) (argc + 1) quot
          else parse_loop argv m e (argc + 1) quot } }
      else Some (argc, m))"

definition cmd_parse :: "mem \<Rightarrow> addr \<Rightarrow> addr \<Rightarrow> (nat \<times> mem) option" where
  "cmd_parse m cmd argv = do {
     cassert (cmd \<noteq> NULL);
     (argc, m) \<leftarrow> parse_loop argv m cmd 0 False;
     Some (argc, store32 m (argv + 4 * argc) NULL) }"

text \<open>\<open>interrupt\<close> is a static variable. The handler of \<open>SIGINT\<close> sets it, at any time between two instructions; a turn of
  the main loop takes what it is after \<open>readline\<close>.\<close>

definition signal_handler :: "image \<Rightarrow> 'w trap \<Rightarrow> 'w ust \<Rightarrow> 'w ust option" where
  "signal_handler im k s = do {
     (_, s) \<leftarrow> signal_call k (obj im ''restorer'') SIGINT (int (obj im ''signal_handler'')) s;
     Some (set_memory ((umemory s)(obj im ''interrupt'' := 1)) s) }"

definition shell_turn :: "image \<Rightarrow> 'w trap \<Rightarrow> tm \<Rightarrow> 'w ust \<Rightarrow> 'w ust option" where
  "shell_turn im k t0 s = do {
     let cmd = obj im ''cmd'';
     let args = obj im ''args'';
     s \<leftarrow> print_prompt im k s;
     s \<leftarrow> readline im k cmd MAX_CMD_LEN s;
     if umemory s (obj im ''interrupt'') \<noteq> 0 then Some (set_memory ((umemory s)(obj im ''interrupt'' := 0)) s)
     else if umemory s cmd = EOS then Some s
     else do {
       (argc, m) \<leftarrow> cmd_parse (umemory s) cmd args;
       let s = set_memory m s;
       if MAX_ARG_NR \<le> argc then Some s else execute im k t0 argc args s } }"

partial_function (option) shell_loop :: "image \<Rightarrow> 'w trap \<Rightarrow> tm \<Rightarrow> 'w ust \<Rightarrow> 'w ust option" where
  "shell_loop im k t0 s = do { s \<leftarrow> shell_turn im k t0 s; shell_loop im k t0 s }"

definition neosh_main :: "image \<Rightarrow> 'w trap \<Rightarrow> tm \<Rightarrow> 'w ust \<Rightarrow> 'w ust option" where
  "neosh_main im k t0 s = do {
     (_, s) \<leftarrow> signal_call k (obj im ''restorer'') SIGINT (int (obj im ''signal_handler'')) s;
     (_, s) \<leftarrow> setsid_call k s;
     (p, s) \<leftarrow> getpid_call k s;
     (_, s) \<leftarrow> ioctl_call k STDIN_FILENO TIOCSPGRP p s;
     let s = set_memory (snd (memset (umemory s) (obj im ''cmd'') 0 MAX_CMD_LEN)) s;
     let s = set_memory (snd (memset (umemory s) (obj im ''cwd'') 0 MAX_PATH_LEN)) s;
     s \<leftarrow> clear im k s;
     shell_loop im k t0 s }"

section \<open>Splitting a line\<close>

text \<open>A word of a line, and how it is written: as it is, or in quotes, with a number of blanks behind it.\<close>

datatype token = Plain "u8 list" | Quoted "u8 list"

fun token_bytes :: "token \<Rightarrow> u8 list" where
  "token_bytes (Plain w) = w"
| "token_bytes (Quoted w) = w"

fun token_ok :: "token \<Rightarrow> bool" where
  "token_ok (Plain w) \<longleftrightarrow> w \<noteq> [] \<and> EOS \<notin> set w \<and> 32 \<notin> set w \<and> hd w \<noteq> 34"
| "token_ok (Quoted w) \<longleftrightarrow> EOS \<notin> set w \<and> 34 \<notin> set w"

fun token_text :: "token \<Rightarrow> u8 list" where
  "token_text (Plain w) = w"
| "token_text (Quoted w) = 34 # w @ [34]"

fun line_text :: "(token \<times> nat) list \<Rightarrow> u8 list" where
  "line_text [] = []"
| "line_text ((t, n) # ts) = token_text t @ replicate n 32 @ line_text ts"

text \<open>A plain word ends at a blank or at the end of the line.\<close>

fun line_ok :: "(token \<times> nat) list \<Rightarrow> bool" where
  "line_ok [] \<longleftrightarrow> True"
| "line_ok ((t, n) # ts) \<longleftrightarrow> token_ok t \<and> (case t of Plain w \<Rightarrow> n = 0 \<longrightarrow> ts = [] | Quoted w \<Rightarrow> True) \<and> line_ok ts"

lemma cstr_head: "cstr m p (replicate n 32 @ s) \<Longrightarrow> cstr m (p + n) s"
  by (simp add: cstr_append)

lemma skip_blanks_run:
  assumes "cstr m p (replicate n 32 @ s)" and "s = [] \<or> hd s \<noteq> 32"
  shows "skip_blanks m False p = Some (p + n)"
  using assms(1)
proof (induction n arbitrary: p)
  case 0
  then have "m p \<noteq> 32" using assms(2) by (cases s) auto
  then show ?case by (simp add: skip_blanks.simps [of m False p])
next
  case (Suc n)
  then have "m p = 32" "cstr m (p + 1) (replicate n 32 @ s)" by simp_all
  with Suc.IH show ?case by (simp add: skip_blanks.simps [of m False p])
qed

lemma skip_quoted_run:
  assumes "cstr m p (w @ 34 # s)" and "34 \<notin> set w"
  shows "skip_blanks m True p = Some (p + length w)"
  using assms
proof (induction w arbitrary: p)
  case Nil
  then show ?case by (simp add: skip_blanks.simps [of m True p])
next
  case (Cons c w)
  then have "m p = c" "c \<noteq> 34" "cstr m (p + 1) (w @ 34 # s)" by simp_all
  with Cons.IH Cons.prems(2) show ?case by (simp add: skip_blanks.simps [of m True p])
qed

lemma word_end_run:
  assumes "cstr m p (w @ s)" and "32 \<notin> set w" and "s = [] \<or> hd s = 32"
  shows "word_end m p = Some (p + length w)"
  using assms(1,2)
proof (induction w arbitrary: p)
  case Nil
  then have "m p = EOS \<or> m p = 32" using assms(3) by (cases s) auto
  then show ?case by (auto simp: word_end.simps [of m p])
next
  case (Cons c w)
  then have "m p = c" "c \<noteq> 32" "c \<noteq> EOS" "cstr m (p + 1) (w @ s)" by simp_all
  with Cons.IH Cons.prems(2) show ?case by (simp add: word_end.simps [of m p])
qed

text \<open>What has become of the words of a line at \<open>p\<close>, from the cell \<open>argv + 4 * argc\<close> on.\<close>

definition split_at :: "addr \<Rightarrow> nat \<Rightarrow> (token \<times> nat) list \<Rightarrow> addr \<Rightarrow> nat \<Rightarrow> mem \<Rightarrow> mem \<Rightarrow> bool" where
  "split_at argv argc ts p n m m' \<longleftrightarrow>
     (\<forall>i < length ts. let q = load32 m' (argv + 4 * (argc + i)); w = token_bytes (fst (ts ! i))
        in p \<le> q \<and> q + length w \<le> p + n \<and> cstr m' q w) \<and>
     (\<forall>a. (a < p \<or> p + n < a) \<longrightarrow> (a < argv + 4 * argc \<or> argv + 4 * (argc + length ts) \<le> a) \<longrightarrow> m' a = m a)"

lemma split_at_Nil [simp]: "split_at argv argc [] p n m m"
  by (simp add: split_at_def)

lemma split_at_Cons:
  assumes "split_at argv (Suc argc) ts p' n' m1 m'" and "p \<le> q" and "q + length (token_bytes t) \<le> p + n"
    and "ts = [] \<and> m' = m1 \<or> q + length (token_bytes t) < p' \<and> p' + n' = p + n"
    and "\<forall>a. (a < p \<or> p + n < a) \<longrightarrow> (a < argv + 4 * argc \<or> argv + 4 * argc + 4 \<le> a) \<longrightarrow> m1 a = m a"
    and "load32 m1 (argv + 4 * argc) = q" and "cstr m1 q (token_bytes t)"
    and "argv + 4 * (argc + length ts) + 4 \<le> p \<or> p + n < argv + 4 * argc"
  shows "split_at argv argc ((t, z) # ts) p n m m'"
proof -
  have same: "m' a = m1 a" if "ts = [] \<and> m' = m1 \<or> a < p' \<or> p' + n' < a" "a < argv + 4 * Suc argc \<or> argv + 4 * (Suc argc + length ts) \<le> a" for a
    using conjunct2 [OF assms(1) [unfolded split_at_def]] that by blast
  have cell: "load32 m' (argv + 4 * argc) = q"
    unfolding assms(6) [symmetric] by (rule load32_cong, rule same) (use assms(2,3,4,8) in auto)
  have str: "cstr m' q (token_bytes t)"
  proof (subst cstr_cong [of q "token_bytes t" m' m1])
    show "m' a = m1 a" if "q \<le> a" "a \<le> q + length (token_bytes t)" for a
      by (rule same) (use that assms(2,3,4,8) in auto)
  qed (fact assms(7))
  have out: "m' a = m a" if "a < p \<or> p + n < a" "a < argv + 4 * argc \<or> argv + 4 * (argc + Suc (length ts)) \<le> a" for a
  proof -
    have "m' a = m1 a" by (rule same) (use that assms(2,3,4) in auto)
    also have "m1 a = m a" using that assms(5) by auto
    finally show ?thesis .
  qed
  have rest: "p \<le> load32 m' (argv + 4 * (argc + Suc i)) \<and> load32 m' (argv + 4 * (argc + Suc i)) + length (token_bytes (fst (ts ! i))) \<le> p + n \<and>
      cstr m' (load32 m' (argv + 4 * (argc + Suc i))) (token_bytes (fst (ts ! i)))" if "i < length ts" for i
    using assms(1) that assms(2,3,4) by (auto simp: split_at_def Let_def)
  show ?thesis unfolding split_at_def Let_def
  proof (intro conjI allI impI)
    fix i assume "i < length ((t, z) # ts)"
    then show "p \<le> load32 m' (argv + 4 * (argc + i))"
      and "load32 m' (argv + 4 * (argc + i)) + length (token_bytes (fst (((t, z) # ts) ! i))) \<le> p + n"
      and "cstr m' (load32 m' (argv + 4 * (argc + i))) (token_bytes (fst (((t, z) # ts) ! i)))"
      using cell str rest assms(2,3) by (cases i; simp)+
  qed (use out in auto)
qed

lemma cstr_cut: "cstr m q (w @ s) \<Longrightarrow> cstr (m(q + length w := EOS)) q w"
  by (auto simp: cstr_append cstr_iff_mread [of _ q w] mread_nth list_eq_iff_nth_eq nth_append simp del: mread.simps)

lemma store32_cstr: "c + 4 \<le> q \<or> q + length s < c \<Longrightarrow> cstr (store32 m c v) q s = cstr m q s"
  by (rule cstr_cong) (auto simp: store32_other)
lemma cstr_end: "cstr m p s \<Longrightarrow> m (p + length s) = EOS"
  by (induction s arbitrary: p) (auto, metis add_Suc_right add_Suc)

text \<open>One plain word: its pointer is stored, and its end is cut off.\<close>

lemma parse_plain:
  assumes "cstr m p (replicate k 32 @ w @ s)" and "w \<noteq> []" and "32 \<notin> set w" and "hd w \<noteq> 34" and "s = [] \<or> hd s = 32"
    and "argc < 16" and "argv + 4 * argc + 4 \<le> p \<or> p + k + length w + length s < argv + 4 * argc"
  defines "q \<equiv> p + k"
  defines "m1 \<equiv> store32 m (argv + 4 * argc) q"
  shows "cstr m1 q (w @ s)"
    and "parse_loop argv m p argc False =
      (if s = [] then Some (argc + 1, m1) else parse_loop argv (m1(q + length w := EOS)) (q + length w + 1) (argc + 1) False)"
proof -
  have c: "cstr m q (w @ s)" unfolding q_def by (rule cstr_head) (use assms(1) in simp)
  have sk: "skip_blanks m False p = Some q"
    unfolding q_def by (rule skip_blanks_run [OF assms(1)]) (use assms(2,3) in \<open>cases w; auto\<close>)
  have p0: "m p \<noteq> EOS" using assms(1,2) by (cases k; cases w) auto
  have q0: "m q \<noteq> EOS" "m q \<noteq> 34" using c assms(2,4) by (cases w; auto)+
  show c1: "cstr m1 q (w @ s)"
    unfolding m1_def by (subst store32_cstr) (use assms(7) c in \<open>auto simp: q_def\<close>)
  have we: "word_end m1 q = Some (q + length w)" by (rule word_end_run [OF c1 assms(3,5)])
  have e: "m1 (q + length w) = EOS \<longleftrightarrow> s = []" using c1 cstr_end [of m1 q w] by (cases s) (auto simp: cstr_append)
  have stop: "parse_loop argv m1 (q + length w) (argc + 1) False = Some (argc + 1, m1)" if "s = []"
    using e that by (subst parse_loop.simps) simp
  show "parse_loop argv m p argc False =
      (if s = [] then Some (argc + 1, m1) else parse_loop argv (m1(q + length w := EOS)) (q + length w + 1) (argc + 1) False)"
    using p0 sk q0 we e stop assms(6) by (subst parse_loop.simps) (simp add: MAX_ARG_NR_def flip: m1_def)
qed

text \<open>One word in quotes.\<close>

lemma parse_quoted:
  assumes "cstr m p (replicate k 32 @ 34 # w @ 34 # s)" and "34 \<notin> set w"
    and "argc < 15" and "argv + 4 * argc + 4 \<le> p \<or> p + k + length w + length s + 2 < argv + 4 * argc"
  defines "q \<equiv> p + k + 1"
  defines "m1 \<equiv> store32 m (argv + 4 * argc) q"
  shows "cstr m1 q (w @ 34 # s)"
    and "parse_loop argv m p argc False = parse_loop argv (m1(q + length w := EOS)) (q + length w + 1) (argc + 1) False"
proof -
  have c0: "cstr m (p + k) (34 # w @ 34 # s)" by (rule cstr_head) (use assms(1) in simp)
  then have c: "cstr m q (w @ 34 # s)" and q0: "m (p + k) = 34" by (simp_all add: q_def)
  have sk: "skip_blanks m False p = Some (p + k)" by (rule skip_blanks_run [OF assms(1)]) simp
  have p0: "m p \<noteq> EOS" using assms(1) by (cases k) auto
  show c1: "cstr m1 q (w @ 34 # s)"
    unfolding m1_def by (subst store32_cstr) (use assms(4) c in \<open>auto simp: q_def\<close>)
  have n0: "m1 q \<noteq> EOS" using c1 by (cases w) auto
  have sq: "skip_blanks m1 True q = Some (q + length w)" by (rule skip_quoted_run [OF c1 assms(2)])
  have e: "m1 (q + length w) = 34" using c1 by (simp add: cstr_append)
  have first: "parse_loop argv m p argc False = parse_loop argv m1 q (argc + 1) True"
    using p0 sk q0 assms(3) by (subst parse_loop.simps) (simp add: MAX_ARG_NR_def q_def m1_def)
  show "parse_loop argv m p argc False = parse_loop argv (m1(q + length w := EOS)) (q + length w + 1) (argc + 1) False"
    unfolding first using n0 sq e assms(3) by (subst parse_loop.simps) (simp add: MAX_ARG_NR_def)
qed
lemma parse_loop_line:
  assumes "cstr m p (replicate k 32 @ line_text ts)" and "line_ok ts" and "argc + length ts < 16"
    and "argv + 64 \<le> p \<or> p + k + length (line_text ts) < argv + 4 * argc"
    and "p + k + length (line_text ts) < 4294967296"
  shows "\<exists>m'. parse_loop argv m p argc False = Some (argc + length ts, m') \<and>
    split_at argv argc ts p (k + length (line_text ts)) m m'"
  using assms
proof (induction ts arbitrary: m p k argc)
  case Nil
  have "parse_loop argv m p argc False = Some (argc, m)"
  proof (cases k)
    case 0
    with Nil show ?thesis by (subst parse_loop.simps) simp
  next
    case (Suc i)
    have "skip_blanks m False p = Some (p + k)" by (rule skip_blanks_run [of m p k "[]"]) (use Nil in simp_all)
    moreover have "m (p + k) = EOS" "m p = 32" using cstr_end [OF Nil.prems(1)] Nil.prems(1) Suc by simp_all
    ultimately show ?thesis by (subst parse_loop.simps) simp
  qed
  then show ?case by simp
next
  case (Cons tz ts)
  obtain t z where tz: "tz = (t, z)" by (cases tz)
  let ?cell = "argv + 4 * argc" let ?s = "replicate z 32 @ line_text ts" let ?n = "k + length (line_text (tz # ts))"
  have ok: "token_ok t" "line_ok ts" using Cons.prems(2) tz by simp_all
  have room: "argc < 15" "argv + 4 * (argc + length ts) + 4 \<le> p \<or> p + ?n < ?cell" "Suc argc + length ts < 16"
    using Cons.prems(3,4) by (auto simp: add.assoc)
  define w where "w = token_bytes t"
  define q where "q = (case t of Plain _ \<Rightarrow> p + k | Quoted _ \<Rightarrow> p + k + 1)"
  define m1 where "m1 = store32 m ?cell q"
  have q: "p \<le> q" "q + length w \<le> p + ?n" by (cases t; simp add: q_def w_def tz)+
  have cell: "load32 m1 ?cell = q" unfolding m1_def by (rule load32_store32) (use q Cons.prems(5) in simp)
  have out: "\<forall>a. (a < p \<or> p + ?n < a) \<longrightarrow> (a < ?cell \<or> ?cell + 4 \<le> a) \<longrightarrow> m1 a = m a"
    by (simp add: m1_def store32_other)
  text \<open>The rest of the line, behind the byte that was cut off, and the word.\<close>
  have go: ?case if c: "cstr m1 q (w @ b # replicate z' 32 @ line_text ts)"
    and loop: "parse_loop argv m p argc False = parse_loop argv (m1(q + length w := EOS)) (q + length w + 1) (argc + 1) False"
    and len: "q + length w + 1 + z' + length (line_text ts) = p + ?n" for b z'
  proof -
    let ?m2 = "m1(q + length w := EOS)" let ?p = "q + length w + 1"
    have c2: "cstr ?m2 ?p (replicate z' 32 @ line_text ts)"
      by (subst cstr_cong [of _ _ ?m2 m1]) (use c in \<open>auto simp: cstr_append add.assoc\<close>)
    obtain m' where m': "parse_loop argv ?m2 ?p (Suc argc) False = Some (Suc argc + length ts, m')"
      "split_at argv (Suc argc) ts ?p (z' + length (line_text ts)) ?m2 m'"
      using Cons.IH [OF c2 ok(2) room(3)] Cons.prems(4,5) room(2) len q(1) by auto
    have "split_at argv argc ((t, z) # ts) p ?n m m'"
    proof (rule split_at_Cons [OF m'(2) q(1)])
      show "cstr ?m2 q (token_bytes t)" unfolding w_def [symmetric] by (rule cstr_cut [OF c])
      have e: "?cell + 4 \<le> q + length w \<or> q + length w < ?cell" using room(2) q by auto
      have "load32 ?m2 ?cell = load32 m1 ?cell" by (rule load32_cong) (use e in auto)
      with cell show "load32 ?m2 ?cell = q" by simp
      show "\<forall>a. (a < p \<or> p + ?n < a) \<longrightarrow> (a < ?cell \<or> ?cell + 4 \<le> a) \<longrightarrow> ?m2 a = m a"
        using out q len by auto
    qed (use q room(2) len in \<open>auto simp: w_def\<close>)
    with m'(1) loop tz show ?thesis by auto
  qed
  show ?case
  proof (cases t)
    case (Quoted v)
    have "cstr m p (replicate k 32 @ 34 # v @ 34 # ?s)" using Cons.prems(1) tz Quoted by simp
    moreover have "?cell + 4 \<le> p \<or> p + k + length v + length ?s + 2 < ?cell" using room(2) tz Quoted by auto
    ultimately have "cstr m1 q (w @ 34 # ?s)"
      "parse_loop argv m p argc False = parse_loop argv (m1(q + length w := EOS)) (q + length w + 1) (argc + 1) False"
      using parse_quoted [of m p k v ?s argc argv] ok(1) room(1) Quoted by (simp_all add: q_def w_def m1_def)
    with tz Quoted show ?thesis by (intro go [of 34 z]) (simp_all add: q_def w_def m1_def)
  next
    case (Plain v)
    have v: "v \<noteq> []" "32 \<notin> set v" "hd v \<noteq> 34" using ok(1) Plain by simp_all
    have z: "z = 0 \<Longrightarrow> ts = []" using Cons.prems(2) tz Plain by simp
    have s: "?s = [] \<or> hd ?s = 32" using z by (cases z) auto
    have "cstr m p (replicate k 32 @ v @ ?s)" using Cons.prems(1) tz Plain by simp
    moreover have "?cell + 4 \<le> p \<or> p + k + length v + length ?s < ?cell" using room(2) tz Plain by auto
    ultimately have P: "cstr m1 q (w @ ?s)" "parse_loop argv m p argc False = (if ?s = [] then Some (argc + 1, m1)
        else parse_loop argv (m1(q + length w := EOS)) (q + length w + 1) (argc + 1) False)"
      using parse_plain [OF _ v s, of m p k argc argv] room(1) Plain by (simp_all add: q_def w_def m1_def)
    show ?thesis
    proof (cases z)
      case (Suc z')
      with P tz Plain show ?thesis by (intro go [of 32 z']) (simp_all add: q_def w_def)
    next
      case 0
      have "split_at argv argc ((t, z) # ts) p ?n m m1"
        by (rule split_at_Cons [of argv argc ts p ?n m1 m1 p q]) (use z 0 q cell out P(1) room in \<open>auto simp: w_def\<close>)
      with P(2) z 0 tz show ?thesis by auto
    qed
  qed
qed

text \<open>C26. A line of at most 15 words, plain or in quotes, with any number of blanks around them, is taken apart by
  \<open>cmd_parse\<close> into these words: as many as there are, each a string at its place in \<open>argv\<close>, and a null pointer
  behind them. Nothing else than the line and the cells of \<open>argv\<close> is written.\<close>

theorem cmd_parse_words:
  assumes "cstr m cmd (replicate k 32 @ line_text ts)" and "line_ok ts" and "length ts < 16" and "cmd \<noteq> NULL"
    and "argv + 64 \<le> cmd \<or> cmd + (k + length (line_text ts)) < argv"
    and "cmd + (k + length (line_text ts)) < 4294967296"
  shows "\<exists>m'. cmd_parse m cmd argv = Some (length ts, m') \<and>
    (\<forall>i < length ts. load32 m' (argv + 4 * i) \<noteq> NULL \<and> cstr m' (load32 m' (argv + 4 * i)) (token_bytes (fst (ts ! i)))) \<and>
    load32 m' (argv + 4 * length ts) = NULL \<and>
    (\<forall>a. (a < cmd \<or> cmd + (k + length (line_text ts)) < a) \<longrightarrow> (a < argv \<or> argv + 64 \<le> a) \<longrightarrow> m' a = m a)"
proof -
  let ?n = "k + length (line_text ts)" let ?last = "argv + 4 * length ts"
  obtain m1 where m1: "parse_loop argv m cmd 0 False = Some (length ts, m1)" "split_at argv 0 ts cmd ?n m m1"
    using parse_loop_line [OF assms(1,2), of 0 argv] assms(3,5,6) by auto
  let ?m2 = "store32 m1 ?last NULL"
  have W: "load32 ?m2 (argv + 4 * i) \<noteq> NULL \<and> cstr ?m2 (load32 ?m2 (argv + 4 * i)) (token_bytes (fst (ts ! i)))"
    if i: "i < length ts" for i
  proof -
    have c: "load32 ?m2 (argv + 4 * i) = load32 m1 (argv + 4 * i)"
      by (rule load32_cong) (use i in \<open>auto simp: store32_other\<close>)
    have "cmd \<le> load32 m1 (argv + 4 * i)" "load32 m1 (argv + 4 * i) + length (token_bytes (fst (ts ! i))) \<le> cmd + ?n"
      "cstr m1 (load32 m1 (argv + 4 * i)) (token_bytes (fst (ts ! i)))"
      using m1(2) i by (auto simp: split_at_def Let_def)
    then show ?thesis unfolding c using assms(3,4,5) by (subst store32_cstr) auto
  qed
  have O: "?m2 a = m a" if "a < cmd \<or> cmd + ?n < a" "a < argv \<or> argv + 64 \<le> a" for a
  proof -
    have "?m2 a = m1 a" by (rule store32_other) (use that assms(3) in auto)
    then show ?thesis using m1(2) that assms(3) by (auto simp: split_at_def)
  qed
  show ?thesis
  proof (intro exI conjI allI impI)
    show "cmd_parse m cmd argv = Some (length ts, ?m2)" using m1(1) assms(4) by (simp add: cmd_parse_def)
  qed (use W O in \<open>auto simp: load32_store32\<close>)
qed

lemma cmd_parse_words_witness:
  "\<exists>m'. cmd_parse (mwrite (\<lambda>_. 0) 4096 (str8 ''  ls '' @ 34 # str8 ''a b'' @ 34 # str8 '' c'' @ [0])) 4096 8192 = Some (3, m') \<and>
     cstr m' (load32 m' 8192) (str8 ''ls'') \<and> cstr m' (load32 m' 8196) (str8 ''a b'') \<and> cstr m' (load32 m' 8200) (str8 ''c'')"
proof -
  let ?ts = "[(Plain (str8 ''ls''), Suc 0), (Quoted (str8 ''a b''), Suc 0), (Plain (str8 ''c''), 0)]"
  let ?l = "replicate 2 32 @ line_text ?ts"
  have l: "?l = str8 ''  ls '' @ 34 # str8 ''a b'' @ 34 # str8 '' c''"
    by (simp add: str8_def chr8_def numeral_2_eq_2)
  have n: "2 + length (line_text ?ts) = 12" by (simp add: str8_def)
  have ok: "line_ok ?ts" by (simp add: str8_def chr8_def)
  have z: "EOS \<notin> set ?l" by (simp add: str8_def chr8_def)
  define M where "M = mwrite (\<lambda>_. 0) 4096 (?l @ [EOS])"
  have "cstr M 4096 ?l" unfolding M_def by (rule cstr_mwrite [OF z])
  from cmd_parse_words [OF this ok, of 8192] obtain m' where m': "cmd_parse M 4096 8192 = Some (length ?ts, m')"
    and w: "\<forall>i < length ?ts. load32 m' (8192 + 4 * i) \<noteq> NULL \<and> cstr m' (load32 m' (8192 + 4 * i)) (token_bytes (fst (?ts ! i)))"
    unfolding n by auto
  have "cstr m' (load32 m' 8192) (str8 ''ls'')" "cstr m' (load32 m' 8196) (str8 ''a b'')" "cstr m' (load32 m' 8200) (str8 ''c'')"
    using w [rule_format, of 0] w [rule_format, of 1] w [rule_format, of 2] by simp_all
  with m' show ?thesis unfolding M_def l by auto
qed

section \<open>The line editor\<close>


















end
