(* ===== verification/Ramdisk.thy ===== *)
theory Ramdisk
  imports FileC Buffer
begin













section \<open>Where the sectors are\<close>







section \<open>The disks in the device table\<close>





section \<open>Properties\<close>




end
