(* ===== verification/Serial.thy ===== *)
theory Serial
  imports Driver
begin

text \<open>
  \<open>src/src/kernel/serial.c\<close>: the two serial ports. A byte that arrives goes to the ring of its port and wakes the
  reader; a writer puts its bytes into the data register one by one and blocks while the transmitter is not empty.
\<close>

definition COM1_IOBASE :: nat where "COM1_IOBASE = 0x3F8"
definition COM2_IOBASE :: nat where "COM2_IOBASE = 0x2F8"
definition COM_DATA :: nat where "COM_DATA = 0"
definition COM_INTR_ENABLE :: nat where "COM_INTR_ENABLE = 1"
definition COM_BAUD_LSB :: nat where "COM_BAUD_LSB = 0"
definition COM_BAUD_MSB :: nat where "COM_BAUD_MSB = 1"
definition COM_LINE_CONTROL :: nat where "COM_LINE_CONTROL = 3"
definition COM_MODEM_CONTROL :: nat where "COM_MODEM_CONTROL = 4"
definition COM_LINE_STATUS :: nat where "COM_LINE_STATUS = 5"
definition LSR_DR :: u8 where "LSR_DR = 0x1"
definition LSR_THRE :: u8 where "LSR_THRE = 0x20"
definition BUF_LEN :: nat where "BUF_LEN = 64"
definition IRQ_SERIAL_1 :: nat where "IRQ_SERIAL_1 = 4"
definition IRQ_SERIAL_2 :: nat where "IRQ_SERIAL_2 = 3"

record serial_t =
  iobase :: nat
  rx_fifo :: fifo
  rlock :: lock_t
  rx_waiter :: tptr
  wlock :: lock_t
  tx_waiter :: tptr

record 'd ser_t =
  pr :: "'d proc_t"
  sbus :: "'d bus"
  serials :: "serial_t list"

definition in_port :: "nat \<Rightarrow> 'd ser_t \<Rightarrow> u8 \<times> 'd ser_t" where
  "in_port p s = (let (b, h) = in8 (sbus s) p (hw (io (pr s))) in (b, s\<lparr>pr := set_hw h (pr s)\<rparr>))"

definition out_port :: "nat \<Rightarrow> u8 \<Rightarrow> 'd ser_t \<Rightarrow> 'd ser_t" where
  "out_port p b s = s\<lparr>pr := set_hw (out8 (sbus s) p b (hw (io (pr s)))) (pr s)\<rparr>"

definition upd_serial :: "nat \<Rightarrow> (serial_t \<Rightarrow> serial_t) \<Rightarrow> 'd ser_t \<Rightarrow> 'd ser_t" where
  "upd_serial i f s = s\<lparr>serials := (serials s)[i := f (serials s ! i)]\<rparr>"

definition on_kern :: "(kstate \<Rightarrow> kstate option) \<Rightarrow> 'd ser_t \<Rightarrow> 'd ser_t option" where
  "on_kern f s = do { p \<leftarrow> do_kern f (pr s); Some (s\<lparr>pr := p\<rparr>) }"

section \<open>The interrupt\<close>

definition recv_data :: "nat \<Rightarrow> 'd ser_t \<Rightarrow> 'd ser_t option" where
  "recv_data i s = do {
     let (ch, s) = in_port (iobase (serials s ! i)) s;
     let ch = (if ch = 13 then 10 else ch);
     f \<leftarrow> fifo_put (rx_fifo (serials s ! i)) ch;
     let s = upd_serial i (\<lambda>p. p\<lparr>rx_fifo := f\<rparr>) s;
     if rx_waiter (serials s ! i) \<noteq> NULL
     then do {
       s \<leftarrow> on_kern (task_unblock (rx_waiter (serials s ! i)) 0) s;
       Some (upd_serial i (\<lambda>p. p\<lparr>rx_waiter := NULL\<rparr>) s) }
     else Some s }"

text \<open>\<open>irq - IRQ_SERIAL_1\<close> is computed with 32 bits: the index of \<open>IRQ_SERIAL_2\<close> is \<open>-1\<close>, outside the array.\<close>

definition serial_handler :: "nat \<Rightarrow> 'd ser_t \<Rightarrow> 'd ser_t option" where
  "serial_handler vector s = do {
     let irq = w32_sub vector 0x20;
     cassert (irq = IRQ_SERIAL_1 \<or> irq = IRQ_SERIAL_2);
     let i = w32_sub irq IRQ_SERIAL_1;
     p \<leftarrow> aget (serials s) i;
     let (st, s) = in_port (iobase p + COM_LINE_STATUS) s;
     s \<leftarrow> if st AND LSR_DR \<noteq> 0 then recv_data i s else Some s;
     if st AND LSR_THRE \<noteq> 0 \<and> tx_waiter (serials s ! i) \<noteq> NULL
     then do {
       s \<leftarrow> on_kern (task_unblock (tx_waiter (serials s ! i)) 0) s;
       Some (upd_serial i (\<lambda>p. p\<lparr>tx_waiter := NULL\<rparr>) s) }
     else Some s }"

section \<open>Reading and writing\<close>

text \<open>The loops up to their end or to where the task blocks with \<open>nr\<close> bytes done; when the task runs again it tests
  again.\<close>

datatype wait_t = At_lock | At nat | Finished

fun serial_read_loop :: "nat \<Rightarrow> addr \<Rightarrow> nat \<Rightarrow> nat \<Rightarrow> 'd ser_t \<Rightarrow> (wait_t \<times> 'd ser_t) option" where
  "serial_read_loop i buf nr 0 s = do {
     (l, k) \<leftarrow> lock_leave (rlock (serials s ! i)) (kern (pr s));
     Some (Finished, upd_serial i (\<lambda>p. p\<lparr>rlock := l\<rparr>) (s\<lparr>pr := (pr s)\<lparr>kern := k\<rparr>\<rparr>)) }"
| "serial_read_loop i buf nr (Suc n) s =
     (if fifo_empty (rx_fifo (serials s ! i))
      then do {
        cassert (rx_waiter (serials s ! i) = NULL);
        let s = upd_serial i (\<lambda>p. p\<lparr>rx_waiter := cur (kern (pr s))\<rparr>) s;
        s \<leftarrow> on_kern (task_block (rx_waiter (serials s ! i)) block_list TASK_BLOCKED (- 1)) s;
        Some (At nr, s) }
      else do {
        (b, f) \<leftarrow> fifo_get (rx_fifo (serials s ! i));
        serial_read_loop i buf (nr + 1) n
          (upd_serial i (\<lambda>p. p\<lparr>rx_fifo := f\<rparr>) (s\<lparr>pr := (pr s)\<lparr>io := (io (pr s))\<lparr>umem := (umem (io (pr s)))(buf + nr := b)\<rparr>\<rparr>\<rparr>)) })"

fun serial_write_loop :: "nat \<Rightarrow> addr \<Rightarrow> nat \<Rightarrow> nat \<Rightarrow> 'd ser_t \<Rightarrow> (wait_t \<times> 'd ser_t) option" where
  "serial_write_loop i buf nr 0 s = do {
     (l, k) \<leftarrow> lock_leave (wlock (serials s ! i)) (kern (pr s));
     Some (Finished, upd_serial i (\<lambda>p. p\<lparr>wlock := l\<rparr>) (s\<lparr>pr := (pr s)\<lparr>kern := k\<rparr>\<rparr>)) }"
| "serial_write_loop i buf nr (Suc n) s =
     (let (st, s) = in_port (iobase (serials s ! i) + COM_LINE_STATUS) s
      in if st AND LSR_THRE \<noteq> 0
         then serial_write_loop i buf (nr + 1) n (out_port (iobase (serials s ! i)) (umem (io (pr s)) (buf + nr)) s)
         else do {
           let s = upd_serial i (\<lambda>p. p\<lparr>tx_waiter := cur (kern (pr s))\<rparr>) s;
           s \<leftarrow> on_kern (task_block (cur (kern (pr s))) block_list TASK_BLOCKED (- 1)) s;
           Some (At nr, s) })"

text \<open>The waiting lists of the locks.\<close>

definition SERIAL_LISTS :: nat where "SERIAL_LISTS = 3"

definition serial_read :: "nat \<Rightarrow> addr \<Rightarrow> nat \<Rightarrow> wait_t \<Rightarrow> 'd ser_t \<Rightarrow> (wait_t \<times> 'd ser_t) option" where
  "serial_read i buf count w s =
     (case w of
        At_lock \<Rightarrow> do {
          (got, l, k) \<leftarrow> lock_enter (SERIAL_LISTS + 2 * i) (rlock (serials s ! i)) (kern (pr s));
          let s = upd_serial i (\<lambda>p. p\<lparr>rlock := l\<rparr>) (s\<lparr>pr := (pr s)\<lparr>kern := k\<rparr>\<rparr>);
          if got then serial_read_loop i buf 0 count s else Some (At_lock, s) }
      | At nr \<Rightarrow> serial_read_loop i buf nr (count - nr) s
      | Finished \<Rightarrow> Some (Finished, s))"

definition serial_write :: "nat \<Rightarrow> addr \<Rightarrow> nat \<Rightarrow> wait_t \<Rightarrow> 'd ser_t \<Rightarrow> (wait_t \<times> 'd ser_t) option" where
  "serial_write i buf count w s =
     (case w of
        At_lock \<Rightarrow> do {
          (got, l, k) \<leftarrow> lock_enter (SERIAL_LISTS + 2 * i + 1) (wlock (serials s ! i)) (kern (pr s));
          let s = upd_serial i (\<lambda>p. p\<lparr>wlock := l\<rparr>) (s\<lparr>pr := (pr s)\<lparr>kern := k\<rparr>\<rparr>);
          if got then serial_write_loop i buf 0 count s else Some (At_lock, s) }
      | At nr \<Rightarrow> serial_write_loop i buf nr (count - nr) s
      | Finished \<Rightarrow> Some (Finished, s))"

section \<open>Initialisation\<close>

text \<open>A port whose chip does not give the test byte back is left in the loop mode and not installed. \<open>pa i\<close> is the
  address of the port's record, \<open>rd\<close> and \<open>wr\<close> what the device table holds for its functions; \<open>b i\<close> is what its
  buffer holds.\<close>

definition serial_init_port :: "(nat \<Rightarrow> addr) \<Rightarrow> (mem \<times> 'd) transfer \<Rightarrow> (mem \<times> 'd) transfer \<Rightarrow> (nat \<Rightarrow> u8 list) \<Rightarrow> nat \<Rightarrow>
    'd ser_t \<Rightarrow> 'd ser_t option" where
  "serial_init_port pa rd wr b i s = do {
     let s = upd_serial i (\<lambda>p. p\<lparr>rx_fifo := fifo_init (b i) BUF_LEN, rx_waiter := NULL, rlock := lock_init (rlock p),
       tx_waiter := NULL, wlock := lock_init (wlock p), iobase := (if i = 0 then COM1_IOBASE else COM2_IOBASE)\<rparr>) s;
     let a = iobase (serials s ! i);
     let s = out_port (a + COM_LINE_CONTROL) 0x80 s;
     let s = out_port (a + COM_BAUD_LSB) 0x30 s;
     let s = out_port (a + COM_BAUD_MSB) 0x00 s;
     let s = out_port (a + COM_LINE_CONTROL) 0x03 s;
     let s = out_port (a + COM_INTR_ENABLE) 0x0d s;
     let s = out_port (a + COM_MODEM_CONTROL) 0x1b s;
     let s = out_port a 0xAE s;
     let (r, s) = in_port a s;
     if r \<noteq> 0xAE then Some s
     else do {
       let s = out_port (a + COM_MODEM_CONTROL) 0x0b s;
       (_, ds) \<leftarrow> device_install DEV_CHAR DEV_SERIAL (pa i) (''com'' @ [char_of (49 + i)]) 0 None (Some rd) (Some wr) (devs (io (pr s)));
       Some (s\<lparr>pr := (pr s)\<lparr>io := (io (pr s))\<lparr>devs := ds\<rparr>\<rparr>\<rparr>) } }"

definition serial_init :: "(nat \<Rightarrow> addr) \<Rightarrow> (mem \<times> 'd) transfer \<Rightarrow> (mem \<times> 'd) transfer \<Rightarrow> (nat \<Rightarrow> u8 list) \<Rightarrow> 'd ser_t \<Rightarrow> 'd ser_t option" where
  "serial_init pa rd wr b s = for_each (serial_init_port pa rd wr b) [0..<2] s"

section \<open>What is on the wire\<close>

text \<open>The documented behaviour of the data register, for a port at \<open>a\<close>: \<open>sent\<close> lists the bytes written to it.\<close>

definition sends :: "'d bus \<Rightarrow> nat \<Rightarrow> ('d \<Rightarrow> u8 list) \<Rightarrow> bool" where
  "sends b a sent \<longleftrightarrow> (\<forall>p h. sent (snd (in8 b p h)) = sent h) \<and> (\<forall>v h. sent (out8 b a v h) = sent h @ [v])"

definition wire :: "('d \<Rightarrow> u8 list) \<Rightarrow> 'd ser_t \<Rightarrow> u8 list" where
  "wire sent s = sent (hw (io (pr s)))"

lemma port_simps [simp]:
  "serials (snd (in_port p s)) = serials s" "umem (io (pr (snd (in_port p s)))) = umem (io (pr s))"
  "sbus (snd (in_port p s)) = sbus s" "serials (out_port p v s) = serials s"
  "umem (io (pr (out_port p v s))) = umem (io (pr s))" "sbus (out_port p v s) = sbus s"
  by (simp_all add: in_port_def out_port_def set_hw_def split: prod.split)

lemma wire_in: "sends (sbus s) a sent \<Longrightarrow> wire sent (snd (in_port p s)) = wire sent s"
  by (simp add: wire_def in_port_def sends_def set_hw_def split: prod.split) (metis snd_conv)

lemma wire_out: "sends (sbus s) a sent \<Longrightarrow> wire sent (out_port a v s) = wire sent s @ [v]"
  by (simp add: wire_def out_port_def sends_def set_hw_def)

lemma wire_kern: "do_kern f p = Some p' \<Longrightarrow> io p' = io p"
  by (auto simp: do_kern_def split: bind_splits)

lemma mread_more: "n < k \<Longrightarrow> mread m (b + n) (k - n) = m (b + n) # mread m (Suc (b + n)) (k - Suc n)"
  by (subst Suc_diff_Suc [symmetric], assumption) simp

lemma write_loop_sends:
  assumes "serial_write_loop i buf nr n s = Some (w, s')" and "sends (sbus s) (iobase (serials s ! i)) sent"
  shows "(case w of Finished \<Rightarrow> wire sent s' = wire sent s @ mread (umem (io (pr s))) (buf + nr) n
    | At m \<Rightarrow> nr \<le> m \<and> m < nr + n \<and> wire sent s' = wire sent s @ mread (umem (io (pr s))) (buf + nr) (m - nr)
    | At_lock \<Rightarrow> False)"
  using assms
proof (induction n arbitrary: nr s)
  case 0
  then show ?case by (auto simp: wire_def upd_serial_def split: bind_splits)
next
  case (Suc n)
  obtain st s1 where s1: "in_port (iobase (serials s ! i) + COM_LINE_STATUS) s = (st, s1)" by force
  then have e: "serials s1 = serials s" "umem (io (pr s1)) = umem (io (pr s))" "sbus s1 = sbus s" "wire sent s1 = wire sent s"
    using port_simps(1-3) wire_in [OF Suc.prems(2)] by (metis snd_conv)+
  show ?case
  proof (cases "st AND LSR_THRE \<noteq> 0")
    case True
    let ?s = "out_port (iobase (serials s ! i)) (umem (io (pr s)) (buf + nr)) s1"
    have "serial_write_loop i buf (nr + 1) n ?s = Some (w, s')" using Suc.prems(1) s1 e True by simp
    from Suc.IH [OF this] Suc.prems(2) e wire_out [of s1 "iobase (serials s ! i)" sent] show ?thesis
      by (auto split: wait_t.splits simp: mread_more)
  next
    case False
    with Suc.prems(1) s1 e have "w = At nr" "io (pr s') = io (pr s1)"
      by (auto simp: on_kern_def upd_serial_def dest: wire_kern split: bind_splits)
    with e show ?thesis by (simp add: wire_def)
  qed
qed

text \<open>The interrupt of the second port indexes the array with \<open>-1\<close>.\<close>

lemma second_port_faults: "List.length (serials s) = 2 \<Longrightarrow> serial_handler (0x20 + IRQ_SERIAL_2) s = None"
  by (simp add: serial_handler_def w32_sub_def IRQ_SERIAL_1_def IRQ_SERIAL_2_def aget_def)

end
