(* ===== verification/Spec2Isabelle.thy ===== *)
theory Spec2Isabelle
  imports CString Stdlib Fifo Bitmap ListC Console TimeC MutexC Pipe Memory Task Sched Signal Vsprintf Buffer Device Arena BlockStore Driver Execve FileC FileData FileIO Gate Ide Inode Keyboard Namei Neosh Process Ramdisk Serial Super UserLib
begin

text \<open>
  \<^bold>\<open>neonix\<close> is a small Unix-like kernel for the 32-bit PC, with a C library and a few user
  programs. A task enters the kernel by an interrupt, a fault or \<open>int 0x80\<close>; the gate calls a
  function \<open>sys_*\<close>; the kernel runs with interrupts off unless it says otherwise and gives up the
  processor only in \<open>schedule\<close>. Below the system calls lie the page allocator and the page tables
  (\<open>memory.c\<close>), the task table with its waiting lists and timers (\<open>task.c\<close>, \<open>timer.c\<close>), and a file
  system in the format of Minix, over a cache of disk blocks (\<open>buffer.c\<close>) and a queue of requests
  (\<open>device.c\<close>). All of them rest on four containers of the library: the intrusive lists, the bit
  maps, the byte ring and C's strings.

  \<^bold>\<open>The theories.\<close>
  \<^item> \<open>Prelude\<close>: machine integers, byte memory, the reading of \<open>assert\<close> and of loops as \<open>option\<close>,
    generic lemmas and the \<open>for_each\<close> loop.
  \<^item> \<open>CString\<close> (\<open>lib/string.c\<close>), \<open>Stdlib\<close> (\<open>lib/stdlib.c\<close>), \<open>Vsprintf\<close> (\<open>lib/vsprintf.c\<close>): each
    function of the C library with its result and effect from the abstraction of a string as a list
    of bytes; \<open>vsprintf\<close> is proved equal to the concatenation of what its pieces mean.
  \<^item> \<open>ListC\<close> (\<open>lib/list.c\<close>), \<open>Fifo\<close> (\<open>lib/fifo.c\<close>), \<open>Bitmap\<close> (\<open>lib/bitmap.c\<close>): the containers, each
    with its abstraction (a list of nodes, a queue, a set of indexes) and a locale with the laws that
    its clients rely on, interpreted on the model.
  \<^item> \<open>Memory\<close> (\<open>kernel/memory.c\<close>): reference counts of the pages, the kernel's pages, page tables as
    words in physical memory, \<open>brk\<close>, \<open>mmap\<close>, page faults and copy on write. The lemmas give the
    invariant of the counts and the translation of an address after each operation.
  \<^item> \<open>Task\<close>, \<open>Sched\<close>, \<open>Signal\<close>: the task table, \<open>schedule\<close>, blocking, timers, alarm and the clock
    tick; the invariant of all this and the step relation that keeps it; the delivery of a signal
    and the return through the restorer; \<open>kernel/system.c\<close>.
  \<^item> \<open>MutexC\<close> (\<open>kernel/mutex.c\<close>) and \<open>Pipe\<close> (\<open>fs/pipe.c\<close>): transition systems of the tasks at the
    places where they can lose the processor, with invariants over all interleavings.
  \<^item> \<open>Buffer\<close> (\<open>kernel/buffer.c\<close>) and \<open>Device\<close> (\<open>kernel/device.c\<close>): the cache with its hash table, and
    the elevator.
  \<^item> \<open>Console\<close> (\<open>kernel/console.c\<close>): the terminal's state machine over the bytes it is given.
  \<^item> \<open>TimeC\<close> (\<open>kernel/time.c\<close>, \<open>lib/time.c\<close>, \<open>kernel/rtc.c\<close>): the calendar and the CMOS clock, against
    the Gregorian calendar.
  \<^item> \<open>BlockStore\<close>: the cache as a store of blocks with references, the locale of the file system's
    interface to it and its interpretation on \<open>Buffer\<close>.
  \<^item> \<open>Inode\<close> (\<open>fs/bmap.c\<close>, \<open>fs/inode.c\<close>), \<open>Namei\<close> (\<open>fs/namei.c\<close>), \<open>Super\<close> (\<open>fs/super.c\<close>), \<open>FileC\<close>
    (\<open>fs/file.c\<close>, \<open>fs/stat.c\<close>, \<open>fs/ioctl.c\<close>, \<open>fs/dev.c\<close>): the file system, every function, over bytes in buffers of
    the cache.
  \<^item> \<open>FileIO\<close>, \<open>FileData\<close>: reading and writing files refined to splicing a sequence of bytes. Bounds: the
    file stays within its seven direct zones (7168 bytes), the device uses one block of the zone map
    (8192 zones), and fewer than 3850 blocks are referenced at a time, so that the cache has a buffer
    to spare (it has room for 3855).
  \<^item> \<open>Arena\<close> (\<open>kernel/arena.c\<close>): the kernel's heap, with the invariant of its free lists and page counts;
    blocks in use never overlap.
  \<^item> \<open>Process\<close> (\<open>kernel/task.c\<close>): creation of tasks, \<open>task_fork\<close>, \<open>task_exit\<close>, \<open>task_waitpid\<close>, over all the
    parts of the kernel that they touch.
  \<^item> \<open>Driver\<close>, \<open>Keyboard\<close> (\<open>kernel/keyboard.c\<close>, \<open>kernel/tty.c\<close>), \<open>Serial\<close> (\<open>kernel/serial.c\<close>), \<open>Ramdisk\<close>
    (\<open>kernel/ramdisk.c\<close>), \<open>Ide\<close> (\<open>kernel/ide.c\<close>): the drivers, every function. The ports are a parameter; what a property
    needs of a chip is a named hypothesis (\<open>attached\<close> in \<open>Ide\<close>: registers answer only to an idle controller, data only
    when it is ready).
  \<^item> \<open>Execve\<close> (\<open>kernel/execve.c\<close>): the checks and segments of an ELF file, the arguments on the new stack.
  \<^item> \<open>UserLib\<close> (\<open>lib/syscall.c\<close>, \<open>lib/printf.c\<close>, \<open>lib/crt1.c\<close>), \<open>Gate\<close> (\<open>kernel/gate.c\<close>): a system call from the stub to the
    function of the kernel, and \<open>Neosh\<close> (\<open>builtin/neosh.c\<close>): the shell, over a kernel that is its parameter.
  Paths are under \<open>src/src/\<close>. A definition has the name of the C function it models; a definition
  whose name ends in \<open>_loop\<close> is a loop inside the function before it.

  \<^bold>\<open>Reading of the code.\<close> A function that may end in \<open>assert\<close> or \<open>panic\<close>, leave the object it
  indexes, or loop for ever is an \<open>option\<close>, and \<open>None\<close> is that control does not come back. There is no
  fuel: a loop is structural recursion, a \<open>function\<close> with a measure, or \<open>partial_function (option)\<close>,
  and where a property says that such a function returns, its conclusion is \<open>Some\<close>. Widths: what the
  code computes with bits is a word; an index or a counter is a \<open>nat\<close> or an \<open>int\<close> with the wrap-around
  written out where the C type can overflow. Parts that other tasks may enter are sequential between
  two places where a task can lose the processor; \<open>MutexC\<close> and \<open>Pipe\<close> prove what depends on the
  interleaving. Devices are arguments of the models (the disk is a map from sectors to bytes, the
  CMOS clock and the video memory are memories).

  \<^bold>\<open>Not modelled.\<close> The boot loader and the assembler stubs, the programming of the interrupt
  controller, the timer chip and the segment tables (moves to ports and registers without logic of
  their own); the wrappers of the kernel around \<open>vsprintf\<close> that only print (\<open>printk.c\<close>, \<open>debug.c\<close>, \<open>assert.c\<close>); the
  start of the kernel (\<open>main.c\<close>, \<open>thread.c\<close>); and the small user programs (\<open>ls\<close>, \<open>cat\<close> and their like).
\<close>

end
